(* ===== verification/Sw_Prelude.thy ===== *)
theory Sw_Prelude
  imports Main "HOL-Library.Word" "HOL-Library.Multiset"
begin

text \<open>
  Shared vocabulary of the development: the machine types of the C++ sources, addresses with a
  null pointer, result codes, the size-rounding macros of \<open>include/swoole.h\<close>, and the generic
  lemmas on lists, words and byte encodings that the component theories use.
\<close>

unbundle bit_operations_syntax

named_theorems sw_defs \<open>defining equations of the model that are safe to unfold everywhere\<close>
named_theorems sw_arith \<open>arithmetic facts on rounded sizes and wrapped indices\<close>

type_synonym byte = "8 word"
type_synonym bytes = "byte list"
type_synonym u16 = "16 word"
type_synonym u32 = "32 word"
type_synonym u64 = "64 word"

text \<open>Heap objects are reached through addresses; address 0 is the null pointer.\<close>

type_synonym addr = nat

abbreviation (input) nullptr :: addr where "nullptr \<equiv> 0"

text \<open>Unsigned arithmetic on \<open>nat\<close> with the wrap-around of the C types written out.\<close>

definition wrap32 :: "nat \<Rightarrow> nat" where
  "wrap32 n = n mod 2 ^ 32"

definition wrap64 :: "nat \<Rightarrow> nat" where
  "wrap64 n = n mod 2 ^ 64"

lemma wrap32_id [simp]: "n < 2 ^ 32 \<Longrightarrow> wrap32 n = n"
  by (simp add: wrap32_def)

lemma wrap64_id [simp]: "n < 2 ^ 64 \<Longrightarrow> wrap64 n = n"
  by (simp add: wrap64_def)

lemma wrap32_code [code]: "wrap32 n = nat (int n mod 2 ^ 32)"
  by (simp add: wrap32_def nat_mod_distrib)

lemma wrap64_code [code]: "wrap64 n = nat (int n mod 2 ^ 64)"
  by (simp add: wrap64_def nat_mod_distrib)

lemma wrap32_less [simp, intro]: "wrap32 n < 2 ^ 32"
  by (simp add: wrap32_def)

lemma wrap64_less [simp, intro]: "wrap64 n < 2 ^ 64"
  by (simp add: wrap64_def)

text \<open>The difference of two \<open>uint32_t\<close>.\<close>

definition sub32 :: "nat \<Rightarrow> nat \<Rightarrow> nat" where
  "sub32 a b = wrap32 (a + 2 ^ 32 - b)"

lemma sub32_id [simp]: "b \<le> a \<Longrightarrow> a < 2 ^ 32 \<Longrightarrow> sub32 a b = a - b"
proof -
  assume a: "b \<le> a" "a < 2 ^ 32"
  then have "a + 2 ^ 32 - b = (a - b) + 2 ^ 32" by simp
  then show ?thesis using a by (simp only: sub32_def wrap32_def mod_add_self2) simp
qed

text \<open>The difference of two \<open>size_t\<close>.\<close>

definition sub64 :: "nat \<Rightarrow> nat \<Rightarrow> nat" where
  "sub64 a b = nat ((int a - int b) mod 2 ^ 64)"

lemma sub64_id [simp]: "b \<le> a \<Longrightarrow> a < 2 ^ 64 \<Longrightarrow> sub64 a b = a - b"
proof -
  assume a: "b \<le> a" "a < 2 ^ 64"
  then have "int a - int b = int (a - b)" by simp
  then show ?thesis using a by (simp only: sub64_def) simp
qed

text \<open>Conversion to a signed 32-bit \<open>int\<close>.\<close>

definition to_int32 :: "int \<Rightarrow> int" where
  "to_int32 n = (n + 2 ^ 31) mod 2 ^ 32 - 2 ^ 31"

lemma to_int32_id [simp]: "- (2 ^ 31) \<le> n \<Longrightarrow> n < 2 ^ 31 \<Longrightarrow> to_int32 n = n"
  by (simp add: to_int32_def)

text \<open>\<open>enum swResultCode\<close> and \<open>enum swReturnCode\<close>.\<close>

definition SW_OK :: int where "SW_OK = 0"
definition SW_ERR :: int where "SW_ERR = -1"

datatype ReturnCode =
  SW_SUCCESS | SW_CONTINUE | SW_WAIT | SW_CLOSE | SW_ERROR | SW_READY | SW_INVALID | SW_REDUCE_SIZE

end
