(* ===== verification/Sw_Heap.thy ===== *)
theory Sw_Heap
  imports Sw_Prelude
begin

text \<open>
  \<open>src/core/heap.cc\<close>, \<open>include/swoole_heap.h\<close>: the array binary heap of pointers to nodes that
  the timer uses. The array is a list of addresses, index 0 unused; the nodes live in a store
  and carry their own array position, so that a node can be found and removed from outside.
  The interface the timer relies on is the locale \<open>prio_queue\<close>; its interpretation on the
  operations of this file is at the end.
\<close>

section \<open>Data\<close>

datatype heap_type = MIN_HEAP | MAX_HEAP

record 'd HeapNode =
  hn_priority :: u64
  hn_position :: nat
  hn_data :: 'd

record 'd Heap =
  hp_num :: nat
  hp_size :: nat
  hp_type :: heap_type
  hp_nodes :: "addr list"
  hp_store :: "addr \<Rightarrow> 'd HeapNode option"

section \<open>Operations\<close>

text \<open>
  The constructor gets the memory that \<open>sw_malloc\<close> returned: \<open>mem\<close> is the content of the new
  array of \<open>n + 1\<close> pointers. \<open>num\<close> and \<open>size\<close> are \<open>uint32_t\<close>.
\<close>

definition heap_new :: "addr list \<Rightarrow> nat \<Rightarrow> heap_type \<Rightarrow> 'd Heap" where
  "heap_new mem n ty =
     \<lparr>hp_num = 1, hp_size = wrap32 (n + 1), hp_type = ty, hp_nodes = mem, hp_store = (\<lambda>_. None)\<rparr>"

definition heap_count :: "'d Heap \<Rightarrow> nat" where
  "heap_count h = hp_num h - 1"

definition heap_compare :: "heap_type \<Rightarrow> u64 \<Rightarrow> u64 \<Rightarrow> bool" where
  "heap_compare ty a b = (case ty of MIN_HEAP \<Rightarrow> b < a | MAX_HEAP \<Rightarrow> a < b)"

text \<open>\<open>node->priority\<close>; a dangling pointer reads as 0 (the invariant excludes it).\<close>

definition node_pri :: "'d Heap \<Rightarrow> addr \<Rightarrow> u64" where
  "node_pri h a = (case hp_store h a of None \<Rightarrow> 0 | Some n \<Rightarrow> hn_priority n)"

abbreviation pri_at :: "'d Heap \<Rightarrow> nat \<Rightarrow> u64" where
  "pri_at h i \<equiv> node_pri h (hp_nodes h ! i)"

definition maxchild :: "'d Heap \<Rightarrow> nat \<Rightarrow> nat" where
  "maxchild h i =
     (let child_i = 2 * i in
      if child_i \<ge> hp_num h then 0
      else if child_i + 1 < hp_num h \<and> heap_compare (hp_type h) (pri_at h child_i) (pri_at h (child_i + 1))
        then child_i + 1 else child_i)"

text \<open>The assignment pair \<open>nodes[i] = a; nodes[i]->position = i\<close>.\<close>

definition heap_place :: "'d Heap \<Rightarrow> nat \<Rightarrow> addr \<Rightarrow> 'd Heap" where
  "heap_place h i a =
     h\<lparr>hp_nodes := (hp_nodes h)[i := a],
       hp_store := (hp_store h)(a := map_option (\<lambda>n. n\<lparr>hn_position := i\<rparr>) (hp_store h a))\<rparr>"

function bubble_up_loop :: "'d Heap \<Rightarrow> nat \<Rightarrow> addr \<Rightarrow> 'd Heap" where
  "bubble_up_loop h i moving =
     (if i > 1 \<and> heap_compare (hp_type h) (pri_at h (i div 2)) (node_pri h moving)
      then bubble_up_loop (heap_place h i (hp_nodes h ! (i div 2))) (i div 2) moving
      else heap_place h i moving)"
  by pat_completeness auto
termination
  by (relation "measure (\<lambda>(h, i, m). i)") auto

definition bubble_up :: "'d Heap \<Rightarrow> nat \<Rightarrow> 'd Heap" where
  "bubble_up h i = bubble_up_loop h i (hp_nodes h ! i)"

lemma maxchild_bounds:
  assumes "maxchild h i \<noteq> 0"
  shows "i < maxchild h i" and "maxchild h i < hp_num h"
  using assms by (auto simp: maxchild_def Let_def split: if_splits)

lemma heap_place_fields [simp]:
  "hp_num (heap_place h i a) = hp_num h" "hp_size (heap_place h i a) = hp_size h"
  "hp_type (heap_place h i a) = hp_type h" "hp_nodes (heap_place h i a) = (hp_nodes h)[i := a]"
  by (simp_all add: heap_place_def)

function percolate_down_loop :: "'d Heap \<Rightarrow> nat \<Rightarrow> addr \<Rightarrow> 'd Heap" where
  "percolate_down_loop h i moving =
     (let child_i = maxchild h i in
      if child_i \<noteq> 0 \<and> heap_compare (hp_type h) (node_pri h moving) (pri_at h child_i)
      then percolate_down_loop (heap_place h i (hp_nodes h ! child_i)) child_i moving
      else heap_place h i moving)"
  by pat_completeness auto
termination
proof (relation "measure (\<lambda>(h, i, m). hp_num h - i)", goal_cases)
  case (2 h i moving child_i)
  then show ?case using maxchild_bounds [of h i] by auto
qed simp

definition percolate_down :: "'d Heap \<Rightarrow> nat \<Rightarrow> 'd Heap" where
  "percolate_down h i = percolate_down_loop h i (hp_nodes h ! i)"

declare bubble_up_loop.simps [simp del] percolate_down_loop.simps [simp del]

text \<open>
  \<open>push\<close>: \<open>realloc_mem\<close> is the memory beyond the old array that \<open>sw_realloc\<close> returned (None when
  it failed), \<open>p\<close> the address that \<open>new HeapNode\<close> returned. The doubled size wraps at 32 bits.
\<close>

definition heap_grow :: "'d Heap \<Rightarrow> addr list option \<Rightarrow> 'd Heap option" where
  "heap_grow h realloc_mem =
     (if hp_num h \<ge> hp_size h then
        (case realloc_mem of
           None \<Rightarrow> None
         | Some ext \<Rightarrow> Some (h\<lparr>hp_nodes := take (wrap32 (hp_size h * 2)) (hp_nodes h @ ext),
                              hp_size := wrap32 (hp_size h * 2)\<rparr>))
      else Some h)"

definition heap_push :: "'d Heap \<Rightarrow> addr list option \<Rightarrow> addr \<Rightarrow> u64 \<Rightarrow> 'd \<Rightarrow> 'd Heap \<times> addr" where
  "heap_push h realloc_mem p priority d =
     (case heap_grow h realloc_mem of
        None \<Rightarrow> (h, nullptr)
      | Some h1 \<Rightarrow>
          let i = hp_num h1;
              h2 = h1\<lparr>hp_num := i + 1, hp_nodes := (hp_nodes h1)[i := p],
                      hp_store := (hp_store h1)(p \<mapsto> \<lparr>hn_priority = priority, hn_position = 0, hn_data = d\<rparr>)\<rparr>
          in (bubble_up h2 i, p))"

definition heap_set_priority :: "'d Heap \<Rightarrow> addr \<Rightarrow> u64 \<Rightarrow> 'd Heap" where
  "heap_set_priority h a pr =
     h\<lparr>hp_store := (hp_store h)(a := map_option (\<lambda>n. n\<lparr>hn_priority := pr\<rparr>) (hp_store h a))\<rparr>"

definition node_pos :: "'d Heap \<Rightarrow> addr \<Rightarrow> nat" where
  "node_pos h a = (case hp_store h a of None \<Rightarrow> 0 | Some n \<Rightarrow> hn_position n)"

definition heap_change_priority :: "'d Heap \<Rightarrow> u64 \<Rightarrow> addr \<Rightarrow> 'd Heap" where
  "heap_change_priority h new_priority a =
     (let pos = node_pos h a; old_pri = node_pri h a; h1 = heap_set_priority h a new_priority in
      if heap_compare (hp_type h) old_pri new_priority then bubble_up h1 pos
      else percolate_down h1 pos)"

definition heap_delete :: "'d Heap \<Rightarrow> addr \<Rightarrow> 'd Heap" where
  "heap_delete h a = h\<lparr>hp_store := (hp_store h)(a := None)\<rparr>"

definition heap_remove :: "'d Heap \<Rightarrow> addr \<Rightarrow> 'd Heap" where
  "heap_remove h a =
     (let pos = node_pos h a; last = hp_num h - 1; h1 = h\<lparr>hp_num := last\<rparr> in
      if pos = last then heap_delete (h1\<lparr>hp_nodes := (hp_nodes h1)[pos := nullptr]\<rparr>) a
      else
        let h2 = h1\<lparr>hp_nodes := (hp_nodes h1)[pos := hp_nodes h1 ! last]\<rparr> in
        if heap_compare (hp_type h) (node_pri h2 a) (pri_at h2 pos)
        then heap_delete (bubble_up h2 pos) a
        else heap_delete (percolate_down h2 pos) a)"

definition heap_pop :: "'d Heap \<Rightarrow> 'd Heap \<times> 'd option" where
  "heap_pop h =
     (if heap_count h = 0 then (h, None)
      else
        let head = hp_nodes h ! 1; last = hp_num h - 1;
            h1 = h\<lparr>hp_num := last, hp_nodes := (hp_nodes h)[1 := hp_nodes h ! last]\<rparr>;
            h2 = percolate_down h1 1
        in (heap_delete h2 head, map_option hn_data (hp_store h2 head)))"

definition heap_top :: "'d Heap \<Rightarrow> addr" where
  "heap_top h = (if hp_num h = 1 then nullptr else hp_nodes h ! 1)"

definition heap_peek :: "'d Heap \<Rightarrow> 'd option" where
  "heap_peek h =
     (if hp_num h = 1 then None
      else if hp_nodes h ! 1 = nullptr then None
      else map_option hn_data (hp_store h (hp_nodes h ! 1)))"

text \<open>The constructor throws \<open>std::bad_alloc\<close> (None) when \<open>sw_malloc\<close> fails.\<close>

definition heap_create :: "addr list option \<Rightarrow> nat \<Rightarrow> heap_type \<Rightarrow> 'd Heap option" where
  "heap_create malloc_mem n ty = map_option (\<lambda>mem. heap_new mem n ty) malloc_mem"

text \<open>The destructor: the store of nodes after the loop of \<open>delete nodes[i]\<close>.\<close>

definition heap_destroy :: "'d Heap \<Rightarrow> addr \<Rightarrow> 'd HeapNode option" where
  "heap_destroy h = fold (\<lambda>i s. if hp_nodes h ! i \<noteq> nullptr then s(hp_nodes h ! i := None) else s)
     [1..<hp_num h] (hp_store h)"

section \<open>Invariant\<close>

definition heap_le :: "heap_type \<Rightarrow> u64 \<Rightarrow> u64 \<Rightarrow> bool" where
  "heap_le ty a b \<longleftrightarrow> \<not> heap_compare ty a b"

lemma heap_le_refl [simp]: "heap_le ty a a"
  by (simp add: heap_le_def heap_compare_def split: heap_type.splits)

lemma heap_le_trans: "heap_le ty a b \<Longrightarrow> heap_le ty b c \<Longrightarrow> heap_le ty a c"
  by (auto simp: heap_le_def heap_compare_def split: heap_type.splits)

lemma heap_compare_le: "heap_compare ty a b \<Longrightarrow> heap_le ty b a"
  by (auto simp: heap_le_def heap_compare_def split: heap_type.splits)

lemma heap_compare_irrefl [simp]: "\<not> heap_compare ty a a"
  by (simp add: heap_compare_def split: heap_type.splits)

lemma heap_compare_asym: "heap_compare ty a b \<Longrightarrow> \<not> heap_compare ty b a"
  by (auto simp: heap_compare_def split: heap_type.splits)

definition heap_view :: "'d Heap \<Rightarrow> addr \<Rightarrow> (u64 \<times> 'd) option" where
  "heap_view h a = map_option (\<lambda>n. (hn_priority n, hn_data n)) (hp_store h a)"

definition heap_pos_ok :: "'d Heap \<Rightarrow> addr set \<Rightarrow> bool" where
  "heap_pos_ok h X \<longleftrightarrow> 1 \<le> hp_num h \<and> hp_num h \<le> length (hp_nodes h) \<and>
     (\<forall>j. 1 \<le> j \<and> j < hp_num h \<longrightarrow> hp_nodes h ! j \<notin> X \<and> node_pos h (hp_nodes h ! j) = j) \<and>
     dom (hp_store h) = X \<union> (!) (hp_nodes h) ` {1..<hp_num h}"

definition heap_ord :: "'d Heap \<Rightarrow> bool" where
  "heap_ord h \<longleftrightarrow> (\<forall>j. 2 \<le> j \<and> j < hp_num h \<longrightarrow> heap_le (hp_type h) (pri_at h (j div 2)) (pri_at h j))"

definition heap_inv :: "'d Heap \<Rightarrow> bool" where
  "heap_inv h \<longleftrightarrow> heap_pos_ok h {} \<and> heap_ord h \<and> hp_size h = length (hp_nodes h) \<and> hp_store h nullptr = None"

lemma node_pri_place [simp]: "node_pri (heap_place h i a) b = node_pri h b"
  by (cases "hp_store h a") (auto simp: node_pri_def heap_place_def)

lemma heap_view_place [simp]: "heap_view (heap_place h i a) = heap_view h"
  by (auto simp: heap_view_def heap_place_def option.map_comp comp_def fun_eq_iff)

lemma node_pri_view: "node_pri h a = (case heap_view h a of None \<Rightarrow> 0 | Some (p, d) \<Rightarrow> p)"
  by (simp add: node_pri_def heap_view_def split: option.split)

lemma dom_heap_view: "dom (heap_view h) = dom (hp_store h)"
  by (auto simp: heap_view_def dom_def)

lemma dom_store_place [simp]: "dom (hp_store (heap_place h i a)) = dom (hp_store h)"
  by (auto simp: heap_place_def dom_def)

lemma node_pos_place:
  "node_pos (heap_place h i a) b = (if b = a \<and> a \<in> dom (hp_store h) then i else node_pos h b)"
  by (cases "hp_store h a") (auto simp: node_pos_def heap_place_def dom_def)

subsection \<open>Positions while a node is moving\<close>

text \<open>Slot \<open>i\<close> is a hole that the moving node \<open>m\<close> will fill.\<close>

definition pos_hole :: "'d Heap \<Rightarrow> addr set \<Rightarrow> nat \<Rightarrow> addr \<Rightarrow> bool" where
  "pos_hole h X i m \<longleftrightarrow> 1 \<le> i \<and> i < hp_num h \<and> hp_num h \<le> length (hp_nodes h) \<and> m \<notin> X \<and>
     (\<forall>j. 1 \<le> j \<and> j < hp_num h \<and> j \<noteq> i \<longrightarrow>
        hp_nodes h ! j \<notin> X \<and> hp_nodes h ! j \<noteq> m \<and> node_pos h (hp_nodes h ! j) = j) \<and>
     dom (hp_store h) = X \<union> insert m ((!) (hp_nodes h) ` ({1..<hp_num h} - {i}))"

lemma pos_hole_place_end:
  assumes "pos_hole h X i m"
  shows "heap_pos_ok (heap_place h i m) X"
proof -
  have "(!) ((hp_nodes h)[i := m]) ` {1..<hp_num h} = insert m ((!) (hp_nodes h) ` ({1..<hp_num h} - {i}))"
    using assms by (force simp: pos_hole_def nth_list_update image_iff)
  with assms show ?thesis
    by (auto simp: pos_hole_def heap_pos_ok_def nth_list_update node_pos_place)
qed

lemma pos_hole_place_step:
  assumes hole: "pos_hole h X i m" and k: "1 \<le> k" "k < hp_num h" "k \<noteq> i"
  shows "pos_hole (heap_place h i (hp_nodes h ! k)) X k m"
proof -
  let ?a = "hp_nodes h ! k"
  have inj: "hp_nodes h ! j \<noteq> ?a" if "1 \<le> j" "j < hp_num h" "j \<noteq> i" "j \<noteq> k" for j
    using hole that k unfolding pos_hole_def by metis
  have a: "?a \<in> dom (hp_store h)" "?a \<notin> X" "?a \<noteq> m"
    using hole k by (auto simp: pos_hole_def)
  have img: "(!) ((hp_nodes h)[i := ?a]) ` ({1..<hp_num h} - {k}) = (!) (hp_nodes h) ` ({1..<hp_num h} - {i})"
    using hole k by (force simp: pos_hole_def nth_list_update image_iff)
  have dom: "dom (hp_store (heap_place h i ?a)) =
      X \<union> insert m ((!) (hp_nodes (heap_place h i ?a)) ` ({1..<hp_num h} - {k}))"
    using hole by (simp only: img heap_place_fields dom_store_place pos_hole_def)
  have slots: "(hp_nodes h)[i := ?a] ! j \<notin> X \<and> (hp_nodes h)[i := ?a] ! j \<noteq> m \<and>
      node_pos (heap_place h i ?a) ((hp_nodes h)[i := ?a] ! j) = j"
    if "1 \<le> j" "j < hp_num h" "j \<noteq> k" for j
    using hole k a inj [of j] that by (auto simp: pos_hole_def node_pos_place nth_list_update)
  show ?thesis
    using hole k dom slots unfolding pos_hole_def by simp
qed

lemma bubble_up_loop_pos:
  "pos_hole h X i m \<Longrightarrow> heap_pos_ok (bubble_up_loop h i m) X"
proof (induction h i m rule: bubble_up_loop.induct)
  case (1 h i m)
  show ?case
  proof (cases "i > 1 \<and> heap_compare (hp_type h) (pri_at h (i div 2)) (node_pri h m)")
    case True
    have "pos_hole (heap_place h i (hp_nodes h ! (i div 2))) X (i div 2) m"
      using 1(2) True by (intro pos_hole_place_step) (auto simp: pos_hole_def)
    with 1(1) True show ?thesis by (simp add: bubble_up_loop.simps [of h i m])
  next
    case False
    with 1(2) show ?thesis by (simp only: bubble_up_loop.simps [of h i m] if_False pos_hole_place_end)
  qed
qed

lemma percolate_down_loop_pos:
  "pos_hole h X i m \<Longrightarrow> heap_pos_ok (percolate_down_loop h i m) X"
proof (induction h i m rule: percolate_down_loop.induct)
  case (1 h i m)
  show ?case
  proof (cases "maxchild h i \<noteq> 0 \<and> heap_compare (hp_type h) (node_pri h m) (pri_at h (maxchild h i))")
    case True
    have "pos_hole (heap_place h i (hp_nodes h ! (maxchild h i))) X (maxchild h i) m"
      using 1(2) True maxchild_bounds [of h i] by (intro pos_hole_place_step) auto
    with 1(1) True show ?thesis by (simp add: percolate_down_loop.simps [of h i m] Let_def)
  next
    case False
    with 1(2) show ?thesis
      by (simp only: percolate_down_loop.simps [of h i m] Let_def if_False pos_hole_place_end)
  qed
qed

subsection \<open>Frame: what moving a node leaves alone\<close>

lemma bubble_up_loop_frame:
  "hp_num (bubble_up_loop h i m) = hp_num h \<and> hp_size (bubble_up_loop h i m) = hp_size h \<and>
   hp_type (bubble_up_loop h i m) = hp_type h \<and> length (hp_nodes (bubble_up_loop h i m)) = length (hp_nodes h) \<and>
   heap_view (bubble_up_loop h i m) = heap_view h"
proof (induction h i m rule: bubble_up_loop.induct)
  case (1 h i m)
  then show ?case by (simp add: bubble_up_loop.simps [of h i m])
qed

lemma percolate_down_loop_frame:
  "hp_num (percolate_down_loop h i m) = hp_num h \<and> hp_size (percolate_down_loop h i m) = hp_size h \<and>
   hp_type (percolate_down_loop h i m) = hp_type h \<and>
   length (hp_nodes (percolate_down_loop h i m)) = length (hp_nodes h) \<and>
   heap_view (percolate_down_loop h i m) = heap_view h"
proof (induction h i m rule: percolate_down_loop.induct)
  case (1 h i m)
  then show ?case by (simp add: percolate_down_loop.simps [of h i m] Let_def)
qed

subsection \<open>Order while a node is moving\<close>

text \<open>\<open>key_with h i m j\<close> is the priority at slot \<open>j\<close> once \<open>m\<close> sits in slot \<open>i\<close>.\<close>

definition key_with :: "'d Heap \<Rightarrow> nat \<Rightarrow> addr \<Rightarrow> nat \<Rightarrow> u64" where
  "key_with h i m j = (if j = i then node_pri h m else pri_at h j)"

definition ord_up :: "'d Heap \<Rightarrow> nat \<Rightarrow> addr \<Rightarrow> bool" where
  "ord_up h i m \<longleftrightarrow> i < length (hp_nodes h) \<and> hp_num h \<le> length (hp_nodes h) \<and>
     (\<forall>j. 2 \<le> j \<and> j < hp_num h \<and> j \<noteq> i \<longrightarrow>
        heap_le (hp_type h) (key_with h i m (j div 2)) (key_with h i m j)) \<and>
     (\<forall>j. 2 \<le> j \<and> j < hp_num h \<and> j div 2 = i \<and> 1 < i \<longrightarrow>
        heap_le (hp_type h) (key_with h i m (i div 2)) (key_with h i m j))"

definition ord_down :: "'d Heap \<Rightarrow> nat \<Rightarrow> addr \<Rightarrow> bool" where
  "ord_down h i m \<longleftrightarrow> i < length (hp_nodes h) \<and> hp_num h \<le> length (hp_nodes h) \<and>
     (\<forall>j. 2 \<le> j \<and> j < hp_num h \<and> j div 2 \<noteq> i \<longrightarrow>
        heap_le (hp_type h) (key_with h i m (j div 2)) (key_with h i m j)) \<and>
     (\<forall>j. 2 \<le> j \<and> j < hp_num h \<and> j div 2 = i \<and> 1 < i \<longrightarrow>
        heap_le (hp_type h) (key_with h i m (i div 2)) (key_with h i m j))"

lemma node_pri_update: "i < length (hp_nodes h) \<Longrightarrow> node_pri h ((hp_nodes h)[i := m] ! j) = key_with h i m j"
  by (simp add: key_with_def nth_list_update)

lemma heap_ord_place:
  "i < length (hp_nodes h) \<Longrightarrow> heap_ord (heap_place h i m) \<longleftrightarrow>
    (\<forall>j. 2 \<le> j \<and> j < hp_num h \<longrightarrow> heap_le (hp_type h) (key_with h i m (j div 2)) (key_with h i m j))"
  by (simp add: heap_ord_def node_pri_update)

lemma key_with_place:
  "i < length (hp_nodes h) \<Longrightarrow> k \<noteq> i \<Longrightarrow> key_with (heap_place h i (hp_nodes h ! k)) k m j =
    (if j = k then node_pri h m else if j = i then pri_at h k else pri_at h j)"
  by (simp add: key_with_def nth_list_update)

lemma ord_up_step:
  assumes up: "ord_up h i m" and i: "1 < i" "i < hp_num h"
    and better: "heap_compare (hp_type h) (pri_at h (i div 2)) (node_pri h m)"
  shows "ord_up (heap_place h i (hp_nodes h ! (i div 2))) (i div 2) m"
proof -
  let ?q = "i div 2"
  let ?le = "heap_le (hp_type h)"
  have q: "?q < i" "1 \<le> ?q" using i by auto
  have len: "i < length (hp_nodes h)" using up by (simp add: ord_up_def)
  have edge: "?le (key_with h i m (j div 2)) (key_with h i m j)" if "2 \<le> j" "j < hp_num h" "j \<noteq> i" for j
    using up that by (simp add: ord_up_def)
  have child: "?le (pri_at h ?q) (pri_at h j)" if "2 \<le> j" "j < hp_num h" "j div 2 = i" for j
  proof -
    have "j \<noteq> i" using that i by auto
    then show ?thesis using up that i q by (auto simp: ord_up_def key_with_def)
  qed
  have mq: "?le (node_pri h m) (pri_at h ?q)" using better by (rule heap_compare_le)
  have sib: "?le (pri_at h ?q) (pri_at h j)" if "2 \<le> j" "j < hp_num h" "j \<noteq> i" "j div 2 = ?q" for j
    using edge [of j] that q by (auto simp: key_with_def split: if_splits)
  have gp: "?le (pri_at h (?q div 2)) (pri_at h ?q)" if "1 < ?q"
    using edge [of ?q] that q i by (auto simp: key_with_def split: if_splits)
  show ?thesis
    unfolding ord_up_def heap_place_fields length_list_update
  proof (intro conjI allI impI)
    show "?q < length (hp_nodes h)" using q len by simp
    show "hp_num h \<le> length (hp_nodes h)" using up by (simp add: ord_up_def)
  next
    fix j assume j: "2 \<le> j \<and> j < hp_num h \<and> j \<noteq> ?q"
    then show "?le (key_with (heap_place h i (hp_nodes h ! ?q)) ?q m (j div 2))
       (key_with (heap_place h i (hp_nodes h ! ?q)) ?q m j)"
      using len q mq sib [of j] child [of j] edge [of j] heap_le_trans [OF mq sib [of j]]
      by (auto simp: key_with_place) (auto simp: key_with_def split: if_splits)
  next
    fix j assume j: "2 \<le> j \<and> j < hp_num h \<and> j div 2 = ?q \<and> 1 < ?q"
    then show "?le (key_with (heap_place h i (hp_nodes h ! ?q)) ?q m (?q div 2))
       (key_with (heap_place h i (hp_nodes h ! ?q)) ?q m j)"
      using len q gp sib [of j] heap_le_trans [OF gp sib [of j]]
      by (auto simp: key_with_place)
  qed
qed

lemma bubble_up_loop_ord:
  "ord_up h i m \<Longrightarrow> 1 \<le> i \<Longrightarrow> i < hp_num h \<Longrightarrow> heap_ord (bubble_up_loop h i m)"
proof (induction h i m rule: bubble_up_loop.induct)
  case (1 h i m)
  show ?case
  proof (cases "i > 1 \<and> heap_compare (hp_type h) (pri_at h (i div 2)) (node_pri h m)")
    case True
    then have "ord_up (heap_place h i (hp_nodes h ! (i div 2))) (i div 2) m"
      using 1 by (intro ord_up_step) auto
    moreover have "1 \<le> i div 2" "i div 2 < hp_num h" using 1(4) True by auto
    ultimately show ?thesis using 1(1) True by (simp add: bubble_up_loop.simps [of h i m])
  next
    case False
    have "heap_le (hp_type h) (key_with h i m (i div 2)) (key_with h i m i)" if "2 \<le> i"
      using False that by (auto simp: key_with_def heap_le_def)
    then have "heap_ord (heap_place h i m)"
      using 1(2) by (subst heap_ord_place) (auto simp: ord_up_def)
    with False show ?thesis by (simp only: bubble_up_loop.simps [of h i m] if_False)
  qed
qed

lemma maxchild_best:
  assumes "1 \<le> i" and "2 \<le> j" "j < hp_num h" "j div 2 = i"
  shows "maxchild h i \<noteq> 0 \<and> maxchild h i div 2 = i \<and> heap_le (hp_type h) (pri_at h (maxchild h i)) (pri_at h j)"
proof -
  have "j = 2 * i \<or> j = 2 * i + 1" using assms by auto
  then show ?thesis
    using assms by (auto simp: maxchild_def Let_def heap_le_def dest: heap_compare_asym)
qed

lemma maxchild_parent: "maxchild h i \<noteq> 0 \<Longrightarrow> maxchild h i div 2 = i"
  by (auto simp: maxchild_def Let_def split: if_splits)

lemma ord_down_step:
  assumes down: "ord_down h i m" and i: "1 \<le> i" and c: "maxchild h i \<noteq> 0"
    and worse: "heap_compare (hp_type h) (node_pri h m) (pri_at h (maxchild h i))"
  shows "ord_down (heap_place h i (hp_nodes h ! maxchild h i)) (maxchild h i) m"
proof -
  let ?c = "maxchild h i"
  let ?le = "heap_le (hp_type h)"
  have cb: "i < ?c" "?c < hp_num h" "?c div 2 = i"
    using maxchild_bounds [OF c] maxchild_parent [OF c] by auto
  have len: "i < length (hp_nodes h)" using down by (simp add: ord_down_def)
  have edge: "?le (key_with h i m (j div 2)) (key_with h i m j)" if "2 \<le> j" "j < hp_num h" "j div 2 \<noteq> i" for j
    using down that by (simp add: ord_down_def)
  have best: "?le (pri_at h ?c) (pri_at h j)" if "2 \<le> j" "j < hp_num h" "j div 2 = i" for j
    using maxchild_best [OF i that] by simp
  have up: "?le (pri_at h (i div 2)) (pri_at h ?c)" if "1 < i"
  proof -
    have "heap_le (hp_type h) (key_with h i m (i div 2)) (key_with h i m ?c)"
      using down cb that i by (simp add: ord_down_def)
    moreover have "i div 2 \<noteq> i" using that by auto
    ultimately show ?thesis using cb by (simp add: key_with_def)
  qed
  show ?thesis
    unfolding ord_down_def heap_place_fields length_list_update
  proof (intro conjI allI impI)
    show "?c < length (hp_nodes h)" "hp_num h \<le> length (hp_nodes h)"
      using cb down by (auto simp: ord_down_def)
  next
    fix j assume j: "2 \<le> j \<and> j < hp_num h \<and> j div 2 \<noteq> ?c"
    show "?le (key_with (heap_place h i (hp_nodes h ! ?c)) ?c m (j div 2))
       (key_with (heap_place h i (hp_nodes h ! ?c)) ?c m j)"
    proof (cases "j div 2 = i")
      case True
      then have "j \<noteq> i" using i by auto
      then show ?thesis
        using True j len cb best [of j] heap_compare_le [OF worse]
        by (auto simp: key_with_place)
    next
      case False
      then have "j \<noteq> ?c" using cb by auto
      then show ?thesis
        using False j len cb edge [of j] up by (auto simp: key_with_place) (auto simp: key_with_def split: if_splits)
    qed
  next
    fix j assume j: "2 \<le> j \<and> j < hp_num h \<and> j div 2 = ?c \<and> 1 < ?c"
    then have "j \<noteq> i" "j \<noteq> ?c" using cb by auto
    then show "?le (key_with (heap_place h i (hp_nodes h ! ?c)) ?c m (?c div 2))
       (key_with (heap_place h i (hp_nodes h ! ?c)) ?c m j)"
      using j len cb edge [of j] by (auto simp: key_with_place) (auto simp: key_with_def split: if_splits)
  qed
qed

lemma percolate_down_loop_ord:
  "ord_down h i m \<Longrightarrow> 1 \<le> i \<Longrightarrow> i < hp_num h \<Longrightarrow> heap_ord (percolate_down_loop h i m)"
proof (induction h i m rule: percolate_down_loop.induct)
  case (1 h i m)
  show ?case
  proof (cases "maxchild h i \<noteq> 0 \<and> heap_compare (hp_type h) (node_pri h m) (pri_at h (maxchild h i))")
    case True
    then have "ord_down (heap_place h i (hp_nodes h ! maxchild h i)) (maxchild h i) m"
      using 1 by (intro ord_down_step) auto
    moreover have "1 \<le> maxchild h i" "maxchild h i < hp_num h" using maxchild_bounds [of h i] True by auto
    ultimately show ?thesis
      using 1(1) True by (simp add: percolate_down_loop.simps [of h i m] Let_def)
  next
    case False
    have "heap_le (hp_type h) (key_with h i m (j div 2)) (key_with h i m j)"
      if j: "2 \<le> j" "j < hp_num h" "j div 2 = i" for j
    proof -
      have "j \<noteq> i" using j by auto
      moreover have "heap_le (hp_type h) (node_pri h m) (pri_at h j)"
        using False maxchild_best [OF 1(3) j] heap_le_trans by (auto simp: heap_le_def)
      ultimately show ?thesis using j by (auto simp: key_with_def)
    qed
    then have "heap_ord (heap_place h i m)"
      using 1(2) by (subst heap_ord_place) (auto simp: ord_down_def)
    with False show ?thesis by (simp only: percolate_down_loop.simps [of h i m] Let_def if_False)
  qed
qed

subsection \<open>The operations keep the invariant\<close>

lemma bubble_up_frame [simp]:
  "hp_num (bubble_up h i) = hp_num h" "hp_size (bubble_up h i) = hp_size h"
  "hp_type (bubble_up h i) = hp_type h" "length (hp_nodes (bubble_up h i)) = length (hp_nodes h)"
  "heap_view (bubble_up h i) = heap_view h"
  by (simp_all add: bubble_up_def bubble_up_loop_frame)

lemma percolate_down_frame [simp]:
  "hp_num (percolate_down h i) = hp_num h" "hp_size (percolate_down h i) = hp_size h"
  "hp_type (percolate_down h i) = hp_type h" "length (hp_nodes (percolate_down h i)) = length (hp_nodes h)"
  "heap_view (percolate_down h i) = heap_view h"
  by (simp_all add: percolate_down_def percolate_down_loop_frame)

lemma heap_view_None_iff: "heap_view h a = None \<longleftrightarrow> hp_store h a = None"
  by (simp add: heap_view_def)

lemma key_with_same [simp]: "key_with h i (hp_nodes h ! i) j = pri_at h j"
  by (simp add: key_with_def)

lemma heap_delete_simps [simp]:
  "hp_num (heap_delete h a) = hp_num h" "hp_size (heap_delete h a) = hp_size h"
  "hp_type (heap_delete h a) = hp_type h" "hp_nodes (heap_delete h a) = hp_nodes h"
  "heap_view (heap_delete h a) = (heap_view h)(a := None)"
  by (auto simp: heap_delete_def heap_view_def)

text \<open>Deleting a node that no array slot points to.\<close>

lemma heap_delete_pos_ok:
  assumes "heap_pos_ok h {a}"
  shows "heap_pos_ok (heap_delete h a) {}"
proof -
  have sl: "hp_nodes h ! j \<noteq> a" if "1 \<le> j" "j < hp_num h" for j
    using assms that by (auto simp: heap_pos_ok_def)
  have "a \<notin> (!) (hp_nodes h) ` {1..<hp_num h}" using sl by fastforce
  moreover have "dom (hp_store (heap_delete h a)) = dom (hp_store h) - {a}"
    by (auto simp: heap_delete_def)
  ultimately have "dom (hp_store (heap_delete h a)) = (!) (hp_nodes h) ` {1..<hp_num h}"
    using assms by (auto simp: heap_pos_ok_def)
  then show ?thesis
    using assms sl by (auto simp: heap_pos_ok_def node_pos_def heap_delete_def)
qed

lemma heap_delete_ord:
  assumes "heap_pos_ok h {a}" and "heap_ord h"
  shows "heap_ord (heap_delete h a)"
proof -
  have "hp_nodes h ! j \<noteq> a" if "1 \<le> j" "j < hp_num h" for j
    using assms(1) that by (auto simp: heap_pos_ok_def)
  then have "node_pri (heap_delete h a) (hp_nodes h ! j) = pri_at h j" if "1 \<le> j" "j < hp_num h" for j
    using that by (simp add: node_pri_def heap_delete_def)
  then show ?thesis using assms(2) by (auto simp: heap_ord_def)
qed

lemma heap_inv_new:
  assumes "length mem = n + 1" and "n + 1 < 2 ^ 32"
  shows "heap_inv (heap_new mem n ty)"
  using assms by (auto simp: heap_inv_def heap_new_def heap_pos_ok_def heap_ord_def)

lemma heap_inv_slot:
  assumes "heap_inv h" "1 \<le> j" "j < hp_num h"
  shows "node_pos h (hp_nodes h ! j) = j" "hp_store h (hp_nodes h ! j) \<noteq> None" "hp_nodes h ! j \<noteq> nullptr"
    "j < length (hp_nodes h)"
proof -
  show "node_pos h (hp_nodes h ! j) = j" "j < length (hp_nodes h)"
    using assms by (auto simp: heap_inv_def heap_pos_ok_def)
  have "hp_nodes h ! j \<in> dom (hp_store h)"
    using assms by (auto simp: heap_inv_def heap_pos_ok_def)
  then show "hp_store h (hp_nodes h ! j) \<noteq> None" "hp_nodes h ! j \<noteq> nullptr"
    using assms(1) by (metis domIff heap_inv_def)+
qed

lemma heap_inv_node:
  assumes "heap_inv h" "hp_store h a \<noteq> None"
  shows "1 \<le> node_pos h a" "node_pos h a < hp_num h" "hp_nodes h ! node_pos h a = a"
proof -
  have "a \<in> dom (hp_store h)" using assms(2) by blast
  then obtain j where "1 \<le> j" "j < hp_num h" "hp_nodes h ! j = a"
    using assms(1) by (auto simp: heap_inv_def heap_pos_ok_def)
  then show "1 \<le> node_pos h a" "node_pos h a < hp_num h" "hp_nodes h ! node_pos h a = a"
    using heap_inv_slot(1) [OF assms(1), of j] by auto
qed

lemma heap_inv_extend:
  assumes "heap_inv h"
  shows "heap_inv (h\<lparr>hp_nodes := hp_nodes h @ ext, hp_size := length (hp_nodes h) + length ext\<rparr>)"
proof -
  have num: "hp_num h \<le> length (hp_nodes h)"
    using assms by (simp add: heap_inv_def heap_pos_ok_def)
  have at: "(hp_nodes h @ ext) ! j = hp_nodes h ! j" if "j < hp_num h" for j
    using that num by (simp add: nth_append)
  have at2: "(hp_nodes h @ ext) ! (j div 2) = hp_nodes h ! (j div 2)" if "j < hp_num h" for j
    using that at [of "j div 2"] by simp
  have "(!) (hp_nodes h @ ext) ` {1..<hp_num h} = (!) (hp_nodes h) ` {1..<hp_num h}"
    by (intro image_cong) (auto simp: at)
  with num assms show ?thesis
    by (simp add: heap_inv_def heap_pos_ok_def heap_ord_def node_pos_def node_pri_def at at2)
qed

lemma heap_grow_cases:
  assumes inv: "heap_inv h" and g: "heap_grow h rm = Some h1"
    and small: "hp_size h < 2 ^ 31" and mem: "\<And>ext. rm = Some ext \<Longrightarrow> length ext = hp_size h"
  shows "h1 = h \<and> hp_num h < hp_size h \<or>
    (\<exists>ext. length ext = hp_size h \<and> hp_num h = hp_size h \<and>
      h1 = h\<lparr>hp_nodes := hp_nodes h @ ext, hp_size := length (hp_nodes h) + length ext\<rparr>)"
proof (cases "hp_num h < hp_size h")
  case True
  then show ?thesis using g by (simp add: heap_grow_def)
next
  case False
  have len: "hp_num h \<le> length (hp_nodes h)" "hp_size h = length (hp_nodes h)"
    using inv by (auto simp: heap_inv_def heap_pos_ok_def)
  from False g obtain ext where ext: "rm = Some ext"
    by (auto simp: heap_grow_def split: option.splits)
  with mem have "length ext = hp_size h" by simp
  moreover have "wrap32 (hp_size h * 2) = length (hp_nodes h) + length ext"
    using small len calculation by simp
  ultimately show ?thesis
    using False g len ext by (auto simp: heap_grow_def intro!: exI [of _ ext])
qed

lemma heap_grow_inv:
  assumes "heap_inv h" "heap_grow h rm = Some h1" "hp_size h < 2 ^ 31"
    and "\<And>ext. rm = Some ext \<Longrightarrow> length ext = hp_size h"
  shows "heap_inv h1" and "hp_num h1 < length (hp_nodes h1)" and "hp_num h1 = hp_num h"
    and "hp_type h1 = hp_type h" and "hp_store h1 = hp_store h"
proof -
  have sz: "1 \<le> hp_num h" "hp_size h = length (hp_nodes h)"
    using assms(1) by (auto simp: heap_inv_def heap_pos_ok_def)
  have "heap_inv h1 \<and> hp_num h1 < length (hp_nodes h1) \<and> hp_num h1 = hp_num h \<and>
    hp_type h1 = hp_type h \<and> hp_store h1 = hp_store h"
    using heap_grow_cases [OF assms] assms(1) sz heap_inv_extend [OF assms(1)] by auto
  then show "heap_inv h1" "hp_num h1 < length (hp_nodes h1)" "hp_num h1 = hp_num h"
    "hp_type h1 = hp_type h" "hp_store h1 = hp_store h"
    by simp_all
qed

lemma bubble_up_inv:
  assumes "pos_hole h X i (hp_nodes h ! i)" and "ord_up h i (hp_nodes h ! i)" and "1 \<le> i" and "i < hp_num h"
  shows "heap_pos_ok (bubble_up h i) X" and "heap_ord (bubble_up h i)"
  using assms by (auto simp: bubble_up_def bubble_up_loop_pos bubble_up_loop_ord)

lemma percolate_down_inv:
  assumes "pos_hole h X i (hp_nodes h ! i)" and "ord_down h i (hp_nodes h ! i)" and "1 \<le> i" and "i < hp_num h"
  shows "heap_pos_ok (percolate_down h i) X" and "heap_ord (percolate_down h i)"
  using assms by (auto simp: percolate_down_def percolate_down_loop_pos percolate_down_loop_ord)

lemma heap_push_inv:
  assumes inv: "heap_inv h" and fresh: "hp_store h p = None" "p \<noteq> nullptr"
    and small: "hp_size h < 2 ^ 31" and mem: "\<And>ext. rm = Some ext \<Longrightarrow> length ext = hp_size h"
    and grown: "heap_grow h rm = Some h1"
  shows "heap_inv (fst (heap_push h rm p pr d))"
    and "heap_view (fst (heap_push h rm p pr d)) = (heap_view h)(p \<mapsto> (pr, d))"
    and "snd (heap_push h rm p pr d) = p"
proof -
  note g = heap_grow_inv [OF inv grown small mem]
  let ?i = "hp_num h"
  define h2 where "h2 = h1\<lparr>hp_num := ?i + 1, hp_nodes := (hp_nodes h1)[?i := p],
     hp_store := (hp_store h1)(p \<mapsto> \<lparr>hn_priority = pr, hn_position = 0, hn_data = d\<rparr>)\<rparr>"
  have push: "heap_push h rm p pr d = (bubble_up h2 ?i, p)"
    using g(3) by (simp add: heap_push_def grown h2_def Let_def)
  have i: "1 \<le> ?i" "?i < length (hp_nodes h1)" using inv g by (auto simp: heap_inv_def heap_pos_ok_def)
  have slot: "node_pos h (hp_nodes h1 ! j) = j" "hp_store h (hp_nodes h1 ! j) \<noteq> None" if "1 \<le> j" "j < ?i" for j
    using heap_inv_slot [OF g(1), of j] that g by (auto simp: node_pos_def)
  have old: "hp_nodes h1 ! j \<noteq> p" if "1 \<le> j" "j < ?i" for j using slot(2) [OF that] fresh by auto
  have dom: "dom (hp_store h) = (!) (hp_nodes h1) ` {1..<?i}"
    using g by (simp add: heap_inv_def heap_pos_ok_def)
  have img: "(!) (hp_nodes h2) ` ({1..<hp_num h2} - {?i}) = (!) (hp_nodes h1) ` {1..<?i}"
    by (intro image_cong) (auto simp: h2_def)
  have "pos_hole h2 {} ?i (hp_nodes h2 ! ?i)"
    unfolding pos_hole_def img using i slot old dom g(5)
    by (auto simp: h2_def node_pos_def nth_list_update)
  moreover have "ord_up h2 ?i (hp_nodes h2 ! ?i)"
  proof -
    have "heap_le (hp_type h1) (pri_at h1 (j div 2)) (pri_at h1 j)" if "2 \<le> j" "j < ?i" for j
      using g that by (simp add: heap_inv_def heap_ord_def)
    moreover have "node_pri h2 (hp_nodes h2 ! j) = pri_at h1 j" if "1 \<le> j" "j < ?i" for j
      using old [OF that] that by (simp add: h2_def node_pri_def nth_list_update)
    ultimately show ?thesis
      unfolding ord_up_def key_with_same using i by (auto simp: h2_def)
  qed
  ultimately have b: "heap_pos_ok (bubble_up h2 ?i) {}" "heap_ord (bubble_up h2 ?i)"
    using i bubble_up_inv [of h2 "{}" ?i] by (auto simp: h2_def)
  have view: "heap_view (bubble_up h2 ?i) = (heap_view h)(p \<mapsto> (pr, d))"
    using g(5) by (auto simp: heap_view_def h2_def)
  then have "hp_store (bubble_up h2 ?i) nullptr = None"
    using inv fresh by (simp add: heap_view_None_iff [symmetric] heap_inv_def)
  then show "heap_inv (fst (heap_push h rm p pr d))"
    using b g(1) by (simp add: push heap_inv_def h2_def)
  show "heap_view (fst (heap_push h rm p pr d)) = (heap_view h)(p \<mapsto> (pr, d))"
    and "snd (heap_push h rm p pr d) = p"
    using view by (simp_all add: push)
qed

lemma pos_hole_of_ok:
  assumes ok: "heap_pos_ok h X" and i: "1 \<le> i" "i < hp_num h"
  shows "pos_hole h X i (hp_nodes h ! i)"
proof -
  have inj: "hp_nodes h ! j \<noteq> hp_nodes h ! i" if "1 \<le> j" "j < hp_num h" "j \<noteq> i" for j
    using ok i that unfolding heap_pos_ok_def by metis
  have "insert (hp_nodes h ! i) ((!) (hp_nodes h) ` ({1..<hp_num h} - {i})) = (!) (hp_nodes h) ` {1..<hp_num h}"
    using i by auto
  then show ?thesis
    using ok i inj by (simp add: heap_pos_ok_def pos_hole_def)
qed

lemma ord_replace:
  assumes ord: "heap_ord h" and n: "hp_num h' \<le> hp_num h" "hp_num h' \<le> length (hp_nodes h')"
    and ty: "hp_type h' = hp_type h" and i: "1 \<le> i" "i < hp_num h'"
    and same: "\<And>j. 1 \<le> j \<Longrightarrow> j < hp_num h' \<Longrightarrow> j \<noteq> i \<Longrightarrow> pri_at h' j = pri_at h j"
  shows ord_replace_up: "heap_le (hp_type h) (pri_at h' i) (pri_at h i) \<Longrightarrow> ord_up h' i (hp_nodes h' ! i)"
    and ord_replace_down: "heap_le (hp_type h) (pri_at h i) (pri_at h' i) \<Longrightarrow> ord_down h' i (hp_nodes h' ! i)"
proof -
  let ?le = "heap_le (hp_type h)"
  have edge: "?le (pri_at h (j div 2)) (pri_at h j)" if "2 \<le> j" "j < hp_num h'" for j
    using ord n that by (auto simp: heap_ord_def)
  have half: "1 \<le> j div 2" "j div 2 < hp_num h'" if "2 \<le> j" "j < hp_num h'" for j :: nat
    using that by auto
  have gp: "?le (pri_at h' (i div 2)) (pri_at h' j)" if "2 \<le> j" "j < hp_num h'" "j div 2 = i" "1 < i" for j
  proof -
    have "j \<noteq> i" "i div 2 \<noteq> i" "1 \<le> i div 2" "i div 2 < hp_num h'" using that i by auto
    then have "pri_at h' (i div 2) = pri_at h (i div 2)" "pri_at h' j = pri_at h j"
      using same that by auto
    moreover have "?le (pri_at h (i div 2)) (pri_at h j)"
      using heap_le_trans [OF edge [of i] edge [of j, unfolded that(3)]] that i by simp
    ultimately show ?thesis by simp
  qed
  have other: "?le (pri_at h' (j div 2)) (pri_at h' j)"
    if "2 \<le> j" "j < hp_num h'" "j \<noteq> i" "j div 2 \<noteq> i" for j
    using edge [of j] same [of j] same [of "j div 2"] half [of j] that by simp
  {
    assume up: "?le (pri_at h' i) (pri_at h i)"
    have "?le (pri_at h' (j div 2)) (pri_at h' j)" if "2 \<le> j" "j < hp_num h'" "j \<noteq> i" for j
      using other [of j] heap_le_trans [OF up] edge [of j] same [of j] that by (cases "j div 2 = i") auto
    with gp show "ord_up h' i (hp_nodes h' ! i)"
      unfolding ord_up_def key_with_same using i n ty by auto
  next
    assume down: "?le (pri_at h i) (pri_at h' i)"
    have "?le (pri_at h' (j div 2)) (pri_at h' j)" if "2 \<le> j" "j < hp_num h'" "j div 2 \<noteq> i" for j
    proof (cases "j = i")
      case True
      then show ?thesis
        using heap_le_trans [OF _ down] edge [of i] same [of "i div 2"] half [of i] that by auto
    qed (use other that in simp)
    with gp show "ord_down h' i (hp_nodes h' ! i)"
      unfolding ord_down_def key_with_same using i n ty by auto
  }
qed

lemma heap_root_best:
  assumes "heap_ord h" "1 \<le> j" "j < hp_num h"
  shows "heap_le (hp_type h) (pri_at h 1) (pri_at h j)"
  using assms(2,3)
proof (induction j rule: less_induct)
  case (less j)
  show ?case
  proof (cases "j = 1")
    case False
    then have j: "2 \<le> j" "1 \<le> j div 2" "j div 2 < j" using less.prems by auto
    then have "heap_le (hp_type h) (pri_at h 1) (pri_at h (j div 2))" using less by auto
    moreover have "heap_le (hp_type h) (pri_at h (j div 2)) (pri_at h j)"
      using assms(1) j less.prems by (simp add: heap_ord_def)
    ultimately show ?thesis by (rule heap_le_trans)
  qed simp
qed

lemma heap_set_priority_simps [simp]:
  "hp_num (heap_set_priority h a p) = hp_num h" "hp_size (heap_set_priority h a p) = hp_size h"
  "hp_type (heap_set_priority h a p) = hp_type h" "hp_nodes (heap_set_priority h a p) = hp_nodes h"
  "node_pos (heap_set_priority h a p) b = node_pos h b"
  "dom (hp_store (heap_set_priority h a p)) = dom (hp_store h)"
  "heap_view (heap_set_priority h a p) = (heap_view h)(a := map_option (\<lambda>(q, d). (p, d)) (heap_view h a))"
  by (cases "hp_store h a", auto simp: heap_set_priority_def node_pos_def heap_view_def)+

lemma node_pri_set_priority:
  "node_pri (heap_set_priority h a p) b = (if b = a \<and> hp_store h a \<noteq> None then p else node_pri h b)"
  by (auto simp: heap_set_priority_def node_pri_def)

lemma heap_view_upd [simp]: "heap_view (h\<lparr>hp_num := n, hp_nodes := N\<rparr>) = heap_view h"
  by (simp add: heap_view_def fun_eq_iff)

lemma heap_inv_null: "heap_inv h \<Longrightarrow> heap_view h nullptr = None"
  by (simp add: heap_view_None_iff heap_inv_def)

lemma heap_change_priority_inv:
  assumes inv: "heap_inv h" and a: "hp_store h a \<noteq> None"
  shows "heap_inv (heap_change_priority h p a)"
    and "heap_view (heap_change_priority h p a) = (heap_view h)(a := map_option (\<lambda>(q, d). (p, d)) (heap_view h a))"
proof -
  define h1 where "h1 = heap_set_priority h a p"
  define i where "i = node_pos h a"
  note n = heap_inv_node [OF inv a]
  have ok: "heap_pos_ok h1 {}" using inv by (simp add: h1_def heap_inv_def heap_pos_ok_def)
  have hole: "pos_hole h1 {} i (hp_nodes h1 ! i)"
    using pos_hole_of_ok [OF ok, of i] n by (simp add: h1_def i_def)
  have ord: "heap_ord h" "hp_num h1 \<le> hp_num h" "hp_num h1 \<le> length (hp_nodes h1)" "hp_type h1 = hp_type h"
     "1 \<le> i" "i < hp_num h1"
    using inv n by (auto simp: h1_def i_def heap_inv_def heap_pos_ok_def)
  have same: "pri_at h1 j = pri_at h j" if "1 \<le> j" "j < hp_num h1" "j \<noteq> i" for j
    using that heap_inv_slot(1) [OF inv, of j] by (auto simp: h1_def i_def node_pri_set_priority)
  have at: "pri_at h1 i = p" "pri_at h i = node_pri h a" using n a by (auto simp: h1_def i_def node_pri_set_priority)
  have res: "heap_change_priority h p a =
     (if heap_compare (hp_type h) (node_pri h a) p then bubble_up h1 i else percolate_down h1 i)"
    by (simp add: heap_change_priority_def h1_def i_def Let_def)
  have "heap_pos_ok (heap_change_priority h p a) {} \<and> heap_ord (heap_change_priority h p a)"
    using bubble_up_inv [OF hole ord_replace_up [OF ord same] ord(5,6)]
      percolate_down_inv [OF hole ord_replace_down [OF ord same] ord(5,6)] at
    by (auto simp: res heap_le_def dest: heap_compare_asym)
  moreover show view: "heap_view (heap_change_priority h p a) = (heap_view h)(a := map_option (\<lambda>(q, d). (p, d)) (heap_view h a))"
    by (simp add: res h1_def)
  moreover have "hp_store (heap_change_priority h p a) nullptr = None"
    using heap_inv_null [OF inv] heap_view_None_iff by (metis (no_types, lifting) fun_upd_apply heap_delete_simps(5) option.map_disc_iff view)
  ultimately show "heap_inv (heap_change_priority h p a)"
    using inv by (simp add: heap_inv_def res h1_def)
qed

text \<open>Taking the last array slot away and moving its node into the slot of the removed node.\<close>

lemma pos_hole_remove:
  assumes inv: "heap_inv h" and i: "1 \<le> i" "i < hp_num h - 1"
    and h2: "h2 = h\<lparr>hp_num := hp_num h - 1, hp_nodes := (hp_nodes h)[i := hp_nodes h ! (hp_num h - 1)]\<rparr>"
  shows "pos_hole h2 {hp_nodes h ! i} i (hp_nodes h2 ! i)"
proof -
  let ?N = "hp_nodes h" and ?l = "hp_num h - 1"
  have len: "i < length ?N" "?l < length ?N" "hp_num h \<le> length ?N"
    using inv i by (auto simp: heap_inv_def heap_pos_ok_def)
  have inj: "?N ! j \<noteq> ?N ! k" if "1 \<le> j" "j < hp_num h" "1 \<le> k" "k < hp_num h" "j \<noteq> k" for j k
    using heap_inv_slot(1) [OF inv] that by metis
  have "{1..<hp_num h} = insert i (insert ?l ({1..<?l} - {i}))" using i by auto
  then have "dom (hp_store h) = insert (?N ! i) (insert (?N ! ?l) ((!) ?N ` ({1..<?l} - {i})))"
    using inv by (simp add: heap_inv_def heap_pos_ok_def)
  moreover have "(!) (hp_nodes h2) ` ({1..<?l} - {i}) = (!) ?N ` ({1..<?l} - {i})"
    by (intro image_cong) (auto simp: h2)
  ultimately have "dom (hp_store h2) = {?N ! i} \<union> insert (hp_nodes h2 ! i) ((!) (hp_nodes h2) ` ({1..<hp_num h2} - {i}))"
    using len by (simp add: h2 insert_commute)
  moreover have "?N ! j \<noteq> ?N ! i \<and> ?N ! j \<noteq> ?N ! ?l \<and> node_pos h2 (?N ! j) = j" if "1 \<le> j" "j < ?l" "j \<noteq> i" for j
    using inj [of j i] inj [of j ?l] heap_inv_slot(1) [OF inv, of j] that i by (auto simp: h2 node_pos_def)
  moreover have "?N ! ?l \<noteq> ?N ! i" using inj [of ?l i] i by simp
  ultimately show ?thesis
    unfolding pos_hole_def using i len by (simp add: h2)
qed

lemma heap_remove_last_inv:
  assumes inv: "heap_inv h" and i: "1 \<le> hp_num h - 1" "hp_nodes h ! (hp_num h - 1) = a"
    and h2: "hp_num h2 = hp_num h - 1" "hp_size h2 = hp_size h" "hp_store h2 = hp_store h"
      "length (hp_nodes h2) = length (hp_nodes h)" "hp_type h2 = hp_type h"
      "\<And>j. j < hp_num h - 1 \<Longrightarrow> hp_nodes h2 ! j = hp_nodes h ! j"
  shows "heap_inv (heap_delete h2 a)"
proof -
  let ?N = "hp_nodes h" and ?l = "hp_num h - 1"
  have ne: "?N ! j \<noteq> a" if "1 \<le> j" "j < ?l" for j
    using heap_inv_slot(1) [OF inv, of j] heap_inv_slot(1) [OF inv, of ?l] that i by force
  have "{1..<hp_num h} = insert ?l {1..<?l}" using i by auto
  then have "dom (hp_store h) = insert a ((!) ?N ` {1..<?l})"
    using inv i by (simp add: heap_inv_def heap_pos_ok_def)
  moreover have "(!) (hp_nodes h2) ` {1..<?l} = (!) ?N ` {1..<?l}"
    by (intro image_cong) (auto simp: h2)
  ultimately have ok: "heap_pos_ok h2 {a}"
    using ne h2 heap_inv_slot(1) [OF inv] inv i
    by (auto simp: heap_pos_ok_def heap_inv_def node_pos_def)
  moreover have "heap_ord h2"
  proof -
    have "pri_at h2 j = pri_at h j" if "j < ?l" for j using h2(3,6) that by (simp add: node_pri_def)
    then show ?thesis using inv h2 by (auto simp: heap_inv_def heap_ord_def)
  qed
  ultimately show ?thesis
    using heap_delete_pos_ok [OF ok] heap_delete_ord [OF ok] inv h2
    by (simp add: heap_inv_def heap_delete_def)
qed

lemma heap_remove_inv:
  assumes inv: "heap_inv h" and a: "hp_store h a \<noteq> None"
  shows "heap_inv (heap_remove h a)" and "heap_view (heap_remove h a) = (heap_view h)(a := None)"
proof -
  define i where "i = node_pos h a"
  let ?l = "hp_num h - 1"
  define h2 where "h2 = h\<lparr>hp_num := ?l, hp_nodes := (hp_nodes h)[i := hp_nodes h ! ?l]\<rparr>"
  note n = heap_inv_node [OF inv a]
  have len: "hp_num h \<le> length (hp_nodes h)" using inv by (simp add: heap_inv_def heap_pos_ok_def)
  have st: "hp_store h2 = hp_store h" by (simp add: h2_def)
  have "heap_inv (heap_remove h a) \<and> heap_view (heap_remove h a) = (heap_view h)(a := None)"
  proof (cases "i = ?l")
    case True
    then have res: "heap_remove h a = heap_delete (h\<lparr>hp_num := ?l, hp_nodes := (hp_nodes h)[i := nullptr]\<rparr>) a"
      by (simp add: heap_remove_def i_def Let_def)
    have "heap_inv (heap_remove h a)"
      unfolding res using True n by (intro heap_remove_last_inv [OF inv]) (auto simp: i_def)
    then show ?thesis by (simp add: res heap_view_def fun_eq_iff)
  next
    case False
    then have i: "1 \<le> i" "i < ?l" using n by (auto simp: i_def)
    have res: "heap_remove h a = heap_delete
       (if heap_compare (hp_type h) (node_pri h a) (pri_at h2 i) then bubble_up h2 i else percolate_down h2 i) a"
      using False by (simp add: heap_remove_def i_def h2_def Let_def node_pri_def)
    have hole: "pos_hole h2 {a} i (hp_nodes h2 ! i)"
      using pos_hole_remove [OF inv i h2_def] n by (simp add: i_def)
    have ord: "heap_ord h" "hp_num h2 \<le> hp_num h" "hp_num h2 \<le> length (hp_nodes h2)" "hp_type h2 = hp_type h"
       "1 \<le> i" "i < hp_num h2"
      using inv i len by (auto simp: h2_def heap_inv_def)
    have same: "pri_at h2 j = pri_at h j" if "1 \<le> j" "j < hp_num h2" "j \<noteq> i" for j
      using that by (simp add: h2_def node_pri_def)
    have at: "pri_at h i = node_pri h a" using n by (simp add: i_def)
    define h3 where "h3 = (if heap_compare (hp_type h) (node_pri h a) (pri_at h2 i) then bubble_up h2 i else percolate_down h2 i)"
    have ok: "heap_pos_ok h3 {a}" "heap_ord h3"
      using bubble_up_inv [OF hole ord_replace_up [OF ord same] ord(5,6)]
        percolate_down_inv [OF hole ord_replace_down [OF ord same] ord(5,6)] at
      by (auto simp: h3_def heap_le_def dest: heap_compare_asym)
    have view: "heap_view h3 = heap_view h" by (simp add: h3_def h2_def)
    have "hp_store (heap_delete h3 a) nullptr = None"
      using heap_inv_null [OF inv] heap_view_None_iff by (metis (no_types, lifting) fun_upd_apply heap_delete_simps(5) option.map_disc_iff view)
    moreover have "hp_size h3 = length (hp_nodes h3)"
      using inv by (simp add: h3_def h2_def heap_inv_def)
    ultimately show ?thesis
      using heap_delete_pos_ok [OF ok(1)] heap_delete_ord [OF ok] view
      by (simp add: res h3_def [symmetric] heap_inv_def)
  qed
  then show "heap_inv (heap_remove h a)" "heap_view (heap_remove h a) = (heap_view h)(a := None)"
    by simp_all
qed

lemma heap_top_view:
  assumes inv: "heap_inv h"
  shows "heap_top h = nullptr \<longleftrightarrow> dom (heap_view h) = {}"
    and "heap_top h \<noteq> nullptr \<Longrightarrow> heap_view h (heap_top h) = Some (p, d) \<Longrightarrow> heap_view h b = Some (q, e) \<Longrightarrow>
      heap_le (hp_type h) p q"
proof -
  have num: "1 \<le> hp_num h" using inv by (simp add: heap_inv_def heap_pos_ok_def)
  show "heap_top h = nullptr \<longleftrightarrow> dom (heap_view h) = {}"
  proof (cases "hp_num h = 1")
    case True
    then show ?thesis using inv by (simp add: heap_top_def dom_heap_view heap_inv_def heap_pos_ok_def)
  next
    case False
    then have "hp_nodes h ! 1 \<noteq> nullptr" "hp_store h (hp_nodes h ! 1) \<noteq> None"
      using heap_inv_slot [OF inv, of 1] num by auto
    with False show ?thesis by (auto simp: heap_top_def dom_heap_view)
  qed
  assume t: "heap_top h \<noteq> nullptr" "heap_view h (heap_top h) = Some (p, d)" and b: "heap_view h b = Some (q, e)"
  then have n: "hp_store h b \<noteq> None" by (simp add: heap_view_None_iff [symmetric])
  have "heap_le (hp_type h) (pri_at h 1) (pri_at h (node_pos h b))"
    using heap_inv_node [OF inv n] inv by (intro heap_root_best) (auto simp: heap_inv_def)
  with t b show "heap_le (hp_type h) p q"
    using heap_inv_node [OF inv n] by (auto simp: heap_top_def node_pri_view split: if_splits)
qed

lemma heap_pop_remove:
  assumes inv: "heap_inv h" and ne: "heap_count h \<noteq> 0"
  shows "heap_inv (fst (heap_pop h))"
    and "heap_view (fst (heap_pop h)) = (heap_view h)(heap_top h := None)"
    and "snd (heap_pop h) = map_option snd (heap_view h (heap_top h))"
proof -
  let ?l = "hp_num h - 1" and ?a = "hp_nodes h ! 1"
  define h1 where "h1 = h\<lparr>hp_num := ?l, hp_nodes := (hp_nodes h)[1 := hp_nodes h ! ?l]\<rparr>"
  have num: "1 < hp_num h" "hp_num h \<le> length (hp_nodes h)"
    using inv ne by (auto simp: heap_count_def heap_inv_def heap_pos_ok_def)
  have top: "heap_top h = ?a" using num by (simp add: heap_top_def)
  have res: "heap_pop h = (heap_delete (percolate_down h1 1) ?a, map_option hn_data (hp_store (percolate_down h1 1) ?a))"
    using ne by (simp add: heap_pop_def h1_def Let_def)
  have view: "heap_view (percolate_down h1 1) = heap_view h"
    by (simp add: h1_def)
  have null: "hp_store (heap_delete (percolate_down h1 1) ?a) nullptr = None"
    using heap_inv_null [OF inv] heap_view_None_iff by (metis (no_types, lifting) fun_upd_apply heap_delete_simps(5) option.map_disc_iff view)
  have size: "hp_size (percolate_down h1 1) = length (hp_nodes (percolate_down h1 1))"
    using inv by (simp add: h1_def heap_inv_def)
  show "heap_view (fst (heap_pop h)) = (heap_view h)(heap_top h := None)"
    using view by (simp add: res top)
  have "map_option hn_data (hp_store g ?a) = map_option snd (heap_view g ?a)" for g :: "'a Heap"
    by (simp add: heap_view_def option.map_comp comp_def)
  then show "snd (heap_pop h) = map_option snd (heap_view h (heap_top h))"
    using view by (simp add: res top)
  show "heap_inv (fst (heap_pop h))"
  proof (cases "?l = 1")
    case True
    have "maxchild h1 1 = 0" using True by (simp add: maxchild_def h1_def)
    then have p: "percolate_down h1 1 = heap_place h1 1 (hp_nodes h1 ! 1)"
      by (simp add: percolate_down_def percolate_down_loop.simps)
    have "heap_pos_ok (heap_place h1 1 (hp_nodes h1 ! 1)) {?a}"
    proof -
      have "{1..<hp_num h} = {1}" using True num by auto
      then have "dom (hp_store h) = {?a}" using inv by (simp add: heap_inv_def heap_pos_ok_def)
      then show ?thesis using True num by (simp add: heap_pos_ok_def h1_def)
    qed
    moreover have "heap_ord (heap_place h1 1 (hp_nodes h1 ! 1))"
      using True by (simp add: heap_ord_def h1_def)
    ultimately have "heap_pos_ok (percolate_down h1 1) {?a}" "heap_ord (percolate_down h1 1)"
      by (simp_all only: p)
    then show ?thesis
      using null size by (simp add: res heap_inv_def heap_delete_pos_ok heap_delete_ord)
  next
    case False
    then have i: "(1::nat) \<le> 1" "1 < ?l" using num by auto
    have hole: "pos_hole h1 {?a} 1 (hp_nodes h1 ! 1)"
      using pos_hole_remove [OF inv i h1_def] .
    have ord: "heap_ord h" "hp_num h1 \<le> hp_num h" "hp_num h1 \<le> length (hp_nodes h1)" "hp_type h1 = hp_type h"
       "1 \<le> (1::nat)" "1 < hp_num h1"
      using inv i num by (auto simp: h1_def heap_inv_def)
    have same: "pri_at h1 j = pri_at h j" if "1 \<le> j" "j < hp_num h1" "j \<noteq> 1" for j
      using that by (simp add: h1_def node_pri_def)
    have "pri_at h1 1 = pri_at h ?l" using num by (simp add: h1_def node_pri_def)
    then have "heap_le (hp_type h) (pri_at h 1) (pri_at h1 1)"
      using heap_root_best [OF ord(1), of ?l] num i by simp
    then have "heap_pos_ok (percolate_down h1 1) {?a}" "heap_ord (percolate_down h1 1)"
      using percolate_down_inv [OF hole ord_replace_down [OF ord same] ord(5,6)] by auto
    then show ?thesis
      using null size by (simp add: res heap_inv_def heap_delete_pos_ok heap_delete_ord)
  qed
qed

section \<open>The priority queue interface\<close>

text \<open>
  What a client of the heap relies on. \<open>view\<close> is the abstract content: the nodes in the queue,
  each with its priority and data. \<open>room q m\<close> says that the memory \<open>m\<close> a push is given is enough.
\<close>

locale prio_queue =
  fixes inv :: "'q \<Rightarrow> bool"
    and view :: "'q \<Rightarrow> addr \<Rightarrow> (u64 \<times> 'd) option"
    and best :: "u64 \<Rightarrow> u64 \<Rightarrow> bool"
    and room :: "'q \<Rightarrow> 'm \<Rightarrow> bool"
    and top :: "'q \<Rightarrow> addr"
    and pop :: "'q \<Rightarrow> 'q \<times> 'd option"
    and push :: "'q \<Rightarrow> 'm \<Rightarrow> addr \<Rightarrow> u64 \<Rightarrow> 'd \<Rightarrow> 'q \<times> addr"
    and change :: "'q \<Rightarrow> u64 \<Rightarrow> addr \<Rightarrow> 'q"
    and remove :: "'q \<Rightarrow> addr \<Rightarrow> 'q"
  assumes null_free: "inv q \<Longrightarrow> view q nullptr = None"
    and finite_view: "inv q \<Longrightarrow> finite (dom (view q))"
    and top_null: "inv q \<Longrightarrow> top q = nullptr \<longleftrightarrow> dom (view q) = {}"
    and top_in: "inv q \<Longrightarrow> top q \<noteq> nullptr \<Longrightarrow> \<exists>p d. view q (top q) = Some (p, d)"
    and top_best: "inv q \<Longrightarrow> top q \<noteq> nullptr \<Longrightarrow> view q (top q) = Some (p, d) \<Longrightarrow> view q b = Some (r, e) \<Longrightarrow> best p r"
    and pop_view: "inv q \<Longrightarrow> top q \<noteq> nullptr \<Longrightarrow>
       view (fst (pop q)) = (view q)(top q := None) \<and> snd (pop q) = map_option snd (view q (top q))"
    and pop_inv: "inv q \<Longrightarrow> top q \<noteq> nullptr \<Longrightarrow> inv (fst (pop q))"
    and push_view: "inv q \<Longrightarrow> room q m \<Longrightarrow> a \<noteq> nullptr \<Longrightarrow> view q a = None \<Longrightarrow>
       view (fst (push q m a p d)) = (view q)(a \<mapsto> (p, d)) \<and> snd (push q m a p d) = a"
    and push_inv: "inv q \<Longrightarrow> room q m \<Longrightarrow> a \<noteq> nullptr \<Longrightarrow> view q a = None \<Longrightarrow> inv (fst (push q m a p d))"
    and change_view: "inv q \<Longrightarrow> view q a = Some (r, d) \<Longrightarrow> view (change q p a) = (view q)(a \<mapsto> (p, d))"
    and change_inv: "inv q \<Longrightarrow> view q a \<noteq> None \<Longrightarrow> inv (change q p a)"
    and remove_view: "inv q \<Longrightarrow> view q a \<noteq> None \<Longrightarrow> view (remove q a) = (view q)(a := None)"
    and remove_inv: "inv q \<Longrightarrow> view q a \<noteq> None \<Longrightarrow> inv (remove q a)"
begin

text \<open>Emptying the queue by repeated pops hands out the priorities in order.\<close>

fun drain :: "nat \<Rightarrow> 'q \<Rightarrow> (u64 \<times> 'd) list" where
  "drain 0 q = []"
| "drain (Suc n) q = (case view q (top q) of None \<Rightarrow> [] | Some x \<Rightarrow> x # drain n (fst (pop q)))"

lemma drain_members:
  "inv q \<Longrightarrow> x \<in> set (drain n q) \<Longrightarrow> \<exists>a. view q a = Some x"
proof (induction n arbitrary: q)
  case (Suc n)
  show ?case
  proof (cases "view q (top q)")
    case (Some y)
    then have top: "top q \<noteq> nullptr" using null_free [OF Suc.prems(1)] by (metis option.distinct(1))
    show ?thesis
    proof (cases "x = y")
      case False
      then have "x \<in> set (drain n (fst (pop q)))" using Suc.prems(2) Some by simp
      then obtain a where "view (fst (pop q)) a = Some x"
        using Suc.IH pop_inv [OF Suc.prems(1) top] by blast
      then show ?thesis using pop_view [OF Suc.prems(1) top] by (auto split: if_splits)
    qed (use Some in auto)
  qed (use Suc.prems in auto)
qed simp

lemma drain_sorted: "inv q \<Longrightarrow> sorted_wrt (\<lambda>x y. best (fst x) (fst y)) (drain n q)"
proof (induction n arbitrary: q)
  case (Suc n)
  show ?case
  proof (cases "view q (top q)")
    case (Some y)
    then have top: "top q \<noteq> nullptr" using null_free [OF Suc.prems(1)] by (metis option.distinct(1))
    have "best (fst y) (fst x)" if x: "x \<in> set (drain n (fst (pop q)))" for x
    proof -
      obtain a where "view (fst (pop q)) a = Some x"
        using drain_members [OF pop_inv [OF Suc.prems(1) top] x] by blast
      then have "view q a = Some x" using pop_view [OF Suc.prems(1) top] by (auto split: if_splits)
      then show ?thesis using top_best [OF Suc.prems(1) top, of "fst y" "snd y" a "fst x" "snd x"] Some by simp
    qed
    then show ?thesis using Some Suc.IH [OF pop_inv [OF Suc.prems(1) top]] by simp
  qed simp
qed simp

lemma drain_complete:
  "inv q \<Longrightarrow> card (dom (view q)) = n \<Longrightarrow> mset (drain n q) = image_mset (\<lambda>a. the (view q a)) (mset_set (dom (view q)))"
proof (induction n arbitrary: q)
  case 0
  then show ?case using finite_view [OF 0(1)] by simp
next
  case (Suc n)
  then have top: "top q \<noteq> nullptr" using top_null [OF Suc.prems(1)] by auto
  then obtain x where x: "view q (top q) = Some x" using top_in [OF Suc.prems(1)] by auto
  let ?q = "fst (pop q)" and ?D = "dom (view q)"
  have v: "view ?q = (view q)(top q := None)" using pop_view [OF Suc.prems(1) top] by simp
  have d: "dom (view ?q) = ?D - {top q}" "top q \<in> ?D" using v x by auto
  have fin: "finite ?D" by (rule finite_view [OF Suc.prems(1)])
  then have "card (dom (view ?q)) = n" using Suc.prems(2) d by simp
  then have IH: "mset (drain n ?q) = image_mset (\<lambda>a. the (view ?q a)) (mset_set (dom (view ?q)))"
    using Suc.IH [OF pop_inv [OF Suc.prems(1) top]] by simp
  have "image_mset (\<lambda>a. the (view ?q a)) (mset_set (?D - {top q})) = image_mset (\<lambda>a. the (view q a)) (mset_set (?D - {top q}))"
    using fin by (intro image_mset_cong) (auto simp: v)
  moreover have "mset_set ?D = add_mset (top q) (mset_set (?D - {top q}))"
    using fin d(2) by (metis mset_set.remove)
  ultimately show ?case using IH x d by simp
qed

end

definition heap_room :: "'d Heap \<Rightarrow> addr list option \<Rightarrow> bool" where
  "heap_room h rm \<longleftrightarrow> hp_size h < 2 ^ 31 \<and>
     (case rm of None \<Rightarrow> hp_num h < hp_size h | Some ext \<Rightarrow> length ext = hp_size h)"

lemma heap_room_grow:
  assumes "heap_room h rm"
  shows "\<exists>h1. heap_grow h rm = Some h1" and "hp_size h < 2 ^ 31" and "\<And>ext. rm = Some ext \<Longrightarrow> length ext = hp_size h"
  using assms by (auto simp: heap_room_def heap_grow_def split: option.splits)

lemma heap_push_ok:
  assumes "heap_inv h" "heap_room h rm" "p \<noteq> nullptr" "heap_view h p = None"
  shows "heap_inv (fst (heap_push h rm p pr d))"
    and "heap_view (fst (heap_push h rm p pr d)) = (heap_view h)(p \<mapsto> (pr, d))"
    and "snd (heap_push h rm p pr d) = p"
    and "hp_type (fst (heap_push h rm p pr d)) = hp_type h"
proof -
  from heap_room_grow [OF assms(2)] obtain h1 where g: "heap_grow h rm = Some h1" by blast
  note * = heap_push_inv [OF assms(1) _ assms(3) heap_room_grow(2,3) [OF assms(2)] g]
  show "heap_inv (fst (heap_push h rm p pr d))"
    "heap_view (fst (heap_push h rm p pr d)) = (heap_view h)(p \<mapsto> (pr, d))"
    "snd (heap_push h rm p pr d) = p"
    using * assms(2,4) by (simp_all add: heap_view_None_iff)
  show "hp_type (fst (heap_push h rm p pr d)) = hp_type h"
    using heap_grow_inv(4) [OF assms(1) g heap_room_grow(2,3) [OF assms(2)]] assms(2)
    by (simp add: heap_push_def g Let_def)
qed

lemma hp_type_frame [simp]:
  "hp_type (fst (heap_pop h)) = hp_type h" "hp_type (heap_change_priority h p a) = hp_type h"
  "hp_type (heap_remove h a) = hp_type h"
  by (simp_all add: heap_pop_def heap_change_priority_def heap_remove_def Let_def)

lemma heap_inv_finite: "heap_inv h \<Longrightarrow> finite (dom (heap_view h))"
  by (simp add: dom_heap_view heap_inv_def heap_pos_ok_def)

lemma heap_top_count: "heap_inv h \<Longrightarrow> heap_top h \<noteq> nullptr \<Longrightarrow> heap_count h \<noteq> 0"
  by (auto simp: heap_top_def heap_count_def heap_inv_def heap_pos_ok_def split: if_splits)

lemma heap_top_in: "heap_inv h \<Longrightarrow> heap_top h \<noteq> nullptr \<Longrightarrow> \<exists>p d. heap_view h (heap_top h) = Some (p, d)"
  using heap_inv_slot(2) [of h 1]
  by (auto simp: heap_top_def heap_view_def heap_inv_def heap_pos_ok_def split: if_splits)

lemma heap_le_MIN [simp]: "heap_le MIN_HEAP a b \<longleftrightarrow> a \<le> b"
  by (auto simp: heap_le_def heap_compare_def)

lemma heap_le_MAX [simp]: "heap_le MAX_HEAP a b \<longleftrightarrow> b \<le> a"
  by (auto simp: heap_le_def heap_compare_def)

lemma heap_prio_queue:
  "prio_queue (\<lambda>h. heap_inv h \<and> hp_type h = ty) heap_view (heap_le ty) heap_room
     heap_top heap_pop heap_push heap_change_priority heap_remove"
proof (unfold_locales, goal_cases)
  case 1 then show ?case by (simp add: heap_inv_null)
next
  case 2 then show ?case by (simp add: heap_inv_finite)
next
  case 3 then show ?case by (simp add: heap_top_view(1))
next
  case 4 then show ?case by (simp add: heap_top_in)
next
  case (5 q p d b r e) then show ?case using heap_top_view(2) [of q p d b r e] by simp
next
  case 6 then show ?case by (simp add: heap_pop_remove heap_top_count)
next
  case 7 then show ?case by (simp add: heap_pop_remove heap_top_count)
next
  case 8 then show ?case by (simp add: heap_push_ok)
next
  case 9 then show ?case by (simp add: heap_push_ok)
next
  case 10 then show ?case by (simp add: heap_change_priority_inv heap_view_None_iff [symmetric])
next
  case 11 then show ?case by (simp add: heap_change_priority_inv heap_view_None_iff)
next
  case 12 then show ?case by (simp add: heap_remove_inv heap_view_None_iff)
next
  case 13 then show ?case by (simp add: heap_remove_inv heap_view_None_iff)
qed

interpretation min_heap: prio_queue "\<lambda>h. heap_inv h \<and> hp_type h = MIN_HEAP" heap_view "heap_le MIN_HEAP" heap_room
  heap_top heap_pop heap_push heap_change_priority heap_remove
  by (rule heap_prio_queue)

interpretation max_heap: prio_queue "\<lambda>h. heap_inv h \<and> hp_type h = MAX_HEAP" heap_view "heap_le MAX_HEAP" heap_room
  heap_top heap_pop heap_push heap_change_priority heap_remove
  by (rule heap_prio_queue)

section \<open>Stability of the top element\<close>

text \<open>
  The timer keeps a pointer to the top node while a callback changes the rest of the heap. The
  comparisons of the sift loops are strict, so an element of equal priority never displaces it.
\<close>

lemma bubble_up_loop_root:
  "1 < i \<Longrightarrow> \<not> heap_compare (hp_type h) (pri_at h 1) (node_pri h m) \<Longrightarrow>
    hp_nodes (bubble_up_loop h i m) ! 1 = hp_nodes h ! 1"
proof (induction h i m rule: bubble_up_loop.induct)
  case (1 h i m)
  let ?p = "i div 2"
  show ?case
  proof (cases "heap_compare (hp_type h) (pri_at h ?p) (node_pri h m)")
    case True
    then have p: "?p \<noteq> 1" using 1(3) by metis
    then have "1 < ?p" using 1(2) by linarith
    then show ?thesis using 1 True by (simp add: bubble_up_loop.simps [of h i m])
  next
    case False
    then show ?thesis using 1(2) by (simp add: bubble_up_loop.simps [of h i m])
  qed
qed

lemma percolate_down_loop_root:
  "1 < i \<Longrightarrow> hp_nodes (percolate_down_loop h i m) ! 1 = hp_nodes h ! 1"
proof (induction h i m rule: percolate_down_loop.induct)
  case (1 h i m)
  show ?case
  proof (cases "maxchild h i \<noteq> 0 \<and> heap_compare (hp_type h) (node_pri h m) (pri_at h (maxchild h i))")
    case True
    then have "1 < maxchild h i" using maxchild_bounds(1) [of h i] 1(2) by simp
    then show ?thesis using 1 True by (simp add: percolate_down_loop.simps [of h i m] Let_def)
  next
    case False
    then show ?thesis using 1(2) by (auto simp: percolate_down_loop.simps [of h i m] Let_def)
  qed
qed

lemma sift_root [simp]:
  "Suc 0 < i \<Longrightarrow> \<not> heap_compare (hp_type h) (pri_at h (Suc 0)) (pri_at h i) \<Longrightarrow>
    hp_nodes (bubble_up h i) ! Suc 0 = hp_nodes h ! Suc 0"
  "Suc 0 < i \<Longrightarrow> hp_nodes (percolate_down h i) ! Suc 0 = hp_nodes h ! Suc 0"
  using bubble_up_loop_root [of i h] percolate_down_loop_root [of i h] by (simp_all add: bubble_up_def percolate_down_def)

lemma heap_top_slot:
  assumes "heap_inv h" and "heap_top h \<noteq> nullptr"
  shows "heap_top h = hp_nodes h ! 1" and "1 < hp_num h"
  using assms by (auto simp: heap_top_def heap_inv_def heap_pos_ok_def split: if_splits)

lemma heap_slot_not_top:
  assumes "heap_inv h" and "heap_top h \<noteq> nullptr" and "heap_view h a \<noteq> None" and "a \<noteq> heap_top h"
  shows "1 < node_pos h a" and "node_pos h a < hp_num h"
  using heap_inv_node [OF assms(1), of a] assms(3,4) heap_top_slot [OF assms(1,2)]
  by (auto simp: heap_view_None_iff intro!: le_neq_implies_less)

lemma heap_change_priority_top:
  assumes inv: "heap_inv h" and top: "heap_top h \<noteq> nullptr" "heap_view h (heap_top h) = Some (p, d)"
    and a: "heap_view h a \<noteq> None" "a \<noteq> heap_top h" and le: "heap_le (hp_type h) p r"
  shows "heap_top (heap_change_priority h r a) = heap_top h"
proof -
  note t = heap_top_slot [OF inv top(1)] and s = heap_slot_not_top [OF inv top(1) a]
  have "node_pri h (hp_nodes h ! 1) = p" using top(2) t(1) by (simp add: node_pri_view)
  then have "node_pri (heap_set_priority h a r) (hp_nodes h ! node_pos h a) = r"
    "node_pri (heap_set_priority h a r) (hp_nodes h ! 1) = p"
    using heap_inv_node(3) [OF inv, of a] a t(1) by (simp_all add: node_pri_set_priority heap_view_None_iff)
  then show ?thesis
    using t s le by (simp add: heap_top_def heap_change_priority_def Let_def heap_le_def)
qed

lemma heap_remove_top:
  assumes inv: "heap_inv h" and top: "heap_top h \<noteq> nullptr" and a: "heap_view h a \<noteq> None" "a \<noteq> heap_top h"
  shows "heap_top (heap_remove h a) = heap_top h"
proof -
  note t = heap_top_slot [OF inv top] and s = heap_slot_not_top [OF inv top a]
  let ?l = "hp_num h - 1"
  have "heap_le (hp_type h) (pri_at h 1) (pri_at h ?l)"
    using inv s by (intro heap_root_best) (auto simp: heap_inv_def)
  moreover have "node_pos h a < length (hp_nodes h)" using heap_inv_slot(4) [OF inv _ s(2)] s(1) by simp
  moreover have "hp_num h - Suc 0 \<noteq> Suc 0" using s by linarith
  ultimately show ?thesis
    using t s by (simp add: heap_top_def heap_remove_def heap_delete_def Let_def heap_le_def node_pri_def)
qed

lemma heap_push_top:
  assumes inv: "heap_inv h" and top: "heap_top h \<noteq> nullptr" "heap_view h (heap_top h) = Some (p, d)"
    and a: "heap_room h rm" "a \<noteq> nullptr" "heap_view h a = None" and le: "heap_le (hp_type h) p r"
  shows "heap_top (fst (heap_push h rm a r e)) = heap_top h"
proof -
  from heap_room_grow [OF a(1)] obtain h1 where g: "heap_grow h rm = Some h1" by blast
  note i = heap_grow_inv [OF inv g heap_room_grow(2,3) [OF a(1)]]
  note t = heap_top_slot [OF inv top(1)]
  have "hp_nodes h1 ! 1 = hp_nodes h ! 1"
    using heap_grow_cases [OF inv g heap_room_grow(2,3) [OF a(1)]] a(1) heap_inv_slot(4) [OF inv _ t(2)]
    by (auto simp: nth_append)
  moreover have "node_pri h (hp_nodes h ! 1) = p" "hp_nodes h ! 1 \<noteq> a"
    using top(2) t(1) a(3) by (auto simp: node_pri_view)
  ultimately show ?thesis
    using t i a(1) le by (simp add: heap_top_def heap_push_def g Let_def heap_le_def node_pri_def)
qed

locale stable_prio_queue = prio_queue +
  assumes push_top: "inv q \<Longrightarrow> top q \<noteq> nullptr \<Longrightarrow> view q (top q) = Some (p, d) \<Longrightarrow> room q m \<Longrightarrow>
      a \<noteq> nullptr \<Longrightarrow> view q a = None \<Longrightarrow> best p r \<Longrightarrow> top (fst (push q m a r e)) = top q"
    and change_top: "inv q \<Longrightarrow> top q \<noteq> nullptr \<Longrightarrow> view q (top q) = Some (p, d) \<Longrightarrow>
      view q a \<noteq> None \<Longrightarrow> a \<noteq> top q \<Longrightarrow> best p r \<Longrightarrow> top (change q r a) = top q"
    and remove_top: "inv q \<Longrightarrow> top q \<noteq> nullptr \<Longrightarrow> view q a \<noteq> None \<Longrightarrow> a \<noteq> top q \<Longrightarrow> top (remove q a) = top q"
begin

text \<open>After work on other elements, a pop still takes the element that was on top before.\<close>

lemma push_pop:
  assumes "inv q" "top q \<noteq> nullptr" "view q (top q) = Some (p, d)" "room q m" "a \<noteq> nullptr" "view q a = None" "best p r"
  shows "view (fst (pop (fst (push q m a r e)))) = (view q)(a \<mapsto> (r, e), top q := None)"
  using pop_view [of "fst (push q m a r e)"] push_top [OF assms, of e] push_view [of q m a r e] push_inv [of q m a r e] assms
  by auto

lemma remove_pop:
  assumes "inv q" "top q \<noteq> nullptr" "view q a \<noteq> None" "a \<noteq> top q"
  shows "view (fst (pop (remove q a))) = (view q)(a := None, top q := None)"
  using pop_view [of "remove q a"] remove_top [OF assms] remove_view [of q a] remove_inv [of q a] assms by auto

end

lemma heap_stable:
  "stable_prio_queue (\<lambda>h. heap_inv h \<and> hp_type h = ty) heap_view (heap_le ty) heap_room
     heap_top heap_pop heap_push heap_change_priority heap_remove"
proof (intro stable_prio_queue.intro heap_prio_queue, unfold_locales, goal_cases)
  case (1 q p d m a r e) then show ?case using heap_push_top [of q p d m a r e] by simp
next
  case (2 q p d a r) then show ?case using heap_change_priority_top [of q p d a r] by simp
next
  case (3 q a) then show ?case using heap_remove_top [of q a] by simp
qed

interpretation min_heap: stable_prio_queue "\<lambda>h. heap_inv h \<and> hp_type h = MIN_HEAP" heap_view "heap_le MIN_HEAP" heap_room
  heap_top heap_pop heap_push heap_change_priority heap_remove
  by (rule heap_stable)

interpretation max_heap: stable_prio_queue "\<lambda>h. heap_inv h \<and> hp_type h = MAX_HEAP" heap_view "heap_le MAX_HEAP" heap_room
  heap_top heap_pop heap_push heap_change_priority heap_remove
  by (rule heap_stable)

lemma fold_delete:
  "fold (\<lambda>i s. if f i \<noteq> nullptr then s(f i := None) else s) is s x =
    (if x \<noteq> nullptr \<and> x \<in> f ` set is then None else s x)"
  by (induction "is" arbitrary: s) auto

lemma heap_destroy_empty:
  assumes "heap_inv h"
  shows "heap_destroy h = (\<lambda>_. None)"
proof
  fix x
  show "heap_destroy h x = None"
    unfolding heap_destroy_def fold_delete
    using assms by (auto simp: heap_inv_def heap_pos_ok_def)
qed

section \<open>Abstract specification and refinement\<close>

datatype 'd heap_op =
    Push "addr list option" addr u64 'd
  | Pop
  | Change u64 addr
  | Remove addr

fun heap_exec :: "'d Heap \<Rightarrow> 'd heap_op \<Rightarrow> 'd Heap" where
  "heap_exec h (Push rm p pr d) = fst (heap_push h rm p pr d)"
| "heap_exec h Pop = fst (heap_pop h)"
| "heap_exec h (Change pr a) = heap_change_priority h pr a"
| "heap_exec h (Remove a) = heap_remove h a"

text \<open>What a caller owes: fresh memory for a push, a live node for the other operations.\<close>

fun heap_op_ok :: "'d Heap \<Rightarrow> 'd heap_op \<Rightarrow> bool" where
  "heap_op_ok h (Push rm p pr d) \<longleftrightarrow> heap_room h rm \<and> p \<noteq> nullptr \<and> hp_store h p = None"
| "heap_op_ok h Pop \<longleftrightarrow> True"
| "heap_op_ok h (Change pr a) \<longleftrightarrow> hp_store h a \<noteq> None"
| "heap_op_ok h (Remove a) \<longleftrightarrow> hp_store h a \<noteq> None"

fun heap_ops_ok :: "'d Heap \<Rightarrow> 'd heap_op list \<Rightarrow> bool" where
  "heap_ops_ok h [] = True"
| "heap_ops_ok h (x # xs) = (heap_op_ok h x \<and> heap_ops_ok (heap_exec h x) xs)"

text \<open>The abstract queue: a finite map from nodes to priority and data; pop takes a best entry.\<close>

inductive pq_spec :: "heap_type \<Rightarrow> (addr \<Rightarrow> (u64 \<times> 'd) option) \<Rightarrow> 'd heap_op \<Rightarrow> (addr \<Rightarrow> (u64 \<times> 'd) option) \<Rightarrow> bool"
  for ty :: heap_type where
  push: "v p = None \<Longrightarrow> pq_spec ty v (Push rm p pr d) (v(p \<mapsto> (pr, d)))"
| pop_empty: "dom v = {} \<Longrightarrow> pq_spec ty v Pop v"
| pop: "v a = Some (pr, d) \<Longrightarrow> (\<And>b q e. v b = Some (q, e) \<Longrightarrow> heap_le ty pr q) \<Longrightarrow> pq_spec ty v Pop (v(a := None))"
| change: "v a = Some (q, d) \<Longrightarrow> pq_spec ty v (Change pr a) (v(a \<mapsto> (pr, d)))"
| remove: "v a = Some x \<Longrightarrow> pq_spec ty v (Remove a) (v(a := None))"

inductive pq_specs :: "heap_type \<Rightarrow> (addr \<Rightarrow> (u64 \<times> 'd) option) \<Rightarrow> 'd heap_op list \<Rightarrow> (addr \<Rightarrow> (u64 \<times> 'd) option) \<Rightarrow> bool"
  for ty :: heap_type where
  none: "pq_specs ty v [] v"
| some: "pq_spec ty v x v' \<Longrightarrow> pq_specs ty v' xs w \<Longrightarrow> pq_specs ty v (x # xs) w"

lemma heap_exec_refines:
  assumes inv: "heap_inv h" and ok: "heap_op_ok h x"
  shows "heap_inv (heap_exec h x) \<and> hp_type (heap_exec h x) = hp_type h \<and>
    pq_spec (hp_type h) (heap_view h) x (heap_view (heap_exec h x))"
proof (cases x)
  case (Push rm p pr d)
  then show ?thesis
    using heap_push_ok [OF inv, of rm p pr d] ok by (auto simp: heap_view_None_iff intro: pq_spec.push)
next
  case Pop
  show ?thesis
  proof (cases "heap_top h = nullptr")
    case True
    then have "heap_view h = (\<lambda>_. None)" using heap_top_view(1) [OF inv] by (metis dom_eq_empty_conv)
    moreover have "fst (heap_pop h) = h"
      using True heap_top_view(1) [OF inv] inv
      by (auto simp: heap_pop_def heap_count_def heap_inv_def heap_pos_ok_def dom_heap_view)
    ultimately show ?thesis using Pop inv by (auto intro: pq_spec.pop_empty)
  next
    case False
    then obtain p d where "heap_view h (heap_top h) = Some (p, d)" using heap_top_in [OF inv] by blast
    then have "pq_spec (hp_type h) (heap_view h) heap_op.Pop ((heap_view h)(heap_top h := None))"
      using heap_top_view(2) [OF inv False] by (intro pq_spec.pop) auto
    then show ?thesis
      using Pop heap_pop_remove [OF inv heap_top_count [OF inv False]] by simp
  qed
next
  case (Change pr a)
  then obtain q d where "heap_view h a = Some (q, d)" using ok by (auto simp: heap_view_def)
  then show ?thesis
    using Change ok heap_change_priority_inv [OF inv, of a pr] by (auto intro: pq_spec.change)
next
  case (Remove a)
  then obtain x where "heap_view h a = Some x" using ok by (auto simp: heap_view_def)
  then show ?thesis using Remove ok heap_remove_inv [OF inv, of a] by (auto intro: pq_spec.remove)
qed

lemma heap_new_simps [simp]:
  "heap_view (heap_new mem n ty) = (\<lambda>_. None)" "hp_type (heap_new mem n ty) = ty"
  by (simp_all add: heap_new_def heap_view_def fun_eq_iff)

lemma heap_execs_refine:
  "heap_inv h \<Longrightarrow> heap_ops_ok h xs \<Longrightarrow> heap_inv (foldl heap_exec h xs) \<and>
    pq_specs (hp_type h) (heap_view h) xs (heap_view (foldl heap_exec h xs))"
proof (induction xs arbitrary: h)
  case (Cons x xs)
  from heap_exec_refines [OF Cons.prems(1)] Cons.prems(2)
  have step: "heap_inv (heap_exec h x)" "hp_type (heap_exec h x) = hp_type h"
    "pq_spec (hp_type h) (heap_view h) x (heap_view (heap_exec h x))" by auto
  then show ?case using Cons.IH [OF step(1)] Cons.prems(2) by (auto intro: pq_specs.some)
qed (auto intro: pq_specs.none)

text \<open>C5: every legal sequence of \<open>push\<close>, \<open>pop\<close>, \<open>change_priority\<close> and \<open>remove\<close> calls on a new heap
  keeps the array invariant (heap order, each node's stored position is its array index, no node
  leaked or lost) and acts on the content as the abstract priority queue does.
\<close>

theorem heap_run_refines:
  assumes "length mem = n + 1" and "n + 1 < 2 ^ 32" and "heap_ops_ok (heap_new mem n ty) ops"
  shows "heap_inv (foldl heap_exec (heap_new mem n ty) ops) \<and>
    pq_specs ty (\<lambda>_. None) ops (heap_view (foldl heap_exec (heap_new mem n ty) ops))"
  using heap_execs_refine [OF heap_inv_new [OF assms(1,2)] assms(3)] by simp

lemmas heap_eval = heap_push_def [unfolded Let_def] heap_grow_def heap_new_def heap_top_def bubble_up_def
  bubble_up_loop.simps heap_place_def heap_pop_def [unfolded Let_def] heap_count_def percolate_down_def
  percolate_down_loop.simps [unfolded Let_def] maxchild_def [unfolded Let_def] node_pri_def heap_compare_def
  heap_delete_def heap_change_priority_def [unfolded Let_def] heap_remove_def [unfolded Let_def]
  heap_set_priority_def node_pos_def heap_room_def heap_view_def

theorem heap_run_refines_witness:
  "heap_inv (foldl heap_exec (heap_new [0,0,0] 2 MIN_HEAP)
      [Push None 10 7 ''a'', Push None 11 3 ''b'', Change 1 10, Pop, Remove 11]) \<and>
    pq_specs MIN_HEAP (\<lambda>_. None) [Push None 10 7 ''a'', Push None 11 3 ''b'', Change 1 10, Pop, Remove 11]
      (heap_view (foldl heap_exec (heap_new [0,0,0] 2 MIN_HEAP)
        [Push None 10 7 ''a'', Push None 11 3 ''b'', Change 1 10, Pop, Remove 11]))"
proof (rule heap_run_refines)
  show "heap_ops_ok (heap_new [0,0,0] 2 MIN_HEAP)
      [Push None 10 7 ''a'', Push None 11 3 ''b'', Change 1 10, Pop, Remove 11]"
    by (simp add: heap_eval split del: if_split)
qed simp_all

lemma heap_count_card:
  assumes "heap_inv h"
  shows "card (dom (heap_view h)) = heap_count h"
proof -
  have "inj_on ((!) (hp_nodes h)) {1..<hp_num h}"
    using heap_inv_slot(1) [OF assms] by (intro inj_onI) (metis atLeastLessThan_iff)
  then show ?thesis
    using assms by (simp add: dom_heap_view heap_inv_def heap_pos_ok_def card_image heap_count_def)
qed

text \<open>
  Repeated \<open>pop\<close>: the data that each call returns, with the priority that \<open>top\<close> showed before the
  call; it ends when \<open>pop\<close> returns a null pointer.
\<close>

fun heap_drain :: "nat \<Rightarrow> 'd Heap \<Rightarrow> (u64 \<times> 'd) list" where
  "heap_drain 0 h = []"
| "heap_drain (Suc n) h =
    (case heap_pop h of
       (h', None) \<Rightarrow> []
     | (h', Some d) \<Rightarrow> (node_pri h (heap_top h), d) # heap_drain n h')"

lemma heap_view_pri: "heap_view h a = Some (p, d) \<Longrightarrow> node_pri h a = p"
  by (auto simp: heap_view_def node_pri_def)

lemma heap_drain_eq:
  "heap_inv h \<Longrightarrow> hp_type h = MIN_HEAP \<Longrightarrow> heap_drain n h = min_heap.drain n h"
proof (induction n arbitrary: h)
  case (Suc n)
  show ?case
  proof (cases "heap_top h = nullptr")
    case True
    then have "heap_count h = 0" using min_heap.top_null [of h] heap_count_card [of h] Suc.prems by simp
    then have "heap_pop h = (h, None)" by (simp add: heap_pop_def)
    then show ?thesis using True min_heap.null_free [of h] Suc.prems by simp
  next
    case False
    note P = heap_pop_remove [OF Suc.prems(1) heap_top_count [OF Suc.prems(1) False]]
    obtain p d where v: "heap_view h (heap_top h) = Some (p, d)" using min_heap.top_in [of h] False Suc.prems by blast
    have "heap_drain n (fst (heap_pop h)) = min_heap.drain n (fst (heap_pop h))"
      using Suc.IH [of "fst (heap_pop h)"] min_heap.pop_inv [of h] False Suc.prems by simp
    then show ?thesis using v P(3) heap_view_pri [OF v] by (simp add: split_beta)
  qed
qed simp

text \<open>C11: the data that \<open>pop\<close> returns while a min-heap is emptied, paired with the priority of the top
  before each call, is exactly what the heap held, each entry once, in ascending priority.\<close>

theorem heap_drain_sorted:
  assumes "heap_inv h" and "hp_type h = MIN_HEAP"
  shows "sorted (map fst (heap_drain (heap_count h) h)) \<and>
    mset (heap_drain (heap_count h) h) = image_mset (\<lambda>a. the (heap_view h a)) (mset_set (dom (heap_view h)))"
  using min_heap.drain_sorted [of h "heap_count h"] min_heap.drain_complete [of h "heap_count h"] assms
  by (simp add: heap_drain_eq heap_count_card sorted_wrt_map)

definition heap_three :: "string Heap" where
  "heap_three = foldl heap_exec (heap_new [0,0,0,0] 3 MIN_HEAP)
    [Push None 10 7 ''a'', Push None 11 3 ''b'', Push None 12 5 ''c'']"

lemma heap_three_inv: "heap_inv heap_three"
proof -
  have "heap_ops_ok (heap_new [0,0,0,0] 3 MIN_HEAP) [Push None 10 7 ''a'', Push None 11 3 ''b'', Push None 12 5 ''c'']"
    by (simp add: heap_eval split del: if_split)
  from heap_execs_refine [OF heap_inv_new this] show ?thesis
    by (simp only: heap_three_def) simp
qed

theorem heap_drain_sorted_witness:
  "heap_count heap_three = 3 \<and> hp_type heap_three = MIN_HEAP \<and>
    heap_drain 3 heap_three = [(3, ''b''), (5, ''c''), (7, ''a'')] \<and>
    mset (heap_drain 3 heap_three) = image_mset (\<lambda>a. the (heap_view heap_three a)) (mset_set (dom (heap_view heap_three)))"
proof -
  have c: "heap_count heap_three = 3" and t: "hp_type heap_three = MIN_HEAP"
    by (simp_all add: heap_three_def heap_eval split del: if_split)
  have d: "heap_drain 3 heap_three = [(3, ''b''), (5, ''c''), (7, ''a'')]"
    by (simp add: heap_three_def numeral_3_eq_3 heap_eval split del: if_split)
  show ?thesis
    using heap_drain_sorted [OF heap_three_inv t] c t d by simp
qed

end
