(* ===== verification/Sw_Timer.thy ===== *)
theory Sw_Timer
  imports Sw_Heap
begin

text \<open>
  \<open>src/core/timer.cc\<close>, \<open>include/swoole_timer.h\<close>, \<open>src/os/timer.cc\<close>: the timer, a min-heap of timer
  nodes keyed by their expiry and a map from timer ids to nodes. Timer nodes live in a store of
  their own; the heap's \<open>data\<close> is their address. The clock, the allocators and the callbacks are
  arguments: a callback is any function from the timer's state to the list of timer calls it
  makes. \<open>int64_t\<close> values are \<open>int\<close>; the bounds that keep the code free of signed overflow
  are part of the invariant and of the conditions on the calls.
\<close>

section \<open>Data\<close>

datatype timer_mode = MANUAL | REACTOR | SYSTEM_TIMER

datatype timer_type = TYPE_KERNEL | TYPE_PHP

record 'c TimerNode =
  tn_id :: int
  tn_type :: timer_type
  tn_exec_msec :: int
  tn_interval :: int
  tn_exec_count :: u64
  tn_round :: u64
  tn_removed :: bool
  tn_heap_node :: addr
  tn_callback :: 'c
  tn_data :: addr
  tn_destructor :: "'c option"

text \<open>
  \<open>tm_alarm\<close> is what \<open>set\<close> writes: the reactor's \<open>timeout_msec\<close>, or the interval timer of the
  process (0 when disarmed). \<open>tm_destructed\<close> records the destructors that \<open>release_node\<close> called.
\<close>

record 'c Timer =
  tm_mode :: timer_mode
  tm_heap :: "addr Heap"
  tm_map :: "int \<Rightarrow> addr option"
  tm_nodes :: "addr \<Rightarrow> 'c TimerNode option"
  tm_round :: u64
  tm_next_id :: int
  tm_current_id :: int
  tm_base_time :: int
  tm_next_msec :: int
  tm_alarm :: int
  tm_destructed :: "'c list"

section \<open>Operations\<close>

text \<open>\<open>SystemTimer_set\<close>: the \<open>itimerval\<close> (seconds, microseconds) handed to \<open>setitimer\<close>.\<close>

definition SystemTimer_set :: "int \<Rightarrow> int \<times> int" where
  "SystemTimer_set next_msec = (if next_msec > 0 then (next_msec div 1000, next_msec mod 1000 * 1000) else (0, 0))"

definition itimer_msec :: "int \<times> int \<Rightarrow> int" where
  "itimer_msec tv = fst tv * 1000 + snd tv div 1000"

lemma SystemTimer_set_msec: "itimer_msec (SystemTimer_set m) = max 0 m"
  by (simp add: itimer_msec_def SystemTimer_set_def)

definition timer_set :: "'c Timer \<Rightarrow> int \<Rightarrow> 'c Timer" where
  "timer_set t msec =
     (case tm_mode t of
        MANUAL \<Rightarrow> t
      | REACTOR \<Rightarrow> t\<lparr>tm_alarm := msec\<rparr>
      | SYSTEM_TIMER \<Rightarrow> t\<lparr>tm_alarm := itimer_msec (SystemTimer_set msec)\<rparr>)"

definition timer_close :: "'c Timer \<Rightarrow> 'c Timer" where
  "timer_close t = (case tm_mode t of MANUAL \<Rightarrow> t | _ \<Rightarrow> timer_set t (-1))"

definition timer_init :: "bool \<Rightarrow> bool \<Rightarrow> 'c Timer \<Rightarrow> 'c Timer" where
  "timer_init manually_trigger have_reactor t =
     t\<lparr>tm_mode := (if manually_trigger then MANUAL else if have_reactor then REACTOR else SYSTEM_TIMER)\<rparr>"

definition timer_new :: "addr list \<Rightarrow> int \<Rightarrow> int \<Rightarrow> bool \<Rightarrow> bool \<Rightarrow> 'c Timer" where
  "timer_new mem clock alarm manually_trigger have_reactor =
     timer_init manually_trigger have_reactor
       \<lparr>tm_mode = MANUAL, tm_heap = heap_new mem 1024 MIN_HEAP, tm_map = (\<lambda>_. None), tm_nodes = (\<lambda>_. None),
        tm_round = 0, tm_next_id = 1, tm_current_id = -1, tm_base_time = clock, tm_next_msec = -1,
        tm_alarm = alarm, tm_destructed = []\<rparr>"

definition timer_reinit :: "bool \<Rightarrow> bool \<Rightarrow> 'c Timer \<Rightarrow> 'c Timer" where
  "timer_reinit manually_trigger have_reactor t =
     (let t1 = timer_init manually_trigger have_reactor (timer_close t) in timer_set t1 (tm_next_msec t1))"

definition get_relative_msec :: "'c Timer \<Rightarrow> int \<Rightarrow> int" where
  "get_relative_msec t clock = clock - tm_base_time t"

definition release_node :: "'c Timer \<Rightarrow> addr \<Rightarrow> 'c Timer" where
  "release_node t a =
     (case tm_nodes t a of
        None \<Rightarrow> t
      | Some n \<Rightarrow> t\<lparr>tm_nodes := (tm_nodes t)(a := None),
                     tm_destructed := tm_destructed t @ (case tn_destructor n of None \<Rightarrow> [] | Some d \<Rightarrow> [d])\<rparr>)"

text \<open>The destructor; \<open>order\<close> is the order in which \<open>unordered_map\<close> lists the nodes.\<close>

definition timer_destroy :: "'c Timer \<Rightarrow> addr list \<Rightarrow> 'c Timer" where
  "timer_destroy t order = fold (\<lambda>a s. release_node s a) order (timer_close t)"

text \<open>
  \<open>add\<close>: \<open>clock\<close> is the clock's value, \<open>p\<close> the memory of the timer node, \<open>rm\<close> and \<open>q\<close> what the
  heap's \<open>push\<close> gets from the allocator.
\<close>

definition timer_add ::
  "'c Timer \<Rightarrow> int \<Rightarrow> addr \<Rightarrow> addr list option \<Rightarrow> addr \<Rightarrow> int \<Rightarrow> bool \<Rightarrow> addr \<Rightarrow> 'c \<Rightarrow> 'c Timer \<times> addr" where
  "timer_add t clock p rm q msec persistent d cb =
     (if msec \<le> 0 then (t, nullptr)
      else
        let n = \<lparr>tn_id = tm_next_id t, tn_type = TYPE_KERNEL, tn_exec_msec = get_relative_msec t clock + msec,
                 tn_interval = (if persistent then msec else 0), tn_exec_count = 0, tn_round = tm_round t,
                 tn_removed = False, tn_heap_node = nullptr, tn_callback = cb, tn_data = d, tn_destructor = None\<rparr>;
            t1 = t\<lparr>tm_next_id := tm_next_id t + 1\<rparr>;
            t2 = (if tm_next_msec t1 < 0 \<or> tm_next_msec t1 > msec
                  then (timer_set t1 msec)\<lparr>tm_next_msec := msec\<rparr> else t1);
            pushed = heap_push (tm_heap t2) rm q (word_of_int (tn_exec_msec n)) p;
            t3 = t2\<lparr>tm_heap := fst pushed, tm_nodes := (tm_nodes t2)(p \<mapsto> n\<lparr>tn_heap_node := snd pushed\<rparr>)\<rparr>
        in if snd pushed = nullptr then (release_node t3 p, nullptr)
           else (t3\<lparr>tm_map := (case tm_map t3 (tn_id n) of
                                None \<Rightarrow> (tm_map t3)(tn_id n \<mapsto> p) | Some _ \<Rightarrow> tm_map t3)\<rparr>, p))"

definition timer_remove :: "'c Timer \<Rightarrow> addr \<Rightarrow> 'c Timer \<times> bool" where
  "timer_remove t a =
     (if a = nullptr then (t, False)
      else case tm_nodes t a of
        None \<Rightarrow> (t, False)
      | Some n \<Rightarrow>
          if tn_removed n then (t, False)
          else if tm_current_id t > 0 \<and> tn_id n = tm_current_id t
          then (t\<lparr>tm_nodes := (tm_nodes t)(a \<mapsto> n\<lparr>tn_removed := True\<rparr>)\<rparr>, True)
          else if tm_map t (tn_id n) = None then (t, False)
          else
            let t1 = t\<lparr>tm_map := (tm_map t)(tn_id n := None)\<rparr>;
                t2 = (if tn_heap_node n \<noteq> nullptr
                      then t1\<lparr>tm_heap := heap_remove (tm_heap t1) (tn_heap_node n)\<rparr> else t1)
            in (release_node t2 a, True))"

definition timer_get :: "'c Timer \<Rightarrow> int \<Rightarrow> addr" where
  "timer_get t i = (case tm_map t i of None \<Rightarrow> nullptr | Some a \<Rightarrow> a)"

definition timer_remove_id :: "'c Timer \<Rightarrow> int \<Rightarrow> 'c Timer \<times> bool" where
  "timer_remove_id t i = timer_remove t (timer_get t i)"

definition timer_exists :: "'c Timer \<Rightarrow> int \<Rightarrow> bool" where
  "timer_exists t i = (case tm_nodes t (timer_get t i) of None \<Rightarrow> False | Some n \<Rightarrow> \<not> tn_removed n)"

definition timer_update :: "'c Timer \<Rightarrow> addr \<Rightarrow> 'c Timer" where
  "timer_update t a =
     (case tm_nodes t a of
        None \<Rightarrow> t
      | Some n \<Rightarrow> t\<lparr>tm_heap := heap_change_priority (tm_heap t) (word_of_int (tn_exec_msec n)) (tn_heap_node n)\<rparr>)"

definition timer_delay :: "'c Timer \<Rightarrow> int \<Rightarrow> addr \<Rightarrow> int \<Rightarrow> 'c Timer" where
  "timer_delay t clock a delay_ms =
     (case tm_nodes t a of
        None \<Rightarrow> t
      | Some n \<Rightarrow>
          let now_ms = get_relative_msec t clock;
              e = (if now_ms < 0 then tn_exec_msec n else now_ms) + delay_ms
          in timer_update (t\<lparr>tm_nodes := (tm_nodes t)(a \<mapsto> n\<lparr>tn_exec_msec := e\<rparr>)\<rparr>) a)"

section \<open>Calls made by callbacks, and select\<close>

datatype 'c timer_cmd =
    Add int addr "addr list option" addr int bool addr 'c
  | Del addr
  | Clear int
  | Delay int addr int

fun timer_exec :: "'c Timer \<Rightarrow> 'c timer_cmd \<Rightarrow> 'c Timer" where
  "timer_exec t (Add clock p rm q msec persistent d cb) = fst (timer_add t clock p rm q msec persistent d cb)"
| "timer_exec t (Del a) = fst (timer_remove t a)"
| "timer_exec t (Clear i) = fst (timer_remove_id t i)"
| "timer_exec t (Delay clock a ms) = timer_delay t clock a ms"

text \<open>The catch-up loop of a persistent timer: \<open>while (exec_msec <= now_msec) exec_msec += interval\<close>.\<close>

function catch_up :: "int \<Rightarrow> int \<Rightarrow> int \<Rightarrow> int" where
  "catch_up now interval e = (if 0 < interval \<and> e \<le> now then catch_up now interval (e + interval) else e)"
  by pat_completeness auto
termination
  by (relation "measure (\<lambda>(now, interval, e). nat (now - e + 1))") auto

declare catch_up.simps [simp del]

definition fire :: "('c \<Rightarrow> 'c Timer \<Rightarrow> addr \<Rightarrow> 'c timer_cmd list) \<Rightarrow> 'c Timer \<Rightarrow> addr \<Rightarrow> 'c TimerNode \<Rightarrow> 'c Timer" where
  "fire run t a n =
     (let t1 = t\<lparr>tm_current_id := tn_id n\<rparr>;
          t2 = (if tn_removed n then t1 else foldl timer_exec t1 (run (tn_callback n) t1 a))
      in t2\<lparr>tm_current_id := -1\<rparr>)"

text \<open>What follows the callback: re-arm a persistent timer, drop any other. The result is the new
  state and the variable \<open>tnode\<close>; None when the node is gone, which would be a use after free.\<close>

definition rearm :: "int \<Rightarrow> 'c Timer \<Rightarrow> addr \<Rightarrow> addr \<Rightarrow> ('c Timer \<times> addr) option" where
  "rearm now t tmp a =
     (case tm_nodes t a of
        None \<Rightarrow> None
      | Some n \<Rightarrow>
          if tn_interval n > 0 \<and> \<not> tn_removed n then
            let e = catch_up now (tn_interval n) (tn_exec_msec n) in
            Some (t\<lparr>tm_nodes := (tm_nodes t)(a \<mapsto> n\<lparr>tn_exec_msec := e, tn_exec_count := tn_exec_count n + 1\<rparr>),
                    tm_heap := heap_change_priority (tm_heap t) (word_of_int e) tmp\<rparr>, a)
          else
            Some (release_node (t\<lparr>tm_heap := fst (heap_pop (tm_heap t)), tm_map := (tm_map t)(tn_id n := None)\<rparr>) a,
                  nullptr))"

text \<open>
  The loop of \<open>select\<close>. The last argument collects the expiry and the id of every timer whose turn
  came. Callbacks may keep the loop going for ever, so it is a partial function.
\<close>

partial_function (option) select_loop ::
  "('c \<Rightarrow> 'c Timer \<Rightarrow> addr \<Rightarrow> 'c timer_cmd list) \<Rightarrow> int \<Rightarrow> 'c Timer \<Rightarrow> addr \<Rightarrow> (int \<times> int) list \<Rightarrow>
    ('c Timer \<times> addr \<times> addr \<times> (int \<times> int) list) option" where
  "select_loop run now t tnode fired =
     (let tmp = heap_top (tm_heap t) in
      if tmp = nullptr then Some (t, tnode, tmp, fired)
      else case heap_view (tm_heap t) tmp of
        None \<Rightarrow> None
      | Some (pr, a) \<Rightarrow>
          (case tm_nodes t a of
             None \<Rightarrow> None
           | Some n \<Rightarrow>
               if tn_exec_msec n > now \<or> tn_round n = tm_round t then Some (t, a, tmp, fired)
               else case rearm now (fire run t a n) tmp a of
                 None \<Rightarrow> None
               | Some (t1, tnode1) \<Rightarrow> select_loop run now t1 tnode1 (fired @ [(tn_exec_msec n, tn_id n)])))"

text \<open>The end of \<open>select\<close>: \<open>next_msec_ = m; set(this, m); round++\<close>.\<close>

definition select_finish :: "'c Timer \<Rightarrow> int \<Rightarrow> 'c Timer" where
  "select_finish t m = (let t1 = timer_set (t\<lparr>tm_next_msec := m\<rparr>) m in t1\<lparr>tm_round := tm_round t1 + 1\<rparr>)"

definition timer_select ::
  "('c \<Rightarrow> 'c Timer \<Rightarrow> addr \<Rightarrow> 'c timer_cmd list) \<Rightarrow> int \<Rightarrow> 'c Timer \<Rightarrow> ('c Timer \<times> (int \<times> int) list) option" where
  "timer_select run clock t =
     (let now = get_relative_msec t clock in
      case select_loop run now t nullptr [] of
        None \<Rightarrow> None
      | Some (t1, tnode, tmp, fired) \<Rightarrow>
          if tnode = nullptr \<or> tmp = nullptr then Some (select_finish t1 (-1), fired)
          else case tm_nodes t1 tnode of
            None \<Rightarrow> None
          | Some n \<Rightarrow> let d = tn_exec_msec n - now in Some (select_finish t1 (if d \<le> 0 then 1 else d), fired))"

section \<open>Invariant\<close>

text \<open>
  \<open>timer_core\<close> relates the heap's content \<open>V\<close>, the id map \<open>M\<close> and the nodes \<open>N\<close>: they hold the same
  timers, with the same expiry, and only the timer that is running may be marked as removed.
\<close>

definition node_ok :: "(addr \<Rightarrow> (u64 \<times> addr) option) \<Rightarrow> (int \<Rightarrow> addr option) \<Rightarrow> int \<Rightarrow> int \<Rightarrow> addr \<Rightarrow> 'c TimerNode \<Rightarrow> bool" where
  "node_ok V M next cur a n \<longleftrightarrow>
     a \<noteq> nullptr \<and> M (tn_id n) = Some a \<and> V (tn_heap_node n) = Some (word_of_int (tn_exec_msec n), a) \<and>
     0 \<le> tn_exec_msec n \<and> tn_exec_msec n < 2 ^ 63 \<and> 0 < tn_id n \<and> tn_id n < next \<and>
     0 \<le> tn_interval n \<and> tn_interval n < 2 ^ 62 \<and> (tn_removed n \<longrightarrow> tn_id n = cur)"

definition timer_core ::
  "(addr \<Rightarrow> (u64 \<times> addr) option) \<Rightarrow> (int \<Rightarrow> addr option) \<Rightarrow> (addr \<Rightarrow> 'c TimerNode option) \<Rightarrow> int \<Rightarrow> int \<Rightarrow> bool" where
  "timer_core V M N next cur \<longleftrightarrow> 0 < next \<and> cur < next \<and>
     (\<forall>a n. N a = Some n \<longrightarrow> node_ok V M next cur a n) \<and>
     (\<forall>i a. M i = Some a \<longrightarrow> (\<exists>n. N a = Some n \<and> tn_id n = i)) \<and>
     (\<forall>x p a. V x = Some (p, a) \<longrightarrow> (\<exists>n. N a = Some n \<and> tn_heap_node n = x))"

definition timer_inv :: "'c Timer \<Rightarrow> bool" where
  "timer_inv t \<longleftrightarrow> heap_inv (tm_heap t) \<and> hp_type (tm_heap t) = MIN_HEAP \<and>
     timer_core (heap_view (tm_heap t)) (tm_map t) (tm_nodes t) (tm_next_id t) (tm_current_id t)"

text \<open>
  The conditions on a call: memory from the allocator is fresh, pointers are live, times stay in
  range. A failing \<open>realloc\<close> is allowed.
\<close>

definition time_ok :: "'c Timer \<Rightarrow> int \<Rightarrow> int \<Rightarrow> bool" where
  "time_ok t clock ms \<longleftrightarrow> 0 \<le> get_relative_msec t clock \<and> get_relative_msec t clock < 2 ^ 62 \<and> ms < 2 ^ 62"

fun cmd_ok :: "'c Timer \<Rightarrow> 'c timer_cmd \<Rightarrow> bool" where
  "cmd_ok t (Add clock p rm q msec persistent d cb) \<longleftrightarrow> time_ok t clock msec \<and> p \<noteq> nullptr \<and> tm_nodes t p = None \<and>
     q \<noteq> nullptr \<and> heap_view (tm_heap t) q = None \<and> (heap_room (tm_heap t) rm \<or> heap_grow (tm_heap t) rm = None)"
| "cmd_ok t (Del a) \<longleftrightarrow> a = nullptr \<or> tm_nodes t a \<noteq> None"
| "cmd_ok t (Clear i) \<longleftrightarrow> True"
| "cmd_ok t (Delay clock a ms) \<longleftrightarrow> time_ok t clock ms \<and> 0 \<le> ms \<and> tm_nodes t a \<noteq> None"


section \<open>The invariant under the single updates\<close>

lemma word_of_int_le:
  assumes "0 \<le> a" "a < 2 ^ 63" "0 \<le> b" "b < 2 ^ 63"
  shows "(word_of_int a :: u64) \<le> word_of_int b \<longleftrightarrow> a \<le> b"
  using assms by (simp add: word_le_def uint_word_of_int)

lemma timer_coreI:
  assumes "0 < next" "cur < next" "\<And>a n. N a = Some n \<Longrightarrow> node_ok V M next cur a n"
    and "\<And>i a. M i = Some a \<Longrightarrow> \<exists>n. N a = Some n \<and> tn_id n = i"
    and "\<And>x p a. V x = Some (p, a) \<Longrightarrow> \<exists>n. N a = Some n \<and> tn_heap_node n = x"
  shows "timer_core V M N next cur"
  using assms by (simp add: timer_core_def)

lemma timer_coreD:
  assumes "timer_core V M N next cur"
  shows "0 < next" "cur < next" "N a = Some n \<Longrightarrow> node_ok V M next cur a n"
    and "M i = Some a \<Longrightarrow> \<exists>n. N a = Some n \<and> tn_id n = i"
    and "V x = Some (p, a) \<Longrightarrow> \<exists>n. N a = Some n \<and> tn_heap_node n = x"
  using assms by (auto simp: timer_core_def)

lemma timer_core_id:
  assumes "timer_core V M N next cur" "N a = Some n" "N b = Some m"
  shows "tn_id n = tn_id m \<longleftrightarrow> a = b" and "tn_heap_node n = tn_heap_node m \<longleftrightarrow> a = b"
proof -
  have "M (tn_id n) = Some a" "M (tn_id m) = Some b" "\<exists>r. V (tn_heap_node n) = Some (r, a)"
    "\<exists>r. V (tn_heap_node m) = Some (r, b)"
    using timer_coreD(3) [OF assms(1,2)] timer_coreD(3) [OF assms(1,3)] by (simp_all add: node_ok_def)
  then show "tn_id n = tn_id m \<longleftrightarrow> a = b" and "tn_heap_node n = tn_heap_node m \<longleftrightarrow> a = b"
    using assms(2,3) by (metis option.inject, metis option.inject prod.inject)
qed

lemma timer_core_insert:
  assumes "timer_core V M N next cur" "N p = None" "p \<noteq> nullptr" "V q = None"
    and "tn_id n = next" "tn_heap_node n = q" "0 \<le> tn_exec_msec n" "tn_exec_msec n < 2 ^ 63"
    and "0 \<le> tn_interval n" "tn_interval n < 2 ^ 62" "\<not> tn_removed n"
  shows "timer_core (V(q \<mapsto> (word_of_int (tn_exec_msec n), p))) (M(next \<mapsto> p)) (N(p \<mapsto> n)) (next + 1) cur"
proof -
  note D = timer_coreD [OF assms(1)]
  show ?thesis
  proof (rule timer_coreI)
    fix a m assume "(N(p \<mapsto> n)) a = Some m"
    then show "node_ok (V(q \<mapsto> (word_of_int (tn_exec_msec n), p))) (M(next \<mapsto> p)) (next + 1) cur a m"
      using assms(2-) D(1) D(3) [of a m] by (auto simp: node_ok_def split: if_splits)
  next
    fix i a assume "(M(next \<mapsto> p)) i = Some a"
    then show "\<exists>m. (N(p \<mapsto> n)) a = Some m \<and> tn_id m = i"
      using D(4) [of i a] assms(2,5) by (auto split: if_splits)
  next
    fix x pr a assume "(V(q \<mapsto> (word_of_int (tn_exec_msec n), p))) x = Some (pr, a)"
    then show "\<exists>m. (N(p \<mapsto> n)) a = Some m \<and> tn_heap_node m = x"
      using D(5) [of x pr a] assms(2,6) by (auto split: if_splits)
  qed (use D(1,2) in auto)
qed

lemma timer_core_delete:
  assumes core: "timer_core V M N next cur" and n: "N a = Some n"
  shows "timer_core (V(tn_heap_node n := None)) (M(tn_id n := None)) (N(a := None)) next cur"
proof -
  note D = timer_coreD [OF core] and I = timer_core_id [OF core n]
  show ?thesis
  proof (rule timer_coreI)
    fix b m assume "(N(a := None)) b = Some m"
    then show "node_ok (V(tn_heap_node n := None)) (M(tn_id n := None)) next cur b m"
      using D(3) [of b m] I [of b m] by (auto simp: node_ok_def split: if_splits)
  next
    fix i b assume "(M(tn_id n := None)) i = Some b"
    then show "\<exists>m. (N(a := None)) b = Some m \<and> tn_id m = i"
      using D(4) [of i b] n by (auto split: if_splits)
  next
    fix x pr b assume "(V(tn_heap_node n := None)) x = Some (pr, b)"
    then show "\<exists>m. (N(a := None)) b = Some m \<and> tn_heap_node m = x"
      using D(5) [of x pr b] n by (auto split: if_splits)
  qed (use D(1,2) in auto)
qed

lemma timer_core_modify:
  assumes core: "timer_core V M N next cur" and n: "N a = Some n"
    and "tn_id m = tn_id n" "tn_heap_node m = tn_heap_node n" "0 \<le> tn_exec_msec m" "tn_exec_msec m < 2 ^ 63"
    and "tn_interval m = tn_interval n" "tn_removed m \<longrightarrow> tn_id n = cur"
  shows "timer_core (V(tn_heap_node n \<mapsto> (word_of_int (tn_exec_msec m), a))) M (N(a \<mapsto> m)) next cur"
proof -
  note D = timer_coreD [OF core] and I = timer_core_id [OF core n]
  show ?thesis
  proof (rule timer_coreI)
    fix b k assume k: "(N(a \<mapsto> m)) b = Some k"
    show "node_ok (V(tn_heap_node n \<mapsto> (word_of_int (tn_exec_msec m), a))) M next cur b k"
    proof (cases "b = a")
      case True
      then show ?thesis using k D(3) [OF n] assms(3-) by (simp add: node_ok_def)
    next
      case False
      then have "tn_heap_node k \<noteq> tn_heap_node n" using k I(2) [of b k] by auto
      then show ?thesis using k False D(3) [of b k] by (simp add: node_ok_def)
    qed
  next
    fix i b assume "M i = Some b"
    then show "\<exists>k. (N(a \<mapsto> m)) b = Some k \<and> tn_id k = i"
      using D(4) [of i b] n assms(3) by auto
  next
    fix x pr b assume "(V(tn_heap_node n \<mapsto> (word_of_int (tn_exec_msec m), a))) x = Some (pr, b)"
    then show "\<exists>k. (N(a \<mapsto> m)) b = Some k \<and> tn_heap_node k = x"
      using D(5) [of x pr b] n assms(4) by (auto split: if_splits)
  qed (use D(1,2) in auto)
qed

section \<open>What each call does\<close>

lemma timer_set_frame [simp]:
  "tm_mode (timer_set t m) = tm_mode t" "tm_heap (timer_set t m) = tm_heap t" "tm_map (timer_set t m) = tm_map t"
  "tm_nodes (timer_set t m) = tm_nodes t" "tm_round (timer_set t m) = tm_round t"
  "tm_next_id (timer_set t m) = tm_next_id t" "tm_current_id (timer_set t m) = tm_current_id t"
  "tm_base_time (timer_set t m) = tm_base_time t" "tm_next_msec (timer_set t m) = tm_next_msec t"
  by (simp_all add: timer_set_def split: timer_mode.split)

lemma release_node_frame [simp]:
  "tm_mode (release_node t a) = tm_mode t" "tm_heap (release_node t a) = tm_heap t" "tm_map (release_node t a) = tm_map t"
  "tm_nodes (release_node t a) = (tm_nodes t)(a := None)" "tm_round (release_node t a) = tm_round t"
  "tm_next_id (release_node t a) = tm_next_id t" "tm_current_id (release_node t a) = tm_current_id t"
  "tm_base_time (release_node t a) = tm_base_time t" "tm_next_msec (release_node t a) = tm_next_msec t"
  by (simp_all add: release_node_def fun_eq_iff split: option.split)

lemma timer_invD:
  assumes "timer_inv t"
  shows "heap_inv (tm_heap t)" "hp_type (tm_heap t) = MIN_HEAP"
    and "timer_core (heap_view (tm_heap t)) (tm_map t) (tm_nodes t) (tm_next_id t) (tm_current_id t)"
  using assms by (simp_all add: timer_inv_def)

lemma timer_inv_node:
  assumes "timer_inv t" "tm_nodes t a = Some n"
  shows "a \<noteq> nullptr" "tm_map t (tn_id n) = Some a"
    "heap_view (tm_heap t) (tn_heap_node n) = Some (word_of_int (tn_exec_msec n), a)"
    "0 \<le> tn_exec_msec n" "tn_exec_msec n < 2 ^ 63" "0 < tn_id n" "tn_id n < tm_next_id t"
    "0 \<le> tn_interval n" "tn_interval n < 2 ^ 62" "tn_removed n \<Longrightarrow> tn_id n = tm_current_id t" "tn_heap_node n \<noteq> nullptr"
  using timer_coreD(3) [OF timer_invD(3) [OF assms(1)] assms(2)] heap_inv_null [OF timer_invD(1) [OF assms(1)]]
  by (auto simp: node_ok_def intro!: gr0I)

text \<open>\<open>same_env t s\<close>: round, clock base, running timer and mode are as before.\<close>

definition same_env :: "'c Timer \<Rightarrow> 'c Timer \<Rightarrow> bool" where
  "same_env t s \<longleftrightarrow> tm_round s = tm_round t \<and> tm_base_time s = tm_base_time t \<and> tm_current_id s = tm_current_id t \<and>
     tm_mode s = tm_mode t"

lemma node_ok_later: "node_ok V M next cur a n \<Longrightarrow> node_ok V M (next + 1) cur a n"
  by (auto simp: node_ok_def)

lemma timer_add_effect:
  assumes inv: "timer_inv t" and ok: "cmd_ok t (Add clock p rm q msec persistent d cb)"
  defines "s \<equiv> fst (timer_add t clock p rm q msec persistent d cb)"
  shows "timer_inv s \<and> same_env t s \<and>
    (tm_nodes s = tm_nodes t \<and> tm_heap s = tm_heap t \<or>
     (\<exists>n. tm_nodes s = (tm_nodes t)(p \<mapsto> n) \<and> tn_exec_msec n = get_relative_msec t clock + msec \<and> 0 < msec \<and>
        tn_round n = tm_round t \<and> tn_id n = tm_next_id t \<and> heap_room (tm_heap t) rm \<and>
        tm_heap s = fst (heap_push (tm_heap t) rm q (word_of_int (tn_exec_msec n)) p)))"
proof -
  note I = timer_invD [OF inv] and C = timer_coreD [OF timer_invD(3) [OF inv]]
  have new: "tm_map t (tm_next_id t) = None"
    using C(3) C(4) [of "tm_next_id t"] by (cases "tm_map t (tm_next_id t)") (force simp: node_ok_def)+
  have weak: "timer_core (heap_view (tm_heap t)) (tm_map t) (tm_nodes t) (tm_next_id t + 1) (tm_current_id t)"
    using C by (intro timer_coreI) (auto intro: node_ok_later)
  show ?thesis
  proof (cases "msec \<le> 0")
    case True
    then show ?thesis using inv by (simp add: s_def timer_add_def same_env_def)
  next
    case pos: False
    show ?thesis
    proof (cases "heap_grow (tm_heap t) rm")
      case None
      moreover have "(tm_nodes t)(p := None) = tm_nodes t" using ok by (simp add: fun_upd_idem)
      ultimately show ?thesis using pos I weak
        by (simp add: s_def timer_add_def Let_def heap_push_def timer_inv_def same_env_def)
    next
      case (Some h1)
      then have room: "heap_room (tm_heap t) rm" using ok by auto
      note P = heap_push_ok [OF I(1) room, of q "word_of_int (get_relative_msec t clock + msec)" p]
      define n where "n = \<lparr>tn_id = tm_next_id t, tn_type = TYPE_KERNEL, tn_exec_msec = get_relative_msec t clock + msec,
         tn_interval = (if persistent then msec else 0), tn_exec_count = 0, tn_round = tm_round t,
         tn_removed = False, tn_heap_node = q, tn_callback = cb, tn_data = d, tn_destructor = None\<rparr>"
      have "timer_core ((heap_view (tm_heap t))(q \<mapsto> (word_of_int (tn_exec_msec n), p))) ((tm_map t)(tm_next_id t \<mapsto> p))
         ((tm_nodes t)(p \<mapsto> n)) (tm_next_id t + 1) (tm_current_id t)"
        using I(3) ok pos by (intro timer_core_insert) (auto simp: n_def time_ok_def)
      moreover have "tm_nodes s = (tm_nodes t)(p \<mapsto> n)" "tm_map s = (tm_map t)(tm_next_id t \<mapsto> p)"
        "tm_heap s = fst (heap_push (tm_heap t) rm q (word_of_int (tn_exec_msec n)) p)"
        "tm_next_id s = tm_next_id t + 1" "same_env t s"
        using pos P ok new by (simp_all add: s_def timer_add_def Let_def n_def same_env_def)
      moreover have "tn_exec_msec n = get_relative_msec t clock + msec" "tn_round n = tm_round t" "tn_id n = tm_next_id t"
        by (simp_all add: n_def)
      ultimately show ?thesis
        using P ok pos I(2) room by (auto simp: timer_inv_def same_env_def)
    qed
  qed
qed

lemma timer_remove_effect:
  fixes a :: addr
  assumes inv: "timer_inv t"
  defines "s \<equiv> fst (timer_remove t a)"
  shows "timer_inv s \<and> same_env t s \<and>
    (s = t \<or>
     (\<exists>n. tm_nodes t a = Some n \<and> tn_id n = tm_current_id t \<and> tm_heap s = tm_heap t \<and>
        tm_nodes s = (tm_nodes t)(a \<mapsto> n\<lparr>tn_removed := True\<rparr>)) \<or>
     (\<exists>n. tm_nodes t a = Some n \<and> \<not> (0 < tm_current_id t \<and> tn_id n = tm_current_id t) \<and>
        tm_heap s = heap_remove (tm_heap t) (tn_heap_node n) \<and> tm_nodes s = (tm_nodes t)(a := None)))"
proof (cases "tm_nodes t a")
  case None
  then show ?thesis using inv by (auto simp: s_def timer_remove_def same_env_def)
next
  case (Some n)
  note I = timer_invD [OF inv] and N = timer_inv_node [OF inv Some]
  show ?thesis
  proof (cases "tn_removed n")
    case True
    then show ?thesis using inv Some by (auto simp: s_def timer_remove_def same_env_def)
  next
    case False
    show ?thesis
    proof (cases "0 < tm_current_id t \<and> tn_id n = tm_current_id t")
      case True
      have "timer_core ((heap_view (tm_heap t))(tn_heap_node n \<mapsto> (word_of_int (tn_exec_msec (n\<lparr>tn_removed := True\<rparr>)), a)))
        (tm_map t) ((tm_nodes t)(a \<mapsto> n\<lparr>tn_removed := True\<rparr>)) (tm_next_id t) (tm_current_id t)"
        using N True by (intro timer_core_modify [OF I(3) Some]) auto
      then have "timer_core (heap_view (tm_heap t)) (tm_map t) ((tm_nodes t)(a \<mapsto> n\<lparr>tn_removed := True\<rparr>)) (tm_next_id t) (tm_current_id t)"
        using N(3) by (simp add: fun_upd_idem)
      then show ?thesis
        using I True False Some N(1) by (simp add: s_def timer_remove_def timer_inv_def same_env_def)
    next
      case cur: False
      have "timer_core ((heap_view (tm_heap t))(tn_heap_node n := None)) ((tm_map t)(tn_id n := None)) ((tm_nodes t)(a := None))
         (tm_next_id t) (tm_current_id t)"
        by (rule timer_core_delete [OF I(3) Some])
      moreover have "heap_inv (heap_remove (tm_heap t) (tn_heap_node n))"
        "heap_view (heap_remove (tm_heap t) (tn_heap_node n)) = (heap_view (tm_heap t))(tn_heap_node n := None)"
        using min_heap.remove_inv [of "tm_heap t"] min_heap.remove_view [of "tm_heap t"] I(1,2) N(3) by simp_all
      ultimately show ?thesis
        using cur False Some N(1,2,11) I(2) by (auto simp: s_def timer_remove_def Let_def timer_inv_def same_env_def)
    qed
  qed
qed

lemma timer_delay_effect:
  assumes inv: "timer_inv t" and ok: "cmd_ok t (Delay clock a ms)"
  defines "s \<equiv> timer_delay t clock a ms"
  shows "timer_inv s \<and> same_env t s \<and>
    (\<exists>n e. tm_nodes t a = Some n \<and> e = get_relative_msec t clock + ms \<and> tm_nodes s = (tm_nodes t)(a \<mapsto> n\<lparr>tn_exec_msec := e\<rparr>) \<and>
      tm_heap s = heap_change_priority (tm_heap t) (word_of_int e) (tn_heap_node n))"
proof -
  obtain n where n: "tm_nodes t a = Some n" using ok by auto
  note I = timer_invD [OF inv] and N = timer_inv_node [OF inv n]
  let ?e = "get_relative_msec t clock + ms" and ?h = "tm_heap t"
  have e: "0 \<le> ?e" "?e < 2 ^ 63" "0 \<le> get_relative_msec t clock" using ok by (auto simp: time_ok_def)
  have "timer_core ((heap_view ?h)(tn_heap_node n \<mapsto> (word_of_int (tn_exec_msec (n\<lparr>tn_exec_msec := ?e\<rparr>)), a)))
    (tm_map t) ((tm_nodes t)(a \<mapsto> n\<lparr>tn_exec_msec := ?e\<rparr>)) (tm_next_id t) (tm_current_id t)"
    using N e by (intro timer_core_modify [OF I(3) n]) auto
  moreover have "heap_inv (heap_change_priority ?h (word_of_int ?e) (tn_heap_node n))"
    "heap_view (heap_change_priority ?h (word_of_int ?e) (tn_heap_node n)) = (heap_view ?h)(tn_heap_node n \<mapsto> (word_of_int ?e, a))"
    using min_heap.change_inv [of ?h] min_heap.change_view [of ?h] I(1,2) N(3) by simp_all
  ultimately show ?thesis
    using n e I(2) by (simp add: s_def timer_delay_def timer_update_def Let_def timer_inv_def same_env_def get_relative_msec_def)
qed

lemma timer_exec_inv:
  assumes "timer_inv t" "cmd_ok t c"
  shows "timer_inv (timer_exec t c)" and "same_env t (timer_exec t c)"
  using assms timer_add_effect [OF assms(1)] timer_remove_effect [OF assms(1)] timer_delay_effect [OF assms(1)]
  by (cases c; simp add: timer_remove_id_def)+

section \<open>Callbacks\<close>

text \<open>The timers that a select at time \<open>now\<close> may run: expired, and not added in the current round.\<close>

definition due :: "int \<Rightarrow> 'c Timer \<Rightarrow> (int \<times> int) set" where
  "due now t = {(tn_exec_msec n, tn_id n) | a n. tm_nodes t a = Some n \<and> tn_exec_msec n \<le> now \<and> tn_round n \<noteq> tm_round t}"

definition no_fresh_due :: "int \<Rightarrow> 'c Timer \<Rightarrow> bool" where
  "no_fresh_due now t \<longleftrightarrow> (\<forall>a n. tm_nodes t a = Some n \<and> tn_round n = tm_round t \<longrightarrow> now < tn_exec_msec n)"

definition round_ok :: "'c Timer \<Rightarrow> bool" where
  "round_ok t \<longleftrightarrow> (\<forall>a n. tm_nodes t a = Some n \<longrightarrow> tn_round n \<le> tm_round t)"

text \<open>
  A call a callback may make while \<open>select\<close> runs at time \<open>now\<close>: any \<open>add\<close>, \<open>remove\<close> and \<open>delay\<close> with
  usable arguments, of any timer, with two exceptions: the clock has not gone back, and a \<open>delay\<close> is
  by a positive time and not of the timer that is running.
\<close>

fun cb_ok :: "int \<Rightarrow> 'c Timer \<Rightarrow> 'c timer_cmd \<Rightarrow> bool" where
  "cb_ok now t (Add clock p rm q msec persistent d cb) \<longleftrightarrow>
     cmd_ok t (Add clock p rm q msec persistent d cb) \<and> now \<le> get_relative_msec t clock"
| "cb_ok now t (Delay clock a ms) \<longleftrightarrow> cmd_ok t (Delay clock a ms) \<and> now \<le> get_relative_msec t clock \<and> 0 < ms \<and>
     map_option tn_id (tm_nodes t a) \<noteq> Some (tm_current_id t)"
| "cb_ok now t c \<longleftrightarrow> cmd_ok t c"

fun cbs_ok :: "int \<Rightarrow> 'c Timer \<Rightarrow> 'c timer_cmd list \<Rightarrow> bool" where
  "cbs_ok now t [] \<longleftrightarrow> True"
| "cbs_ok now t (c # cs) \<longleftrightarrow> cb_ok now t c \<and> cbs_ok now (timer_exec t c) cs"

text \<open>Every callback of a timer with the base time \<open>base\<close>, called in any consistent state, makes only such calls.\<close>

definition callbacks_ok :: "('c \<Rightarrow> 'c Timer \<Rightarrow> addr \<Rightarrow> 'c timer_cmd list) \<Rightarrow> int \<Rightarrow> int \<Rightarrow> bool" where
  "callbacks_ok run base now \<longleftrightarrow>
     (\<forall>t a n. timer_inv t \<and> tm_base_time t = base \<and> tm_nodes t a = Some n \<and> tn_id n = tm_current_id t \<longrightarrow>
     cbs_ok now t (run (tn_callback n) t a))"

text \<open>\<open>running t s a n\<close>: the timer that runs is still on top of the heap, with its expiry unchanged.\<close>

definition running :: "'c Timer \<Rightarrow> addr \<Rightarrow> 'c TimerNode \<Rightarrow> bool" where
  "running t a n \<longleftrightarrow> (\<exists>m. tm_nodes t a = Some m \<and> tn_id m = tn_id n \<and> tn_exec_msec m = tn_exec_msec n \<and>
     tn_interval m = tn_interval n \<and> tn_heap_node m = tn_heap_node n) \<and>
     tn_id n = tm_current_id t \<and> heap_top (tm_heap t) = tn_heap_node n"

definition keeps :: "int \<Rightarrow> 'c Timer \<Rightarrow> 'c Timer \<Rightarrow> bool" where
  "keeps now t s \<longleftrightarrow> timer_inv s \<and> same_env t s \<and> due now s \<subseteq> due now t \<and>
     (no_fresh_due now t \<longrightarrow> no_fresh_due now s) \<and> (round_ok t \<longrightarrow> round_ok s) \<and>
     (\<forall>a n. tn_exec_msec n \<le> now \<and> running t a n \<longrightarrow> running s a n)"

lemma keeps_refl: "timer_inv t \<Longrightarrow> keeps now t t"
  by (simp add: keeps_def same_env_def)

lemma keeps_trans: "keeps now t s \<Longrightarrow> keeps now s u \<Longrightarrow> keeps now t u"
  unfolding keeps_def same_env_def by (metis subset_trans)

lemma timer_top_le:
  assumes inv: "timer_inv t" and a: "tm_nodes t a = Some n" "heap_top (tm_heap t) = tn_heap_node n"
    and e: "tn_exec_msec n \<le> e" "e < 2 ^ 63"
  shows "heap_le MIN_HEAP (word_of_int (tn_exec_msec n)) (word_of_int e)"
  using timer_inv_node(4,5) [OF inv a(1)] e word_of_int_le [of "tn_exec_msec n" e] by simp

lemma keeps_add:
  assumes inv: "timer_inv t" and ok: "cb_ok now t (Add clock p rm q msec persistent d cb)"
  shows "keeps now t (timer_exec t (Add clock p rm q msec persistent d cb))"
proof -
  let ?s = "fst (timer_add t clock p rm q msec persistent d cb)"
  have "cmd_ok t (Add clock p rm q msec persistent d cb)" using ok by simp
  note E = timer_add_effect [OF inv this]
  show ?thesis
  proof (cases "tm_nodes ?s = tm_nodes t \<and> tm_heap ?s = tm_heap t")
    case True
    then show ?thesis using E by (auto simp: keeps_def due_def no_fresh_due_def round_ok_def running_def same_env_def)
  next
    case False
    then obtain n where n: "tm_nodes ?s = (tm_nodes t)(p \<mapsto> n)" "tn_exec_msec n = get_relative_msec t clock + msec"
      "0 < msec" "tn_round n = tm_round t" "heap_room (tm_heap t) rm"
      "tm_heap ?s = fst (heap_push (tm_heap t) rm q (word_of_int (tn_exec_msec n)) p)"
      using E by auto
    have late: "now < tn_exec_msec n" "tn_exec_msec n < 2 ^ 63" using n ok by (auto simp: time_ok_def)
    have "running ?s a m" if m: "tn_exec_msec m \<le> now" "running t a m" for a m
    proof -
      obtain m' where m': "tm_nodes t a = Some m'" "tn_exec_msec m' = tn_exec_msec m" "tn_heap_node m' = tn_heap_node m"
        using m(2) by (auto simp: running_def)
      have "heap_top (tm_heap ?s) = heap_top (tm_heap t)"
        unfolding n(6)
        using timer_inv_node [OF inv m'(1)] m m' n(5) ok late timer_invD [OF inv]
          timer_top_le [OF inv m'(1), of "tn_exec_msec n"]
        by (intro heap_push_top) (auto simp: running_def)
      moreover have "a \<noteq> p" using m'(1) ok by auto
      ultimately show ?thesis using m(2) n(1) E by (auto simp: running_def same_env_def)
    qed
    then show ?thesis
      using E n late by (auto simp: keeps_def due_def no_fresh_due_def round_ok_def same_env_def split: if_splits)
  qed
qed

lemma keeps_remove:
  assumes inv: "timer_inv t"
  shows "keeps now t (fst (timer_remove t a))"
proof -
  let ?s = "fst (timer_remove t a)"
  note E = timer_remove_effect [OF inv, of a]
  consider "?s = t"
    | n where "tm_nodes t a = Some n" "tm_heap ?s = tm_heap t" "tm_nodes ?s = (tm_nodes t)(a \<mapsto> n\<lparr>tn_removed := True\<rparr>)"
    | n where "tm_nodes t a = Some n" "\<not> (0 < tm_current_id t \<and> tn_id n = tm_current_id t)"
        "tm_heap ?s = heap_remove (tm_heap t) (tn_heap_node n)" "tm_nodes ?s = (tm_nodes t)(a := None)"
    using E by blast
  then show ?thesis
  proof cases
    case 1
    then show ?thesis using keeps_refl [OF inv] by simp
  next
    case 2
    then show ?thesis
      using E by (auto simp: keeps_def due_def no_fresh_due_def round_ok_def running_def same_env_def split: if_splits)
  next
    case (3 n)
    have "running ?s b m" if m: "running t b m" for b m
    proof -
      obtain m' where m': "tm_nodes t b = Some m'" "tn_heap_node m' = tn_heap_node m" "tn_id m' = tn_id m"
        using m by (auto simp: running_def)
      note N = timer_inv_node [OF inv m'(1)]
      have ab: "b \<noteq> a" using 3 m' m N(6) by (auto simp: running_def)
      then have "tn_heap_node n \<noteq> heap_top (tm_heap t)"
        using timer_core_id(2) [OF timer_invD(3) [OF inv] 3(1) m'(1)] m m' by (auto simp: running_def)
      then have "heap_top (tm_heap ?s) = heap_top (tm_heap t)"
        unfolding 3(3) using timer_inv_node(3) [OF inv 3(1)] N(11) m m' timer_invD [OF inv]
        by (intro heap_remove_top) (auto simp: running_def)
      then show ?thesis using m ab 3(4) E by (auto simp: running_def same_env_def)
    qed
    then show ?thesis
      using E 3 by (auto simp: keeps_def due_def no_fresh_due_def round_ok_def same_env_def split: if_splits)
  qed
qed

lemma keeps_delay:
  assumes inv: "timer_inv t" and ok: "cb_ok now t (Delay clock a ms)"
  shows "keeps now t (timer_exec t (Delay clock a ms))"
proof -
  let ?s = "timer_delay t clock a ms" and ?e = "get_relative_msec t clock + ms"
  have "cmd_ok t (Delay clock a ms)" using ok by simp
  note E = timer_delay_effect [OF inv this]
  then obtain n where n: "tm_nodes t a = Some n" "tm_nodes ?s = (tm_nodes t)(a \<mapsto> n\<lparr>tn_exec_msec := ?e\<rparr>)"
      "tm_heap ?s = heap_change_priority (tm_heap t) (word_of_int ?e) (tn_heap_node n)"
    by blast
  have late: "now < ?e" "?e < 2 ^ 63" "tn_id n \<noteq> tm_current_id t" using n ok by (auto simp: time_ok_def)
  have "running ?s b m" if m: "tn_exec_msec m \<le> now" "running t b m" for b m
  proof -
    obtain m' where m': "tm_nodes t b = Some m'" "tn_heap_node m' = tn_heap_node m" "tn_id m' = tn_id m"
      "tn_exec_msec m' = tn_exec_msec m"
      using m by (auto simp: running_def)
    note N = timer_inv_node [OF inv m'(1)]
    have ab: "b \<noteq> a" using n(1) m' m late(3) by (auto simp: running_def)
    then have "tn_heap_node n \<noteq> heap_top (tm_heap t)"
      using timer_core_id(2) [OF timer_invD(3) [OF inv] n(1) m'(1)] m m' by (auto simp: running_def)
    moreover have "heap_top (tm_heap t) = tn_heap_node m'" using m m' by (simp add: running_def)
    ultimately have "heap_top (tm_heap ?s) = heap_top (tm_heap t)"
      unfolding n(3) using timer_inv_node(3) [OF inv n(1)] N(3,11) timer_invD [OF inv] m(1) m'(4) late
        timer_top_le [OF inv m'(1), of ?e]
      by (intro heap_change_priority_top) auto
    then show ?thesis using m ab n(2) E by (auto simp: running_def same_env_def)
  qed
  then show ?thesis
    using E n late by (auto simp: keeps_def due_def no_fresh_due_def round_ok_def same_env_def split: if_splits)
qed

lemma keeps_exec: "timer_inv t \<Longrightarrow> cb_ok now t c \<Longrightarrow> keeps now t (timer_exec t c)"
proof (cases c)
  case Add
  then show "timer_inv t \<Longrightarrow> cb_ok now t c \<Longrightarrow> keeps now t (timer_exec t c)" by (simp only: keeps_add)
next
  case Delay
  then show "timer_inv t \<Longrightarrow> cb_ok now t c \<Longrightarrow> keeps now t (timer_exec t c)" by (simp only: keeps_delay)
qed (simp_all add: keeps_remove timer_remove_id_def)

lemma keeps_execs: "timer_inv t \<Longrightarrow> cbs_ok now t cs \<Longrightarrow> keeps now t (foldl timer_exec t cs)"
proof (induction cs arbitrary: t)
  case (Cons c cs)
  have k: "keeps now t (timer_exec t c)" using keeps_exec Cons.prems by auto
  then have "timer_inv (timer_exec t c)" by (simp add: keeps_def)
  then show ?case using Cons.IH [of "timer_exec t c"] Cons.prems keeps_trans [OF k] by simp
qed (simp add: keeps_refl)

section \<open>One turn of the loop\<close>

lemma catch_up_bounds:
  "0 < interval \<Longrightarrow> e \<le> now \<Longrightarrow> now < catch_up now interval e \<and> catch_up now interval e \<le> now + interval"
proof (induction now interval e rule: catch_up.induct)
  case (1 now interval e)
  show ?case
  proof (cases "e + interval \<le> now")
    case True
    then show ?thesis using 1 by (simp add: catch_up.simps [of now interval e])
  next
    case False
    then show ?thesis using 1 by (simp add: catch_up.simps [of now interval e] catch_up.simps [of now interval "e + interval"])
  qed
qed

lemma timer_core_current:
  assumes "timer_core V M N next cur" "\<And>a n. N a = Some n \<Longrightarrow> \<not> tn_removed n" "cur' < next"
  shows "timer_core V M N next cur'"
  using assms by (auto simp: timer_core_def node_ok_def)

lemma removed_only:
  assumes inv: "timer_inv t" and n: "tm_nodes t a = Some n" "tn_id n = tm_current_id t"
    and m: "tm_nodes t b = Some m" "tn_removed m"
  shows "b = a"
  using timer_core_id(1) [OF timer_invD(3) [OF inv] m(1) n(1)] timer_inv_node(10) [OF inv m] n(2) by simp

lemma due_other:
  assumes inv: "timer_inv s" and n: "tm_nodes s a = Some n"
    and N: "tm_nodes u = (tm_nodes s)(a := x)" "tm_round u = tm_round s"
    and x: "\<And>m. x = Some m \<Longrightarrow> now < tn_exec_msec m"
  shows "due now u = due now s - {(tn_exec_msec n, tn_id n)}"
    and "no_fresh_due now s \<Longrightarrow> no_fresh_due now u"
    and "round_ok s \<Longrightarrow> (\<And>m. x = Some m \<Longrightarrow> tn_round m = tn_round n) \<Longrightarrow> round_ok u"
proof (rule set_eqI)
  fix y
  show "y \<in> due now u \<longleftrightarrow> y \<in> due now s - {(tn_exec_msec n, tn_id n)}"
  proof
    assume "y \<in> due now u"
    then obtain b m where m: "y = (tn_exec_msec m, tn_id m)" "tm_nodes u b = Some m" "tn_exec_msec m \<le> now" "tn_round m \<noteq> tm_round s"
      using N by (auto simp: due_def)
    then have b: "b \<noteq> a" "tm_nodes s b = Some m" using x N by (auto split: if_splits)
    then show "y \<in> due now s - {(tn_exec_msec n, tn_id n)}"
      using m timer_core_id(1) [OF timer_invD(3) [OF inv] n, of b m] by (auto simp: due_def)
  next
    assume y: "y \<in> due now s - {(tn_exec_msec n, tn_id n)}"
    then obtain b m where m: "y = (tn_exec_msec m, tn_id m)" "tm_nodes s b = Some m" "tn_exec_msec m \<le> now" "tn_round m \<noteq> tm_round s"
      by (auto simp: due_def)
    then have "tm_nodes u b = Some m" using y n N by auto
    then show "y \<in> due now u" using m N(2) unfolding due_def by force
  qed
next
  assume "no_fresh_due now s"
  then show "no_fresh_due now u" using N x by (auto simp: no_fresh_due_def)
next
  assume "round_ok s" "\<And>m. x = Some m \<Longrightarrow> tn_round m = tn_round n"
  then show "round_ok u" using N n by (auto simp: round_ok_def)
qed

lemma rearm_ok:
  assumes inv: "timer_inv s" and run: "running s a n0" and now: "tn_exec_msec n0 \<le> now" "0 \<le> now" "now < 2 ^ 62"
  shows "\<exists>u b. rearm now (s\<lparr>tm_current_id := -1\<rparr>) (tn_heap_node n0) a = Some (u, b) \<and> timer_inv u \<and>
    same_env (s\<lparr>tm_current_id := -1\<rparr>) u \<and> due now u = due now s - {(tn_exec_msec n0, tn_id n0)} \<and>
    (no_fresh_due now s \<longrightarrow> no_fresh_due now u) \<and> (round_ok s \<longrightarrow> round_ok u)"
proof -
  obtain n where n: "tm_nodes s a = Some n" "tn_id n = tn_id n0" "tn_exec_msec n = tn_exec_msec n0"
    "tn_heap_node n = tn_heap_node n0" "tn_id n = tm_current_id s" "heap_top (tm_heap s) = tn_heap_node n"
    using run by (auto simp: running_def)
  note I = timer_invD [OF inv] and N = timer_inv_node [OF inv n(1)] and C = timer_coreD [OF timer_invD(3) [OF inv]]
  let ?h = "tm_heap s"
  show ?thesis
  proof (cases "tn_interval n > 0 \<and> \<not> tn_removed n")
    case True
    let ?e = "catch_up now (tn_interval n) (tn_exec_msec n)"
    let ?m = "n\<lparr>tn_exec_msec := ?e, tn_exec_count := tn_exec_count n + 1\<rparr>"
    let ?u = "s\<lparr>tm_current_id := -1, tm_nodes := (tm_nodes s)(a \<mapsto> ?m), tm_heap := heap_change_priority ?h (word_of_int ?e) (tn_heap_node n)\<rparr>"
    have e: "now < ?e" "?e \<le> now + tn_interval n" using catch_up_bounds [of "tn_interval n" "tn_exec_msec n" now] True n now by auto
    then have b: "0 \<le> ?e" "?e < 2 ^ 63" using now(2,3) N(9) by simp_all
    have core: "timer_core ((heap_view ?h)(tn_heap_node n \<mapsto> (word_of_int (tn_exec_msec ?m), a))) (tm_map s) ((tm_nodes s)(a \<mapsto> ?m))
      (tm_next_id s) (tm_current_id s)"
      by (rule timer_core_modify [OF I(3) n(1)]) (use b True in simp_all)
    have "\<not> tn_removed m" if "((tm_nodes s)(a \<mapsto> ?m)) b = Some m" for b m
      using that removed_only [OF inv n(1,5), of b m] True by (cases "b = a") auto
    from timer_core_current [OF core this, where cur' = "-1"]
    have "timer_core ((heap_view ?h)(tn_heap_node n \<mapsto> (word_of_int ?e, a))) (tm_map s) ((tm_nodes s)(a \<mapsto> ?m)) (tm_next_id s) (-1)"
      using C(1) by simp
    moreover have "heap_inv (heap_change_priority ?h (word_of_int ?e) (tn_heap_node n))"
      "heap_view (heap_change_priority ?h (word_of_int ?e) (tn_heap_node n)) = (heap_view ?h)(tn_heap_node n \<mapsto> (word_of_int ?e, a))"
      using min_heap.change_inv [of ?h] min_heap.change_view [of ?h] I(1,2) N(3) by simp_all
    ultimately have "timer_inv ?u" using I(2) by (simp add: timer_inv_def)
    moreover have "rearm now (s\<lparr>tm_current_id := -1\<rparr>) (tn_heap_node n0) a = Some (?u, a)"
      using True n by (simp add: rearm_def Let_def)
    ultimately show ?thesis
      using due_other [OF inv n(1), of ?u "Some ?m" now] e n by (auto simp: same_env_def)
  next
    case False
    let ?u = "release_node (s\<lparr>tm_current_id := -1, tm_heap := fst (heap_pop ?h), tm_map := (tm_map s)(tn_id n := None)\<rparr>) a"
    have "\<not> tn_removed m" if "((tm_nodes s)(a := None)) b = Some m" for b m
      using that removed_only [OF inv n(1,5), of b m] by (cases "b = a") auto
    from timer_core_current [OF timer_core_delete [OF I(3) n(1)] this, where cur' = "-1"] have "timer_core ((heap_view ?h)(tn_heap_node n := None)) ((tm_map s)(tn_id n := None)) ((tm_nodes s)(a := None)) (tm_next_id s) (-1)"
      using C(1) by simp
    moreover have "heap_inv (fst (heap_pop ?h))" "heap_view (fst (heap_pop ?h)) = (heap_view ?h)(tn_heap_node n := None)"
      using min_heap.pop_inv [of ?h] min_heap.pop_view [of ?h] I(1,2) N(11) n(6) by auto
    ultimately have "timer_inv ?u" using I(2) by (simp add: timer_inv_def)
    moreover have "rearm now (s\<lparr>tm_current_id := -1\<rparr>) (tn_heap_node n0) a = Some (?u, nullptr)"
      using False n by (auto simp: rearm_def Let_def)
    ultimately show ?thesis
      using due_other [OF inv n(1), of ?u None now] n by (auto simp: same_env_def)
  qed
qed

section \<open>The whole select\<close>

lemma timer_nodes_finite:
  assumes "timer_inv t"
  shows "finite (dom (tm_nodes t))"
proof (rule finite_subset)
  show "dom (tm_nodes t) \<subseteq> (\<lambda>x. snd (the (heap_view (tm_heap t) x))) ` dom (heap_view (tm_heap t))"
  proof
    fix a assume "a \<in> dom (tm_nodes t)"
    then obtain n where "tm_nodes t a = Some n" by auto
    from timer_inv_node(3) [OF assms this]
    show "a \<in> (\<lambda>x. snd (the (heap_view (tm_heap t) x))) ` dom (heap_view (tm_heap t))" by force
  qed
qed (simp add: heap_inv_finite timer_invD(1) [OF assms])

lemma due_finite: "timer_inv t \<Longrightarrow> finite (due now t)"
proof -
  assume "timer_inv t"
  moreover have "due now t \<subseteq> (\<lambda>a. (tn_exec_msec (the (tm_nodes t a)), tn_id (the (tm_nodes t a)))) ` dom (tm_nodes t)"
    by (force simp: due_def)
  ultimately show ?thesis using timer_nodes_finite finite_surj by blast
qed

lemma timer_inv_start:
  assumes inv: "timer_inv t" "tm_current_id t = -1" and n: "tm_nodes t a = Some n"
  shows "timer_inv (t\<lparr>tm_current_id := tn_id n\<rparr>)" and "\<not> tn_removed n"
proof -
  have no: "\<not> tn_removed m" if "tm_nodes t b = Some m" for b m
    using timer_inv_node(6,10) [OF inv(1) that] inv(2) by auto
  then show "\<not> tn_removed n" using n by blast
  show "timer_inv (t\<lparr>tm_current_id := tn_id n\<rparr>)"
    using inv(1) timer_core_current [OF timer_invD(3) [OF inv(1)] no] timer_inv_node(7) [OF inv(1) n]
    by (simp add: timer_inv_def)
qed

lemma timer_top_node:
  assumes inv: "timer_inv t" and top: "heap_top (tm_heap t) \<noteq> nullptr"
  shows "\<exists>a n. heap_view (tm_heap t) (heap_top (tm_heap t)) = Some (word_of_int (tn_exec_msec n), a) \<and>
    tm_nodes t a = Some n \<and> tn_heap_node n = heap_top (tm_heap t) \<and>
    (\<forall>b m. tm_nodes t b = Some m \<longrightarrow> tn_exec_msec n \<le> tn_exec_msec m)"
proof -
  note I = timer_invD [OF inv] and C = timer_coreD [OF timer_invD(3) [OF inv]]
  obtain p a where v: "heap_view (tm_heap t) (heap_top (tm_heap t)) = Some (p, a)"
    using heap_top_in [OF I(1) top] by blast
  then obtain n where n: "tm_nodes t a = Some n" "tn_heap_node n = heap_top (tm_heap t)" using C(5) by blast
  have "tn_exec_msec n \<le> tn_exec_msec m" if m: "tm_nodes t b = Some m" for b m
    using min_heap.top_best [of "tm_heap t" "word_of_int (tn_exec_msec n)" a] top timer_inv_node(3-5) [OF inv n(1)]
      timer_inv_node(3-5) [OF inv m] n(2) I word_of_int_le [of "tn_exec_msec n" "tn_exec_msec m"] by auto
  then show ?thesis using timer_inv_node(3) [OF inv n(1)] n v by auto
qed

lemma fire_ok:
  assumes inv: "timer_inv t" "tm_current_id t = -1" and n: "tm_nodes t a = Some n" "heap_top (tm_heap t) = tn_heap_node n"
    and cb: "callbacks_ok run (tm_base_time t) now" and e: "tn_exec_msec n \<le> now"
  shows "\<exists>s. fire run t a n = s\<lparr>tm_current_id := -1\<rparr> \<and> keeps now (t\<lparr>tm_current_id := tn_id n\<rparr>) s \<and> running s a n \<and>
    (run (tn_callback n) (t\<lparr>tm_current_id := tn_id n\<rparr>) a = [] \<longrightarrow> s = t\<lparr>tm_current_id := tn_id n\<rparr>)"
proof -
  let ?t = "t\<lparr>tm_current_id := tn_id n\<rparr>"
  note S = timer_inv_start [OF inv n(1)]
  have "cbs_ok now ?t (run (tn_callback n) ?t a)"
    using cb S(1) n(1) by (simp add: callbacks_ok_def)
  then have k: "keeps now ?t (foldl timer_exec ?t (run (tn_callback n) ?t a))" by (rule keeps_execs [OF S(1)])
  moreover have "running ?t a n" using n by (simp add: running_def)
  ultimately show ?thesis
    using e S(2) by (intro exI [of _ "foldl timer_exec ?t (run (tn_callback n) ?t a)"]) (auto simp: fire_def Let_def keeps_def)
qed

lemma turn_ok:
  assumes inv: "timer_inv t" "tm_current_id t = -1" and n: "tm_nodes t a = Some n" "heap_top (tm_heap t) = tn_heap_node n"
    and cb: "callbacks_ok run (tm_base_time t) now" and e: "tn_exec_msec n \<le> now" "0 \<le> now" "now < 2 ^ 62"
  shows "\<exists>u b. rearm now (fire run t a n) (heap_top (tm_heap t)) a = Some (u, b) \<and> timer_inv u \<and> same_env t u \<and>
    due now u \<subseteq> due now t - {(tn_exec_msec n, tn_id n)} \<and> (no_fresh_due now t \<longrightarrow> no_fresh_due now u) \<and>
    (round_ok t \<longrightarrow> round_ok u) \<and>
    (run (tn_callback n) (t\<lparr>tm_current_id := tn_id n\<rparr>) a = [] \<longrightarrow> due now u = due now t - {(tn_exec_msec n, tn_id n)})"
proof -
  obtain s where s: "fire run t a n = s\<lparr>tm_current_id := -1\<rparr>" "keeps now (t\<lparr>tm_current_id := tn_id n\<rparr>) s" "running s a n"
    "run (tn_callback n) (t\<lparr>tm_current_id := tn_id n\<rparr>) a = [] \<longrightarrow> s = t\<lparr>tm_current_id := tn_id n\<rparr>"
    using fire_ok [OF inv n cb e(1)] by blast
  moreover have "due now (t\<lparr>tm_current_id := tn_id n\<rparr>) = due now t"
    "no_fresh_due now (t\<lparr>tm_current_id := tn_id n\<rparr>) = no_fresh_due now t"
    "round_ok (t\<lparr>tm_current_id := tn_id n\<rparr>) = round_ok t"
    by (simp_all add: due_def no_fresh_due_def round_ok_def)
  moreover have "timer_inv s" using s(2) by (simp add: keeps_def)
  ultimately show ?thesis
    using rearm_ok [OF _ s(3) e] n(2) inv(2) by (fastforce simp: keeps_def same_env_def)
qed

text \<open>What the loop leaves behind.\<close>

definition select_post :: "bool \<Rightarrow> int \<Rightarrow> 'c Timer \<Rightarrow> 'c Timer \<Rightarrow> addr \<Rightarrow> addr \<Rightarrow> (int \<times> int) list \<Rightarrow> bool" where
  "select_post quiet now t s a tmp new \<longleftrightarrow> timer_inv s \<and> same_env t s \<and> set new \<subseteq> due now t \<and> sorted (map fst new) \<and>
     distinct new \<and> due now s \<subseteq> due now t - set new \<and> (no_fresh_due now t \<longrightarrow> no_fresh_due now s) \<and>
     (round_ok t \<longrightarrow> round_ok s) \<and> (quiet \<longrightarrow> due now t \<subseteq> set new \<union> due now s) \<and>
     tmp = heap_top (tm_heap s) \<and>
     (tmp \<noteq> nullptr \<longrightarrow> (\<exists>n. tm_nodes s a = Some n \<and> tn_heap_node n = tmp \<and> (now < tn_exec_msec n \<or> tn_round n = tm_round s)))"

lemma select_loop_ok:
  assumes "callbacks_ok run base now" "0 \<le> now" "now < 2 ^ 62" and quiet: "quiet \<longrightarrow> (\<forall>cb t a. run cb t a = [])"
  shows "timer_inv t \<Longrightarrow> tm_current_id t = -1 \<Longrightarrow> tm_base_time t = base \<Longrightarrow>
    \<exists>s a tmp new. select_loop run now t x fired = Some (s, a, tmp, fired @ new) \<and>
      select_post quiet now t s a tmp new"
proof (induction "card (due now t)" arbitrary: t x fired rule: less_induct)
  case less
  note inv = less.prems(1,2) and base = less.prems(3)
  let ?top = "heap_top (tm_heap t)"
  show ?case
  proof (cases "?top = nullptr")
    case True
    then show ?thesis using inv by (subst select_loop.simps) (auto simp: select_post_def same_env_def)
  next
    case False
    obtain a n where n: "heap_view (tm_heap t) ?top = Some (word_of_int (tn_exec_msec n), a)" "tm_nodes t a = Some n"
      "tn_heap_node n = ?top" and least: "\<And>b m. tm_nodes t b = Some m \<Longrightarrow> tn_exec_msec n \<le> tn_exec_msec m"
      using timer_top_node [OF inv(1) False] by blast
    show ?thesis
    proof (cases "tn_exec_msec n > now \<or> tn_round n = tm_round t")
      case True
      then show ?thesis using inv False n by (subst select_loop.simps) (auto simp: select_post_def same_env_def Let_def)
    next
      case go: False
      let ?x = "(tn_exec_msec n, tn_id n)"
      have e: "tn_exec_msec n \<le> now" using go by simp
      obtain u b where u: "rearm now (fire run t a n) ?top a = Some (u, b)" "timer_inv u" "same_env t u"
        "due now u \<subseteq> due now t - {?x}" "no_fresh_due now t \<longrightarrow> no_fresh_due now u" "round_ok t \<longrightarrow> round_ok u"
        "quiet \<longrightarrow> due now u = due now t - {?x}"
        using turn_ok [OF inv n(2) n(3) [symmetric] _ e assms(2,3)] assms(1) base quiet by blast
      have x: "?x \<in> due now t" using n(2) go e unfolding due_def by blast
      have "card (due now u) < card (due now t)"
        using psubset_card_mono [OF due_finite [OF inv(1)], of "due now u"] u(4) x by blast
      moreover have "tm_current_id u = -1" "tm_base_time u = base" using u(3) inv(2) base by (simp_all add: same_env_def)
      ultimately obtain s a' tmp new where s: "select_loop run now u b (fired @ [?x]) = Some (s, a', tmp, (fired @ [?x]) @ new)"
        "select_post quiet now u s a' tmp new"
        using less.hyps u(2) by blast
      have "tn_exec_msec n \<le> fst y" if "y \<in> set new" for y
      proof -
        have "y \<in> due now t" using that s(2) u(4) by (auto simp: select_post_def)
        then show ?thesis using least by (auto simp: due_def)
      qed
      then have sorted: "sorted (map fst (?x # new))" using s(2) by (simp add: select_post_def)
      note P = s(2) [unfolded select_post_def]
      have "set (?x # new) \<subseteq> due now t" "distinct (?x # new)" "due now s \<subseteq> due now t - set (?x # new)"
        using P u(4) x by auto
      moreover have "same_env t s" "quiet \<longrightarrow> due now t \<subseteq> set (?x # new) \<union> due now s"
        using P u(3,7) by (auto simp: same_env_def)
      ultimately have "select_post quiet now t s a' tmp (?x # new)"
        unfolding select_post_def using P u(5,6) sorted by blast
      moreover have "select_loop run now t x fired = Some (s, a', tmp, fired @ ?x # new)"
        using s(1) u(1) n(1,2) go False by (subst select_loop.simps) (simp add: Let_def)
      ultimately show ?thesis by blast
    qed
  qed
qed

lemma select_finish_frame [simp]:
  "tm_nodes (select_finish t m) = tm_nodes t" "tm_heap (select_finish t m) = tm_heap t"
  "tm_map (select_finish t m) = tm_map t" "tm_next_id (select_finish t m) = tm_next_id t"
  "tm_current_id (select_finish t m) = tm_current_id t" "tm_round (select_finish t m) = tm_round t + 1"
  "tm_base_time (select_finish t m) = tm_base_time t" "tm_next_msec (select_finish t m) = m"
  "tm_mode t = REACTOR \<Longrightarrow> tm_alarm (select_finish t m) = m"
  by (simp_all add: select_finish_def Let_def) (simp add: timer_set_def)

lemma timer_select_post:
  assumes inv: "timer_inv t" "tm_current_id t = -1"
    and run: "callbacks_ok run (tm_base_time t) (get_relative_msec t clock)" "quiet \<longrightarrow> (\<forall>cb t a. run cb t a = [])"
    and now: "0 \<le> get_relative_msec t clock" "get_relative_msec t clock < 2 ^ 62"
  shows "\<exists>s a tmp fired u. timer_select run clock t = Some (u, fired) \<and>
    select_post quiet (get_relative_msec t clock) t s a tmp fired \<and>
    tm_nodes u = tm_nodes s \<and> tm_heap u = tm_heap s \<and> tm_map u = tm_map s \<and> tm_next_id u = tm_next_id s \<and>
    tm_current_id u = -1 \<and> tm_round u = tm_round t + 1 \<and> tm_base_time u = tm_base_time t \<and>
    (tm_mode t = REACTOR \<longrightarrow> tm_alarm u = tm_next_msec u) \<and>
    tm_next_msec u = (if tmp = nullptr then -1
      else max 1 (tn_exec_msec (the (tm_nodes s a)) - get_relative_msec t clock))"
proof -
  let ?now = "get_relative_msec t clock"
  obtain s a tmp fired where s: "select_loop run ?now t nullptr [] = Some (s, a, tmp, fired)"
    "select_post quiet ?now t s a tmp fired"
    using select_loop_ok [OF run(1) now run(2) inv refl, of nullptr "[]"] by auto
  have e: "tm_round s = tm_round t" "tm_base_time s = tm_base_time t" "tm_current_id s = -1" "tm_mode s = tm_mode t"
    using s(2) inv(2) by (auto simp: select_post_def same_env_def)
  show ?thesis
  proof (cases "tmp = nullptr")
    case True
    with s e show ?thesis
      by (intro exI [of _ s] exI [of _ a] exI [of _ tmp] exI [of _ fired] exI [of _ "select_finish s (-1)"])
        (simp add: timer_select_def Let_def)
  next
    case False
    then obtain n where n: "tm_nodes s a = Some n" using s(2) by (auto simp: select_post_def)
    then have "a \<noteq> nullptr" using timer_inv_node(1) s(2) by (auto simp: select_post_def)
    with s e n False show ?thesis
      by (intro exI [of _ s] exI [of _ a] exI [of _ tmp] exI [of _ fired] exI [of _ "select_finish s (max 1 (tn_exec_msec n - ?now))"])
        (simp add: timer_select_def Let_def max_def)
  qed
qed

lemma timer_inv_cong:
  assumes "timer_inv s" "tm_nodes u = tm_nodes s" "tm_heap u = tm_heap s" "tm_map u = tm_map s"
    "tm_next_id u = tm_next_id s" "tm_current_id u = tm_current_id s"
  shows "timer_inv u"
  using assms by (simp add: timer_inv_def)

text \<open>C12: take a timer whose invariant holds and that no other select is running, a clock within 0 and
  2^62 milliseconds of the base time, and callbacks that may add timers, remove any timer (the running one included) and
  delay other timers by a positive time, but do not delay the running timer, and during which the clock does not go back
  and allocated memory is fresh (\<open>callbacks_ok\<close>). Then a call of \<open>select\<close> returns (no such callback can make it spin or touch
  freed memory), keeps the invariant, and runs each expired timer at most once, in the order of expiry, and none that is
  not expired or was added in the current round.\<close>

theorem timer_select_sound:
  assumes "timer_inv t" "tm_current_id t = -1" and "callbacks_ok run (tm_base_time t) (get_relative_msec t clock)"
    and "0 \<le> get_relative_msec t clock" "get_relative_msec t clock < 2 ^ 62"
  shows "\<exists>u fired. timer_select run clock t = Some (u, fired) \<and> timer_inv u \<and> tm_current_id u = -1 \<and>
    tm_round u = tm_round t + 1 \<and> distinct fired \<and> sorted (map fst fired) \<and>
    set fired \<subseteq> due (get_relative_msec t clock) t"
proof -
  obtain s a tmp fired u where "timer_select run clock t = Some (u, fired)"
    "select_post False (get_relative_msec t clock) t s a tmp fired"
    "tm_nodes u = tm_nodes s" "tm_heap u = tm_heap s" "tm_map u = tm_map s" "tm_next_id u = tm_next_id s"
    "tm_current_id u = -1" "tm_round u = tm_round t + 1"
    using timer_select_post [OF assms(1-3), of False] assms(4,5) by blast
  moreover from this have "timer_inv u"
    using assms(2) by (intro timer_inv_cong [of s u]) (auto simp: select_post_def same_env_def)
  ultimately show ?thesis by (auto simp: select_post_def)
qed

lemma select_post_complete:
  assumes post: "select_post quiet now t s a tmp fired" and "no_fresh_due now t"
  shows "\<And>b m. tm_nodes s b = Some m \<Longrightarrow> now < tn_exec_msec m"
    and "tmp = nullptr \<Longrightarrow> tm_nodes s b = None"
    and "tmp \<noteq> nullptr \<Longrightarrow> \<exists>n. tm_nodes s a = Some n \<and> now < tn_exec_msec n \<and>
      (\<forall>b m. tm_nodes s b = Some m \<longrightarrow> tn_exec_msec n \<le> tn_exec_msec m)"
proof -
  have inv: "timer_inv s" and tmp: "tmp = heap_top (tm_heap s)" and fresh: "no_fresh_due now s"
    using assms by (auto simp: select_post_def)
  show none: "tm_nodes s b = None" if "tmp = nullptr" for b
  proof (rule ccontr)
    assume "tm_nodes s b \<noteq> None"
    then obtain n where "tm_nodes s b = Some n" by blast
    from timer_inv_node(3) [OF inv this] min_heap.top_null [of "tm_heap s"] timer_invD [OF inv] that tmp
    show False by (auto simp: dom_def)
  qed
  show least: "\<exists>n. tm_nodes s a = Some n \<and> now < tn_exec_msec n \<and>
      (\<forall>b m. tm_nodes s b = Some m \<longrightarrow> tn_exec_msec n \<le> tn_exec_msec m)" if top: "tmp \<noteq> nullptr"
  proof -
    obtain n where n: "tm_nodes s a = Some n" "tn_heap_node n = tmp" "now < tn_exec_msec n"
      using post fresh top by (auto simp: select_post_def no_fresh_due_def)
    obtain a' n' where n': "tm_nodes s a' = Some n'" "tn_heap_node n' = tmp"
      "\<And>b m. tm_nodes s b = Some m \<Longrightarrow> tn_exec_msec n' \<le> tn_exec_msec m"
      using timer_top_node [OF inv] top tmp by auto
    then have "n' = n" using timer_core_id(2) [OF timer_invD(3) [OF inv] n(1) n'(1)] n by auto
    then show ?thesis using n n' by blast
  qed
  show "now < tn_exec_msec m" if "tm_nodes s b = Some m" for b m
    using least none that by (cases "tmp = nullptr") force+
qed

text \<open>C13: with callbacks that stay within \<open>callbacks_ok\<close> (they do not delay the running timer, delay others by a positive
  time and see a clock that does not go back), no other select running, a clock in range, and when no expired timer was added in the current round
  (\<open>no_fresh_due\<close>), \<open>select\<close> leaves no expired timer behind, and the next wake-up is the distance to the earliest
  remaining expiry (-1 when there is none).\<close>

theorem timer_select_complete:
  assumes "timer_inv t" "tm_current_id t = -1" and "callbacks_ok run (tm_base_time t) (get_relative_msec t clock)"
    and "0 \<le> get_relative_msec t clock" "get_relative_msec t clock < 2 ^ 62"
    and "no_fresh_due (get_relative_msec t clock) t"
  shows "\<exists>u fired. timer_select run clock t = Some (u, fired) \<and>
    (\<forall>a n. tm_nodes u a = Some n \<longrightarrow> get_relative_msec t clock < tn_exec_msec n) \<and>
    (if \<forall>a. tm_nodes u a = None then tm_next_msec u = -1
     else \<exists>a n. tm_nodes u a = Some n \<and> tm_next_msec u = tn_exec_msec n - get_relative_msec t clock \<and>
       (\<forall>b m. tm_nodes u b = Some m \<longrightarrow> tn_exec_msec n \<le> tn_exec_msec m))"
proof -
  let ?now = "get_relative_msec t clock"
  obtain s a tmp fired u where u: "timer_select run clock t = Some (u, fired)"
    "select_post False ?now t s a tmp fired" "tm_nodes u = tm_nodes s"
    "tm_next_msec u = (if tmp = nullptr then -1 else max 1 (tn_exec_msec (the (tm_nodes s a)) - ?now))"
    using timer_select_post [OF assms(1-3), of False] assms(4,5) by blast
  note P = select_post_complete [OF u(2) assms(6)]
  show ?thesis
  proof (cases "tmp = nullptr")
    case True
    then show ?thesis using u P(2) by auto
  next
    case False
    then obtain n where n: "tm_nodes s a = Some n" "?now < tn_exec_msec n"
      "\<forall>b m. tm_nodes s b = Some m \<longrightarrow> tn_exec_msec n \<le> tn_exec_msec m"
      using P(3) by blast
    moreover have "tm_next_msec u = tn_exec_msec n - ?now" using u(4) False n(1,2) by simp
    moreover have "\<not> (\<forall>a. tm_nodes u a = None)" using n(1) u(3) by (metis option.distinct(1))
    ultimately show ?thesis using u(1,3) P(1) by auto
  qed
qed


text \<open>C23: an expired timer is held back by the round check for at most one select. Take a timer none of whose nodes
  carries a later round than the current one (\<open>round_ok\<close>) and whose round counter does not wrap, and two selects with no
  calls in between, the second at the same time or later, with callbacks that at both times stay within \<open>callbacks_ok\<close>
  (they do not delay the running timer, delay others by a positive time and see a clock that does not go back). Both
  return, and no timer that has expired at the time of the second is left.\<close>

theorem timer_select_twice:
  assumes "timer_inv t" "tm_current_id t = -1" and "round_ok t" "tm_round t < tm_round t + 1"
    and "callbacks_ok run (tm_base_time t) (get_relative_msec t clock)" "callbacks_ok run (tm_base_time t) (get_relative_msec t clock2)"
    and "0 \<le> get_relative_msec t clock" "get_relative_msec t clock \<le> get_relative_msec t clock2"
    and "get_relative_msec t clock2 < 2 ^ 62"
  shows "\<exists>u f v g. timer_select run clock t = Some (u, f) \<and> timer_select run clock2 u = Some (v, g) \<and>
    (\<forall>a n. tm_nodes v a = Some n \<longrightarrow> get_relative_msec t clock2 < tn_exec_msec n)"
proof -
  obtain s a tmp f u where u: "timer_select run clock t = Some (u, f)"
    "select_post False (get_relative_msec t clock) t s a tmp f" "tm_nodes u = tm_nodes s" "tm_heap u = tm_heap s"
    "tm_map u = tm_map s" "tm_next_id u = tm_next_id s" "tm_current_id u = -1" "tm_round u = tm_round t + 1"
    "tm_base_time u = tm_base_time t"
    using timer_select_post [OF assms(1,2,5), of False] assms(7-9) by auto
  have inv: "timer_inv u"
    using u assms(2) by (intro timer_inv_cong [of s u]) (auto simp: select_post_def same_env_def)
  have "tn_round n \<le> tm_round t" if "tm_nodes u b = Some n" for b n
    using u(2,3) that assms(3) by (auto simp: select_post_def same_env_def round_ok_def)
  then have fresh: "no_fresh_due (get_relative_msec t clock2) u"
    using u(8) assms(4) by (force simp: no_fresh_due_def)
  have r: "get_relative_msec u clock2 = get_relative_msec t clock2" using u(9) by (simp add: get_relative_msec_def)
  obtain s2 a2 tmp2 g v where v: "timer_select run clock2 u = Some (v, g)"
    "select_post False (get_relative_msec t clock2) u s2 a2 tmp2 g" "tm_nodes v = tm_nodes s2"
    using timer_select_post [OF inv u(7), of run clock2 False] assms(6-9) r u(9) by auto
  show ?thesis using u(1) v(1,3) select_post_complete(1) [OF v(2) fresh] by auto
qed

section \<open>Reachable states\<close>

inductive timer_reach :: "'c Timer \<Rightarrow> 'c Timer \<Rightarrow> bool" for t0 where
  start: "timer_reach t0 t0"
| call: "timer_reach t0 t \<Longrightarrow> cmd_ok t c \<Longrightarrow> timer_reach t0 (timer_exec t c)"
| select: "timer_reach t0 t \<Longrightarrow> callbacks_ok run (tm_base_time t) (get_relative_msec t clock) \<Longrightarrow> 0 \<le> get_relative_msec t clock \<Longrightarrow>
    get_relative_msec t clock < 2 ^ 62 \<Longrightarrow> timer_select run clock t = Some (u, fired) \<Longrightarrow> timer_reach t0 u"
| reinit: "timer_reach t0 t \<Longrightarrow> timer_reach t0 (timer_reinit manually_trigger have_reactor t)"

lemma timer_inv_new:
  assumes "length mem = 1025"
  shows "timer_inv (timer_new mem clock alarm manually_trigger have_reactor)"
    and "tm_current_id (timer_new mem clock alarm manually_trigger have_reactor) = -1"
  using heap_inv_new [of mem 1024 MIN_HEAP] assms
  by (simp_all add: timer_inv_def timer_new_def timer_init_def timer_core_def)

lemma timer_reinit_frame [simp]:
  "tm_nodes (timer_reinit m r t) = tm_nodes t" "tm_heap (timer_reinit m r t) = tm_heap t"
  "tm_map (timer_reinit m r t) = tm_map t" "tm_next_id (timer_reinit m r t) = tm_next_id t"
  "tm_current_id (timer_reinit m r t) = tm_current_id t" "tm_round (timer_reinit m r t) = tm_round t"
  by (simp_all add: timer_reinit_def timer_init_def timer_close_def Let_def split: timer_mode.split)

lemma timer_reach_ok:
  "timer_reach t0 t \<Longrightarrow> timer_inv t0 \<Longrightarrow> tm_current_id t0 = -1 \<Longrightarrow> timer_inv t \<and> tm_current_id t = -1"
proof (induction rule: timer_reach.induct)
  case (call t c)
  then show ?case using timer_exec_inv [of t c] by (simp add: same_env_def)
next
  case (select t run clock u fired)
  then obtain s a tmp where "select_post False (get_relative_msec t clock) t s a tmp fired" "tm_nodes u = tm_nodes s"
    "tm_heap u = tm_heap s" "tm_map u = tm_map s" "tm_next_id u = tm_next_id s" "tm_current_id u = -1"
    using timer_select_post [of t run clock False] by auto
  then show ?case using select by (auto simp: select_post_def same_env_def intro: timer_inv_cong [of s u])
next
  case (reinit t m r)
  then show ?case using timer_inv_cong [of t "timer_reinit m r t"] by simp
qed simp

text \<open>\<open>count()\<close> is the size of the id map.\<close>

definition timer_count :: "'c Timer \<Rightarrow> nat" where
  "timer_count t = card (dom (tm_map t))"

lemma timer_count_heap:
  assumes inv: "timer_inv t"
  shows "timer_count t = heap_count (tm_heap t)"
proof -
  note C = timer_coreD [OF timer_invD(3) [OF inv]]
  have "bij_betw (\<lambda>i. tn_heap_node (the (tm_nodes t (the (tm_map t i))))) (dom (tm_map t)) (dom (heap_view (tm_heap t)))"
  proof (intro bij_betwI')
    fix i j assume "i \<in> dom (tm_map t)" "j \<in> dom (tm_map t)"
    then obtain a n b m where "tm_map t i = Some a" "tm_nodes t a = Some n" "tn_id n = i"
      "tm_map t j = Some b" "tm_nodes t b = Some m" "tn_id m = j" using C(4) by blast
    then show "tn_heap_node (the (tm_nodes t (the (tm_map t i)))) = tn_heap_node (the (tm_nodes t (the (tm_map t j)))) \<longleftrightarrow> i = j"
      using timer_core_id [OF timer_invD(3) [OF inv], of a n b m] by auto
  next
    fix i assume "i \<in> dom (tm_map t)"
    then show "tn_heap_node (the (tm_nodes t (the (tm_map t i)))) \<in> dom (heap_view (tm_heap t))"
      using C(4) timer_inv_node(3) [OF inv] by fastforce
  next
    fix x assume "x \<in> dom (heap_view (tm_heap t))"
    then obtain a n where "tm_nodes t a = Some n" "tn_heap_node n = x" using C(5) by fastforce
    then show "\<exists>i\<in>dom (tm_map t). x = tn_heap_node (the (tm_nodes t (the (tm_map t i))))"
      using timer_inv_node(2) [OF inv, of a n] by (intro bexI [of _ "tn_id n"]) auto
  qed
  then show ?thesis
    using bij_betw_same_card heap_count_card [OF timer_invD(1) [OF inv]] by (fastforce simp: timer_count_def)
qed

text \<open>C14: in every state that a new timer reaches by calls of add, remove, clear and delay with fresh memory and times in
  range, by selects whose callbacks stay within \<open>callbacks_ok\<close> (they do not delay the running timer, delay others by a
  positive time and see a clock that does not go back), and by reinit, the heap, the id map and the nodes agree, no timer is
  marked as running, and \<open>count()\<close> is the number of heap entries.\<close>

theorem timer_reach_inv:
  assumes "length mem = 1025" and "timer_reach (timer_new mem clock alarm manually_trigger have_reactor) t"
  shows "timer_inv t \<and> tm_current_id t = -1 \<and> timer_count t = heap_count (tm_heap t)"
  using timer_reach_ok [OF assms(2) timer_inv_new [OF assms(1)]] timer_count_heap by auto

text \<open>The destructor frees every node.\<close>

lemma timer_destroy_nodes:
  assumes "timer_inv t" "set order = ran (tm_map t)"
  shows "tm_nodes (timer_destroy t order) = (\<lambda>_. None)"
proof -
  have "tm_nodes (fold (\<lambda>a s. release_node s a) order s) = (\<lambda>a. if a \<in> set order then None else tm_nodes s a)" for s :: "'a Timer"
    by (induction order arbitrary: s) (auto simp: fun_eq_iff)
  moreover have "tm_nodes (timer_close t) = tm_nodes t" by (simp add: timer_close_def split: timer_mode.split)
  moreover have "tm_nodes t a = None" if "a \<notin> ran (tm_map t)" for a
    using that timer_inv_node(2) [OF assms(1), of a] by (cases "tm_nodes t a") (auto simp: ran_def)
  ultimately show ?thesis using assms(2) by (auto simp: timer_destroy_def fun_eq_iff)
qed


section \<open>Examples\<close>

definition demo_start :: "nat Timer" where
  "demo_start = timer_new (replicate 1025 0) 0 0 True True"

definition demo_calls :: "nat timer_cmd list" where
  "demo_calls = [Add 0 100 None 10 5 False 0 1, Add 0 101 None 11 7 True 0 2, Add 0 102 None 12 9 False 0 3]"

definition demo :: "nat Timer" where
  "demo = foldl timer_exec demo_start demo_calls"

lemmas timer_eval = demo_start_def demo_calls_def demo_def timer_new_def timer_init_def timer_add_def [unfolded Let_def] timer_set_def
  get_relative_msec_def release_node_def timer_remove_def [unfolded Let_def] timer_remove_id_def timer_get_def
  timer_delay_def [unfolded Let_def] timer_update_def nth_list_update

definition demo1 :: "nat Timer" where
  "demo1 = demo\<lparr>tm_round := 1, tm_next_msec := 4\<rparr>"

text \<open>Callback 1 adds a timer and removes timer 3.\<close>

definition demo_run :: "nat \<Rightarrow> nat Timer \<Rightarrow> addr \<Rightarrow> nat timer_cmd list" where
  "demo_run c t a =
     (if c = 1 \<and> tm_nodes t 200 = None \<and> heap_view (tm_heap t) 50 = None \<and> heap_room (tm_heap t) None
      then [Add 20 200 None 50 4 False 0 2, Clear 3] else [])"

lemma demo_run_ok: "callbacks_ok demo_run 0 20"
  by (auto simp: callbacks_ok_def demo_run_def time_ok_def get_relative_msec_def)

lemma demo_reach: "timer_reach demo_start demo"
proof -
  have "cmd_ok demo_start (demo_calls ! 0)" "cmd_ok (timer_exec demo_start (demo_calls ! 0)) (demo_calls ! 1)"
    "cmd_ok (timer_exec (timer_exec demo_start (demo_calls ! 0)) (demo_calls ! 1)) (demo_calls ! 2)"
    by (simp_all add: timer_eval heap_eval time_ok_def split del: if_split)
  from timer_reach.call [OF timer_reach.call [OF timer_reach.call [OF timer_reach.start this(1)] this(2)] this(3)]
  show ?thesis by (simp add: demo_def demo_calls_def)
qed

lemma demo_wait: "timer_select (\<lambda>_ _ _. []) 1 demo = Some (demo1, [])"
  by (simp add: timer_select_def demo1_def select_finish_def select_loop.simps timer_eval heap_eval split del: if_split)

lemma demo1_reach: "timer_reach demo_start demo1"
  by (rule timer_reach.select [OF demo_reach _ _ _ demo_wait]) (simp_all add: callbacks_ok_def timer_eval heap_eval split del: if_split)

lemma demo_start_facts: "timer_inv demo_start" "tm_current_id demo_start = -1"
  unfolding demo_start_def by (rule timer_inv_new, simp)+

lemma demo1_facts:
  "timer_inv demo1" "tm_current_id demo1 = -1" "get_relative_msec demo1 20 = 20" "tm_base_time demo1 = 0"
  using timer_reach_ok [OF demo1_reach demo_start_facts]
  by (simp_all only:) (simp_all add: demo1_def timer_eval heap_eval split del: if_split)

lemma demo1_fresh: "no_fresh_due 20 demo1" "round_ok demo1" "tm_round demo1 < tm_round demo1 + 1"
  by (simp_all add: no_fresh_due_def round_ok_def demo1_def timer_eval heap_eval split del: if_split) (auto split: if_splits)

lemma demo_fires: "map_option snd (timer_select demo_run 20 demo1) = Some [(5, 1), (7, 2)]"
  by (simp add: timer_select_def demo1_def demo_run_def select_finish_def select_loop.simps [of _ 20] fire_def rearm_def catch_up.simps timer_eval heap_eval Let_def split del: if_split)

theorem timer_select_sound_witness:
  "timer_inv demo1 \<and> callbacks_ok demo_run (tm_base_time demo1) (get_relative_msec demo1 20) \<and>
    timer_select demo_run 20 demo1 \<noteq> None \<and> map_option snd (timer_select demo_run 20 demo1) = Some [(5, 1), (7, 2)] \<and>
    set [(5, 1), (7, 2)] \<subseteq> due 20 demo1"
  using timer_select_sound [of demo1 demo_run 20] demo1_facts demo_run_ok demo_fires by auto

theorem timer_select_complete_witness:
  "no_fresh_due 20 demo1 \<and> (\<exists>u fired. timer_select demo_run 20 demo1 = Some (u, fired) \<and>
    (\<forall>a n. tm_nodes u a = Some n \<longrightarrow> 20 < tn_exec_msec n))"
  using timer_select_complete [of demo1 demo_run 20] demo1_facts demo_run_ok demo1_fresh by auto


theorem timer_select_twice_witness:
  "round_ok demo1 \<and> (\<exists>u f v g. timer_select demo_run 20 demo1 = Some (u, f) \<and> timer_select demo_run 20 u = Some (v, g) \<and>
    (\<forall>a n. tm_nodes v a = Some n \<longrightarrow> 20 < tn_exec_msec n))"
  using timer_select_twice [of demo1 demo_run 20 20] demo1_facts demo_run_ok demo1_fresh by auto

theorem timer_reach_inv_witness: "timer_inv demo1 \<and> timer_count demo1 = heap_count (tm_heap demo1) \<and> heap_count (tm_heap demo1) = 3"
proof -
  have "heap_count (tm_heap demo1) = 3" by (simp add: demo1_def timer_eval heap_eval split del: if_split)
  then show ?thesis
    using timer_reach_inv [of "replicate 1025 0" 0 0 True True demo1] demo1_reach by (simp add: demo_start_def)
qed

section \<open>A callback that delays its own timer\<close>

text \<open>
  The turn of a one-shot timer \<open>a\<close> whose callback delays \<open>a\<close> itself to the time \<open>e\<close>, while another timer
  expires before \<open>e\<close>: the entry that \<open>pop\<close> removes is that of a timer \<open>b\<close>, and the node that is freed is \<open>a\<close>.
\<close>

lemma self_delay_turn:
  assumes inv: "timer_inv t" "tm_current_id t = -1"
    and n: "tm_nodes t a = Some n" "tn_interval n = 0"
    and cb: "run (tn_callback n) (t\<lparr>tm_current_id := tn_id n\<rparr>) a = [Delay clock a ms]" "cmd_ok t (Delay clock a ms)"
    and e: "e = get_relative_msec t clock + ms"
    and c: "tm_nodes t c = Some mc" "c \<noteq> a" "tn_exec_msec mc < e"
  shows "\<exists>u b m. rearm now (fire run t a n) tmp a = Some (u, nullptr) \<and> b \<noteq> a \<and> tm_nodes t b = Some m \<and> tn_exec_msec m < e \<and>
    heap_inv (tm_heap u) \<and> hp_type (tm_heap u) = MIN_HEAP \<and> tm_nodes u = (tm_nodes t)(a := None) \<and> tm_round u = tm_round t \<and>
    heap_view (tm_heap u) = (heap_view (tm_heap t))(tn_heap_node n \<mapsto> (word_of_int e, a), tn_heap_node m := None)"
proof -
  let ?t = "t\<lparr>tm_current_id := tn_id n\<rparr>"
  note S = timer_inv_start [OF inv n(1)]
  have ok: "cmd_ok ?t (Delay clock a ms)" using cb(2) by (simp add: time_ok_def get_relative_msec_def)
  define s where "s = timer_delay ?t clock a ms"
  have e': "get_relative_msec ?t clock + ms = e" by (simp add: e get_relative_msec_def)
  have s: "timer_inv s" "same_env ?t s" "tm_nodes s = (tm_nodes t)(a \<mapsto> n\<lparr>tn_exec_msec := e\<rparr>)"
    and h: "tm_heap s = heap_change_priority (tm_heap t) (word_of_int e) (tn_heap_node n)"
    using timer_delay_effect [OF S(1) ok] n(1) e' by (auto simp: s_def)
  have fire: "fire run t a n = s\<lparr>tm_current_id := -1\<rparr>" using S(2) cb(1) by (simp add: fire_def Let_def s_def)
  note I = timer_invD [OF inv(1)] and I' = timer_invD [OF s(1)] and N = timer_inv_node [OF inv(1) n(1)]
  have v: "heap_view (tm_heap s) = (heap_view (tm_heap t))(tn_heap_node n \<mapsto> (word_of_int e, a))"
    using h min_heap.change_view [of "tm_heap t"] I N(3) by simp
  have top: "heap_top (tm_heap s) \<noteq> nullptr"
    using min_heap.top_null [of "tm_heap s"] I' v by (auto simp: dom_def)
  then obtain b m where b: "tm_nodes s b = Some m" "tn_heap_node m = heap_top (tm_heap s)"
    "\<And>x m'. tm_nodes s x = Some m' \<Longrightarrow> tn_exec_msec m \<le> tn_exec_msec m'"
    using timer_top_node [OF s(1)] by blast
  have "tn_exec_msec m < e" using b(3) [of c mc] c s(3) by simp
  then have ba: "b \<noteq> a" using b(1) s(3) by (auto split: if_splits)
  define u where "u = release_node (s\<lparr>tm_current_id := -1, tm_heap := fst (heap_pop (tm_heap s)), tm_map := (tm_map s)(tn_id n := None)\<rparr>) a"
  have "rearm now (fire run t a n) tmp a = Some (u, nullptr)"
    using s(3) n(2) by (simp add: fire rearm_def u_def)
  moreover have "heap_inv (tm_heap u)" "hp_type (tm_heap u) = MIN_HEAP"
    "heap_view (tm_heap u) = (heap_view (tm_heap t))(tn_heap_node n \<mapsto> (word_of_int e, a), tn_heap_node m := None)"
    using min_heap.pop_inv [of "tm_heap s"] min_heap.pop_view [of "tm_heap s"] I' top v b(2) by (simp_all add: u_def)
  moreover have "tm_nodes u = (tm_nodes t)(a := None)" "tm_round u = tm_round t"
    using s(2,3) by (simp_all add: u_def same_env_def)
  ultimately show ?thesis using ba b(1) s(3) \<open>tn_exec_msec m < e\<close> by auto
qed

text \<open>The timer that loses its heap entry is the one node with no entry; the freed node keeps its entry.\<close>

lemma timer_entry_node:
  assumes "timer_inv t" "heap_view (tm_heap t) x = Some (p, c)"
  shows "\<exists>m. tm_nodes t c = Some m \<and> tn_heap_node m = x \<and> p = word_of_int (tn_exec_msec m)"
  using timer_coreD(5) [OF timer_invD(3) [OF assms(1)], of x p c] assms timer_inv_node(3) [OF assms(1)] by fastforce

lemma timer_entry_inj:
  assumes "timer_inv t" "tm_nodes t a = Some n" "tm_nodes t b = Some m" "tn_heap_node n = tn_heap_node m"
  shows "a = b"
  using timer_inv_node(3) [OF assms(1,2)] timer_inv_node(3) [OF assms(1,3)] assms(4) by auto

text \<open>
  The heap after that turn, for any heap that holds the entries of \<open>t\<close> with \<open>a\<close> moved to \<open>e\<close> and \<open>b\<close> taken out: on top is
  the freed node when no other timer expires before \<open>e\<close>, and otherwise a timer that still exists.
\<close>

lemma self_delay_top:
  assumes inv: "timer_inv t" and a: "tm_nodes t a = Some n" and b: "tm_nodes t b = Some m" "b \<noteq> a"
    and h: "heap_inv h" "hp_type h = MIN_HEAP"
    and v: "heap_view h = (heap_view (tm_heap t))(tn_heap_node n \<mapsto> (word_of_int e, a), tn_heap_node m := None)"
    and e: "0 \<le> e" "e < 2 ^ 63"
  shows "\<exists>p x. heap_top h \<noteq> nullptr \<and> heap_view h (heap_top h) = Some (p, x) \<and>
      (x = a \<and> (\<forall>d md. d \<noteq> a \<and> d \<noteq> b \<and> tm_nodes t d = Some md \<longrightarrow> e \<le> tn_exec_msec md) \<or>
       (\<exists>mx. x \<noteq> a \<and> x \<noteq> b \<and> tm_nodes t x = Some mx \<and> tn_exec_msec mx \<le> e))"
    and "heap_view h (tn_heap_node n) = Some (word_of_int e, a)" and "\<forall>y r. heap_view h y \<noteq> Some (r, b)"
proof -
  have nm: "tn_heap_node n \<noteq> tn_heap_node m" using timer_entry_inj [OF inv a b(1)] b(2) by auto
  show va: "heap_view h (tn_heap_node n) = Some (word_of_int e, a)" using v nm by simp
  show "\<forall>y r. heap_view h y \<noteq> Some (r, b)"
    using timer_entry_node [OF inv, of _ _ b] b v by (fastforce split: if_splits)
  have top: "heap_top h \<noteq> nullptr" using min_heap.top_null [of h] va h by auto
  then obtain p x where x: "heap_view h (heap_top h) = Some (p, x)" using min_heap.top_in [of h] h by blast
  have best: "p \<le> r" if "heap_view h y = Some (r, d)" for y r d
    using min_heap.top_best [of h p x y r d] top x that h by simp
  have "\<exists>mx. x \<noteq> b \<and> tm_nodes t x = Some mx \<and> tn_exec_msec mx \<le> e" if "x \<noteq> a"
  proof -
    have "heap_view (tm_heap t) (heap_top h) = Some (p, x)" "heap_top h \<noteq> tn_heap_node m"
      using x v that by (auto split: if_splits)
    then obtain mx where mx: "tm_nodes t x = Some mx" "p = word_of_int (tn_exec_msec mx)" "x \<noteq> b"
      using timer_entry_node [OF inv] b(1) by fastforce
    then show ?thesis
      using best [OF va] word_of_int_le [of "tn_exec_msec mx" e] timer_inv_node(4,5) [OF inv mx(1)] e by auto
  qed
  moreover have "e \<le> tn_exec_msec md" if "x = a" "d \<noteq> a" "d \<noteq> b" "tm_nodes t d = Some md" for d md
  proof -
    have "heap_top h = tn_heap_node n"
    proof (rule ccontr)
      assume "heap_top h \<noteq> tn_heap_node n"
      then have "heap_view (tm_heap t) (heap_top h) = Some (p, a)" using x v that(1) by (auto split: if_splits)
      then show False using timer_entry_node [OF inv] a \<open>heap_top h \<noteq> tn_heap_node n\<close> by fastforce
    qed
    moreover have "heap_view h (tn_heap_node md) = Some (word_of_int (tn_exec_msec md), d)"
      using timer_inv_node(3) [OF inv that(4)] timer_entry_inj [OF inv that(4) a] timer_entry_inj [OF inv that(4) b(1)] that(2,3) v by auto
    ultimately have "(word_of_int e :: u64) \<le> word_of_int (tn_exec_msec md)" using best va x by fastforce
    then show ?thesis using word_of_int_le [of e "tn_exec_msec md"] timer_inv_node(4,5) [OF inv that(4)] e by simp
  qed
  ultimately show "\<exists>p x. heap_top h \<noteq> nullptr \<and> heap_view h (heap_top h) = Some (p, x) \<and>
      (x = a \<and> (\<forall>d md. d \<noteq> a \<and> d \<noteq> b \<and> tm_nodes t d = Some md \<longrightarrow> e \<le> tn_exec_msec md) \<or>
       (\<exists>mx. x \<noteq> a \<and> x \<noteq> b \<and> tm_nodes t x = Some mx \<and> tn_exec_msec mx \<le> e))"
    using top x by (cases "x = a") auto
qed

text \<open>C25: \<open>select\<close> drops a one-shot timer with \<open>heap.pop()\<close>, which takes whatever is on top. Take any consistent timer
  whose earliest timer \<open>a\<close> is one-shot and due and whose callback delays \<open>a\<close> itself to the time \<open>e\<close>, when no other timer is
  due yet and none expires exactly at \<open>e\<close>. If two or more other timers expire before \<open>e\<close>, \<open>select\<close> returns with one of them
  still existing but without a heap entry, so that no later select finds it, and with a heap entry for the freed node \<open>a\<close>.
  If exactly one does, \<open>select\<close> itself reads the freed node (the model's loop has no result).\<close>

theorem timer_self_delay_loses_timer:
  assumes inv: "timer_inv t" "tm_current_id t = -1"
    and a: "heap_top (tm_heap t) = tn_heap_node n" "tm_nodes t a = Some n" "tn_interval n = 0"
    and due: "tn_exec_msec n \<le> get_relative_msec t clock" "tn_round n \<noteq> tm_round t"
    and cb: "run (tn_callback n) (t\<lparr>tm_current_id := tn_id n\<rparr>) a = [Delay clock2 a ms]" "cmd_ok t (Delay clock2 a ms)"
    and e: "e = get_relative_msec t clock2 + ms"
    and others: "\<forall>b m. b \<noteq> a \<and> tm_nodes t b = Some m \<longrightarrow> get_relative_msec t clock < tn_exec_msec m \<and> tn_exec_msec m \<noteq> e"
    and E: "E = {b. b \<noteq> a \<and> (\<exists>m. tm_nodes t b = Some m \<and> tn_exec_msec m < e)}"
  shows "(2 \<le> card E \<longrightarrow> (\<exists>u b m p. timer_select run clock t = Some (u, [(tn_exec_msec n, tn_id n)]) \<and>
      b \<in> E \<and> tm_nodes u b = Some m \<and> (\<forall>x r. heap_view (tm_heap u) x \<noteq> Some (r, b)) \<and>
      tm_nodes u a = None \<and> heap_view (tm_heap u) (tn_heap_node n) = Some (p, a))) \<and>
    (card E = 1 \<longrightarrow> timer_select run clock t = None)"
proof (cases "E = {}")
  case False
  let ?now = "get_relative_msec t clock" and ?top = "heap_top (tm_heap t)" and ?f = "[(tn_exec_msec n, tn_id n)]"
  obtain c mc where c: "tm_nodes t c = Some mc" "c \<noteq> a" "tn_exec_msec mc < e" using False E by auto
  obtain u b m where u: "rearm ?now (fire run t a n) ?top a = Some (u, nullptr)" "b \<noteq> a" "tm_nodes t b = Some m" "tn_exec_msec m < e"
    "heap_inv (tm_heap u)" "hp_type (tm_heap u) = MIN_HEAP" "tm_nodes u = (tm_nodes t)(a := None)"
    and v: "heap_view (tm_heap u) = (heap_view (tm_heap t))(tn_heap_node n \<mapsto> (word_of_int e, a), tn_heap_node m := None)"
    using self_delay_turn [where run = run, OF inv a(2,3) cb e c, of ?now ?top] by auto
  have "0 \<le> e" "e < 2 ^ 63" using cb(2) e by (auto simp: time_ok_def)
  note T = self_delay_top [OF inv(1) a(2) u(3,2,5,6) v this]
  obtain p x where x: "heap_top (tm_heap u) \<noteq> nullptr" "heap_view (tm_heap u) (heap_top (tm_heap u)) = Some (p, x)"
    "x = a \<and> (\<forall>d md. d \<noteq> a \<and> d \<noteq> b \<and> tm_nodes t d = Some md \<longrightarrow> e \<le> tn_exec_msec md) \<or>
     (\<exists>mx. x \<noteq> a \<and> x \<noteq> b \<and> tm_nodes t x = Some mx \<and> tn_exec_msec mx \<le> e)" using T(1) by blast
  have first: "select_loop run ?now t nullptr [] = select_loop run ?now u nullptr ?f"
    using u(1) timer_inv_node(3,11) [OF inv(1) a(2)] a due by (subst select_loop.simps) (simp add: Let_def)
  have b: "b \<in> E" using u(2-4) E by auto
  show ?thesis
  proof (cases "x = a")
    case True
    then have "E \<subseteq> {b}" using x(3) E by fastforce
    then have "card E \<le> 1" using card_mono [of "{b}" E] by simp
    moreover have "select_loop run ?now u nullptr ?f = None"
      using x(1,2) u(7) True by (subst select_loop.simps) (simp add: Let_def)
    ultimately show ?thesis using first by (simp add: timer_select_def)
  next
    case xa: False
    then obtain mx where mx: "x \<noteq> b" "tm_nodes t x = Some mx" "tn_exec_msec mx \<le> e" using x(3) by blast
    then have brk: "?now < tn_exec_msec mx" "x \<noteq> nullptr" "x \<in> E"
      using others xa timer_inv_node(1) [OF inv(1) mx(2)] E by force+
    then have "card E \<noteq> 1" using b mx(1) by (auto simp: card_1_singleton_iff)
    moreover have "select_loop run ?now u nullptr ?f = Some (u, x, heap_top (tm_heap u), ?f)"
      using x(1,2) mx brk u(7) xa by (subst select_loop.simps) (simp add: Let_def)
    then have "timer_select run clock t = Some (select_finish u (tn_exec_msec mx - ?now), ?f)"
      using first x(1) brk mx u(7) xa by (simp add: timer_select_def)
    ultimately show ?thesis using b u(2,3,7) T(2,3) by auto
  qed
qed simp

text \<open>In the example timer 1 expires at 5 and its callback delays it by 100, past timers 2 and 3 (7 and 9).\<close>

definition self_delay_cb :: "nat \<Rightarrow> nat Timer \<Rightarrow> addr \<Rightarrow> nat timer_cmd list" where
  "self_delay_cb c t a = (if c = 1 then [Delay 5 a 100] else [])"

theorem timer_self_delay_loses_timer_witness:
  "timer_reach demo_start demo1 \<and> (\<exists>u b m p. timer_select self_delay_cb 5 demo1 = Some (u, [(5, 1)]) \<and> b \<in> {101, 102} \<and>
      tm_nodes u b = Some m \<and> (\<forall>x r. heap_view (tm_heap u) x \<noteq> Some (r, b)) \<and>
      tm_nodes u 100 = None \<and> heap_view (tm_heap u) 10 = Some (p, 100))"
proof -
  let ?n = "\<lparr>tn_id = 1, tn_type = TYPE_KERNEL, tn_exec_msec = 5, tn_interval = 0, tn_exec_count = 0, tn_round = 0,
    tn_removed = False, tn_heap_node = 10, tn_callback = 1::nat, tn_data = 0, tn_destructor = None\<rparr>"
  have nodes: "tm_nodes demo1 = [100 \<mapsto> ?n, 101 \<mapsto> ?n\<lparr>tn_id := 2, tn_exec_msec := 7, tn_interval := 7, tn_heap_node := 11, tn_callback := 2\<rparr>,
      102 \<mapsto> ?n\<lparr>tn_id := 3, tn_exec_msec := 9, tn_heap_node := 12, tn_callback := 3\<rparr>]"
    and top: "heap_top (tm_heap demo1) = 10" and rel: "get_relative_msec demo1 5 = 5" "tm_round demo1 = 1"
    by (simp_all add: demo1_def timer_eval heap_eval fun_eq_iff split del: if_split)
  have E: "{b. b \<noteq> 100 \<and> (\<exists>m. tm_nodes demo1 b = Some m \<and> tn_exec_msec m < 105)} = {101, 102}"
    by (auto simp: nodes split: if_splits)
  have ok: "cmd_ok demo1 (Delay 5 100 100)" by (simp add: time_ok_def rel nodes)
  have oth: "\<forall>b m. b \<noteq> 100 \<and> tm_nodes demo1 b = Some m \<longrightarrow> get_relative_msec demo1 5 < tn_exec_msec m \<and> tn_exec_msec m \<noteq> 105"
    by (auto simp: nodes rel split: if_splits)
  have cb: "self_delay_cb (tn_callback ?n) (demo1\<lparr>tm_current_id := tn_id ?n\<rparr>) 100 = [Delay 5 100 100]"
    by (simp add: self_delay_cb_def)
  have n: "tm_nodes demo1 100 = Some ?n" by (simp add: nodes)
  from timer_self_delay_loses_timer [where run = self_delay_cb and clock = 5, OF demo1_facts(1,2) _ n _ _ _ cb ok _ oth E [symmetric]]
  show ?thesis using top rel demo1_reach by simp
qed

section \<open>The functions of src/wrapper/timer.cc\<close>

text \<open>
  The thread's timer is the option \<open>SwooleTG.timer\<close>. Creating one on demand gets the heap's memory
  \<open>mem\<close>, the clock and whether the thread has a reactor. None stands for a missing timer, a null
  node is \<open>nullptr\<close>, and the ids of \<open>after\<close> and \<open>tick\<close> are \<open>SW_ERR\<close> on failure.
\<close>

definition swoole_timer_create :: "addr list \<Rightarrow> int \<Rightarrow> int \<Rightarrow> bool \<Rightarrow> bool \<Rightarrow> 'c Timer option" where
  "swoole_timer_create mem clock alarm manually_trigger have_reactor =
     Some (timer_new mem clock alarm manually_trigger have_reactor)"

definition swoole_timer_add ::
  "addr list \<Rightarrow> int \<Rightarrow> bool \<Rightarrow> 'c Timer option \<Rightarrow> int \<Rightarrow> addr \<Rightarrow> addr list option \<Rightarrow> addr \<Rightarrow> int \<Rightarrow> bool \<Rightarrow> 'c \<Rightarrow> addr \<Rightarrow>
    'c Timer option \<times> addr" where
  "swoole_timer_add mem alarm have_reactor T clock p rm q ms persistent cb d =
     (let T1 = (case T of None \<Rightarrow> swoole_timer_create mem clock alarm False have_reactor | Some t \<Rightarrow> Some t);
          r = timer_add (the T1) clock p rm q ms persistent d cb
      in (Some (fst r), snd r))"

definition timer_id_of :: "'c Timer option \<times> addr \<Rightarrow> int" where
  "timer_id_of r =
     (if snd r = nullptr then SW_ERR
      else case fst r of None \<Rightarrow> SW_ERR
        | Some t \<Rightarrow> (case tm_nodes t (snd r) of None \<Rightarrow> SW_ERR | Some n \<Rightarrow> tn_id n))"

definition swoole_timer_after ::
  "addr list \<Rightarrow> int \<Rightarrow> bool \<Rightarrow> 'c Timer option \<Rightarrow> int \<Rightarrow> addr \<Rightarrow> addr list option \<Rightarrow> addr \<Rightarrow> int \<Rightarrow> 'c \<Rightarrow> addr \<Rightarrow>
    'c Timer option \<times> int" where
  "swoole_timer_after mem alarm have_reactor T clock p rm q ms cb d =
     (if ms \<le> 0 then (T, SW_ERR)
      else let r = swoole_timer_add mem alarm have_reactor T clock p rm q ms False cb d in (fst r, timer_id_of r))"

definition swoole_timer_tick ::
  "addr list \<Rightarrow> int \<Rightarrow> bool \<Rightarrow> 'c Timer option \<Rightarrow> int \<Rightarrow> addr \<Rightarrow> addr list option \<Rightarrow> addr \<Rightarrow> int \<Rightarrow> 'c \<Rightarrow> addr \<Rightarrow>
    'c Timer option \<times> int" where
  "swoole_timer_tick mem alarm have_reactor T clock p rm q ms cb d =
     (if ms \<le> 0 then (T, SW_ERR)
      else let r = swoole_timer_add mem alarm have_reactor T clock p rm q ms True cb d in (fst r, timer_id_of r))"

definition swoole_timer_del :: "'c Timer option \<Rightarrow> addr \<Rightarrow> 'c Timer option \<times> bool" where
  "swoole_timer_del T a =
     (case T of None \<Rightarrow> (None, False) | Some t \<Rightarrow> (let r = timer_remove t a in (Some (fst r), snd r)))"

definition swoole_timer_delay :: "'c Timer option \<Rightarrow> int \<Rightarrow> addr \<Rightarrow> int \<Rightarrow> 'c Timer option" where
  "swoole_timer_delay T clock a delay_ms = map_option (\<lambda>t. timer_delay t clock a delay_ms) T"

definition swoole_timer_exists :: "'c Timer option \<Rightarrow> int \<Rightarrow> bool" where
  "swoole_timer_exists T i = (case T of None \<Rightarrow> False | Some t \<Rightarrow> timer_exists t i)"

definition swoole_timer_clear :: "'c Timer option \<Rightarrow> int \<Rightarrow> 'c Timer option \<times> bool" where
  "swoole_timer_clear T i =
     (case T of None \<Rightarrow> (None, False) | Some t \<Rightarrow> (let r = timer_remove t (timer_get t i) in (Some (fst r), snd r)))"

definition swoole_timer_get :: "'c Timer option \<Rightarrow> int \<Rightarrow> addr" where
  "swoole_timer_get T i = (case T of None \<Rightarrow> nullptr | Some t \<Rightarrow> timer_get t i)"

definition swoole_timer_get_next_msec :: "'c Timer option \<Rightarrow> int" where
  "swoole_timer_get_next_msec T = (case T of None \<Rightarrow> -1 | Some t \<Rightarrow> tm_next_msec t)"

text \<open>A timer call of the event loop: nothing happens when there is no timer.\<close>

definition swoole_timer_select ::
  "('c \<Rightarrow> 'c Timer \<Rightarrow> addr \<Rightarrow> 'c timer_cmd list) \<Rightarrow> int \<Rightarrow> 'c Timer option \<Rightarrow> ('c Timer option \<times> (int \<times> int) list) option" where
  "swoole_timer_select run clock T =
     (case T of None \<Rightarrow> Some (None, []) | Some t \<Rightarrow> map_option (\<lambda>(u, f). (Some u, f)) (timer_select run clock t))"

text \<open>\<open>delete SwooleTG.timer\<close>: the new value of the pointer and the timer after its destructor.\<close>

definition swoole_timer_free :: "'c Timer option \<Rightarrow> addr list \<Rightarrow> 'c Timer option \<times> 'c Timer option" where
  "swoole_timer_free T order = (None, map_option (\<lambda>t. timer_destroy t order) T)"

text \<open>The timer that a wrapper function works on: the thread's timer, or one created on demand.\<close>

definition timer_or_new :: "addr list \<Rightarrow> int \<Rightarrow> bool \<Rightarrow> int \<Rightarrow> 'c Timer option \<Rightarrow> 'c Timer" where
  "timer_or_new mem alarm have_reactor clock T =
     (case T of None \<Rightarrow> timer_new mem clock alarm False have_reactor | Some t \<Rightarrow> t)"

lemma swoole_timer_add_eq:
  "swoole_timer_add mem alarm r T clock p rm q ms persistent cb d =
    (let u = timer_add (timer_or_new mem alarm r clock T) clock p rm q ms persistent d cb in (Some (fst u), snd u))"
  by (cases T) (simp_all add: swoole_timer_add_def swoole_timer_create_def timer_or_new_def)

lemma timer_inv_fresh:
  assumes "timer_inv t"
  shows "tm_map t (tm_next_id t) = None" "tm_nodes t nullptr = None" "\<not> timer_exists t (tm_next_id t)"
proof -
  note C = timer_coreD [OF timer_invD(3) [OF assms]]
  show "tm_map t (tm_next_id t) = None"
    using C(3) C(4) [of "tm_next_id t"] by (cases "tm_map t (tm_next_id t)") (force simp: node_ok_def)+
  moreover show "tm_nodes t nullptr = None"
    using C(3) [of nullptr] by (cases "tm_nodes t nullptr") (auto simp: node_ok_def)
  ultimately show "\<not> timer_exists t (tm_next_id t)" by (simp add: timer_exists_def timer_get_def)
qed

text \<open>What \<open>add\<close> does when memory is available.\<close>

lemma timer_add_new:
  assumes inv: "timer_inv t" and ok: "cmd_ok t (Add clock p rm q ms persistent d cb)" and room: "heap_room (tm_heap t) rm" and ms: "0 < ms"
  shows "\<exists>n. tm_nodes (fst (timer_add t clock p rm q ms persistent d cb)) = (tm_nodes t)(p \<mapsto> n) \<and>
    tm_map (fst (timer_add t clock p rm q ms persistent d cb)) = (tm_map t)(tm_next_id t \<mapsto> p) \<and>
    snd (timer_add t clock p rm q ms persistent d cb) = p \<and>
    tm_current_id (fst (timer_add t clock p rm q ms persistent d cb)) = tm_current_id t \<and>
    tn_id n = tm_next_id t \<and> \<not> tn_removed n \<and> tn_exec_msec n = get_relative_msec t clock + ms \<and>
    tn_interval n = (if persistent then ms else 0) \<and> tn_callback n = cb"
proof -
  have "snd (heap_push (tm_heap t) rm q x p) = q" for x :: u64
    using heap_push_ok(3) [OF timer_invD(1) [OF inv] room] ok by simp
  then show ?thesis using ok ms timer_inv_fresh(1) [OF inv]
    by (intro exI [of _ "\<lparr>tn_id = tm_next_id t, tn_type = TYPE_KERNEL, tn_exec_msec = get_relative_msec t clock + ms,
      tn_interval = (if persistent then ms else 0), tn_exec_count = 0, tn_round = tm_round t, tn_removed = False,
      tn_heap_node = q, tn_callback = cb, tn_data = d, tn_destructor = None\<rparr>"]) (simp add: timer_add_def Let_def)
qed

text \<open>C24: a timer started with \<open>swoole_timer_after\<close> or \<open>swoole_timer_tick\<close> (with memory available, a positive time and
  no timer running), on the thread's timer or on one that the call creates, gets a positive id that no
  timer had; it exists under that id, expires the given time from now and repeats exactly when it was started with
  \<open>tick\<close>. \<open>swoole_timer_clear\<close> of that id succeeds, after which it no longer exists, and a second clear fails.\<close>

theorem timer_after_clear:
  fixes T :: "'c Timer option"
  assumes "case T of None \<Rightarrow> length mem = 1025 | Some t \<Rightarrow> timer_inv t \<and> tm_current_id t = -1"
    and t: "t = timer_or_new mem alarm r clock T"
    and ok: "cmd_ok t (Add clock p rm q ms b d cb)" "heap_room (tm_heap t) rm" "0 < ms"
    and start: "start = (if persistent then swoole_timer_tick mem alarm r else swoole_timer_after mem alarm r)"
  shows "(let T1 = start T clock p rm q ms cb d; T2 = swoole_timer_clear (fst T1) (snd T1)
    in 0 < snd T1 \<and> \<not> swoole_timer_exists T (snd T1) \<and> swoole_timer_exists (fst T1) (snd T1) \<and>
       (\<exists>u n. fst T1 = Some u \<and> tm_nodes u (swoole_timer_get (fst T1) (snd T1)) = Some n \<and> tn_callback n = cb \<and>
          tn_exec_msec n = get_relative_msec t clock + ms \<and> tn_interval n = (if persistent then ms else 0)) \<and>
       snd T2 \<and> \<not> swoole_timer_exists (fst T2) (snd T1) \<and> \<not> snd (swoole_timer_clear (fst T2) (snd T1)))"
proof -
  have inv: "timer_inv t" "tm_current_id t = -1"
    using assms(1) timer_inv_new [of mem clock alarm False r] by (auto simp: t timer_or_new_def split: option.splits)
  let ?r = "timer_add t clock p rm q ms persistent d cb" and ?i = "tm_next_id t"
  note F = timer_inv_fresh [OF inv(1)]
  obtain n where n: "tm_nodes (fst ?r) = (tm_nodes t)(p \<mapsto> n)" "tm_map (fst ?r) = (tm_map t)(?i \<mapsto> p)" "snd ?r = p"
    "tm_current_id (fst ?r) = -1" "tn_id n = ?i" "\<not> tn_removed n" "tn_exec_msec n = get_relative_msec t clock + ms"
    "tn_interval n = (if persistent then ms else 0)" "tn_callback n = cb"
    using timer_add_new [OF inv(1), of clock p rm q ms persistent d cb] ok inv(2) by auto
  have p: "p \<noteq> nullptr" using ok(1) by simp
  have "start T clock p rm q ms cb d = (Some (fst ?r), ?i)"
    using ok(3) n p by (cases persistent) (simp_all add: Let_def start swoole_timer_after_def swoole_timer_tick_def swoole_timer_add_eq t [symmetric] timer_id_of_def)
  moreover have "0 < ?i" using timer_coreD(1) [OF timer_invD(3) [OF inv(1)]] by simp
  moreover have "\<not> swoole_timer_exists T ?i"
    using F(3) t by (cases T) (simp_all add: swoole_timer_exists_def timer_or_new_def)
  moreover have get: "timer_get (fst ?r) ?i = p" using n by (simp add: timer_get_def)
  moreover have "timer_exists (fst ?r) ?i" using n get p by (simp add: timer_exists_def)
  moreover have rm: "timer_remove (fst ?r) p = (release_node ((fst ?r)\<lparr>tm_map := (tm_map (fst ?r))(?i := None),
      tm_heap := (if tn_heap_node n \<noteq> nullptr then heap_remove (tm_heap (fst ?r)) (tn_heap_node n) else tm_heap (fst ?r))\<rparr>) p, True)"
    using n p by (simp add: timer_remove_def)
  ultimately show ?thesis
    using n p F
    by (simp add: Let_def swoole_timer_exists_def [of "Some _"] swoole_timer_clear_def swoole_timer_get_def timer_get_def
        timer_exists_def timer_remove_def [of _ nullptr])
qed

theorem timer_after_clear_witness:
  "(let T1 = swoole_timer_after [] 0 False (Some demo1) 20 200 None 50 4 9 0; T2 = swoole_timer_clear (fst T1) (snd T1)
    in 0 < snd T1 \<and> swoole_timer_exists (fst T1) (snd T1) \<and> snd T2 \<and> \<not> swoole_timer_exists (fst T2) (snd T1)) \<and>
   (let T1 = swoole_timer_tick (replicate 1025 0) 0 True None 20 200 None 50 4 (9::nat) 0; T2 = swoole_timer_clear (fst T1) (snd T1)
    in 0 < snd T1 \<and> swoole_timer_exists (fst T1) (snd T1) \<and> snd T2 \<and> \<not> swoole_timer_exists (fst T2) (snd T1))"
proof -
  have "cmd_ok demo1 (Add 20 200 None 50 4 False 0 9)" "heap_room (tm_heap demo1) None"
    by (simp_all add: time_ok_def demo1_def timer_eval heap_eval split del: if_split)
  moreover have "cmd_ok (timer_or_new (replicate 1025 0) 0 True 20 None) (Add 20 200 None 50 4 False 0 (9::nat))"
    "heap_room (tm_heap (timer_or_new (replicate 1025 0) 0 True 20 (None :: nat Timer option))) None"
    by (simp_all add: timer_or_new_def time_ok_def timer_eval heap_eval split del: if_split)
  ultimately show ?thesis
    using demo1_facts(1,2) timer_after_clear [where T = "Some demo1" and mem = "[]" and alarm = 0 and r = False and clock = 20 and
        p = 200 and rm = None and q = 50 and ms = 4 and b = False and d = 0 and cb = 9 and persistent = False, OF _ refl _ _ _ refl]
      timer_after_clear [where T = None and mem = "replicate 1025 0" and alarm = 0 and r = True and clock = 20 and
        p = 200 and rm = None and q = 50 and ms = 4 and b = False and d = 0 and cb = "9::nat" and persistent = True, OF _ refl _ _ _ refl]
    by (simp add: Let_def timer_or_new_def [of _ _ _ _ "Some demo1"])
qed

end
