(* ===== verification/Sw_Memory.thy ===== *)
theory Sw_Memory
  imports Sw_Prelude
begin

text \<open>
  The interface \<open>MemoryPool\<close> of \<open>include/swoole_memory.h\<close> and the alignment macro of
  \<open>include/swoole.h\<close>. The pools are \<open>Sw_FixedPool\<close>, \<open>Sw_RingBuffer\<close> and \<open>Sw_GlobalMemory\<close>.
\<close>

section \<open>Alignment\<close>

text \<open>\<open>SW_MEM_ALIGNED_SIZE_EX(size, alignment)\<close> computed in a 64-bit integer, for a power of two.\<close>

definition SW_MEM_ALIGNED_SIZE_EX :: "nat \<Rightarrow> nat \<Rightarrow> nat" where
  "SW_MEM_ALIGNED_SIZE_EX sz alignment =
     unat ((of_nat sz + of_nat (alignment - 1)) AND NOT (of_nat (alignment - 1)) :: u64)"

definition SW_DEFAULT_ALIGNMENT :: nat where
  "SW_DEFAULT_ALIGNMENT = 8"

definition SW_MEM_ALIGNED_SIZE :: "nat \<Rightarrow> nat" where
  "SW_MEM_ALIGNED_SIZE sz = SW_MEM_ALIGNED_SIZE_EX sz SW_DEFAULT_ALIGNMENT"

lemma word_and_not_mask:
  fixes w :: "'a::len word"
  shows "w AND NOT (mask k) = push_bit k (drop_bit k w)"
  by (rule bit_word_eqI) (auto simp: bit_simps)

lemma aligned_ex:
  assumes "sz + 2 ^ k < 2 ^ 64"
  shows "SW_MEM_ALIGNED_SIZE_EX sz (2 ^ k) = (sz + 2 ^ k - 1) div 2 ^ k * 2 ^ k"
proof -
  let ?w = "of_nat (sz + (2 ^ k - 1)) :: u64"
  have "k < 64"
  proof (rule ccontr)
    assume "\<not> k < 64"
    then have "(2::nat) ^ 64 \<le> 2 ^ k" by (intro power_increasing) auto
    with assms show False by linarith
  qed
  have m: "(of_nat (2 ^ k - 1) :: u64) = mask k"
    by (simp add: mask_eq_exp_minus_1 of_nat_diff)
  have u: "unat ?w = sz + (2 ^ k - 1)"
    using assms by (simp add: unsigned_of_nat take_bit_nat_eq_self del: of_nat_add)
  have pd: "unat (push_bit k (drop_bit k ?w)) = unat ?w div 2 ^ k * 2 ^ k"
  proof -
    have "unat ?w div 2 ^ k * 2 ^ k \<le> unat ?w" by simp
    then have "unat ?w div 2 ^ k * 2 ^ k < 2 ^ 64" using u assms by linarith
    then show ?thesis
      unfolding unsigned_push_bit_eq unat_drop_bit_eq
      by (simp add: drop_bit_eq_div push_bit_eq_mult take_bit_nat_eq_self del: of_nat_add)
  qed
  have "SW_MEM_ALIGNED_SIZE_EX sz (2 ^ k) = unat (?w AND NOT (mask k))"
    by (simp only: SW_MEM_ALIGNED_SIZE_EX_def m of_nat_add)
  also have "\<dots> = (sz + (2 ^ k - 1)) div 2 ^ k * 2 ^ k"
    by (simp only: word_and_not_mask pd u)
  finally show ?thesis by simp
qed


lemma aligned8: "sz < 2 ^ 63 \<Longrightarrow> SW_MEM_ALIGNED_SIZE sz = (sz + 7) div 8 * 8"
  using aligned_ex [of sz 3] by (simp add: SW_MEM_ALIGNED_SIZE_def SW_DEFAULT_ALIGNMENT_def)

lemma aligned8_bounds:
  assumes "sz < 2 ^ 63"
  shows "sz \<le> SW_MEM_ALIGNED_SIZE sz" "SW_MEM_ALIGNED_SIZE sz < sz + 8" "8 dvd SW_MEM_ALIGNED_SIZE sz"
  unfolding aligned8 [OF assms] by (linarith | simp)+

text \<open>A release of memory: to the shared-memory allocator or to \<open>sw_free\<close>.\<close>

datatype dealloc = SHM_FREE addr | SW_FREE addr

section \<open>The interface of a memory pool\<close>

text \<open>
  \<open>live s p\<close> is the number of bytes behind the live block \<open>p\<close> (None for an address that is not a live
  block). \<open>alloc\<close> hands out a block of at least the requested size that overlaps no live block;
  \<open>free\<close> of a live block ends its life and touches no other. An address of 0 reports failure.
  \<open>env_ok\<close> is the contract of what an allocation is given from outside (memory pages, say).
\<close>

definition disjoint_blocks :: "(addr \<Rightarrow> nat option) \<Rightarrow> bool" where
  "disjoint_blocks L \<longleftrightarrow> (\<forall>p q m n. p \<noteq> q \<and> L p = Some m \<and> L q = Some n \<longrightarrow> p + m \<le> q \<or> q + n \<le> p)"

locale block_allocator =
  fixes inv :: "'s \<Rightarrow> bool"
    and live :: "'s \<Rightarrow> addr \<Rightarrow> nat option"
    and alloc :: "'s \<Rightarrow> 'e \<Rightarrow> nat \<Rightarrow> 's \<times> addr"
    and env_ok :: "'s \<Rightarrow> 'e \<Rightarrow> nat \<Rightarrow> bool"
  assumes live_disjoint: "inv s \<Longrightarrow> disjoint_blocks (live s)"
    and live_null: "inv s \<Longrightarrow> live s nullptr = None"
    and alloc_inv: "inv s \<Longrightarrow> env_ok s e n \<Longrightarrow> inv (fst (alloc s e n))"
    and alloc_fail: "inv s \<Longrightarrow> env_ok s e n \<Longrightarrow> snd (alloc s e n) = nullptr \<Longrightarrow> live (fst (alloc s e n)) = live s"
    and alloc_fresh: "inv s \<Longrightarrow> env_ok s e n \<Longrightarrow> snd (alloc s e n) = p \<Longrightarrow> p \<noteq> nullptr \<Longrightarrow>
       live s p = None \<and> (\<exists>m\<ge>n. live (fst (alloc s e n)) = (live s)(p \<mapsto> m))"
begin

lemma alloc_no_overlap:
  assumes "inv s" "env_ok s e n" "snd (alloc s e n) = p" "p \<noteq> nullptr" "live s q = Some k"
  shows "p + n \<le> q \<or> q + k \<le> p"
proof -
  obtain m where m: "m \<ge> n" "live (fst (alloc s e n)) = (live s)(p \<mapsto> m)" "live s p = None"
    using alloc_fresh [OF assms(1-4)] by blast
  have "p \<noteq> q" using m(3) assms(5) by auto
  then have "p + m \<le> q \<or> q + k \<le> p"
    using live_disjoint [OF alloc_inv [OF assms(1,2)]] m assms(5) by (auto simp: disjoint_blocks_def)
  then show ?thesis using m(1) by linarith
qed

text \<open>A sequence of allocations: the blocks it returns, and all blocks before, stay disjoint.\<close>

fun allocs :: "'s \<Rightarrow> ('e \<times> nat) list \<Rightarrow> 's" where
  "allocs s [] = s"
| "allocs s ((e, n) # xs) = allocs (fst (alloc s e n)) xs"

fun allocs_ok :: "'s \<Rightarrow> ('e \<times> nat) list \<Rightarrow> bool" where
  "allocs_ok s [] \<longleftrightarrow> True"
| "allocs_ok s ((e, n) # xs) \<longleftrightarrow> env_ok s e n \<and> allocs_ok (fst (alloc s e n)) xs"

lemma allocs_keep: "inv s \<Longrightarrow> allocs_ok s xs \<Longrightarrow> inv (allocs s xs) \<and> live s \<subseteq>\<^sub>m live (allocs s xs)"
proof (induction s xs rule: allocs.induct)
  case (2 s e n xs)
  let ?t = "fst (alloc s e n)"
  have "live s \<subseteq>\<^sub>m live ?t"
  proof (cases "snd (alloc s e n) = nullptr")
    case True
    then show ?thesis using alloc_fail 2(2,3) by simp
  next
    case False
    then show ?thesis using alloc_fresh [of s e n "snd (alloc s e n)"] 2(2,3) by (auto simp: map_le_def)
  qed
  then show ?case using 2 alloc_inv by (auto intro: map_le_trans)
qed simp

end

locale memory_pool = block_allocator +
  fixes free :: "'a \<Rightarrow> addr \<Rightarrow> 'a"
  assumes free_inv: "inv s \<Longrightarrow> live s p \<noteq> None \<Longrightarrow> inv (free s p)"
    and free_live: "inv s \<Longrightarrow> live s p \<noteq> None \<Longrightarrow> live (free s p) = (live s)(p := None)"
begin

text \<open>A run of allocations and of frees of live blocks.\<close>

inductive pool_run :: "'a \<Rightarrow> 'a \<Rightarrow> bool" where
  pr_refl: "pool_run s s"
| pr_alloc: "pool_run s t \<Longrightarrow> env_ok t e n \<Longrightarrow> pool_run s (fst (alloc t e n))"
| pr_free: "pool_run s t \<Longrightarrow> live t p \<noteq> None \<Longrightarrow> pool_run s (free t p)"

lemma pool_run_inv: "pool_run s t \<Longrightarrow> inv s \<Longrightarrow> inv t"
  by (induction rule: pool_run.induct) (auto simp: alloc_inv free_inv)

lemma pool_run_disjoint: "pool_run s t \<Longrightarrow> inv s \<Longrightarrow> disjoint_blocks (live t)"
  using pool_run_inv live_disjoint by blast

end

end
