(* ===== verification/Sw_FixedPool.thy ===== *)
theory Sw_FixedPool
  imports Sw_Memory
begin

text \<open>
  \<open>src/memory/fixed_pool.cc\<close>: a pool of equally sized slices in one piece of memory, all linked in one
  doubly linked list, the idle slices before the busy ones. The slice headers live in a store from
  addresses to records; sizes are \<open>nat\<close> with the limits of \<open>uint32_t\<close> and \<open>size_t\<close> written out.
\<close>

section \<open>Data\<close>

record FixedPoolSlice =
  sl_lock :: bool
  sl_next :: addr
  sl_prev :: addr

record FixedPool =
  fp_memory :: addr
  fp_size :: nat
  fp_head :: addr
  fp_tail :: addr
  fp_slice_num :: nat
  fp_slice_use :: nat
  fp_slice_size :: nat
  fp_shared :: bool
  fp_allocated :: bool
  fp_slices :: "addr \<Rightarrow> FixedPoolSlice option"

definition sizeof_struct_slice :: nat where "sizeof_struct_slice = 24"
definition sizeof_struct_impl :: nat where "sizeof_struct_impl = 48"

section \<open>Operations\<close>

definition slice_upd :: "(FixedPoolSlice \<Rightarrow> FixedPoolSlice) \<Rightarrow> addr \<Rightarrow> FixedPool \<Rightarrow> FixedPool" where
  "slice_upd f a s = s\<lparr>fp_slices := (fp_slices s)(a := map_option f (fp_slices s a))\<rparr>"

text \<open>\<open>FixedPoolImpl::init\<close>: the loop that puts the slice at \<open>cur\<close> in front of the list.\<close>

fun pool_init_loop :: "nat \<Rightarrow> addr \<Rightarrow> FixedPool \<Rightarrow> FixedPool" where
  "pool_init_loop 0 cur s = s"
| "pool_init_loop (Suc n) cur s =
     (let zero = \<lparr>sl_lock = False, sl_next = nullptr, sl_prev = nullptr\<rparr>;
          s1 = s\<lparr>fp_slices := (fp_slices s)(cur \<mapsto> zero)\<rparr>;
          s2 = (if fp_head s1 \<noteq> nullptr
                then slice_upd (\<lambda>x. x\<lparr>sl_next := fp_head s1\<rparr>) cur (slice_upd (\<lambda>x. x\<lparr>sl_prev := cur\<rparr>) (fp_head s1) s1)
                else s1\<lparr>fp_tail := cur\<rparr>)
      in pool_init_loop n (cur + (sizeof_struct_slice + fp_slice_size s)) (s2\<lparr>fp_head := cur\<rparr>))"

definition pool_init :: "FixedPool \<Rightarrow> FixedPool" where
  "pool_init s = pool_init_loop (fp_slice_num s) (fp_memory s) s"

datatype pool_error = INVALID_PARAMS | BAD_ALLOC

text \<open>The two constructors; \<open>malloc\<close> gives the address for a requested size (0 on failure).\<close>

definition FixedPool_new :: "(nat \<Rightarrow> addr) \<Rightarrow> nat \<Rightarrow> nat \<Rightarrow> bool \<Rightarrow> pool_error + FixedPool" where
  "FixedPool_new malloc slice_num slice_size shared =
     (if slice_num < 2 then Inl INVALID_PARAMS
      else if slice_size > (2 ^ 32 - 1) - SW_DEFAULT_ALIGNMENT + 1 then Inl INVALID_PARAMS
      else
        let slice_size = wrap32 (SW_MEM_ALIGNED_SIZE slice_size);
            slice_memory_size = wrap64 (sizeof_struct_slice + slice_size) in
        if slice_memory_size > (2 ^ 64 - 1) div slice_num then Inl INVALID_PARAMS
        else
          let sz = wrap64 (slice_num * slice_memory_size) in
          if sz > (2 ^ 64 - 1) - sizeof_struct_impl then Inl INVALID_PARAMS
          else
            let memory = malloc (wrap64 (sz + sizeof_struct_impl)) in
            if memory = nullptr then Inl BAD_ALLOC
            else Inr (pool_init
              \<lparr>fp_memory = memory + sizeof_struct_impl, fp_size = sz, fp_head = nullptr, fp_tail = nullptr,
               fp_slice_num = slice_num, fp_slice_use = 0, fp_slice_size = slice_size, fp_shared = shared,
               fp_allocated = True, fp_slices = (\<lambda>_. None)\<rparr>))"

definition FixedPool_new_at :: "nat \<Rightarrow> addr \<Rightarrow> nat \<Rightarrow> bool \<Rightarrow> pool_error + FixedPool" where
  "FixedPool_new_at slice_size memory sz shared =
     (if memory = nullptr \<or> sz \<le> sizeof_struct_impl then Inl INVALID_PARAMS
      else if slice_size > (2 ^ 32 - 1) - SW_DEFAULT_ALIGNMENT + 1 then Inl INVALID_PARAMS
      else
        let slice_size = wrap32 (SW_MEM_ALIGNED_SIZE slice_size);
            sz = sz - sizeof_struct_impl;
            slice_num = wrap32 (sz div (slice_size + sizeof_struct_slice)) in
        if slice_num < 2 then Inl INVALID_PARAMS
        else Inr (pool_init
          \<lparr>fp_memory = memory + sizeof_struct_impl, fp_size = sz, fp_head = nullptr, fp_tail = nullptr,
           fp_slice_num = slice_num, fp_slice_use = 0, fp_slice_size = slice_size, fp_shared = shared,
           fp_allocated = False, fp_slices = (\<lambda>_. None)\<rparr>))"

definition get_number_of_spare_slice :: "FixedPool \<Rightarrow> nat" where
  "get_number_of_spare_slice s = sub32 (fp_slice_num s) (fp_slice_use s)"

definition slice_locked :: "FixedPool \<Rightarrow> addr \<Rightarrow> bool" where
  "slice_locked s a = (case fp_slices s a of None \<Rightarrow> True | Some x \<Rightarrow> sl_lock x)"

definition slice_next :: "FixedPool \<Rightarrow> addr \<Rightarrow> addr" where
  "slice_next s a = (case fp_slices s a of None \<Rightarrow> nullptr | Some x \<Rightarrow> sl_next x)"

definition slice_prev :: "FixedPool \<Rightarrow> addr \<Rightarrow> addr" where
  "slice_prev s a = (case fp_slices s a of None \<Rightarrow> nullptr | Some x \<Rightarrow> sl_prev x)"

text \<open>\<open>alloc\<close>; None when the assertion that no slice is spare fails.\<close>

definition FixedPool_alloc :: "FixedPool \<Rightarrow> nat \<Rightarrow> (FixedPool \<times> addr) option" where
  "FixedPool_alloc s sz =
     (if sz > fp_slice_size s then Some (s, nullptr)
      else
        let slice = fp_head s in
        if slice = nullptr \<or> slice_locked s slice
        then (if get_number_of_spare_slice s = 0 then Some (s, nullptr) else None)
        else
          let s1 = (slice_upd (\<lambda>x. x\<lparr>sl_lock := True\<rparr>) slice s)\<lparr>fp_slice_use := wrap32 (fp_slice_use s + 1)\<rparr>;
              s2 = s1\<lparr>fp_head := slice_next s1 slice\<rparr>;
              s3 = (if fp_head s2 \<noteq> nullptr then slice_upd (\<lambda>x. x\<lparr>sl_prev := nullptr\<rparr>) (fp_head s2) s2 else s2);
              s4 = slice_upd (\<lambda>x. x\<lparr>sl_next := slice\<rparr>) (fp_tail s3) s3;
              s5 = slice_upd (\<lambda>x. x\<lparr>sl_next := nullptr\<rparr>) slice s4;
              s6 = slice_upd (\<lambda>x. x\<lparr>sl_prev := fp_tail s5\<rparr>) slice s5
          in Some (s6\<lparr>fp_tail := slice\<rparr>, slice + sizeof_struct_slice))"

text \<open>\<open>free\<close>; None when one of its assertions fails.\<close>

definition FixedPool_free :: "FixedPool \<Rightarrow> addr \<Rightarrow> FixedPool option" where
  "FixedPool_free s ptr =
     (let slice = ptr - sizeof_struct_slice in
      if \<not> (fp_memory s < ptr \<and> ptr < fp_memory s + fp_size s) \<or> fp_slices s slice = None \<or> \<not> slice_locked s slice
      then None
      else
        let s1 = slice_upd (\<lambda>x. x\<lparr>sl_lock := False\<rparr>) slice (s\<lparr>fp_slice_use := sub32 (fp_slice_use s) 1\<rparr>) in
        if slice = fp_head s1 then Some s1
        else
          let s2 = (if slice = fp_tail s1
                    then (slice_upd (\<lambda>x. x\<lparr>sl_next := nullptr\<rparr>) (slice_prev s1 slice) s1)\<lparr>fp_tail := slice_prev s1 slice\<rparr>
                    else slice_upd (\<lambda>x. x\<lparr>sl_prev := slice_prev s1 slice\<rparr>) (slice_next s1 slice)
                           (slice_upd (\<lambda>x. x\<lparr>sl_next := slice_next s1 slice\<rparr>) (slice_prev s1 slice) s1));
              s3 = slice_upd (\<lambda>x. x\<lparr>sl_prev := nullptr\<rparr>) slice s2;
              s4 = slice_upd (\<lambda>x. x\<lparr>sl_next := fp_head s3\<rparr>) slice s3;
              s5 = (if fp_head s4 \<noteq> nullptr then slice_upd (\<lambda>x. x\<lparr>sl_prev := slice\<rparr>) (fp_head s4) s4 else s4)
          in Some (s5\<lparr>fp_head := slice\<rparr>))"

text \<open>The destructor: what is released, and by which deallocator; nothing for a pool in given memory.\<close>

definition FixedPool_destroy :: "FixedPool \<Rightarrow> dealloc option" where
  "FixedPool_destroy s =
     (if \<not> fp_allocated s then None
      else if fp_shared s then Some (SHM_FREE (fp_memory s - sizeof_struct_impl))
      else Some (SW_FREE (fp_memory s - sizeof_struct_impl)))"

section \<open>The linked list\<close>

text \<open>\<open>lseg S b xs a\<close>: in the store \<open>S\<close> the slices \<open>xs\<close> are linked both ways, between \<open>b\<close> and \<open>a\<close>.\<close>

fun lseg :: "(addr \<Rightarrow> FixedPoolSlice option) \<Rightarrow> addr \<Rightarrow> addr list \<Rightarrow> addr \<Rightarrow> bool" where
  "lseg S b [] a \<longleftrightarrow> True"
| "lseg S b (x # xs) a \<longleftrightarrow> (\<exists>l. S x = Some \<lparr>sl_lock = l, sl_next = hd (xs @ [a]), sl_prev = b\<rparr>) \<and> lseg S x xs a"

lemma lseg_append: "lseg S b (xs @ ys) a \<longleftrightarrow> lseg S b xs (hd (ys @ [a])) \<and> lseg S (last (b # xs)) ys a"
  by (induction xs arbitrary: b) (auto simp: hd_append)

lemma lseg_frame: "(\<And>x. x \<in> set xs \<Longrightarrow> S x = T x) \<Longrightarrow> lseg S b xs a = lseg T b xs a"
  by (induction xs arbitrary: b) auto

lemma lseg_upd [simp]: "x \<notin> set xs \<Longrightarrow> lseg (S(x := v)) b xs a = lseg S b xs a"
  by (rule lseg_frame) auto

text \<open>Changing the ends of a segment.\<close>

lemma lseg_set_next:
  "lseg S b (xs @ [x]) a \<Longrightarrow> x \<notin> set xs \<Longrightarrow> lseg (S(x := map_option (\<lambda>s. s\<lparr>sl_next := c\<rparr>) (S x))) b (xs @ [x]) c"
  by (auto simp: lseg_append)

lemma lseg_set_prev:
  "lseg S b (x # xs) a \<Longrightarrow> x \<notin> set xs \<Longrightarrow> lseg (S(x := map_option (\<lambda>s. s\<lparr>sl_prev := c\<rparr>) (S x))) c (x # xs) a"
  by auto

text \<open>The pool's invariant: idle slices, then busy slices, tiling the memory.\<close>

definition slice_addr :: "FixedPool \<Rightarrow> nat \<Rightarrow> addr" where
  "slice_addr s i = fp_memory s + i * (sizeof_struct_slice + fp_slice_size s)"

definition pool_lists :: "FixedPool \<Rightarrow> addr list \<Rightarrow> addr list \<Rightarrow> bool" where
  "pool_lists s idle busy \<longleftrightarrow>
     lseg (fp_slices s) nullptr (idle @ busy) nullptr \<and> fp_head s = hd (idle @ busy @ [nullptr]) \<and>
     fp_tail s = last (nullptr # idle @ busy) \<and> distinct (idle @ busy) \<and>
     set (idle @ busy) = slice_addr s ` {..<fp_slice_num s} \<and> dom (fp_slices s) = set (idle @ busy) \<and>
     (\<forall>x \<in> set idle. \<not> slice_locked s x) \<and> (\<forall>x \<in> set busy. slice_locked s x) \<and>
     fp_slice_use s = length busy"

definition pool_shape :: "FixedPool \<Rightarrow> bool" where
  "pool_shape s \<longleftrightarrow> 2 \<le> fp_slice_num s \<and> fp_slice_num s < 2 ^ 32 \<and> 0 < fp_memory s \<and> 0 < fp_slice_size s \<and>
     fp_slice_num s * (sizeof_struct_slice + fp_slice_size s) \<le> fp_size s"

definition pool_inv :: "FixedPool \<Rightarrow> bool" where
  "pool_inv s \<longleftrightarrow> pool_shape s \<and> (\<exists>idle busy. pool_lists s idle busy)"

lemma slice_upd_fields [simp]:
  "fp_memory (slice_upd f a s) = fp_memory s" "fp_size (slice_upd f a s) = fp_size s"
  "fp_head (slice_upd f a s) = fp_head s" "fp_tail (slice_upd f a s) = fp_tail s"
  "fp_slice_num (slice_upd f a s) = fp_slice_num s" "fp_slice_use (slice_upd f a s) = fp_slice_use s"
  "fp_slice_size (slice_upd f a s) = fp_slice_size s"
  "fp_slices (slice_upd f a s) = (fp_slices s)(a := map_option f (fp_slices s a))"
  by (simp_all add: slice_upd_def)

text \<open>The geometry of a pool: what no operation changes.\<close>

definition same_pool :: "FixedPool \<Rightarrow> FixedPool \<Rightarrow> bool" where
  "same_pool s t \<longleftrightarrow> fp_memory t = fp_memory s \<and> fp_size t = fp_size s \<and> fp_slice_num t = fp_slice_num s \<and>
     fp_slice_size t = fp_slice_size s"

lemma same_pool_shape: "same_pool s t \<Longrightarrow> pool_shape t = pool_shape s"
  by (simp add: same_pool_def pool_shape_def)

lemma same_pool_addr: "same_pool s t \<Longrightarrow> slice_addr t i = slice_addr s i"
  by (simp add: same_pool_def slice_addr_def)

lemma pool_listsD:
  assumes "pool_lists s idle busy"
  shows "lseg (fp_slices s) nullptr (idle @ busy) nullptr" "fp_head s = hd (idle @ busy @ [nullptr])"
    "fp_tail s = last (nullptr # idle @ busy)" "distinct (idle @ busy)"
    "set (idle @ busy) = slice_addr s ` {..<fp_slice_num s}" "dom (fp_slices s) = set (idle @ busy)"
    "\<And>x. x \<in> set idle \<Longrightarrow> \<not> slice_locked s x" "\<And>x. x \<in> set busy \<Longrightarrow> slice_locked s x"
    "fp_slice_use s = length busy"
  using assms by (auto simp: pool_lists_def)

lemma slice_addr_inj: "inj_on (slice_addr s) A"
  by (rule inj_onI) (simp add: slice_addr_def sizeof_struct_slice_def)

lemma pool_lists_length:
  assumes "pool_lists s idle busy"
  shows "length idle + length busy = fp_slice_num s"
  using pool_listsD(4,5) [OF assms] distinct_card [of "idle @ busy"] by (simp add: card_image slice_addr_inj)

lemma pool_nonnull:
  assumes "pool_shape s" "pool_lists s idle busy" "x \<in> set (idle @ busy)"
  shows "x \<noteq> nullptr"
  using assms(1,3) unfolding pool_listsD(5) [OF assms(2)] by (auto simp: slice_addr_def pool_shape_def)

text \<open>Moving the first slice of the list to its end, and a later slice to its front.\<close>

lemma slice_links [simp]:
  "\<exists>l. x\<lparr>sl_next := n, sl_prev := p\<rparr> = \<lparr>sl_lock = l, sl_next = n, sl_prev = p\<rparr>"
  "\<exists>l. x\<lparr>sl_prev := p, sl_next := n\<rparr> = \<lparr>sl_lock = l, sl_next = n, sl_prev = p\<rparr>"
  by (cases x, simp)+

lemma lseg_rotate:
  fixes l :: bool
  assumes "lseg S nullptr (x # ys) nullptr" "ys \<noteq> []" "distinct (x # ys)"
  defines "S1 \<equiv> S(x := map_option (\<lambda>s. s\<lparr>sl_lock := l\<rparr>) (S x))"
  defines "S2 \<equiv> S1(hd ys := map_option (\<lambda>s. s\<lparr>sl_prev := nullptr\<rparr>) (S1 (hd ys)))"
  defines "S3 \<equiv> S2(last ys := map_option (\<lambda>s. s\<lparr>sl_next := x\<rparr>) (S2 (last ys)))"
  defines "S4 \<equiv> S3(x := map_option (\<lambda>s. s\<lparr>sl_next := nullptr\<rparr>) (S3 x))"
  shows "lseg (S4(x := map_option (\<lambda>s. s\<lparr>sl_prev := last ys\<rparr>) (S4 x))) nullptr (ys @ [x]) nullptr"
proof -
  have 1: "lseg S1 x ys nullptr" using assms(1,3) by (simp add: S1_def)
  have 2: "lseg S2 nullptr ys nullptr"
    using 1 assms(2,3) lseg_set_prev [of S1 x "hd ys" "tl ys" nullptr nullptr] by (cases ys) (auto simp: S2_def)
  obtain zs t where t: "ys = zs @ [t]" using assms(2) by (cases ys rule: rev_cases) auto
  have 3: "lseg S3 nullptr ys x"
    unfolding S3_def t using 2 t assms(3) lseg_set_next [of S2 nullptr zs t nullptr x] by simp
  have "\<exists>s. S3 x = Some s" using assms(1-3) by (auto simp: S3_def S2_def S1_def)
  then show ?thesis using 3 assms(2,3) by (auto simp: lseg_append S4_def hd_append)
qed


text \<open>Taking a slice out of the list and putting it in front.\<close>

lemma lseg_unlink:
  assumes "lseg S nullptr (as @ x # bs) nullptr" "as \<noteq> []" "distinct (as @ x # bs)"
  shows "bs = [] \<Longrightarrow> lseg (S(last as := map_option (\<lambda>s. s\<lparr>sl_next := nullptr\<rparr>) (S (last as)))) nullptr as nullptr"
    and "bs \<noteq> [] \<Longrightarrow> S1 = S(last as := map_option (\<lambda>s. s\<lparr>sl_next := hd bs\<rparr>) (S (last as))) \<Longrightarrow>
      lseg (S1(hd bs := map_option (\<lambda>s. s\<lparr>sl_prev := last as\<rparr>) (S1 (hd bs)))) nullptr (as @ bs) nullptr"
proof -
  obtain zs t where t: "as = zs @ [t]" using assms(2) by (cases as rule: rev_cases) auto
  have A: "lseg S nullptr as x" and B: "lseg S x bs nullptr"
    using assms(1,2) by (auto simp: lseg_append)
  note next_as = lseg_set_next [of S nullptr zs t x, folded t]
  show "lseg (S(last as := map_option (\<lambda>s. s\<lparr>sl_next := nullptr\<rparr>) (S (last as)))) nullptr as nullptr"
    using next_as [of nullptr] A assms(3) t by simp
  assume bs: "bs \<noteq> []" and S1: "S1 = S(last as := map_option (\<lambda>s. s\<lparr>sl_next := hd bs\<rparr>) (S (last as)))"
  have "lseg S1 nullptr as (hd bs)" using next_as [of "hd bs"] A assms(3) t by (simp add: S1)
  moreover have "lseg S1 x bs nullptr" using B assms(3) t by (simp add: S1)
  ultimately show "lseg (S1(hd bs := map_option (\<lambda>s. s\<lparr>sl_prev := last as\<rparr>) (S1 (hd bs)))) nullptr (as @ bs) nullptr"
    using bs assms(2,3) lseg_set_prev [of S1 x "hd bs" "tl bs" nullptr "last as"]
    by (cases bs) (auto simp: lseg_append)
qed

lemma lseg_push:
  assumes "lseg S nullptr (y # ys) nullptr" "x \<notin> set (y # ys)" "distinct (y # ys)" "S x \<noteq> None"
  defines "S1 \<equiv> S(x := map_option (\<lambda>s. s\<lparr>sl_prev := nullptr\<rparr>) (S x))"
  defines "S2 \<equiv> S1(x := map_option (\<lambda>s. s\<lparr>sl_next := y\<rparr>) (S1 x))"
  shows "lseg (S2(y := map_option (\<lambda>s. s\<lparr>sl_prev := x\<rparr>) (S2 y))) nullptr (x # y # ys) nullptr"
proof -
  have "lseg S2 nullptr (y # ys) nullptr" using assms(1,2) by (simp add: S2_def S1_def)
  from lseg_set_prev [OF this, of x] assms(2-4) show ?thesis by (auto simp: S2_def S1_def)
qed


section \<open>Allocation and release\<close>

lemma slice_locked_set [simp]:
  "slice_locked (slice_upd (\<lambda>x. x\<lparr>sl_lock := l\<rparr>) a s) b = (if a = b \<and> fp_slices s a \<noteq> None then l else slice_locked s b)"
  by (auto simp: slice_locked_def split: option.split)

lemma dom_slice_upd [simp]: "dom (fp_slices (slice_upd f a s)) = dom (fp_slices s)"
  by (auto simp: dom_def)

lemma slice_locked_keep [simp]:
  "(\<And>x. sl_lock (f x) = sl_lock x) \<Longrightarrow> slice_locked (slice_upd f a s) b = slice_locked s b"
  by (auto simp: slice_locked_def split: option.split)

lemma slice_locked_cong [simp]:
  "slice_locked (s\<lparr>fp_head := h\<rparr>) b = slice_locked s b" "slice_locked (s\<lparr>fp_tail := h\<rparr>) b = slice_locked s b"
  "slice_locked (s\<lparr>fp_slice_use := n\<rparr>) b = slice_locked s b"
  by (simp_all add: slice_locked_def)

lemma lseg_next: "lseg S b (x # ys) a \<Longrightarrow> \<exists>s. S x = Some s \<and> sl_next s = hd (ys @ [a]) \<and> sl_prev s = b"
  by auto

lemma FixedPool_alloc_ok:
  assumes shape: "pool_shape s" and L: "pool_lists s (x # idle) busy" and sz: "sz \<le> fp_slice_size s"
  shows "\<exists>t. FixedPool_alloc s sz = Some (t, x + sizeof_struct_slice) \<and> pool_lists t idle (busy @ [x]) \<and> same_pool s t"
proof -
  note D = pool_listsD [OF L]
  define ys where "ys = idle @ busy"
  define S where "S = fp_slices s"
  have len: "length idle + length busy + 1 = fp_slice_num s" using pool_lists_length [OF L] by simp
  then have use: "length busy + 1 < 2 ^ 32" and ys: "ys \<noteq> []"
    using shape by (auto simp: pool_shape_def ys_def)
  have seg: "lseg S nullptr (x # ys) nullptr" "distinct (x # ys)" using D(1,4) by (auto simp: S_def ys_def)
  have hd: "hd ys \<noteq> nullptr" "x \<noteq> nullptr" "fp_tail s = last ys" "fp_head s = x" "hd (ys @ [nullptr]) = hd ys"
    using ys pool_nonnull [OF shape L] hd_in_set [OF ys] D(2,3) by (auto simp: ys_def hd_append)
  obtain sx where sx: "S x = Some sx" "sl_next sx = hd ys" "\<not> sl_lock sx"
    using lseg_next [OF seg(1)] hd(5) D(7) [of x] by (auto simp: slice_locked_def S_def)
  define t where "t = fst (the (FixedPool_alloc s sz))"
  have t: "FixedPool_alloc s sz = Some (t, x + sizeof_struct_slice)" "same_pool s t"
    "fp_head t = hd ys" "fp_tail t = x" "fp_slice_use t = length busy + 1"
    using sz hd sx use D(9)
    by (simp_all add: t_def FixedPool_alloc_def Let_def slice_locked_def slice_next_def same_pool_def S_def [symmetric])
  have "lseg (fp_slices t) nullptr (ys @ [x]) nullptr"
    using lseg_rotate [OF seg(1) ys seg(2), of True] sz hd sx
    by (simp add: t_def FixedPool_alloc_def Let_def slice_locked_def slice_next_def S_def [symmetric])
  moreover have "dom (fp_slices t) = dom S" "slice_locked t y \<longleftrightarrow> y = x \<or> slice_locked s y" for y
    using sz hd sx by (auto simp: t_def FixedPool_alloc_def Let_def slice_locked_def slice_next_def S_def [symmetric] split: option.splits if_splits)
  ultimately have "pool_lists t idle (busy @ [x])"
    using t D(4-8) ys same_pool_addr [OF t(2)]
    by (auto simp: pool_lists_def ys_def S_def hd_append same_pool_def)
  with t show ?thesis by blast
qed


lemma slice_ptr_range:
  assumes "pool_shape s" "x \<in> slice_addr s ` {..<fp_slice_num s}"
  shows "fp_memory s < x + sizeof_struct_slice" "x + sizeof_struct_slice < fp_memory s + fp_size s"
proof -
  let ?w = "sizeof_struct_slice + fp_slice_size s"
  obtain i where i: "i < fp_slice_num s" "x = fp_memory s + i * ?w" using assms(2) by (auto simp: slice_addr_def)
  have "i * ?w + ?w \<le> fp_slice_num s * ?w" using mult_le_mono1 [of "i + 1" "fp_slice_num s" ?w] i(1) by simp
  then show "fp_memory s < x + sizeof_struct_slice" "x + sizeof_struct_slice < fp_memory s + fp_size s"
    using i(2) assms(1) by (auto simp: pool_shape_def sizeof_struct_slice_def)
qed

lemma lseg_mid:
  "lseg S b (as @ x # bs) a \<Longrightarrow> \<exists>s. S x = Some s \<and> sl_next s = hd (bs @ [a]) \<and> sl_prev s = last (b # as)"
  by (auto simp: lseg_append)

lemma lseg_lock:
  "lseg S b xs a \<Longrightarrow> lseg (S(x := map_option (\<lambda>s. s\<lparr>sl_lock := l\<rparr>) (S x))) b xs a"
  by (induction xs arbitrary: b) auto

lemma FixedPool_free_ok:
  assumes shape: "pool_shape s" and L: "pool_lists s idle (as @ x # bs)"
  shows "\<exists>t. FixedPool_free s (x + sizeof_struct_slice) = Some t \<and> pool_lists t (x # idle) (as @ bs) \<and> same_pool s t"
proof -
  note D = pool_listsD [OF L] and n = pool_nonnull [OF shape L]
  define us where "us = idle @ as"
  define S where "S = (fp_slices s)(x := map_option (\<lambda>s. s\<lparr>sl_lock := False\<rparr>) (fp_slices s x))"
  have seg: "lseg S nullptr (us @ x # bs) nullptr" and dist: "distinct (us @ x # bs)"
    using lseg_lock [OF D(1)] D(4) by (auto simp: S_def us_def)
  obtain sx where sx: "fp_slices s x = Some sx" "sl_next sx = hd (bs @ [nullptr])" "sl_prev sx = last (nullptr # us)" "sl_lock sx"
    using lseg_mid [of "fp_slices s" nullptr us x bs nullptr] D(1) D(8) [of x] by (auto simp: us_def slice_locked_def)
  have rng: "fp_memory s < x + sizeof_struct_slice" "x + sizeof_struct_slice < fp_memory s + fp_size s"
    using slice_ptr_range [OF shape, of x] D(5) by auto
  have use: "sub32 (fp_slice_use s) 1 = length as + length bs"
    using pool_lists_length [OF L] shape D(9) by (auto simp: pool_shape_def)
  define t where "t = the (FixedPool_free s (x + sizeof_struct_slice))"
  have def: "FixedPool_free s (x + sizeof_struct_slice) = Some t"
    using rng sx by (simp add: t_def FixedPool_free_def Let_def slice_locked_def)
  have same: "same_pool s t" "fp_slice_use t = length (as @ bs)" "dom (fp_slices t) = dom (fp_slices s)"
    using rng sx use by (simp_all add: t_def FixedPool_free_def Let_def slice_locked_def same_pool_def del: slice_upd_fields(8))
  have lk: "slice_locked s x" using D(8) [of x] by simp
  have lock: "slice_locked t y \<longleftrightarrow> y \<noteq> x \<and> slice_locked s y" for y
    using rng sx(1) lk by (cases "x = y") (simp_all add: t_def FixedPool_free_def Let_def del: slice_upd_fields(8), auto)
  have "lseg (fp_slices t) nullptr (x # us @ bs) nullptr \<and> fp_head t = x \<and> fp_tail t = last (x # us @ bs)"
  proof (cases "us = []")
    case True
    then show ?thesis using seg rng sx D(2,3) unfolding S_def
      by (simp add: t_def FixedPool_free_def Let_def slice_locked_def us_def hd_append)
  next
    case False
    have hd: "fp_head s = hd us" "hd us \<noteq> nullptr" "hd us \<noteq> x" "last (nullptr # us) = last us" "last us \<noteq> x" "last us \<in> set us"
      using False n D(2) dist hd_in_set [OF False] last_in_set [OF False] by (auto simp: us_def hd_append)
    show ?thesis
    proof (cases "bs = []")
      case bs: True
      then have tl: "fp_tail s = x" using D(3) False by (simp add: us_def)
      let ?S1 = "S(last us := map_option (\<lambda>s. s\<lparr>sl_next := nullptr\<rparr>) (S (last us)))"
      have "lseg ?S1 nullptr us nullptr" using lseg_unlink(1) [OF seg False dist bs] .
      then obtain y ys where ys: "us = y # ys" "y = hd us" "lseg ?S1 nullptr (y # ys) nullptr" using False by (cases us) auto
      have "?S1 x \<noteq> None" using sx(1) hd(5) by (simp add: S_def)
      moreover have "x \<notin> set (y # ys)" "distinct (y # ys)" using dist unfolding ys(1) [symmetric] by auto
      ultimately have "lseg (fp_slices t) nullptr (x # y # ys) nullptr"
        using lseg_push [OF ys(3), of x] tl hd rng sx ys(2)
        by (simp add: t_def FixedPool_free_def Let_def slice_locked_def slice_prev_def S_def)
      moreover have "fp_head t = x" "fp_tail t = last us"
        using tl hd rng sx by (simp_all add: t_def FixedPool_free_def Let_def slice_locked_def slice_prev_def)
      ultimately show ?thesis using ys(1) bs by simp
    next
      case bs: False
      have tl: "fp_tail s \<noteq> x" "fp_tail s = last (us @ bs)" "hd (bs @ [nullptr]) = hd bs" "hd bs \<noteq> x" "hd bs \<in> set bs"
        using D(3) dist bs last_in_set [OF bs] hd_in_set [OF bs] by (auto simp: us_def)
      let ?S1 = "S(last us := map_option (\<lambda>s. s\<lparr>sl_next := hd bs\<rparr>) (S (last us)))"
      let ?S2 = "?S1(hd bs := map_option (\<lambda>s. s\<lparr>sl_prev := last us\<rparr>) (?S1 (hd bs)))"
      have "lseg ?S2 nullptr (us @ bs) nullptr" using lseg_unlink(2) [OF seg False dist bs] by blast
      then obtain y ys where ys: "us @ bs = y # ys" "y = hd us" "lseg ?S2 nullptr (y # ys) nullptr" using False by (cases us) auto
      have "?S2 x \<noteq> None" using sx(1) hd(5) tl(4) by (simp add: S_def)
      moreover have "x \<notin> set (y # ys)" "distinct (y # ys)" using dist unfolding ys(1) [symmetric] by auto
      ultimately have "lseg (fp_slices t) nullptr (x # y # ys) nullptr"
        using lseg_push [OF ys(3), of x] bs tl(1,3,4) hd rng sx ys(2)
        by (simp add: t_def FixedPool_free_def Let_def slice_locked_def slice_prev_def slice_next_def S_def)
      moreover have "fp_head t = x" "fp_tail t = last (us @ bs)"
        using tl(1,2) hd rng sx by (simp_all add: t_def FixedPool_free_def Let_def slice_locked_def)
      ultimately show ?thesis using ys(1) bs by simp
    qed
  qed
  then have "pool_lists t (x # idle) (as @ bs)"
    using same D(4-8) lock same_pool_addr [OF same(1)]
    by (auto simp: pool_lists_def us_def same_pool_def)
  with def same show ?thesis by blast
qed

section \<open>A new pool\<close>

lemma pool_init_loop_ok:
  assumes "lseg (fp_slices s) nullptr xs nullptr" "fp_head s = hd (xs @ [nullptr])" "fp_tail s = last (nullptr # xs)"
    "distinct xs" "dom (fp_slices s) = set xs" "\<And>x. x \<in> set xs \<Longrightarrow> 0 < x \<and> x < cur" "\<And>x. x \<in> set xs \<Longrightarrow> \<not> slice_locked s x"
    "0 < cur" "ys = rev (map (\<lambda>i. cur + i * (sizeof_struct_slice + fp_slice_size s)) [0..<n]) @ xs"
    "t = pool_init_loop n cur s"
  shows "lseg (fp_slices t) nullptr ys nullptr \<and> fp_head t = hd (ys @ [nullptr]) \<and> fp_tail t = last (nullptr # ys) \<and>
    dom (fp_slices t) = set ys \<and> (\<forall>x \<in> set ys. \<not> slice_locked t x) \<and> same_pool s t \<and> fp_slice_use t = fp_slice_use s"
  using assms
proof (induction n arbitrary: cur s xs)
  case 0
  then show ?case by (simp add: same_pool_def)
next
  case (Suc n)
  note P = Suc.prems
  let ?w = "sizeof_struct_slice + fp_slice_size s"
  define z where "z = \<lparr>sl_lock = False, sl_next = nullptr, sl_prev = nullptr\<rparr>"
  define s1 where "s1 = s\<lparr>fp_slices := (fp_slices s)(cur \<mapsto> z)\<rparr>"
  define s2 where "s2 = (if fp_head s1 \<noteq> nullptr
     then slice_upd (\<lambda>x. x\<lparr>sl_next := fp_head s1\<rparr>) cur (slice_upd (\<lambda>x. x\<lparr>sl_prev := cur\<rparr>) (fp_head s1) s1)
     else s1\<lparr>fp_tail := cur\<rparr>)"
  define u where "u = s2\<lparr>fp_head := cur\<rparr>"
  have t: "t = pool_init_loop n (cur + ?w) u"
    unfolding P(10) pool_init_loop.simps Let_def u_def s2_def s1_def z_def by simp
  have cur: "cur \<notin> set xs" using P(6) by blast
  have f: "fp_slice_size u = fp_slice_size s" "fp_slice_use u = fp_slice_use s" "same_pool s u"
    by (simp_all add: u_def s2_def s1_def same_pool_def)
  have u: "lseg (fp_slices u) nullptr (cur # xs) nullptr \<and> fp_head u = cur \<and> fp_tail u = last (cur # xs) \<and>
    dom (fp_slices u) = insert cur (set xs)"
  proof (cases xs)
    case Nil
    then show ?thesis using P(2,5) by (auto simp: u_def s2_def s1_def z_def)
  next
    case (Cons y ys')
    then have y: "fp_head s = y" "y \<noteq> nullptr" "y \<noteq> cur" "y \<notin> set ys'" "cur \<notin> set ys'"
      using P(2) P(4) P(6) [of y] P(6) [of cur] by auto
    then show ?thesis using P(1,3,5) Cons by (auto simp: u_def s2_def s1_def z_def)
  qed
  have unl: "\<not> slice_locked u x" if "x \<in> set (cur # xs)" for x
    using that P(7) [of x] P(6) [of x] cur by (auto simp: u_def s2_def s1_def z_def slice_locked_def split: option.splits)
  have "map (\<lambda>i. cur + i * ?w) [0..<Suc n] = cur # map (\<lambda>i. cur + ?w + i * ?w) [0..<n]"
    by (simp add: map_upt_Suc add.assoc del: upt_Suc)
  then have ys: "ys = rev (map (\<lambda>i. cur + ?w + i * ?w) [0..<n]) @ cur # xs" using P(9) by simp
  have "0 < x \<and> x < cur + ?w" if "x \<in> set (cur # xs)" for x
    using that P(6) [of x] P(8) by (auto simp: sizeof_struct_slice_def)
  from Suc.IH [of u "cur # xs" "cur + ?w", OF _ _ _ _ _ this unl _ _ t]
  show ?case using u P(4,8) cur f ys by (auto simp: same_pool_def)
qed

lemma pool_init_ok:
  assumes "fp_head s = nullptr" "fp_tail s = nullptr" "fp_slices s = (\<lambda>_. None)" "0 < fp_memory s" "fp_slice_use s = 0"
  shows "pool_lists (pool_init s) (rev (map (slice_addr s) [0..<fp_slice_num s])) [] \<and> same_pool s (pool_init s)"
proof -
  let ?ys = "rev (map (slice_addr s) [0..<fp_slice_num s])"
  have "lseg (fp_slices (pool_init s)) nullptr ?ys nullptr \<and> fp_head (pool_init s) = hd (?ys @ [nullptr]) \<and>
    fp_tail (pool_init s) = last (nullptr # ?ys) \<and> dom (fp_slices (pool_init s)) = set ?ys \<and>
    (\<forall>x \<in> set ?ys. \<not> slice_locked (pool_init s) x) \<and> same_pool s (pool_init s) \<and> fp_slice_use (pool_init s) = fp_slice_use s"
    using pool_init_loop_ok [of s "[]" "fp_memory s" ?ys "fp_slice_num s" "pool_init s"] assms
    by (simp add: pool_init_def slice_addr_def [abs_def])
  moreover from this have "slice_addr (pool_init s) = slice_addr s" using same_pool_addr by blast
  moreover have "distinct ?ys" by (simp add: distinct_map slice_addr_inj)
  ultimately show ?thesis
    using assms(5) by (auto simp: pool_lists_def same_pool_def atLeast0LessThan)
qed

lemma pool_shape_mul: "pool_shape s \<longleftrightarrow> 2 \<le> fp_slice_num s \<and> fp_slice_num s < 2 ^ 32 \<and> 0 < fp_memory s \<and> 0 < fp_slice_size s \<and>
    fp_slice_num s * (sizeof_struct_slice + fp_slice_size s) \<le> fp_size s"
  by (simp add: pool_shape_def)

text \<open>Both constructors build an empty pool (all slices idle) inside their memory.\<close>

lemma FixedPool_new_ok:
  assumes new: "FixedPool_new malloc slice_num slice_size shared = Inr s" and "slice_num < 2 ^ 32" "0 < slice_size"
  shows "pool_shape s \<and> pool_lists s (rev (map (slice_addr s) [0..<slice_num])) [] \<and> fp_slice_num s = slice_num \<and>
    slice_size \<le> fp_slice_size s"
proof -
  define ss where "ss = wrap32 (SW_MEM_ALIGNED_SIZE slice_size)"
  have bound: "slice_size \<le> 2 ^ 32 - 8" and n: "2 \<le> slice_num"
    using new by (auto simp: FixedPool_new_def SW_DEFAULT_ALIGNMENT_def split: if_splits)
  have "(slice_size + 7) div 8 \<le> (2 ^ 32 - 1) div 8" using bound by (intro div_le_mono) simp
  then have "slice_size \<le> (slice_size + 7) div 8 * 8" "(slice_size + 7) div 8 * 8 \<le> 2 ^ 32 - 8" by simp_all
  then have al: "slice_size \<le> ss" "ss < 2 ^ 32" using bound by (auto simp: ss_def aligned8)
  then have w: "wrap64 (sizeof_struct_slice + ss) = sizeof_struct_slice + ss" by (simp add: sizeof_struct_slice_def)
  obtain m sz where m: "m \<noteq> nullptr" "sz = slice_num * (sizeof_struct_slice + ss)"
    "s = pool_init \<lparr>fp_memory = m + sizeof_struct_impl, fp_size = sz, fp_head = nullptr, fp_tail = nullptr,
        fp_slice_num = slice_num, fp_slice_use = 0, fp_slice_size = ss, fp_shared = shared,
        fp_allocated = True, fp_slices = (\<lambda>_. None)\<rparr>"
  proof -
    have "sizeof_struct_slice + ss \<le> (2 ^ 64 - 1) div slice_num"
      using new w by (auto simp: FixedPool_new_def Let_def ss_def [symmetric] split: if_splits)
    then have "slice_num * (sizeof_struct_slice + ss) \<le> slice_num * ((2 ^ 64 - 1) div slice_num)" by (rule mult_le_mono2)
    also have "\<dots> \<le> 2 ^ 64 - 1" by simp
    finally have "wrap64 (slice_num * (sizeof_struct_slice + ss)) = slice_num * (sizeof_struct_slice + ss)" by simp
    then show ?thesis
      using new w that [of "malloc (wrap64 (slice_num * (sizeof_struct_slice + ss) + sizeof_struct_impl))"]
      by (auto simp: FixedPool_new_def Let_def ss_def [symmetric] split: if_splits)
  qed
  show ?thesis
    using pool_init_ok [of "\<lparr>fp_memory = m + sizeof_struct_impl, fp_size = sz, fp_head = nullptr, fp_tail = nullptr,
        fp_slice_num = slice_num, fp_slice_use = 0, fp_slice_size = ss, fp_shared = shared,
        fp_allocated = True, fp_slices = (\<lambda>_. None)\<rparr>"] m n al assms(2,3)
    by (auto simp: pool_shape_def same_pool_def slice_addr_def [abs_def] sizeof_struct_impl_def)
qed

section \<open>The pool as a memory pool\<close>

lemma pool_full:
  assumes "pool_shape s" "pool_lists s [] busy"
  shows "get_number_of_spare_slice s = 0" and "fp_head s = nullptr \<or> slice_locked s (fp_head s)"
proof -
  show "get_number_of_spare_slice s = 0"
    using pool_lists_length [OF assms(2)] pool_listsD(9) [OF assms(2)] assms(1) by (simp add: get_number_of_spare_slice_def pool_shape_def)
  show "fp_head s = nullptr \<or> slice_locked s (fp_head s)"
    using pool_listsD(2,8) [OF assms(2)] by (cases busy) auto
qed

lemma FixedPool_alloc_fail:
  assumes "pool_shape s" "pool_lists s idle busy" "fp_slice_size s < sz \<or> idle = []"
  shows "FixedPool_alloc s sz = Some (s, nullptr)"
  using assms pool_full [of s busy] by (auto simp: FixedPool_alloc_def Let_def)

definition fixed_live :: "FixedPool \<Rightarrow> addr \<Rightarrow> nat option" where
  "fixed_live s p = (if sizeof_struct_slice \<le> p \<and> fp_slices s (p - sizeof_struct_slice) \<noteq> None \<and>
     slice_locked s (p - sizeof_struct_slice) then Some (fp_slice_size s) else None)"

definition fixed_alloc :: "FixedPool \<Rightarrow> unit \<Rightarrow> nat \<Rightarrow> FixedPool \<times> addr" where
  "fixed_alloc s e sz = (case FixedPool_alloc s sz of None \<Rightarrow> (s, nullptr) | Some r \<Rightarrow> r)"

definition fixed_free :: "FixedPool \<Rightarrow> addr \<Rightarrow> FixedPool" where
  "fixed_free s p = (case FixedPool_free s p of None \<Rightarrow> s | Some t \<Rightarrow> t)"

lemma fixed_live_lists:
  assumes "pool_lists s idle busy"
  shows "fixed_live s p = (if sizeof_struct_slice \<le> p \<and> p - sizeof_struct_slice \<in> set busy then Some (fp_slice_size s) else None)"
proof -
  note D = pool_listsD [OF assms]
  have "fp_slices s x \<noteq> None \<longleftrightarrow> x \<in> set (idle @ busy)" for x using D(6) by (metis domIff)
  then show ?thesis using D(7,8) by (auto simp: fixed_live_def)
qed

lemma fixed_disjoint:
  assumes "pool_lists s idle busy"
  shows "disjoint_blocks (fixed_live s)"
  unfolding disjoint_blocks_def
proof (intro allI impI, elim conjE)
  fix p q m n assume pq: "p \<noteq> q" "fixed_live s p = Some m" "fixed_live s q = Some n"
  let ?w = "sizeof_struct_slice + fp_slice_size s"
  have "x \<in> set busy \<Longrightarrow> \<exists>i. x = fp_memory s + i * ?w" for x
    using pool_listsD(5) [OF assms] by (fastforce simp: slice_addr_def)
  then obtain i j where ij: "p = fp_memory s + i * ?w + sizeof_struct_slice" "q = fp_memory s + j * ?w + sizeof_struct_slice"
    "m = fp_slice_size s" "n = fp_slice_size s"
    using pq(2,3) unfolding fixed_live_lists [OF assms] by (metis le_add_diff_inverse2 option.distinct(1) option.inject)
  then have "i < j \<or> j < i" using pq(1) by (metis nat_neq_iff)
  then have "i * ?w + ?w \<le> j * ?w \<or> j * ?w + ?w \<le> i * ?w"
    using mult_le_mono1 [of "i + 1" j ?w] mult_le_mono1 [of "j + 1" i ?w] by auto
  then show "p + m \<le> q \<or> q + n \<le> p" using ij by linarith
qed

lemma fixed_alloc_cases:
  assumes "pool_inv s"
  shows "\<exists>idle busy. pool_lists s idle busy \<and>
    (fixed_alloc s e sz = (s, nullptr) \<and> (fp_slice_size s < sz \<or> idle = []) \<or>
     (\<exists>x is t. idle = x # is \<and> sz \<le> fp_slice_size s \<and> x \<noteq> nullptr \<and> fixed_alloc s e sz = (t, x + sizeof_struct_slice) \<and>
        pool_lists t is (busy @ [x]) \<and> same_pool s t))"
proof -
  obtain idle busy where L: "pool_lists s idle busy" and shape: "pool_shape s" using assms by (auto simp: pool_inv_def)
  show ?thesis
  proof (cases "fp_slice_size s < sz \<or> idle = []")
    case True
    then show ?thesis using FixedPool_alloc_fail [OF shape L] L by (auto simp: fixed_alloc_def)
  next
    case False
    then obtain x "is" where x: "idle = x # is" by (cases idle) auto
    then show ?thesis
      using FixedPool_alloc_ok [of s x "is" busy sz] shape L False pool_nonnull [OF shape L, of x]
      by (fastforce simp: fixed_alloc_def)
  qed
qed

lemma fixed_alloc_fresh:
  assumes "pool_inv s" "snd (fixed_alloc s e sz) = p" "p \<noteq> nullptr"
  shows "fixed_live s p = None \<and> (\<exists>m\<ge>sz. fixed_live (fst (fixed_alloc s e sz)) = (fixed_live s)(p \<mapsto> m))"
proof -
  obtain x "is" busy t where L: "pool_lists s (x # is) busy" "sz \<le> fp_slice_size s" "fixed_alloc s e sz = (t, x + sizeof_struct_slice)"
    "pool_lists t is (busy @ [x])" "same_pool s t"
    using fixed_alloc_cases [OF assms(1), of e sz] assms(2,3) by auto
  have p: "p = x + sizeof_struct_slice" "x \<notin> set busy" using L(3) assms(2) pool_listsD(4) [OF L(1)] by auto
  then have "fixed_live t = (fixed_live s)(p \<mapsto> fp_slice_size s)"
    using L(5) by (auto simp: fun_eq_iff fixed_live_lists [OF L(1)] fixed_live_lists [OF L(4)] same_pool_def)
  then show ?thesis using p L(2,3) by (auto simp: fixed_live_lists [OF L(1)])
qed

lemma fixed_free_cases:
  assumes "pool_inv s" "fixed_live s p \<noteq> None"
  shows "\<exists>idle as x bs t. pool_lists s idle (as @ x # bs) \<and> p = x + sizeof_struct_slice \<and> FixedPool_free s p = Some t \<and>
    pool_lists t (x # idle) (as @ bs) \<and> same_pool s t"
proof -
  obtain idle busy where L: "pool_lists s idle busy" and shape: "pool_shape s" using assms by (auto simp: pool_inv_def)
  define x where "x = p - sizeof_struct_slice"
  have x: "x \<in> set busy" "p = x + sizeof_struct_slice"
    using assms(2) unfolding fixed_live_lists [OF L] x_def by (auto split: if_splits)
  then obtain as bs where "busy = as @ x # bs" by (meson split_list)
  then show ?thesis using FixedPool_free_ok [OF shape, of idle as x bs] L x(2) by blast
qed

interpretation fixed_pool: memory_pool pool_inv fixed_live fixed_alloc "\<lambda>_ _ _. True" fixed_free
proof (unfold_locales, goal_cases)
  case (1 s)
  then show ?case using fixed_disjoint by (auto simp: pool_inv_def)
next
  case (2 s)
  then show ?case by (simp add: fixed_live_def sizeof_struct_slice_def)
next
  case (3 s e n)
  then show ?case using fixed_alloc_cases [OF 3(1), of e n] same_pool_shape by (fastforce simp: pool_inv_def)
next
  case (4 s e n)
  then show ?case using fixed_alloc_cases [OF 4(1), of e n] by (auto simp: sizeof_struct_slice_def)
next
  case (5 s e n p)
  then show ?case using fixed_alloc_fresh by simp
next
  case (6 s p)
  then show ?case using fixed_free_cases [OF 6] same_pool_shape by (fastforce simp: pool_inv_def fixed_free_def)
next
  case (7 s p)
  from fixed_free_cases [OF 7] obtain idle as x bs t where
    L: "pool_lists s idle (as @ x # bs)" "p = x + sizeof_struct_slice" "FixedPool_free s p = Some t"
      "pool_lists t (x # idle) (as @ bs)" "same_pool s t" by blast
  then show ?case using pool_listsD(4) [OF L(1)]
    by (auto simp: fun_eq_iff fixed_free_def fixed_live_lists [OF L(1)] fixed_live_lists [OF L(4)] same_pool_def)
qed

section \<open>Specification and refinement\<close>

text \<open>The abstract pool: the idle slices in the order they will be handed out, and the busy ones.\<close>

datatype pool_op = PAlloc nat | PFree addr

fun pool_spec :: "nat \<Rightarrow> addr list \<times> addr list \<Rightarrow> pool_op \<Rightarrow> (addr list \<times> addr list) \<times> addr" where
  "pool_spec w (idle, busy) (PAlloc sz) =
     (if w < sz then ((idle, busy), nullptr)
      else case idle of [] \<Rightarrow> ((idle, busy), nullptr) | x # is \<Rightarrow> ((is, busy @ [x]), x + sizeof_struct_slice))"
| "pool_spec w (idle, busy) (PFree p) = (((p - sizeof_struct_slice) # idle, remove1 (p - sizeof_struct_slice) busy), nullptr)"

fun pool_exec :: "FixedPool \<Rightarrow> pool_op \<Rightarrow> (FixedPool \<times> addr) option" where
  "pool_exec s (PAlloc sz) = FixedPool_alloc s sz"
| "pool_exec s (PFree p) = map_option (\<lambda>t. (t, nullptr)) (FixedPool_free s p)"

text \<open>Runs of operations with the pointers they return; frees are of live pointers.\<close>

fun pool_execs :: "FixedPool \<Rightarrow> pool_op list \<Rightarrow> (FixedPool \<times> addr list) option" where
  "pool_execs s [] = Some (s, [])"
| "pool_execs s (c # cs) =
     (case pool_exec s c of None \<Rightarrow> None
      | Some (t, r) \<Rightarrow> (case pool_execs t cs of None \<Rightarrow> None | Some (u, rs) \<Rightarrow> Some (u, r # rs)))"

fun pool_specs :: "nat \<Rightarrow> addr list \<times> addr list \<Rightarrow> pool_op list \<Rightarrow> (addr list \<times> addr list) \<times> addr list" where
  "pool_specs w l [] = (l, [])"
| "pool_specs w l (c # cs) =
     (let r = pool_spec w l c; rs = pool_specs w (fst r) cs in (fst rs, snd r # snd rs))"

fun pool_op_ok :: "addr list \<times> addr list \<Rightarrow> pool_op \<Rightarrow> bool" where
  "pool_op_ok l (PAlloc sz) \<longleftrightarrow> True"
| "pool_op_ok l (PFree p) \<longleftrightarrow> p \<in> (\<lambda>x. x + sizeof_struct_slice) ` set (snd l)"

fun pool_ops_ok :: "nat \<Rightarrow> addr list \<times> addr list \<Rightarrow> pool_op list \<Rightarrow> bool" where
  "pool_ops_ok w l [] \<longleftrightarrow> True"
| "pool_ops_ok w l (c # cs) \<longleftrightarrow> pool_op_ok l c \<and> pool_ops_ok w (fst (pool_spec w l c)) cs"

lemma pool_exec_refines:
  assumes "pool_shape s" "pool_lists s (fst l) (snd l)" "pool_op_ok l c"
  shows "\<exists>t. pool_exec s c = Some (t, snd (pool_spec (fp_slice_size s) l c)) \<and> same_pool s t \<and>
    pool_lists t (fst (fst (pool_spec (fp_slice_size s) l c))) (snd (fst (pool_spec (fp_slice_size s) l c)))"
proof (cases c)
  case (PAlloc sz)
  obtain idle busy where l: "l = (idle, busy)" by (cases l)
  show ?thesis
  proof (cases "fp_slice_size s < sz \<or> idle = []")
    case True
    then show ?thesis
      using FixedPool_alloc_fail [of s idle busy sz] assms PAlloc l by (auto simp: same_pool_def)
  next
    case False
    then obtain x "is" where x: "idle = x # is" by (cases idle) auto
    then show ?thesis
      using FixedPool_alloc_ok [of s x "is" busy sz] assms PAlloc l False by auto
  qed
next
  case (PFree p)
  obtain idle busy where l: "l = (idle, busy)" by (cases l)
  obtain x where x: "x \<in> set busy" "p = x + sizeof_struct_slice" using assms(3) PFree l by auto
  then obtain as bs where b: "busy = as @ x # bs" "x \<notin> set as" by (meson split_list_first)
  then show ?thesis
    using FixedPool_free_ok [of s idle as x bs] assms PFree l x by (auto simp: remove1_append)
qed

lemma pool_execs_refine:
  "pool_shape s \<Longrightarrow> pool_lists s (fst l) (snd l) \<Longrightarrow> pool_ops_ok (fp_slice_size s) l cs \<Longrightarrow>
    \<exists>t. pool_execs s cs = Some (t, snd (pool_specs (fp_slice_size s) l cs)) \<and> same_pool s t \<and>
      pool_lists t (fst (fst (pool_specs (fp_slice_size s) l cs))) (snd (fst (pool_specs (fp_slice_size s) l cs)))"
proof (induction cs arbitrary: s l)
  case Nil
  then show ?case by (simp add: same_pool_def)
next
  case (Cons c cs)
  let ?r = "pool_spec (fp_slice_size s) l c"
  obtain t where t: "pool_exec s c = Some (t, snd ?r)" "same_pool s t" "pool_lists t (fst (fst ?r)) (snd (fst ?r))"
    using pool_exec_refines [of s l c] Cons.prems by auto
  then have sz: "fp_slice_size t = fp_slice_size s" by (simp add: same_pool_def)
  then obtain u where "pool_execs t cs = Some (u, snd (pool_specs (fp_slice_size s) (fst ?r) cs))" "same_pool t u"
    "pool_lists u (fst (fst (pool_specs (fp_slice_size s) (fst ?r) cs))) (snd (fst (pool_specs (fp_slice_size s) (fst ?r) cs)))"
    using Cons.IH [of t "fst ?r"] Cons.prems t same_pool_shape [of s t] by auto
  then show ?case using t by (auto simp: Let_def same_pool_def)
qed

text \<open>C15: a pool made by the constructor behaves, over any sequence of allocations and of frees of live
  pointers, like a stack of idle slices: every operation returns what the abstract pool returns, no
  assertion of the code fails, and the linked list, its locks and counters stay consistent.\<close>

theorem FixedPool_refines:
  assumes "FixedPool_new malloc slice_num slice_size shared = Inr s" "slice_num < 2 ^ 32" "0 < slice_size"
    and "l0 = (rev (map (slice_addr s) [0..<slice_num]), [])" and "pool_ops_ok (fp_slice_size s) l0 cs"
  shows "\<exists>t. pool_execs s cs = Some (t, snd (pool_specs (fp_slice_size s) l0 cs)) \<and> pool_inv t \<and>
    pool_lists t (fst (fst (pool_specs (fp_slice_size s) l0 cs))) (snd (fst (pool_specs (fp_slice_size s) l0 cs)))"
proof -
  have "pool_shape s" "pool_lists s (fst l0) (snd l0)"
    using FixedPool_new_ok [OF assms(1-3)] assms(4) by auto
  from pool_execs_refine [OF this assms(5)] same_pool_shape this(1) show ?thesis
    by (fastforce simp: pool_inv_def)
qed

definition demo_pool :: FixedPool where
  "demo_pool = pool_init \<lparr>fp_memory = 1048, fp_size = 64, fp_head = 0, fp_tail = 0, fp_slice_num = 2, fp_slice_use = 0,
     fp_slice_size = 8, fp_shared = False, fp_allocated = True, fp_slices = (\<lambda>_. None)\<rparr>"

lemma demo_pool_new:
  "FixedPool_new (\<lambda>_. 1000) 2 5 False = Inr demo_pool" "fp_slice_size demo_pool = 8" "fp_memory demo_pool = 1048"
  using pool_init_ok [of "\<lparr>fp_memory = 1048, fp_size = 64, fp_head = 0, fp_tail = 0, fp_slice_num = 2, fp_slice_use = 0,
     fp_slice_size = 8, fp_shared = False, fp_allocated = True, fp_slices = (\<lambda>_. None)\<rparr>"]
  by (simp_all add: demo_pool_def same_pool_def FixedPool_new_def sizeof_struct_impl_def sizeof_struct_slice_def
      SW_DEFAULT_ALIGNMENT_def aligned8)

theorem FixedPool_refines_witness:
  "\<exists>t. pool_execs demo_pool [PAlloc 3, PAlloc 8, PAlloc 1, PFree 1104, PAlloc 9, PAlloc 2] = Some (t, [1104, 1072, 0, 0, 0, 1104]) \<and> pool_inv t"
proof -
  let ?l = "(rev (map (slice_addr demo_pool) [0..<2]), [])" and ?ops = "[PAlloc 3, PAlloc 8, PAlloc 1, PFree 1104, PAlloc 9, PAlloc 2]"
  have ok: "pool_ops_ok (fp_slice_size demo_pool) ?l ?ops"
    and out: "snd (pool_specs (fp_slice_size demo_pool) ?l ?ops) = [1104, 1072, 0, 0, 0, 1104]"
    by (simp_all add: demo_pool_new slice_addr_def numeral_2_eq_2 sizeof_struct_slice_def Let_def)
  have "(2::nat) < 2 ^ 32" "(0::nat) < 5" by simp_all
  from FixedPool_refines [OF demo_pool_new(1) this refl ok] show ?thesis unfolding out by blast
qed

lemma fixed_alloc_bounds:
  assumes inv: "pool_inv s"
  shows "\<exists>t p. FixedPool_alloc s sz = Some (t, p) \<and>
    (p = nullptr \<longleftrightarrow> fp_slice_size s < sz \<or> get_number_of_spare_slice s = 0) \<and>
    (p \<noteq> nullptr \<longrightarrow> fixed_live t = (fixed_live s)(p \<mapsto> fp_slice_size s) \<and> sz \<le> fp_slice_size s \<and>
       fp_memory s < p \<and> p + fp_slice_size s \<le> fp_memory s + fp_size s)"
proof -
  obtain idle busy where L: "pool_lists s idle busy" and shape: "pool_shape s" using inv by (auto simp: pool_inv_def)
  have spare: "get_number_of_spare_slice s = 0 \<longleftrightarrow> idle = []"
    using pool_lists_length [OF L] pool_listsD(9) [OF L] shape
    by (cases idle) (auto simp: get_number_of_spare_slice_def pool_shape_def)
  show ?thesis
  proof (cases "fp_slice_size s < sz \<or> idle = []")
    case True
    then show ?thesis using FixedPool_alloc_fail [OF shape L True] spare by auto
  next
    case False
    then obtain x "is" where x: "idle = x # is" by (cases idle) auto
    then obtain t where t: "FixedPool_alloc s sz = Some (t, x + sizeof_struct_slice)" "pool_lists t is (busy @ [x])" "same_pool s t"
      using FixedPool_alloc_ok [of s x "is" busy sz] shape L False by auto
    let ?w = "sizeof_struct_slice + fp_slice_size s"
    obtain i where i: "x = fp_memory s + i * ?w" "i < fp_slice_num s"
      using pool_listsD(5) [OF L] x by (fastforce simp: slice_addr_def)
    have "x + ?w \<le> fp_memory s + fp_slice_num s * ?w"
      using mult_le_mono1 [of "i + 1" "fp_slice_num s" ?w] i by simp
    then have "x + sizeof_struct_slice + fp_slice_size s \<le> fp_memory s + fp_size s"
      using shape by (simp add: pool_shape_def)
    moreover have "fixed_live t = (fixed_live s)(x + sizeof_struct_slice \<mapsto> fp_slice_size s)"
      using fixed_alloc_fresh [OF inv, of "()" sz] t x L False
      by (auto simp: fun_eq_iff fixed_live_lists [OF L] fixed_live_lists [OF t(2)] same_pool_def)
    ultimately show ?thesis using t(1) False spare i by (simp add: sizeof_struct_slice_def)
  qed
qed

text \<open>C21: in every state a new pool reaches by allocations and frees of live blocks, \<open>alloc\<close> fails no assertion; it
  returns a null pointer exactly when the request is larger than a slice or every slice is in use, and
  otherwise a pointer to a block inside the pool's memory that was not handed out and overlaps no block handed out and not yet
  freed; that block, and no other, is now handed out.\<close>

theorem FixedPool_disjoint:
  assumes "FixedPool_new malloc slice_num slice_size shared = Inr s" "slice_num < 2 ^ 32" "0 < slice_size"
    and "fixed_pool.pool_run s t"
  shows "\<exists>u p. FixedPool_alloc t sz = Some (u, p) \<and>
    (p = nullptr \<longleftrightarrow> fp_slice_size t < sz \<or> get_number_of_spare_slice t = 0) \<and>
    (p \<noteq> nullptr \<longrightarrow> fixed_live t p = None \<and> (\<forall>q k. fixed_live t q = Some k \<longrightarrow> p + sz \<le> q \<or> q + k \<le> p) \<and>
       fp_memory t < p \<and> p + sz \<le> fp_memory t + fp_size t \<and> fixed_live u = (fixed_live t)(p \<mapsto> fp_slice_size t))"
proof -
  have "pool_inv s" using FixedPool_new_ok [OF assms(1-3)] by (auto simp: pool_inv_def)
  then have inv: "pool_inv t" using fixed_pool.pool_run_inv assms(4) by blast
  obtain u p where u: "FixedPool_alloc t sz = Some (u, p)"
    "p = nullptr \<longleftrightarrow> fp_slice_size t < sz \<or> get_number_of_spare_slice t = 0"
    "p \<noteq> nullptr \<longrightarrow> fixed_live u = (fixed_live t)(p \<mapsto> fp_slice_size t) \<and> sz \<le> fp_slice_size t \<and>
       fp_memory t < p \<and> p + fp_slice_size t \<le> fp_memory t + fp_size t"
    using fixed_alloc_bounds [OF inv, of sz] by auto
  have p: "snd (fixed_alloc t () sz) = p" using u(1) by (simp add: fixed_alloc_def)
  show ?thesis
  proof (cases "p = nullptr")
    case True
    then show ?thesis using u by auto
  next
    case False
    then show ?thesis
      using u fixed_alloc_fresh [OF inv p] fixed_pool.alloc_no_overlap [OF inv TrueI p False] by auto
  qed
qed

text \<open>A pool of two slices of 8 bytes: the second allocation returns the block below the first one.\<close>

theorem FixedPool_disjoint_witness:
  "\<exists>t u. fixed_pool.pool_run demo_pool t \<and> fixed_live t 1104 = Some 8 \<and> FixedPool_alloc t 5 = Some (u, 1072) \<and>
    fixed_live t 1072 = None \<and> fixed_live u = (fixed_live t)(1072 \<mapsto> 8)"
proof -
  note L = FixedPool_new_ok [OF demo_pool_new(1)]
  have l: "rev (map (slice_addr demo_pool) [0..<2]) = [1080, 1048]"
    by (simp add: slice_addr_def demo_pool_new numeral_2_eq_2 sizeof_struct_slice_def)
  obtain t where t: "FixedPool_alloc demo_pool 3 = Some (t, 1104)" "pool_lists t [1048] [1080]" "same_pool demo_pool t"
    using FixedPool_alloc_ok [of demo_pool 1080 "[1048]" "[]" 3] L l demo_pool_new(2) by (auto simp: sizeof_struct_slice_def)
  have run: "fixed_pool.pool_run demo_pool t"
    using fixed_pool.pr_alloc [OF fixed_pool.pr_refl TrueI, of demo_pool "()" 3] t(1) by (simp add: fixed_alloc_def)
  have size: "fp_slice_size t = 8" using t(3) demo_pool_new(2) by (simp add: same_pool_def)
  have live: "fixed_live t 1104 = Some 8"
    using size by (simp add: fixed_live_lists [OF t(2)] sizeof_struct_slice_def)
  have "pool_shape t" using same_pool_shape t(3) L by auto
  then obtain u where u: "FixedPool_alloc t 5 = Some (u, 1072)"
    using FixedPool_alloc_ok [of t 1048 "[]" "[1080]" 5] t(2) size by (auto simp: sizeof_struct_slice_def)
  with FixedPool_disjoint [OF demo_pool_new(1) _ _ run, of 5] run live size show ?thesis by auto
qed

end
