(* ===== verification/Sw_GlobalMemory.thy ===== *)
theory Sw_GlobalMemory
  imports Sw_Memory
begin

text \<open>
  \<open>src/memory/global_memory.cc\<close>: an allocator that carves blocks out of pages and never takes them
  back. Pages come from \<open>sw_malloc\<close> or \<open>sw_shm_malloc\<close> and are arguments of the model; the header
  field \<open>MemoryBlock::size\<close> of the blocks and the bytes of the memory are part of the state. The
  sizes are \<open>uint32_t\<close>.
\<close>

record GlobalMemory =
  gm_shared :: bool
  gm_pagesize :: nat
  gm_pages :: "addr list"
  gm_alloc_offset :: nat
  gm_create_pid :: nat
  gm_blocks :: "addr \<Rightarrow> nat option"
  gm_bytes :: "addr \<Rightarrow> byte"

definition SW_MIN_PAGE_SIZE :: nat where "SW_MIN_PAGE_SIZE = 4096"

definition sizeof_MemoryBlock :: nat where "sizeof_MemoryBlock = 8"

text \<open>\<open>new_page\<close>; \<open>page\<close> is what the allocator returned.\<close>

definition new_page :: "GlobalMemory \<Rightarrow> addr \<Rightarrow> GlobalMemory \<times> addr" where
  "new_page s page =
     (if page = nullptr then (s, nullptr)
      else (s\<lparr>gm_pages := gm_pages s @ [page], gm_alloc_offset := 0\<rparr>, page))"

text \<open>
  The constructor of \<open>GlobalMemoryImpl\<close> in a process \<open>pid\<close>, on top of the memory \<open>blocks\<close>, \<open>mem\<close> of the
  process; None is \<open>std::bad_alloc\<close>. \<open>os_pagesize\<close> is \<open>swoole_pagesize()\<close>.
\<close>

definition GlobalMemoryImpl_new ::
  "nat \<Rightarrow> nat \<Rightarrow> bool \<Rightarrow> nat \<Rightarrow> addr \<Rightarrow> (addr \<Rightarrow> nat option) \<Rightarrow> (addr \<Rightarrow> byte) \<Rightarrow> GlobalMemory option" where
  "GlobalMemoryImpl_new os_pagesize pagesize shared pid page blocks mem =
     (let s = \<lparr>gm_shared = shared, gm_pagesize = wrap32 (SW_MEM_ALIGNED_SIZE_EX pagesize os_pagesize), gm_pages = [],
               gm_alloc_offset = 0, gm_create_pid = pid, gm_blocks = blocks, gm_bytes = mem\<rparr>;
          r = new_page s page
      in if snd r = nullptr then None else Some (fst r))"

text \<open>The constructor of \<open>GlobalMemory\<close>; None also when the assertion on the page size fails.\<close>

definition GlobalMemory_new ::
  "nat \<Rightarrow> nat \<Rightarrow> bool \<Rightarrow> nat \<Rightarrow> addr \<Rightarrow> (addr \<Rightarrow> byte) \<Rightarrow> GlobalMemory option" where
  "GlobalMemory_new os_pagesize pagesize shared pid page mem =
     (if pagesize < SW_MIN_PAGE_SIZE then None
      else GlobalMemoryImpl_new os_pagesize pagesize shared pid page (\<lambda>_. None) mem)"

text \<open>What an allocation gets from outside: the process id, the page size of the system, the page for
  a new \<open>impl\<close> after a fork, and the page for \<open>new_page\<close>.\<close>

record gm_env =
  ge_pid :: nat
  ge_os_pagesize :: nat
  ge_impl_page :: addr
  ge_page :: addr

text \<open>The parts of \<open>alloc\<close>: the \<open>impl\<close> of this process, a page with room, and the block in it.\<close>

definition own_impl :: "GlobalMemory \<Rightarrow> gm_env \<Rightarrow> GlobalMemory option" where
  "own_impl s e =
     (if gm_shared s \<and> gm_create_pid s \<noteq> ge_pid e
      then GlobalMemoryImpl_new (ge_os_pagesize e) (gm_pagesize s) (gm_shared s) (ge_pid e) (ge_impl_page e) (gm_blocks s) (gm_bytes s)
      else Some s)"

definition ensure_page :: "GlobalMemory \<Rightarrow> addr \<Rightarrow> nat \<Rightarrow> GlobalMemory \<times> addr" where
  "ensure_page s page alloc_size =
     (if wrap32 (gm_alloc_offset s + alloc_size) > gm_pagesize s then new_page s page else (s, last (gm_pages s)))"

definition carve_block :: "GlobalMemory \<Rightarrow> nat \<Rightarrow> nat \<Rightarrow> GlobalMemory \<times> addr" where
  "carve_block s sz alloc_size =
     (let block = last (gm_pages s) + gm_alloc_offset s; m = block + sizeof_MemoryBlock in
      (s\<lparr>gm_alloc_offset := wrap32 (gm_alloc_offset s + alloc_size), gm_blocks := (gm_blocks s)(block \<mapsto> sz),
         gm_bytes := (\<lambda>a. if m \<le> a \<and> a < m + sz then 0 else gm_bytes s a)\<rparr>, m))"

text \<open>\<open>alloc\<close>; the outer None is \<open>std::bad_alloc\<close> from the new \<open>impl\<close>.\<close>

definition GlobalMemory_alloc :: "GlobalMemory \<Rightarrow> gm_env \<Rightarrow> nat \<Rightarrow> (GlobalMemory \<times> addr) option" where
  "GlobalMemory_alloc s e sz0 =
     (let sz = wrap32 (SW_MEM_ALIGNED_SIZE sz0); alloc_size = wrap32 (sizeof_MemoryBlock + sz) in
      if alloc_size > gm_pagesize s then Some (s, nullptr)
      else case own_impl s e of
        None \<Rightarrow> None
      | Some s1 \<Rightarrow>
          (let r = ensure_page s1 (ge_page e) alloc_size in
           if snd r = nullptr then Some (fst r, nullptr) else Some (carve_block (fst r) sz alloc_size)))"

definition GlobalMemory_free :: "GlobalMemory \<Rightarrow> addr \<Rightarrow> GlobalMemory" where
  "GlobalMemory_free s ptr = s"

definition GlobalMemory_capacity :: "GlobalMemory \<Rightarrow> nat" where
  "GlobalMemory_capacity s = sub32 (gm_pagesize s) (gm_alloc_offset s)"

definition GlobalMemory_get_memory_size :: "GlobalMemory \<Rightarrow> nat" where
  "GlobalMemory_get_memory_size s = gm_pagesize s * length (gm_pages s)"

text \<open>The destructor: the pages given back.\<close>

definition GlobalMemory_destroy :: "GlobalMemory \<Rightarrow> dealloc list" where
  "GlobalMemory_destroy s = map (if gm_shared s then SHM_FREE else SW_FREE) (gm_pages s)"

section \<open>Invariant\<close>

definition global_live :: "GlobalMemory \<Rightarrow> addr \<Rightarrow> nat option" where
  "global_live s p = (if sizeof_MemoryBlock \<le> p then gm_blocks s (p - sizeof_MemoryBlock) else None)"

text \<open>No block reaches into the memory from \<open>a\<close> to \<open>b\<close>.\<close>

definition area_free :: "(addr \<Rightarrow> nat option) \<Rightarrow> addr \<Rightarrow> addr \<Rightarrow> bool" where
  "area_free B a b \<longleftrightarrow> (\<forall>c n. B c = Some n \<longrightarrow> c + sizeof_MemoryBlock + n \<le> a \<or> b \<le> c)"

definition global_inv :: "GlobalMemory \<Rightarrow> bool" where
  "global_inv s \<longleftrightarrow> gm_pages s \<noteq> [] \<and> last (gm_pages s) \<noteq> nullptr \<and> gm_alloc_offset s \<le> gm_pagesize s \<and> gm_pagesize s < 2 ^ 31 \<and>
     area_free (gm_blocks s) (last (gm_pages s) + gm_alloc_offset s) (last (gm_pages s) + gm_pagesize s) \<and>
     (\<forall>c d m n. c \<noteq> d \<and> gm_blocks s c = Some m \<and> gm_blocks s d = Some n \<longrightarrow>
        c + sizeof_MemoryBlock + m \<le> d \<or> d + sizeof_MemoryBlock + n \<le> c)"

text \<open>New pages overlap no block; the page size stays aligned; the request does not wrap at 32 bits.\<close>

definition global_env_ok :: "GlobalMemory \<Rightarrow> gm_env \<Rightarrow> nat \<Rightarrow> bool" where
  "global_env_ok s e n \<longleftrightarrow> n \<le> 2 ^ 32 - 16 \<and> wrap32 (SW_MEM_ALIGNED_SIZE_EX (gm_pagesize s) (ge_os_pagesize e)) = gm_pagesize s \<and>
     (ge_impl_page e \<noteq> nullptr \<longrightarrow> area_free (gm_blocks s) (ge_impl_page e) (ge_impl_page e + gm_pagesize s)) \<and>
     (ge_page e \<noteq> nullptr \<longrightarrow> area_free (gm_blocks s) (ge_page e) (ge_page e + gm_pagesize s))"

definition global_alloc :: "GlobalMemory \<Rightarrow> gm_env \<Rightarrow> nat \<Rightarrow> GlobalMemory \<times> addr" where
  "global_alloc s e n = (case GlobalMemory_alloc s e n of None \<Rightarrow> (s, nullptr) | Some r \<Rightarrow> r)"

lemma request_size:
  assumes "n \<le> 2 ^ 32 - 16"
  defines "sz \<equiv> wrap32 (SW_MEM_ALIGNED_SIZE n)"
  shows "n \<le> sz" "wrap32 (sizeof_MemoryBlock + sz) = sizeof_MemoryBlock + sz" "8 dvd sz"
proof -
  have "(n + 7) div 8 \<le> (2 ^ 32 - 9) div 8" using assms(1) by (intro div_le_mono) simp
  then have "n \<le> (n + 7) div 8 * 8" "(n + 7) div 8 * 8 \<le> 2 ^ 32 - 16" by simp_all
  then show "n \<le> sz" "wrap32 (sizeof_MemoryBlock + sz) = sizeof_MemoryBlock + sz" "8 dvd sz"
    using assms(1) by (simp_all add: sz_def aligned8 sizeof_MemoryBlock_def)
qed

lemma global_carve:
  assumes inv: "global_inv s" and room: "gm_alloc_offset s + (sizeof_MemoryBlock + sz) \<le> gm_pagesize s"
  defines "t \<equiv> fst (carve_block s sz (sizeof_MemoryBlock + sz))" and "p \<equiv> snd (carve_block s sz (sizeof_MemoryBlock + sz))"
  shows "global_inv t" and "global_live s p = None" and "global_live t = (global_live s)(p \<mapsto> sz)"
    and "p \<noteq> nullptr" and "p \<le> a \<Longrightarrow> a < p + sz \<Longrightarrow> gm_bytes t a = 0"
proof -
  let ?b = "last (gm_pages s) + gm_alloc_offset s"
  have p: "p = ?b + sizeof_MemoryBlock" and t: "gm_blocks t = (gm_blocks s)(?b \<mapsto> sz)" "gm_pages t = gm_pages s" "gm_pagesize t = gm_pagesize s"
    "gm_alloc_offset t = wrap32 (gm_alloc_offset s + (sizeof_MemoryBlock + sz))"
    by (simp_all add: p_def t_def carve_block_def Let_def)
  show "p \<noteq> nullptr" using p by (simp add: sizeof_MemoryBlock_def)
  show "p \<le> a \<Longrightarrow> a < p + sz \<Longrightarrow> gm_bytes t a = 0" by (simp add: p_def t_def carve_block_def Let_def)
  have w: "wrap32 (gm_alloc_offset s + (sizeof_MemoryBlock + sz)) = gm_alloc_offset s + (sizeof_MemoryBlock + sz)"
    using room inv by (intro wrap32_id) (simp add: global_inv_def)
  have free: "c + sizeof_MemoryBlock + n \<le> ?b \<or> last (gm_pages s) + gm_pagesize s \<le> c" if "gm_blocks s c = Some n" for c n
    using inv that by (auto simp: global_inv_def area_free_def)
  have fresh: "gm_blocks s ?b = None"
  proof (cases "gm_blocks s ?b")
    case (Some n)
    then show ?thesis using free [OF Some] room by (simp add: sizeof_MemoryBlock_def)
  qed
  then show "global_live s p = None" using p by (simp add: global_live_def)
  show "global_live t = (global_live s)(p \<mapsto> sz)"
    using p by (auto simp: fun_eq_iff global_live_def t)
  have "c + sizeof_MemoryBlock + m \<le> d \<or> d + sizeof_MemoryBlock + n \<le> c"
    if "c \<noteq> d" "gm_blocks t c = Some m" "gm_blocks t d = Some n" for c d m n
    using that inv free [of c m] free [of d n] room by (auto simp: t global_inv_def split: if_splits)
  moreover have "area_free (gm_blocks t) (last (gm_pages t) + gm_alloc_offset t) (last (gm_pages t) + gm_pagesize t)"
    unfolding area_free_def
  proof (intro allI impI)
    fix c n assume c: "gm_blocks t c = Some n"
    show "c + sizeof_MemoryBlock + n \<le> last (gm_pages t) + gm_alloc_offset t \<or> last (gm_pages t) + gm_pagesize t \<le> c"
      using c free [of c n] w by (cases "c = ?b") (auto simp: t)
  qed
  ultimately show "global_inv t"
    using inv w room by (auto simp: global_inv_def t)
qed


lemma new_page_inv:
  assumes "global_inv s" "page \<noteq> nullptr" "area_free (gm_blocks s) page (page + gm_pagesize s)"
  shows "global_inv (fst (new_page s page))" "gm_alloc_offset (fst (new_page s page)) = 0"
  using assms by (auto simp: new_page_def global_inv_def)

lemma impl_new_inv:
  assumes inv: "global_inv s" and size: "wrap32 (SW_MEM_ALIGNED_SIZE_EX (gm_pagesize s) os) = gm_pagesize s"
    and page: "page \<noteq> nullptr \<longrightarrow> area_free (gm_blocks s) page (page + gm_pagesize s)"
    and new: "GlobalMemoryImpl_new os (gm_pagesize s) sh pid page (gm_blocks s) (gm_bytes s) = Some t"
  shows "global_inv t" "gm_blocks t = gm_blocks s" "gm_pagesize t = gm_pagesize s" "gm_alloc_offset t = 0"
proof -
  have t: "t = \<lparr>gm_shared = sh, gm_pagesize = gm_pagesize s, gm_pages = [page], gm_alloc_offset = 0, gm_create_pid = pid,
      gm_blocks = gm_blocks s, gm_bytes = gm_bytes s\<rparr>" "page \<noteq> nullptr"
    using new size by (auto simp: GlobalMemoryImpl_new_def new_page_def Let_def split: if_splits)
  then show "global_inv t" using inv page unfolding global_inv_def by simp
  show "gm_blocks t = gm_blocks s" "gm_pagesize t = gm_pagesize s" "gm_alloc_offset t = 0" using t by simp_all
qed

lemma own_impl_inv:
  assumes inv: "global_inv s" and ok: "global_env_ok s e n" and own: "own_impl s e = Some t"
  shows "global_inv t" "gm_blocks t = gm_blocks s" "gm_pagesize t = gm_pagesize s"
proof -
  have e: "wrap32 (SW_MEM_ALIGNED_SIZE_EX (gm_pagesize s) (ge_os_pagesize e)) = gm_pagesize s"
    "ge_impl_page e \<noteq> nullptr \<longrightarrow> area_free (gm_blocks s) (ge_impl_page e) (ge_impl_page e + gm_pagesize s)"
    using ok by (simp_all add: global_env_ok_def)
  have "t = s \<or> GlobalMemoryImpl_new (ge_os_pagesize e) (gm_pagesize s) (gm_shared s) (ge_pid e) (ge_impl_page e) (gm_blocks s) (gm_bytes s) = Some t"
    using own by (simp add: own_impl_def split: if_splits)
  then show "global_inv t" "gm_blocks t = gm_blocks s" "gm_pagesize t = gm_pagesize s"
    using inv impl_new_inv(1-3) [OF inv e] by blast+
qed

text \<open>Either nothing is handed out and the blocks stay, or a zeroed block is carved from a page with room.\<close>

lemma global_alloc_cases:
  assumes inv: "global_inv s" and ok: "global_env_ok s e n"
  defines "t \<equiv> fst (global_alloc s e n)" and "p \<equiv> snd (global_alloc s e n)" and "sz \<equiv> wrap32 (SW_MEM_ALIGNED_SIZE n)"
  shows "global_inv t \<and> (p = nullptr \<and> gm_blocks t = gm_blocks s \<or>
    p \<noteq> nullptr \<and> global_live s p = None \<and> global_live t = (global_live s)(p \<mapsto> sz) \<and>
      (\<forall>a. p \<le> a \<and> a < p + sz \<longrightarrow> gm_bytes t a = 0))"
proof (cases "sizeof_MemoryBlock + sz > gm_pagesize s")
  note R = request_size [of n, folded sz_def]
  have n: "n \<le> 2 ^ 32 - 16" using ok by (simp add: global_env_ok_def)
  case True
  then show ?thesis
    using inv R(2) n by (auto simp: t_def p_def global_alloc_def GlobalMemory_alloc_def sz_def [symmetric] Let_def)
next
  case fits: False
  note R = request_size [of n, folded sz_def]
  have n: "n \<le> 2 ^ 32 - 16" using ok by (simp add: global_env_ok_def)
  show ?thesis
  proof (cases "own_impl s e")
    case None
    then have "GlobalMemory_alloc s e n = None"
      using fits R(2) n by (simp add: GlobalMemory_alloc_def sz_def [symmetric] Let_def)
    then show ?thesis using inv by (simp add: t_def p_def global_alloc_def)
  next
    case (Some s1)
    note s1 = own_impl_inv [OF inv ok Some]
    define r where "r = ensure_page s1 (ge_page e) (sizeof_MemoryBlock + sz)"
    have al: "GlobalMemory_alloc s e n =
        (if snd r = nullptr then Some (fst r, nullptr) else Some (carve_block (fst r) sz (sizeof_MemoryBlock + sz)))"
      using fits R(2) n Some by (simp add: GlobalMemory_alloc_def sz_def [symmetric] Let_def r_def)
    have off: "gm_alloc_offset s1 + (sizeof_MemoryBlock + sz) < 2 ^ 32"
      using s1 fits inv by (auto simp: global_inv_def)
    have r: "global_inv (fst r)" "gm_blocks (fst r) = gm_blocks s" "gm_pagesize (fst r) = gm_pagesize s"
      using s1 new_page_inv(1) [OF s1(1), of "ge_page e"] ok
      by (auto simp: r_def ensure_page_def global_env_ok_def) (auto simp: new_page_def)
    show ?thesis
    proof (cases "snd r = nullptr")
      case True
      then show ?thesis using al r by (simp add: t_def p_def global_alloc_def)
    next
      case False
      have "gm_alloc_offset (fst r) + (sizeof_MemoryBlock + sz) \<le> gm_pagesize (fst r)"
        using False fits off s1(3) by (auto simp: r_def ensure_page_def new_page_def split: if_splits)
      from global_carve [OF r(1) this] show ?thesis
        using False al r(2) by (auto simp: t_def p_def global_alloc_def global_live_def)
    qed
  qed
qed

lemma global_inv_blocks:
  "global_inv s \<Longrightarrow> c \<noteq> d \<Longrightarrow> gm_blocks s c = Some m \<Longrightarrow> gm_blocks s d = Some n \<Longrightarrow>
    c + sizeof_MemoryBlock + m \<le> d \<or> d + sizeof_MemoryBlock + n \<le> c"
  unfolding global_inv_def by simp

interpretation global_memory: block_allocator global_inv global_live global_alloc global_env_ok
proof (unfold_locales, goal_cases)
  case (1 s)
  show ?case unfolding disjoint_blocks_def
  proof (intro allI impI, elim conjE)
    fix p q m n assume pq: "p \<noteq> q" "global_live s p = Some m" "global_live s q = Some n"
    define c d where "c = p - sizeof_MemoryBlock" and "d = q - sizeof_MemoryBlock"
    have c: "p = sizeof_MemoryBlock + c" "gm_blocks s c = Some m" "q = sizeof_MemoryBlock + d" "gm_blocks s d = Some n"
      using pq(2,3) by (simp_all add: c_def d_def global_live_def split: if_splits)
    have "c \<noteq> d" using c(1,3) pq(1) by simp
    then have "c + sizeof_MemoryBlock + m \<le> d \<or> d + sizeof_MemoryBlock + n \<le> c"
      by (rule global_inv_blocks [OF 1 _ c(2,4)])
    then show "p + m \<le> q \<or> q + n \<le> p" using c(1,3) by linarith
  qed
next
  case (2 s)
  then show ?case by (simp add: global_live_def sizeof_MemoryBlock_def)
next
  case (3 s e n)
  then show ?case using global_alloc_cases by blast
next
  case (4 s e n)
  then show ?case using global_alloc_cases [OF 4(1,2)] by (auto simp: global_live_def)
next
  case (5 s e n p)
  then have "n \<le> wrap32 (SW_MEM_ALIGNED_SIZE n)" using request_size(1) [of n] by (simp add: global_env_ok_def)
  then show ?case using global_alloc_cases [OF 5(1,2)] 5(3,4) by auto
qed

lemma global_inv_new:
  assumes "GlobalMemory_new os_pagesize pagesize shared pid page mem = Some s" "gm_pagesize s < 2 ^ 31"
  shows "global_inv s"
proof -
  have "gm_blocks s = (\<lambda>_. None)" "gm_pages s = [page]" "page \<noteq> nullptr" "gm_alloc_offset s = 0"
    using assms(1) by (auto simp: GlobalMemory_new_def GlobalMemoryImpl_new_def new_page_def Let_def split: if_splits)
  then show ?thesis using assms(2) by (simp add: global_inv_def area_free_def)
qed

text \<open>C17: whatever is allocated from a new \<open>GlobalMemory\<close>, in one process or after forks, no two blocks overlap,
  no block is ever lost, and a block that is handed out is zeroed and has the requested size; the
  pages come from the system's allocator, are below 2 GB, and requests stay below \<open>2^32 - 15\<close> bytes.\<close>

theorem GlobalMemory_blocks:
  assumes "GlobalMemory_new os_pagesize pagesize shared pid page mem = Some s" "gm_pagesize s < 2 ^ 31"
    and "global_memory.allocs_ok s xs" "global_memory.allocs s xs = t" "global_env_ok t e n"
  shows "disjoint_blocks (global_live t) \<and>
    (case GlobalMemory_alloc t e n of None \<Rightarrow> True
     | Some (u, p) \<Rightarrow> global_live t \<subseteq>\<^sub>m global_live u \<and> disjoint_blocks (global_live u) \<and>
        (p = nullptr \<or> (\<exists>m\<ge>n. global_live u p = Some m) \<and> (\<forall>a. p \<le> a \<and> a < p + n \<longrightarrow> gm_bytes u a = 0)))"
proof -
  have inv: "global_inv t"
    using global_memory.allocs_keep [OF global_inv_new [OF assms(1,2)] assms(3)] assms(4) by simp
  show ?thesis
  proof (cases "GlobalMemory_alloc t e n")
    case None
    then show ?thesis using global_memory.live_disjoint [OF inv] by simp
  next
    case (Some r)
    then obtain u p where r: "GlobalMemory_alloc t e n = Some (u, p)" by (cases r) auto
    then have a: "global_alloc t e n = (u, p)" by (simp add: global_alloc_def)
    have n: "n \<le> wrap32 (SW_MEM_ALIGNED_SIZE n)" using request_size(1) [of n] assms(5) by (simp add: global_env_ok_def)
    have "global_live t \<subseteq>\<^sub>m global_live u"
      using global_memory.allocs_keep [OF inv, of "[(e, n)]"] assms(5) a
      by (simp add: global_memory.allocs_ok.simps global_memory.allocs.simps)
    moreover have "global_inv u"
      "p \<noteq> nullptr \<Longrightarrow> global_live u p = Some (wrap32 (SW_MEM_ALIGNED_SIZE n))"
      "p \<noteq> nullptr \<Longrightarrow> p \<le> a \<Longrightarrow> a < p + wrap32 (SW_MEM_ALIGNED_SIZE n) \<Longrightarrow> gm_bytes u a = 0" for a
      using global_alloc_cases [OF inv assms(5)] unfolding a by auto
    ultimately show ?thesis
      using global_memory.live_disjoint [OF inv] global_memory.live_disjoint [of u] n unfolding r by force
  qed
qed

definition demo_env :: gm_env where
  "demo_env = \<lparr>ge_pid = 1, ge_os_pagesize = 4096, ge_impl_page = 0, ge_page = 20000\<rparr>"

definition demo_gm :: GlobalMemory where
  "demo_gm = \<lparr>gm_shared = True, gm_pagesize = 4096, gm_pages = [10000], gm_alloc_offset = 0, gm_create_pid = 1,
     gm_blocks = (\<lambda>_. None), gm_bytes = (\<lambda>_. 7)\<rparr>"

lemma demo_gm_new: "GlobalMemory_new 4096 4096 True 1 10000 (\<lambda>_. 7) = Some demo_gm"
proof -
  have "SW_MEM_ALIGNED_SIZE_EX 4096 4096 = 4096" using aligned_ex [of 4096 12] by simp
  then show ?thesis
    by (simp add: GlobalMemory_new_def SW_MIN_PAGE_SIZE_def GlobalMemoryImpl_new_def new_page_def demo_gm_def Let_def)
qed

lemma demo_env_ok: "global_env_ok demo_gm demo_env 100"
proof -
  have "SW_MEM_ALIGNED_SIZE_EX 4096 4096 = 4096" using aligned_ex [of 4096 12] by simp
  then show ?thesis by (simp add: global_env_ok_def demo_gm_def demo_env_def area_free_def)
qed

lemma demo_gm_alloc: "map_option snd (GlobalMemory_alloc demo_gm demo_env 100) = Some 10008"
  by (simp add: GlobalMemory_alloc_def own_impl_def ensure_page_def carve_block_def demo_gm_def demo_env_def
      sizeof_MemoryBlock_def aligned8 Let_def)

theorem GlobalMemory_blocks_witness:
  "\<exists>u. GlobalMemory_alloc demo_gm demo_env 100 = Some (u, 10008) \<and> disjoint_blocks (global_live u) \<and>
    (\<exists>m\<ge>100. global_live u 10008 = Some m) \<and> gm_bytes u 10050 = 0"
proof -
  obtain u where u: "GlobalMemory_alloc demo_gm demo_env 100 = Some (u, 10008)" using demo_gm_alloc by auto
  have "global_memory.allocs_ok demo_gm []" "global_memory.allocs demo_gm [] = demo_gm" "gm_pagesize demo_gm < 2 ^ 31"
    by (simp_all add: global_memory.allocs_ok.simps global_memory.allocs.simps demo_gm_def)
  from GlobalMemory_blocks [OF demo_gm_new this(3,1,2) demo_env_ok] u show ?thesis by auto
qed

text \<open>C26: the 32-bit sum \<open>sizeof(MemoryBlock) + size\<close> is not checked for overflow: a request of \<open>2^32 - 8\<close>
  bytes computes an \<open>alloc_size\<close> of 0 and succeeds in every pool, without consuming any of the page;
  the code then clears \<open>2^32 - 8\<close> bytes of a page of at most 2 GB.\<close>

theorem GlobalMemory_alloc_overflow:
  assumes "global_inv s" "\<not> gm_shared s \<or> gm_create_pid s = ge_pid e"
  shows "\<exists>t p. GlobalMemory_alloc s e (2 ^ 32 - 8) = Some (t, p) \<and> p \<noteq> nullptr \<and>
    gm_alloc_offset t = gm_alloc_offset s \<and> global_live t p = Some (2 ^ 32 - 8) \<and> gm_pagesize t < 2 ^ 32 - 8"
proof -
  have "own_impl s e = Some s" using assms(2) by (auto simp: own_impl_def)
  moreover have "SW_MEM_ALIGNED_SIZE (2 ^ 32 - 8) = 2 ^ 32 - 8" by (simp add: aligned8)
  moreover have "ensure_page s (ge_page e) 0 = (s, last (gm_pages s))" "last (gm_pages s) \<noteq> nullptr"
    "wrap32 (gm_alloc_offset s) = gm_alloc_offset s" "gm_pagesize s < 2 ^ 31"
    using assms(1) by (auto simp: ensure_page_def global_inv_def)
  ultimately show ?thesis
    by (simp add: GlobalMemory_alloc_def carve_block_def sizeof_MemoryBlock_def wrap32_def [of 4294967296] Let_def global_live_def)
qed

theorem GlobalMemory_alloc_overflow_witness:
  "\<exists>t p. GlobalMemory_alloc demo_gm demo_env (2 ^ 32 - 8) = Some (t, p) \<and> p \<noteq> nullptr \<and> gm_alloc_offset t = 0"
proof -
  have "global_inv demo_gm" by (rule global_inv_new [OF demo_gm_new]) (simp add: demo_gm_def)
  from GlobalMemory_alloc_overflow [OF this, of demo_env] show ?thesis
    by (auto simp: demo_gm_def demo_env_def)
qed

end
