(* ===== verification/Sw_RingBuffer.thy ===== *)
theory Sw_RingBuffer
  imports Sw_Memory
begin

text \<open>
  \<open>src/memory/ring_buffer.cc\<close>: a ring of items in one piece of memory, allocated in order, freed in any
  order and collected in order. \<open>rb_items\<close> gives the item header that a read at an offset returns;
  the header contents of memory that was never written are arbitrary. All counters and offsets are
  \<open>uint32_t\<close>.
\<close>

section \<open>Data and operations\<close>

record RingBufferItem =
  it_lock :: nat
  it_index :: nat
  it_length :: nat

record RingBuffer =
  rb_memory :: addr
  rb_shared :: bool
  rb_status :: nat
  rb_size :: nat
  rb_alloc_offset :: nat
  rb_collect_offset :: nat
  rb_alloc_count :: nat
  rb_free_count :: nat
  rb_items :: "nat \<Rightarrow> RingBufferItem"

definition sizeof_RingBufferImpl :: nat where "sizeof_RingBufferImpl = 32"
definition sizeof_RingBufferItem :: nat where "sizeof_RingBufferItem = 8"

datatype ring_error = RING_INVALID_PARAMS | RING_BAD_ALLOC

definition RingBuffer_new :: "(nat \<Rightarrow> addr) \<Rightarrow> (nat \<Rightarrow> RingBufferItem) \<Rightarrow> nat \<Rightarrow> bool \<Rightarrow> ring_error + RingBuffer" where
  "RingBuffer_new malloc content sz0 shared =
     (if sz0 > (2 ^ 32 - 1) - SW_DEFAULT_ALIGNMENT + 1 then Inl RING_INVALID_PARAMS
      else
        let sz = wrap32 (SW_MEM_ALIGNED_SIZE sz0) in
        if sz \<le> sizeof_RingBufferImpl + sizeof_RingBufferItem then Inl RING_INVALID_PARAMS
        else
          let mem = malloc sz in
          if mem = nullptr then Inl RING_BAD_ALLOC
          else Inr \<lparr>rb_memory = mem + sizeof_RingBufferImpl, rb_shared = shared, rb_status = 0,
                    rb_size = wrap32 (sz - sizeof_RingBufferImpl), rb_alloc_offset = 0, rb_collect_offset = 0,
                    rb_alloc_count = 0, rb_free_count = 0, rb_items = content\<rparr>)"

text \<open>\<open>collect\<close>: the loop counter runs against \<open>free_count\<close>, which the loop itself decreases.\<close>

function collect_loop :: "nat \<Rightarrow> RingBuffer \<Rightarrow> RingBuffer" where
  "collect_loop i s =
     (if i < rb_free_count s then
        let item = rb_items s (rb_collect_offset s) in
        if it_lock item = 0 then
          let n_size = wrap32 (it_length item + sizeof_RingBufferItem);
              c = wrap32 (rb_collect_offset s + n_size);
              s1 = (if c + sizeof_RingBufferItem > rb_size s \<or> c \<ge> rb_size s
                    then s\<lparr>rb_collect_offset := 0, rb_status := 0\<rparr> else s\<lparr>rb_collect_offset := c\<rparr>)
          in collect_loop (i + 1) (s1\<lparr>rb_free_count := rb_free_count s - 1\<rparr>)
        else s
      else s)"
  by pat_completeness auto
termination
  by (relation "measure (\<lambda>(i, s). rb_free_count s - i)") (auto simp: Let_def)

declare collect_loop.simps [simp del]

definition ring_collect :: "RingBuffer \<Rightarrow> RingBuffer" where
  "ring_collect s = collect_loop 0 s"

text \<open>The part of \<open>alloc\<close> that finds the free range: the new state and the capacity there.\<close>

definition ring_capacity :: "RingBuffer \<Rightarrow> nat \<Rightarrow> RingBuffer \<times> nat" where
  "ring_capacity s alloc_size =
     (if rb_status s = 0 then
        if wrap32 (rb_alloc_offset s + alloc_size) > rb_size s - sizeof_RingBufferItem then
          let skip_n = sub32 (rb_size s) (rb_alloc_offset s);
              s1 = (if skip_n \<ge> sizeof_RingBufferItem
                    then s\<lparr>rb_items := (rb_items s)(rb_alloc_offset s :=
                             (rb_items s (rb_alloc_offset s))\<lparr>it_lock := 0, it_length := wrap32 (skip_n - sizeof_RingBufferItem)\<rparr>),
                           rb_free_count := wrap32 (rb_free_count s + 1)\<rparr>
                    else s)
          in (s1\<lparr>rb_alloc_offset := 0, rb_status := 1\<rparr>, rb_collect_offset s)
        else (s, sub32 (rb_size s) (rb_alloc_offset s))
      else (s, sub32 (rb_collect_offset s) (rb_alloc_offset s)))"

text \<open>\<open>alloc\<close>; the outer None is a failed assertion.\<close>

definition RingBuffer_alloc :: "RingBuffer \<Rightarrow> nat \<Rightarrow> (RingBuffer \<times> addr) option" where
  "RingBuffer_alloc s sz0 =
     (if sz0 = 0 then None
      else if sz0 > (2 ^ 32 - 1) - SW_DEFAULT_ALIGNMENT + 1 then Some (s, nullptr)
      else
        let sz = wrap32 (SW_MEM_ALIGNED_SIZE sz0) in
        if sz > (2 ^ 32 - 1) - sizeof_RingBufferItem then Some (s, nullptr)
        else
          let alloc_size = wrap32 (sz + sizeof_RingBufferItem);
              s1 = (if rb_free_count s > 0 then ring_collect s else s);
              r = ring_capacity s1 alloc_size; s2 = fst r in
          if snd r < alloc_size then Some (s2, nullptr)
          else Some (s2\<lparr>rb_items := (rb_items s2)(rb_alloc_offset s2 :=
                            \<lparr>it_lock = 1, it_index = rb_alloc_count s2 mod 2 ^ 16, it_length = sz\<rparr>),
                       rb_alloc_offset := wrap32 (rb_alloc_offset s2 + alloc_size),
                       rb_alloc_count := wrap32 (rb_alloc_count s2 + 1)\<rparr>,
                     rb_memory s2 + rb_alloc_offset s2 + sizeof_RingBufferItem))"

text \<open>\<open>free\<close>; None when one of its assertions fails.\<close>

definition RingBuffer_free :: "RingBuffer \<Rightarrow> addr \<Rightarrow> RingBuffer option" where
  "RingBuffer_free s ptr =
     (let off = ptr - sizeof_RingBufferItem - rb_memory s; item = rb_items s off in
      if \<not> rb_memory s \<le> ptr \<or> \<not> ptr \<le> rb_memory s + rb_size s \<or> it_lock item \<noteq> 1 then None
      else Some (s\<lparr>rb_items := (rb_items s)(off := item\<lparr>it_lock := 0\<rparr>), rb_free_count := wrap32 (rb_free_count s + 1)\<rparr>))"

definition RingBuffer_destroy :: "RingBuffer \<Rightarrow> dealloc" where
  "RingBuffer_destroy s =
     (if rb_shared s then SHM_FREE (rb_memory s - sizeof_RingBufferImpl) else SW_FREE (rb_memory s - sizeof_RingBufferImpl))"

section \<open>The ring of items\<close>

text \<open>\<open>tiles I a os b\<close>: items at the offsets \<open>os\<close> fill the range from \<open>a\<close> to \<open>b\<close> without gaps.\<close>

fun tiles :: "(nat \<Rightarrow> RingBufferItem) \<Rightarrow> nat \<Rightarrow> nat list \<Rightarrow> nat \<Rightarrow> bool" where
  "tiles I a [] b \<longleftrightarrow> a = b"
| "tiles I a (x # xs) b \<longleftrightarrow> x = a \<and> tiles I (a + (sizeof_RingBufferItem + it_length (I a))) xs b"

lemma tiles_le: "tiles I a xs b \<Longrightarrow> a \<le> b"
proof (induction xs arbitrary: a)
  case (Cons x xs)
  then have "a + (sizeof_RingBufferItem + it_length (I a)) \<le> b" by simp
  then show ?case by simp
qed simp

lemma tiles_member:
  "tiles I a xs b \<Longrightarrow> x \<in> set xs \<Longrightarrow> a \<le> x \<and> x + sizeof_RingBufferItem + it_length (I x) \<le> b"
proof (induction xs arbitrary: a)
  case (Cons y ys)
  then show ?case using tiles_le [of I "a + (sizeof_RingBufferItem + it_length (I a))" ys b] by fastforce
qed simp

lemma tiles_upd: "x \<notin> set xs \<Longrightarrow> tiles (I(x := v)) a xs b = tiles I a xs b"
  by (induction xs arbitrary: a) auto

lemma tiles_cong: "(\<And>x. x \<in> set xs \<Longrightarrow> it_length (I x) = it_length (J x)) \<Longrightarrow> tiles I a xs b = tiles J a xs b"
  by (induction xs arbitrary: a) auto

lemma tiles_snoc: "tiles I a (xs @ [x]) b \<longleftrightarrow> tiles I a xs x \<and> b = x + (sizeof_RingBufferItem + it_length (I x))"
  by (induction xs arbitrary: a) auto

lemma tiles_sorted: "tiles I a xs b \<Longrightarrow> sorted xs \<and> distinct xs"
proof (induction xs arbitrary: a)
  case (Cons x xs)
  then have "tiles I (a + (sizeof_RingBufferItem + it_length (I a))) xs b" "x = a" by auto
  then show ?case using Cons.IH tiles_member [of I _ xs b] by (fastforce simp: sizeof_RingBufferItem_def)
qed simp

lemma tiles_unique: "tiles I a xs b \<Longrightarrow> tiles I a ys b \<Longrightarrow> xs = ys"
proof (induction xs arbitrary: a ys)
  case Nil
  then show ?case using tiles_member [of I a ys b] by (cases ys) (auto simp: sizeof_RingBufferItem_def dest: tiles_le)
next
  case (Cons x xs)
  show ?case
  proof (cases ys)
    case Nil
    then show ?thesis using Cons.prems tiles_le [of I "a + (sizeof_RingBufferItem + it_length (I a))" xs b]
      by (simp add: sizeof_RingBufferItem_def)
  next
    case (Cons y zs)
    then show ?thesis using Cons.prems Cons.IH by auto
  qed
qed

text \<open>Two blocks of one tiling do not overlap.\<close>

lemma tiles_disjoint:
  "tiles I a xs b \<Longrightarrow> x \<in> set xs \<Longrightarrow> y \<in> set xs \<Longrightarrow> x < y \<Longrightarrow> x + sizeof_RingBufferItem + it_length (I x) \<le> y"
proof (induction xs arbitrary: a)
  case (Cons z zs)
  then have t: "tiles I (a + (sizeof_RingBufferItem + it_length (I a))) zs b" "z = a" by auto
  then show ?case
    using Cons tiles_member [OF t(1), of x] tiles_member [OF t(1), of y] by (auto simp: sizeof_RingBufferItem_def)
qed simp

definition ring_lists :: "RingBuffer \<Rightarrow> nat list \<Rightarrow> nat list \<Rightarrow> bool" where
  "ring_lists s xs ys \<longleftrightarrow>
     (if rb_status s = 0
      then tiles (rb_items s) (rb_collect_offset s) xs (rb_alloc_offset s) \<and> ys = [] \<and>
           rb_alloc_offset s + sizeof_RingBufferItem \<le> rb_size s
      else rb_status s = 1 \<and> tiles (rb_items s) (rb_collect_offset s) xs (rb_size s) \<and> xs \<noteq> [] \<and>
           tiles (rb_items s) 0 ys (rb_alloc_offset s) \<and> rb_alloc_offset s \<le> rb_collect_offset s) \<and>
     (\<forall>x \<in> set (xs @ ys). it_lock (rb_items s x) \<le> 1) \<and>
     rb_free_count s = length (filter (\<lambda>x. it_lock (rb_items s x) = 0) (xs @ ys))"

definition ring_inv :: "RingBuffer \<Rightarrow> bool" where
  "ring_inv s \<longleftrightarrow> rb_size s < 2 ^ 32 \<and> sizeof_RingBufferItem \<le> rb_size s \<and> (\<exists>xs ys. ring_lists s xs ys)"


section \<open>Collecting\<close>

lemma ring_listsD:
  assumes "ring_lists s xs ys"
  shows "rb_status s = 0 \<Longrightarrow> tiles (rb_items s) (rb_collect_offset s) xs (rb_alloc_offset s) \<and> ys = [] \<and>
           rb_alloc_offset s + sizeof_RingBufferItem \<le> rb_size s"
    and "rb_status s \<noteq> 0 \<Longrightarrow> rb_status s = 1 \<and> tiles (rb_items s) (rb_collect_offset s) xs (rb_size s) \<and> xs \<noteq> [] \<and>
           tiles (rb_items s) 0 ys (rb_alloc_offset s) \<and> rb_alloc_offset s \<le> rb_collect_offset s"
    and "x \<in> set (xs @ ys) \<Longrightarrow> it_lock (rb_items s x) \<le> 1"
    and "rb_free_count s = length (filter (\<lambda>x. it_lock (rb_items s x) = 0) (xs @ ys))"
  using assms by (auto simp: ring_lists_def split: if_splits)

text \<open>\<open>same_ring\<close>: geometry and item contents are as before.\<close>

definition same_ring :: "RingBuffer \<Rightarrow> RingBuffer \<Rightarrow> bool" where
  "same_ring s t \<longleftrightarrow> rb_memory t = rb_memory s \<and> rb_size t = rb_size s \<and> rb_items t = rb_items s \<and>
     rb_alloc_count t = rb_alloc_count s \<and> rb_alloc_offset t = rb_alloc_offset s"

lemma ring_collect_head:
  assumes L: "ring_lists s xs ys" and size: "rb_size s < 2 ^ 32" and fc: "0 < rb_free_count s"
  shows "\<exists>xs'. xs = rb_collect_offset s # xs'"
proof (cases "rb_status s = 0")
  case True
  then have "xs \<noteq> []" using ring_listsD(1,4) [OF L] fc by auto
  then show ?thesis using ring_listsD(1) [OF L True] by (cases xs) auto
next
  case False
  then show ?thesis using ring_listsD(2) [OF L False] by (cases xs) auto
qed

text \<open>One turn of the loop drops the first item, and at the end of the memory starts over.\<close>

lemma ring_collect_step:
  assumes L: "ring_lists s (x # xs) ys" and size: "rb_size s < 2 ^ 32" and unl: "it_lock (rb_items s x) = 0"
    and c: "c = wrap32 (rb_collect_offset s + wrap32 (it_length (rb_items s x) + sizeof_RingBufferItem))"
    and t: "t = (if c + sizeof_RingBufferItem > rb_size s \<or> c \<ge> rb_size s
      then s\<lparr>rb_collect_offset := 0, rb_status := 0\<rparr> else s\<lparr>rb_collect_offset := c\<rparr>)\<lparr>rb_free_count := rb_free_count s - 1\<rparr>"
  shows "\<exists>us vs. ring_lists t us vs \<and> us @ vs = xs @ ys" and "x = rb_collect_offset s"
proof -
  let ?n = "sizeof_RingBufferItem + it_length (rb_items s x)"
  have x: "x = rb_collect_offset s" using L by (auto simp: ring_lists_def split: if_splits)
  show "x = rb_collect_offset s" by (rule x)
  have fc: "rb_free_count s - 1 = length (filter (\<lambda>x. it_lock (rb_items s x) = 0) (xs @ ys))"
    using ring_listsD(4) [OF L] unl by simp
  have lk: "\<forall>y \<in> set (xs @ ys). it_lock (rb_items s y) \<le> 1" using ring_listsD(3) [OF L] by auto
  show "\<exists>us vs. ring_lists t us vs \<and> us @ vs = xs @ ys"
  proof (cases "rb_status s = 0")
    case True
    note D = ring_listsD(1) [OF L True]
    have le: "x + ?n \<le> rb_alloc_offset s" using tiles_member [of "rb_items s" _ "x # xs"] D by fastforce
    then have "x + ?n < 2 ^ 32" using D size by linarith
    then have "c = x + ?n" using x c by (simp add: add.commute)
    moreover from this have "\<not> (c + sizeof_RingBufferItem > rb_size s \<or> c \<ge> rb_size s)"
      using le D by (auto simp: sizeof_RingBufferItem_def)
    ultimately have "ring_lists t xs ys" using True D x fc lk by (simp add: t ring_lists_def)
    then show ?thesis by blast
  next
    case False
    note D = ring_listsD(2) [OF L False]
    have le: "x + ?n \<le> rb_size s" using tiles_member [of "rb_items s" _ "x # xs"] D by fastforce
    then have "x + ?n < 2 ^ 32" using size by linarith
    then have c': "c = x + ?n" using x c by (simp add: add.commute)
    have tl: "tiles (rb_items s) (x + ?n) xs (rb_size s)" using D x by simp
    show ?thesis
    proof (cases xs)
      case Nil
      then have "c = rb_size s" using tl c' by simp
      moreover have "rb_alloc_offset s + sizeof_RingBufferItem \<le> rb_size s"
        using D x Nil tl by simp
      ultimately have "ring_lists t ys []" using Nil D fc lk by (simp add: t ring_lists_def)
      then show ?thesis using Nil by auto
    next
      case (Cons y zs)
      then have "c + sizeof_RingBufferItem \<le> rb_size s" "c < rb_size s"
        using tiles_member [OF tl, of y] tl c' by (auto simp: sizeof_RingBufferItem_def)
      then have "ring_lists t xs ys" using Cons D fc lk tl c' x by (auto simp: t ring_lists_def)
      then show ?thesis by blast
    qed
  qed
qed

lemma collect_loop_ok:
  "ring_lists s xs ys \<Longrightarrow> rb_size s < 2 ^ 32 \<Longrightarrow>
    \<exists>us vs ds. ring_lists (collect_loop i s) us vs \<and> xs @ ys = ds @ us @ vs \<and> (\<forall>d \<in> set ds. it_lock (rb_items s d) = 0) \<and>
      same_ring s (collect_loop i s)"
proof (induction i s arbitrary: xs ys rule: collect_loop.induct)
  case (1 i s)
  let ?o = "rb_collect_offset s"
  define c where "c = wrap32 (?o + wrap32 (it_length (rb_items s ?o) + sizeof_RingBufferItem))"
  define t where "t = (if c + sizeof_RingBufferItem > rb_size s \<or> c \<ge> rb_size s
      then s\<lparr>rb_collect_offset := 0, rb_status := 0\<rparr> else s\<lparr>rb_collect_offset := c\<rparr>)\<lparr>rb_free_count := rb_free_count s - 1\<rparr>"
  show ?case
  proof (cases "i < rb_free_count s \<and> it_lock (rb_items s ?o) = 0")
    case True
    obtain zs where xs: "xs = ?o # zs" using ring_collect_head [OF 1(2,3)] True by auto
    obtain us vs where t': "ring_lists t us vs" "us @ vs = zs @ ys"
      using ring_collect_step(1) [of s ?o zs ys c t] 1(2,3) True xs by (auto simp: c_def t_def)
    have st: "same_ring s t" "rb_size t = rb_size s" by (simp_all add: t_def same_ring_def)
    have eq: "collect_loop i s = collect_loop (i + 1) t"
      using True by (simp add: collect_loop.simps [of i s] Let_def c_def t_def)
    have "\<exists>us' vs' ds. ring_lists (collect_loop (i + 1) t) us' vs' \<and> us @ vs = ds @ us' @ vs' \<and>
        (\<forall>d \<in> set ds. it_lock (rb_items t d) = 0) \<and> same_ring t (collect_loop (i + 1) t)"
      using 1(1) [OF _ refl _ refl refl refl, folded c_def, folded t_def, of us vs] True t' 1(3) st by auto
    then obtain us' vs' ds where "ring_lists (collect_loop (i + 1) t) us' vs'" "us @ vs = ds @ us' @ vs'"
        "\<forall>d \<in> set ds. it_lock (rb_items t d) = 0" "same_ring t (collect_loop (i + 1) t)" by blast
    then show ?thesis
      using True xs t'(2) st unfolding eq
      by (intro exI [of _ us'] exI [of _ vs'] exI [of _ "?o # ds"]) (auto simp: same_ring_def)
  next
    case False
    then have "collect_loop i s = s" by (auto simp: collect_loop.simps [of i s] Let_def)
    then show ?thesis using 1(2) by (intro exI [of _ xs] exI [of _ ys] exI [of _ "[]"]) (simp add: same_ring_def)
  qed
qed


section \<open>Allocation and release\<close>

text \<open>The live blocks: the locked items.\<close>

definition ring_live :: "RingBuffer \<Rightarrow> addr \<Rightarrow> nat option" where
  "ring_live s p =
     (if \<exists>xs ys x. ring_lists s xs ys \<and> x \<in> set (xs @ ys) \<and> it_lock (rb_items s x) = 1 \<and> p = rb_memory s + x + sizeof_RingBufferItem
      then Some (it_length (rb_items s (p - sizeof_RingBufferItem - rb_memory s))) else None)"

lemma ring_lists_unique:
  assumes "ring_lists s xs ys" "ring_lists s us vs"
  shows "xs = us" "ys = vs"
  using assms tiles_unique by (auto simp: ring_lists_def split: if_splits)

lemma ring_live_lists:
  assumes "ring_lists s xs ys"
  shows "ring_live s p = Some n \<longleftrightarrow>
    (\<exists>x \<in> set (xs @ ys). it_lock (rb_items s x) = 1 \<and> p = rb_memory s + x + sizeof_RingBufferItem \<and> n = it_length (rb_items s x))"
proof -
  have "(\<exists>xs ys x. ring_lists s xs ys \<and> x \<in> set (xs @ ys) \<and> it_lock (rb_items s x) = 1 \<and> p = rb_memory s + x + sizeof_RingBufferItem) \<longleftrightarrow>
    (\<exists>x \<in> set (xs @ ys). it_lock (rb_items s x) = 1 \<and> p = rb_memory s + x + sizeof_RingBufferItem)"
    using assms ring_lists_unique by blast
  then show ?thesis unfolding ring_live_def by auto
qed

lemma ring_lists_disjoint:
  assumes L: "ring_lists s xs ys" and x: "x \<in> set (xs @ ys)" and y: "y \<in> set (xs @ ys)" and "x < y"
  shows "x + sizeof_RingBufferItem + it_length (rb_items s x) \<le> y"
proof (cases "rb_status s = 0")
  case True
  then show ?thesis using ring_listsD(1) [OF L True] tiles_disjoint x y assms(4) by auto
next
  case False
  note D = ring_listsD(2) [OF L False]
  have lo: "b + sizeof_RingBufferItem + it_length (rb_items s b) \<le> a" if "a \<in> set xs" "b \<in> set ys" for a b
    using tiles_member [of "rb_items s" _ xs _ a] tiles_member [of "rb_items s" _ ys _ b] D that by fastforce
  show ?thesis
    using D tiles_disjoint [of "rb_items s" _ xs _ x y] tiles_disjoint [of "rb_items s" _ ys _ x y] lo [of x y] lo [of y x] x y assms(4)
    by (auto simp: sizeof_RingBufferItem_def)
qed

lemma ring_disjoint:
  assumes L: "ring_lists s xs ys"
  shows "disjoint_blocks (ring_live s)"
  unfolding disjoint_blocks_def
proof (intro allI impI, elim conjE)
  fix p q m n assume pq: "p \<noteq> q" "ring_live s p = Some m" "ring_live s q = Some n"
  then obtain x y where xy: "x \<in> set (xs @ ys)" "y \<in> set (xs @ ys)" "p = rb_memory s + x + sizeof_RingBufferItem"
    "q = rb_memory s + y + sizeof_RingBufferItem" "m = it_length (rb_items s x)" "n = it_length (rb_items s y)"
    unfolding ring_live_lists [OF L] by blast
  then have "x < y \<or> y < x" using pq(1) by auto
  then show "p + m \<le> q \<or> q + n \<le> p"
    using ring_lists_disjoint [OF L xy(1,2)] ring_lists_disjoint [OF L xy(2,1)] xy(3-6) by auto
qed

lemma ring_same_live:
  assumes "ring_lists s xs ys" "ring_lists t us vs" "same_ring s t"
    and "{x \<in> set (us @ vs). it_lock (rb_items s x) = 1} = {x \<in> set (xs @ ys). it_lock (rb_items s x) = 1}"
  shows "ring_live t = ring_live s"
proof
  fix p
  have "ring_live t p = Some n \<longleftrightarrow> ring_live s p = Some n" for n
    unfolding ring_live_lists [OF assms(1)] ring_live_lists [OF assms(2)] using assms(3,4) by (auto simp: same_ring_def)
  then show "ring_live t p = ring_live s p" by (metis not_Some_eq)
qed

lemma ring_collect_ok:
  assumes "ring_inv s"
  shows "ring_inv (ring_collect s)" "ring_live (ring_collect s) = ring_live s" "same_ring s (ring_collect s)"
proof -
  obtain xs ys where L: "ring_lists s xs ys" and size: "rb_size s < 2 ^ 32" using assms by (auto simp: ring_inv_def)
  obtain us vs ds where c: "ring_lists (ring_collect s) us vs" "xs @ ys = ds @ us @ vs"
    "\<forall>d \<in> set ds. it_lock (rb_items s d) = 0" "same_ring s (ring_collect s)"
    using collect_loop_ok [OF L size, of 0] by (auto simp: ring_collect_def)
  then show "same_ring s (ring_collect s)" "ring_inv (ring_collect s)"
    using assms by (auto simp: ring_inv_def same_ring_def)
  show "ring_live (ring_collect s) = ring_live s"
    using c by (intro ring_same_live [OF L c(1,4)]) (unfold c(2), auto)
qed

lemma tiles_length: "tiles I a xs b \<Longrightarrow> a + 8 * length xs \<le> b"
proof (induction xs arbitrary: a)
  case (Cons x xs)
  then have "a + (sizeof_RingBufferItem + it_length (I a)) + 8 * length xs \<le> b" by auto
  then show ?case by (simp add: sizeof_RingBufferItem_def)
qed simp

lemma ring_count_bound:
  assumes L: "ring_lists s xs ys" and size: "rb_size s < 2 ^ 32"
  shows "length (xs @ ys) < 2 ^ 31" "rb_free_count s \<le> length (xs @ ys)"
proof -
  have "8 * length xs + 8 * length ys \<le> 2 * rb_size s"
    using L tiles_length [of "rb_items s" _ xs] tiles_length [of "rb_items s" _ ys] tiles_le
    by (fastforce simp: ring_lists_def split: if_splits)
  then show "length (xs @ ys) < 2 ^ 31" using size by simp
  show "rb_free_count s \<le> length (xs @ ys)" unfolding ring_listsD(4) [OF L] by (rule length_filter_le)
qed

text \<open>The free range found by \<open>ring_capacity\<close>.\<close>

definition ring_room :: "RingBuffer \<Rightarrow> nat \<Rightarrow> bool" where
  "ring_room s n \<longleftrightarrow>
     (if rb_status s = 0 then rb_alloc_offset s + n + sizeof_RingBufferItem \<le> rb_size s
      else rb_alloc_offset s + n \<le> rb_collect_offset s)"

lemma ring_skip:
  assumes L: "ring_lists s xs ys" and size: "rb_size s < 2 ^ 32" and st: "rb_status s = 0"
    and t: "t = s\<lparr>rb_items := (rb_items s)(rb_alloc_offset s :=
        (rb_items s (rb_alloc_offset s))\<lparr>it_lock := 0, it_length := rb_size s - rb_alloc_offset s - sizeof_RingBufferItem\<rparr>),
      rb_free_count := rb_free_count s + 1, rb_alloc_offset := 0, rb_status := 1\<rparr>"
  shows "ring_lists t (xs @ [rb_alloc_offset s]) []" and "ring_live t = ring_live s"
proof -
  let ?o = "rb_alloc_offset s"
  note D = ring_listsD(1) [OF L st]
  have o: "?o \<notin> set xs" using tiles_member [of "rb_items s" _ xs ?o ?o] D by (auto simp: sizeof_RingBufferItem_def)
  have keep: "rb_items t x = rb_items s x" if "x \<in> set xs" for x using that o by (auto simp: t)
  have "tiles (rb_items t) (rb_collect_offset t) (xs @ [?o]) (rb_size t)"
    using D tiles_upd [OF o] by (simp add: t tiles_snoc)
  moreover have "length (filter (\<lambda>x. it_lock (rb_items t x) = 0) xs) = length (filter (\<lambda>x. it_lock (rb_items s x) = 0) xs)"
    using keep by (metis (mono_tags, lifting) filter_cong)
  ultimately show lists: "ring_lists t (xs @ [?o]) []"
    using D L keep by (auto simp: ring_lists_def t)
  show "ring_live t = ring_live s"
  proof
    fix p
    have "ring_live t p = Some n \<longleftrightarrow> ring_live s p = Some n" for n
      unfolding ring_live_lists [OF lists] ring_live_lists [OF L] using keep D o by (auto simp: t)
    then show "ring_live t p = ring_live s p" by (metis not_Some_eq)
  qed
qed

lemma ring_capacity_ok:
  assumes inv: "ring_inv s" and n: "n < 2 ^ 32"
  defines "t \<equiv> fst (ring_capacity s n)"
  shows "ring_inv t" "ring_live t = ring_live s" "rb_memory t = rb_memory s" "rb_size t = rb_size s"
    "n \<le> snd (ring_capacity s n) \<Longrightarrow> ring_room t n"
proof -
  obtain xs ys where L: "ring_lists s xs ys" and size: "rb_size s < 2 ^ 32" "sizeof_RingBufferItem \<le> rb_size s"
    using inv by (auto simp: ring_inv_def)
  have "ring_inv t \<and> ring_live t = ring_live s \<and> rb_memory t = rb_memory s \<and> rb_size t = rb_size s \<and>
    (n \<le> snd (ring_capacity s n) \<longrightarrow> ring_room t n)"
  proof (cases "rb_status s = 0")
    case st: True
    note D = ring_listsD(1) [OF L st]
    have skip: "sub32 (rb_size s) (rb_alloc_offset s) = rb_size s - rb_alloc_offset s"
      using D size by (intro sub32_id) auto
    show ?thesis
    proof (cases "wrap32 (rb_alloc_offset s + n) > rb_size s - sizeof_RingBufferItem")
      case True
      have fc: "wrap32 (rb_free_count s + 1) = rb_free_count s + 1" using ring_count_bound [OF L size(1)] by simp
      have "wrap32 (rb_size s - rb_alloc_offset s - sizeof_RingBufferItem) = rb_size s - rb_alloc_offset s - sizeof_RingBufferItem"
        using size by (intro wrap32_id) linarith
      moreover have "sizeof_RingBufferItem \<le> rb_size s - rb_alloc_offset s" using D by linarith
      ultimately have t: "t = s\<lparr>rb_items := (rb_items s)(rb_alloc_offset s :=
          (rb_items s (rb_alloc_offset s))\<lparr>it_lock := 0, it_length := rb_size s - rb_alloc_offset s - sizeof_RingBufferItem\<rparr>),
          rb_free_count := rb_free_count s + 1, rb_alloc_offset := 0, rb_status := 1\<rparr>"
        using True st D fc by (simp add: t_def ring_capacity_def Let_def skip)
      have "ring_inv t" unfolding ring_inv_def using ring_skip(1) [OF L size(1) st t] size by (auto simp: t)
      moreover have "n \<le> snd (ring_capacity s n) \<longrightarrow> ring_room t n"
        using True st by (simp add: ring_capacity_def Let_def ring_room_def t)
      ultimately show ?thesis using ring_skip(2) [OF L size(1) st t] by (simp add: t)
    next
      case False
      then have t: "ring_capacity s n = (s, rb_size s - rb_alloc_offset s)" using st skip by (simp add: ring_capacity_def)
      have "ring_room s n" if "n \<le> rb_size s - rb_alloc_offset s"
      proof -
        have "rb_alloc_offset s + n < 2 ^ 32" using that size D by linarith
        then show ?thesis using False st size by (simp add: ring_room_def)
      qed
      then show ?thesis using inv t by (simp add: t_def)
    qed
  next
    case False
    note D = ring_listsD(2) [OF L False]
    have "rb_collect_offset s \<le> rb_size s" using D tiles_le by blast
    then have "sub32 (rb_collect_offset s) (rb_alloc_offset s) = rb_collect_offset s - rb_alloc_offset s"
      using D size by (intro sub32_id) auto
    then show ?thesis using False inv D by (auto simp: t_def ring_capacity_def ring_room_def)
  qed
  then show "ring_inv t" "ring_live t = ring_live s" "rb_memory t = rb_memory s" "rb_size t = rb_size s"
    "n \<le> snd (ring_capacity s n) \<Longrightarrow> ring_room t n" by simp_all
qed


text \<open>Writing the new item into the free range.\<close>

lemma ring_put:
  assumes inv: "ring_inv s" and room: "ring_room s (sz + sizeof_RingBufferItem)"
    and t: "t = s\<lparr>rb_items := (rb_items s)(rb_alloc_offset s := \<lparr>it_lock = 1, it_index = i, it_length = sz\<rparr>),
      rb_alloc_offset := rb_alloc_offset s + (sz + sizeof_RingBufferItem), rb_alloc_count := k\<rparr>"
    and p: "p = rb_memory s + rb_alloc_offset s + sizeof_RingBufferItem"
  shows "ring_inv t" and "ring_live s p = None" and "ring_live t = (ring_live s)(p \<mapsto> sz)"
proof -
  obtain xs ys where L: "ring_lists s xs ys" and size: "rb_size s < 2 ^ 32" "sizeof_RingBufferItem \<le> rb_size s"
    using inv by (auto simp: ring_inv_def)
  let ?o = "rb_alloc_offset s" and ?us = "if rb_status s = 0 then xs @ [rb_alloc_offset s] else xs"
  let ?vs = "if rb_status s = 0 then ys else ys @ [rb_alloc_offset s]"
  have o: "?o \<notin> set (xs @ ys)"
    using L room tiles_member [of "rb_items s" _ xs _ ?o] tiles_member [of "rb_items s" _ ys _ ?o]
    by (fastforce simp: ring_lists_def ring_room_def sizeof_RingBufferItem_def split: if_splits)
  have keep: "rb_items t x = rb_items s x" if "x \<in> set (xs @ ys)" for x using that o by (auto simp: t)
  have filt: "length (filter (\<lambda>x. it_lock (rb_items t x) = 0) (xs @ ys)) = rb_free_count s"
    unfolding ring_listsD(4) [OF L] using keep by (metis (mono_tags, lifting) filter_cong)
  have t1: "tiles (rb_items t) a xs b = tiles (rb_items s) a xs b" "tiles (rb_items t) a ys b = tiles (rb_items s) a ys b" for a b
    using o by (simp_all add: t tiles_upd)
  have to: "rb_items t ?o = \<lparr>it_lock = 1, it_index = i, it_length = sz\<rparr>" by (simp add: t)
  have tf: "rb_status t = rb_status s" "rb_size t = rb_size s" "rb_collect_offset t = rb_collect_offset s"
    "rb_free_count t = rb_free_count s" "rb_memory t = rb_memory s" "rb_alloc_offset t = ?o + (sz + sizeof_RingBufferItem)"
    by (simp_all add: t)
  have lists: "ring_lists t ?us ?vs"
  proof (cases "rb_status s = 0")
    case True
    then show ?thesis
      using ring_listsD(1) [OF L True] ring_listsD(3) [OF L] room filt keep
      by (auto simp: ring_lists_def tf tiles_snoc t1 to ring_room_def)
  next
    case False
    then show ?thesis
      using ring_listsD(2) [OF L False] ring_listsD(3) [OF L] room filt keep
      by (auto simp: ring_lists_def tf tiles_snoc t1 to ring_room_def)
  qed
  then show "ring_inv t" using size by (auto simp: ring_inv_def tf)
  have set: "set (?us @ ?vs) = insert ?o (set (xs @ ys))" by auto
  show none: "ring_live s p = None"
    using ring_live_lists [OF L, of p] o p by (cases "ring_live s p") auto
  show "ring_live t = (ring_live s)(p \<mapsto> sz)"
  proof
    fix q
    have "ring_live t q = Some n \<longleftrightarrow> ((ring_live s)(p \<mapsto> sz)) q = Some n" for n
      unfolding ring_live_lists [OF lists] set using ring_live_lists [OF L, of q n] keep o to tf(5) p by auto
    then show "ring_live t q = ((ring_live s)(p \<mapsto> sz)) q" by (metis not_Some_eq)
  qed
qed

definition ring_alloc :: "RingBuffer \<Rightarrow> unit \<Rightarrow> nat \<Rightarrow> RingBuffer \<times> addr" where
  "ring_alloc s e n = (case RingBuffer_alloc s n of None \<Rightarrow> (s, nullptr) | Some r \<Rightarrow> r)"

definition ring_free :: "RingBuffer \<Rightarrow> addr \<Rightarrow> RingBuffer" where
  "ring_free s p = (case RingBuffer_free s p of None \<Rightarrow> s | Some t \<Rightarrow> t)"

lemma ring_alloc_cases:
  fixes e :: unit and n :: nat
  assumes inv: "ring_inv s"
  defines "t \<equiv> fst (ring_alloc s e n)" and "p \<equiv> snd (ring_alloc s e n)"
  shows "ring_inv t \<and> (p = nullptr \<and> ring_live t = ring_live s \<or>
    p \<noteq> nullptr \<and> ring_live s p = None \<and> (\<exists>m\<ge>n. ring_live t = (ring_live s)(p \<mapsto> m)))"
proof (cases "n = 0 \<or> n > 2 ^ 32 - 8 \<or> wrap32 (SW_MEM_ALIGNED_SIZE n) > (2 ^ 32 - 1) - sizeof_RingBufferItem")
  case True
  then have "t = s \<and> p = nullptr"
    by (auto simp: t_def p_def ring_alloc_def RingBuffer_alloc_def SW_DEFAULT_ALIGNMENT_def Let_def)
  then show ?thesis using inv by simp
next
  case False
  define sz where "sz = wrap32 (SW_MEM_ALIGNED_SIZE n)"
  have "(n + 7) div 8 \<le> (2 ^ 32 - 1) div 8" using False by (intro div_le_mono) simp
  then have n: "n \<le> sz" "sz + sizeof_RingBufferItem < 2 ^ 32"
    using False by (auto simp: sz_def aligned8 sizeof_RingBufferItem_def)
  define s1 where "s1 = (if rb_free_count s > 0 then ring_collect s else s)"
  define r where "r = ring_capacity s1 (sz + sizeof_RingBufferItem)"
  have s1: "ring_inv s1" "ring_live s1 = ring_live s" "rb_memory s1 = rb_memory s"
    using ring_collect_ok [OF inv] inv by (auto simp: s1_def same_ring_def)
  note R = ring_capacity_ok [OF s1(1) n(2), folded r_def]
  have al: "RingBuffer_alloc s n = (if snd r < sz + sizeof_RingBufferItem then Some (fst r, nullptr)
    else Some ((fst r)\<lparr>rb_items := (rb_items (fst r))(rb_alloc_offset (fst r) :=
        \<lparr>it_lock = 1, it_index = rb_alloc_count (fst r) mod 2 ^ 16, it_length = sz\<rparr>),
      rb_alloc_offset := wrap32 (rb_alloc_offset (fst r) + (sz + sizeof_RingBufferItem)),
      rb_alloc_count := wrap32 (rb_alloc_count (fst r) + 1)\<rparr>, rb_memory (fst r) + rb_alloc_offset (fst r) + sizeof_RingBufferItem))"
    using False n(2) by (simp add: RingBuffer_alloc_def Let_def sz_def [symmetric] s1_def [symmetric] r_def [symmetric] SW_DEFAULT_ALIGNMENT_def)
  show ?thesis
  proof (cases "snd r < sz + sizeof_RingBufferItem")
    case True
    then show ?thesis using al R s1 by (simp add: t_def p_def ring_alloc_def)
  next
    case room: False
    then have rr: "ring_room (fst r) (sz + sizeof_RingBufferItem)" using R(5) by simp
    have "rb_alloc_offset (fst r) + (sz + sizeof_RingBufferItem) < 2 ^ 32"
    proof -
      obtain xs ys where L: "ring_lists (fst r) xs ys" and size: "rb_size (fst r) < 2 ^ 32"
        using R(1) by (auto simp: ring_inv_def)
      have "rb_status (fst r) \<noteq> 0 \<Longrightarrow> rb_collect_offset (fst r) \<le> rb_size (fst r)"
        using ring_listsD(2) [OF L] tiles_le by blast
      then show ?thesis using rr size by (auto simp: ring_room_def split: if_splits)
    qed
    then have w: "wrap32 (rb_alloc_offset (fst r) + (sz + sizeof_RingBufferItem)) = rb_alloc_offset (fst r) + (sz + sizeof_RingBufferItem)"
      by (rule wrap32_id)
    have "p = rb_memory (fst r) + rb_alloc_offset (fst r) + sizeof_RingBufferItem"
      using al room by (simp add: p_def ring_alloc_def)
    moreover have "t = (fst r)\<lparr>rb_items := (rb_items (fst r))(rb_alloc_offset (fst r) :=
        \<lparr>it_lock = 1, it_index = rb_alloc_count (fst r) mod 2 ^ 16, it_length = sz\<rparr>),
      rb_alloc_offset := rb_alloc_offset (fst r) + (sz + sizeof_RingBufferItem),
      rb_alloc_count := wrap32 (rb_alloc_count (fst r) + 1)\<rparr>"
      using al room w by (simp add: t_def ring_alloc_def)
    ultimately show ?thesis
      using ring_put [OF R(1) rr, of t _ _ p] R(2) s1(2) n(1) by (auto simp: sizeof_RingBufferItem_def)
  qed
qed


lemma ring_free_ok:
  assumes inv: "ring_inv s" and live: "ring_live s p \<noteq> None"
  shows "\<exists>t. RingBuffer_free s p = Some t \<and> ring_inv t \<and> ring_live t = (ring_live s)(p := None)"
proof -
  obtain xs ys where L: "ring_lists s xs ys" and size: "rb_size s < 2 ^ 32" "sizeof_RingBufferItem \<le> rb_size s"
    using inv by (auto simp: ring_inv_def)
  obtain x where x: "x \<in> set (xs @ ys)" "it_lock (rb_items s x) = 1" "p = rb_memory s + x + sizeof_RingBufferItem"
    using live ring_live_lists [OF L] by blast
  define t where "t = s\<lparr>rb_items := (rb_items s)(x := (rb_items s x)\<lparr>it_lock := 0\<rparr>), rb_free_count := rb_free_count s + 1\<rparr>"
  have "x + sizeof_RingBufferItem \<le> rb_size s"
    using x(1) L tiles_member [of "rb_items s" _ xs _ x] tiles_member [of "rb_items s" _ ys _ x] tiles_le [of "rb_items s" "rb_collect_offset s" xs "rb_size s"]
    by (fastforce simp: ring_lists_def split: if_splits)
  moreover have "wrap32 (rb_free_count s + 1) = rb_free_count s + 1" using ring_count_bound [OF L size(1)] by simp
  ultimately have f: "RingBuffer_free s p = Some t"
    using x by (simp add: RingBuffer_free_def Let_def t_def)
  have len: "it_length (rb_items t y) = it_length (rb_items s y)" for y by (simp add: t_def)
  have tiles: "tiles (rb_items t) a zs b = tiles (rb_items s) a zs b" for a b zs by (rule tiles_cong) (simp add: len)
  have lock: "it_lock (rb_items t y) = (if y = x then 0 else it_lock (rb_items s y))" for y by (simp add: t_def)
  have tf: "rb_status t = rb_status s" "rb_size t = rb_size s" "rb_collect_offset t = rb_collect_offset s"
    "rb_memory t = rb_memory s" "rb_alloc_offset t = rb_alloc_offset s" "rb_free_count t = rb_free_count s + 1"
    by (simp_all add: t_def)
  have dist: "distinct (xs @ ys)"
    using L tiles_sorted [of "rb_items s" _ xs] tiles_sorted [of "rb_items s" _ ys] tiles_member [of "rb_items s" _ xs] tiles_member [of "rb_items s" _ ys]
    by (fastforce simp: ring_lists_def sizeof_RingBufferItem_def split: if_splits)
  have "length (filter (\<lambda>y. it_lock (rb_items t y) = 0) (xs @ ys)) = length (filter (\<lambda>y. it_lock (rb_items s y) = 0) (xs @ ys)) + 1"
  proof -
    obtain us vs where uv: "xs @ ys = us @ x # vs" "x \<notin> set us" "x \<notin> set vs"
      using split_list [OF x(1)] dist by (metis disjoint_iff distinct.simps(2) distinct_append list.set_intros(1))
    have "filter (\<lambda>y. it_lock (rb_items t y) = 0) us = filter (\<lambda>y. it_lock (rb_items s y) = 0) us"
      "filter (\<lambda>y. it_lock (rb_items t y) = 0) vs = filter (\<lambda>y. it_lock (rb_items s y) = 0) vs"
      using uv lock by (metis (mono_tags, lifting) filter_cong)+
    then show ?thesis unfolding uv using x(2) lock by simp
  qed
  then have lists: "ring_lists t xs ys"
    using L lock by (auto simp: ring_lists_def tf tiles split: if_splits)
  have "ring_live t = (ring_live s)(p := None)"
  proof
    fix q
    have "ring_live t q = Some n \<longleftrightarrow> ((ring_live s)(p := None)) q = Some n" for n
      unfolding ring_live_lists [OF lists] using ring_live_lists [OF L, of q n] lock len tf(4) x by auto
    then show "ring_live t q = ((ring_live s)(p := None)) q" by (metis not_Some_eq)
  qed
  then show ?thesis using f lists size by (auto simp: ring_inv_def tf)
qed

interpretation ring_pool: memory_pool ring_inv ring_live ring_alloc "\<lambda>_ _ _. True" ring_free
proof (unfold_locales, goal_cases)
  case (1 s)
  then show ?case using ring_disjoint by (auto simp: ring_inv_def)
next
  case (2 s)
  then show ?case by (auto simp: ring_live_def sizeof_RingBufferItem_def)
next
  case (3 s e n)
  then show ?case using ring_alloc_cases by blast
next
  case (4 s e n)
  then show ?case using ring_alloc_cases [OF 4(1), of e n] by simp
next
  case (5 s e n p)
  then show ?case using ring_alloc_cases [OF 5(1), of e n] by auto
next
  case (6 s p)
  then show ?case using ring_free_ok [OF 6] by (auto simp: ring_free_def)
next
  case (7 s p)
  then show ?case using ring_free_ok [OF 7] by (auto simp: ring_free_def)
qed

lemma RingBuffer_new_ok:
  assumes "RingBuffer_new malloc content sz shared = Inr s"
  shows "ring_inv s" "ring_live s = (\<lambda>_. None)"
proof -
  have s: "rb_status s = 0" "rb_alloc_offset s = 0" "rb_collect_offset s = 0" "rb_free_count s = 0"
    "sizeof_RingBufferItem \<le> rb_size s" "rb_size s < 2 ^ 32"
  proof -
    obtain w where w: "w < 2 ^ 32" "sizeof_RingBufferImpl + sizeof_RingBufferItem < w" "rb_size s = wrap32 (w - sizeof_RingBufferImpl)"
      and s: "rb_status s = 0" "rb_alloc_offset s = 0" "rb_collect_offset s = 0" "rb_free_count s = 0"
      using assms wrap32_less [of "SW_MEM_ALIGNED_SIZE sz"] by (fastforce simp: RingBuffer_new_def Let_def split: if_splits)
    have "wrap32 (w - sizeof_RingBufferImpl) = w - sizeof_RingBufferImpl" using w(1) by (intro wrap32_id) linarith
    then show "rb_status s = 0" "rb_alloc_offset s = 0" "rb_collect_offset s = 0" "rb_free_count s = 0"
      "sizeof_RingBufferItem \<le> rb_size s" "rb_size s < 2 ^ 32" using w s by simp_all
  qed
  then have L: "ring_lists s [] []" by (simp add: ring_lists_def)
  then show "ring_inv s" using s by (auto simp: ring_inv_def)
  show "ring_live s = (\<lambda>_. None)"
  proof
    fix p show "ring_live s p = None" using ring_live_lists [OF L, of p] by (cases "ring_live s p") auto
  qed
qed

section \<open>Properties\<close>

text \<open>C16: in every state a ring buffer reaches by allocations and by frees of live blocks, in any order, the
  items tile the ring, \<open>free_count\<close> is the number of freed items not yet collected, live blocks never
  overlap, and the assertions of \<open>free\<close> hold for every live block.\<close>

theorem RingBuffer_safe:
  assumes "RingBuffer_new malloc content sz shared = Inr s" and "ring_pool.pool_run s t"
  shows "ring_inv t \<and> disjoint_blocks (ring_live t) \<and> (\<forall>p. ring_live t p \<noteq> None \<longrightarrow> RingBuffer_free t p \<noteq> None)"
proof -
  have inv: "ring_inv t" using ring_pool.pool_run_inv [OF assms(2)] RingBuffer_new_ok [OF assms(1)] by simp
  then show ?thesis using ring_pool.live_disjoint [OF inv] ring_free_ok [OF inv] by auto
qed


text \<open>A ring of 128 bytes that five blocks of 16 bytes (and their headers) fill; all are then freed.\<close>

definition demo_ring :: RingBuffer where
  "demo_ring = \<lparr>rb_memory = 1032, rb_shared = False, rb_status = 0, rb_size = 128, rb_alloc_offset = 0, rb_collect_offset = 0,
     rb_alloc_count = 0, rb_free_count = 0, rb_items = (\<lambda>_. \<lparr>it_lock = 0, it_index = 0, it_length = 0\<rparr>)\<rparr>"

lemmas ring_eval = ring_alloc_def RingBuffer_alloc_def [unfolded Let_def] ring_collect_def collect_loop.simps [unfolded Let_def]
  ring_capacity_def [unfolded Let_def] ring_free_def RingBuffer_free_def [unfolded Let_def] sizeof_RingBufferItem_def SW_DEFAULT_ALIGNMENT_def aligned8

lemma demo_ring_new: "RingBuffer_new (\<lambda>_. 1000) (\<lambda>_. \<lparr>it_lock = 0, it_index = 0, it_length = 0\<rparr>) 160 False = Inr demo_ring"
  by (simp add: RingBuffer_new_def Let_def demo_ring_def ring_eval sizeof_RingBufferImpl_def)

definition demo_full :: RingBuffer where
  "demo_full = foldl (\<lambda>s n. fst (ring_alloc s () n)) demo_ring [16, 16, 16, 16, 16, 16]"

definition demo_freed :: RingBuffer where
  "demo_freed = foldl ring_free demo_full [1040, 1064, 1088, 1112, 1136]"

theorem RingBuffer_safe_witness:
  "\<exists>t. ring_pool.pool_run demo_ring t \<and> snd (ring_alloc demo_ring () 16) = 1040 \<and> ring_live t 1040 \<noteq> None \<and>
    RingBuffer_free t 1040 \<noteq> None \<and> disjoint_blocks (ring_live t)"
proof -
  let ?t = "fst (ring_alloc demo_ring () 16)"
  have run: "ring_pool.pool_run demo_ring ?t" by (rule ring_pool.pr_alloc [OF ring_pool.pr_refl]) simp
  have p: "snd (ring_alloc demo_ring () 16) = 1040"
    by (simp add: demo_ring_def ring_eval split del: if_split)
  obtain m where "ring_live ?t = (ring_live demo_ring)(1040 \<mapsto> m)"
    using ring_pool.alloc_fresh [OF RingBuffer_new_ok(1) [OF demo_ring_new] _ p] by auto
  then have "ring_live ?t 1040 \<noteq> None" by simp
  then show ?thesis using RingBuffer_safe [OF demo_ring_new run] run p by auto
qed

lemma collect_loop_all:
  "ring_lists s xs ys \<Longrightarrow> rb_size s < 2 ^ 32 \<Longrightarrow> \<forall>x \<in> set (xs @ ys). it_lock (rb_items s x) = 0 \<Longrightarrow>
    i \<le> rb_free_count s + 1 \<Longrightarrow> rb_free_count (collect_loop i s) = (rb_free_count s + i) div 2"
proof (induction i s arbitrary: xs ys rule: collect_loop.induct)
  case (1 i s)
  let ?o = "rb_collect_offset s"
  define c where "c = wrap32 (?o + wrap32 (it_length (rb_items s ?o) + sizeof_RingBufferItem))"
  define t where "t = (if c + sizeof_RingBufferItem > rb_size s \<or> c \<ge> rb_size s
      then s\<lparr>rb_collect_offset := 0, rb_status := 0\<rparr> else s\<lparr>rb_collect_offset := c\<rparr>)\<lparr>rb_free_count := rb_free_count s - 1\<rparr>"
  show ?case
  proof (cases "i < rb_free_count s")
    case True
    obtain zs where xs: "xs = ?o # zs" using ring_collect_head [OF 1(2,3)] True by auto
    then have unl: "it_lock (rb_items s ?o) = 0" using 1(4) by simp
    obtain us vs where t': "ring_lists t us vs" "us @ vs = zs @ ys"
      using ring_collect_step(1) [of s ?o zs ys c t] 1(2,3) unl xs by (auto simp: c_def t_def)
    have st: "rb_items t = rb_items s" "rb_size t = rb_size s" "rb_free_count t = rb_free_count s - 1" by (simp_all add: t_def)
    have eq: "collect_loop i s = collect_loop (i + 1) t"
      using True unl by (simp add: collect_loop.simps [of i s] Let_def c_def t_def)
    have "\<forall>x \<in> set (us @ vs). it_lock (rb_items t x) = 0" using 1(4) xs st(1) unfolding t'(2) by auto
    then have "rb_free_count (collect_loop (i + 1) t) = (rb_free_count t + (i + 1)) div 2"
      using 1(1) [OF True refl unl refl refl refl, folded c_def, folded t_def, of us vs] t' 1(3) st True by simp
    then show ?thesis using eq st(3) True by simp
  next
    case False
    then have "i = rb_free_count s \<or> i = rb_free_count s + 1" using 1(5) by linarith
    then show ?thesis using False by (auto simp: collect_loop.simps [of i s])
  qed
qed

text \<open>C27: \<open>collect\<close> compares its loop counter with \<open>free_count\<close> while it decreases \<open>free_count\<close>: with every
  block freed it reclaims only half of the items, so an allocation that would fit can fail.\<close>

theorem RingBuffer_collect_half:
  assumes "ring_inv s" "ring_live s = (\<lambda>_. None)"
  shows "rb_free_count (ring_collect s) = rb_free_count s div 2"
proof -
  obtain xs ys where L: "ring_lists s xs ys" and size: "rb_size s < 2 ^ 32" using assms by (auto simp: ring_inv_def)
  have "it_lock (rb_items s x) = 0" if "x \<in> set (xs @ ys)" for x
  proof -
    have "it_lock (rb_items s x) \<noteq> 1"
      using ring_live_lists [OF L, of "rb_memory s + x + sizeof_RingBufferItem"] assms(2) that by auto
    then show ?thesis using ring_listsD(3) [OF L that] by linarith
  qed
  then show ?thesis using collect_loop_all [OF L size, of 0] by (simp add: ring_collect_def)
qed

lemma demo_freed_lists: "ring_lists demo_freed [0, 24, 48, 72, 96, 120] []"
  by (simp add: ring_lists_def demo_freed_def demo_full_def demo_ring_def ring_eval split del: if_split)

theorem RingBuffer_collect_half_witness:
  "ring_live demo_freed = (\<lambda>_. None) \<and> rb_free_count demo_freed = 6 \<and> rb_free_count (ring_collect demo_freed) = 3 \<and>
    snd (ring_alloc demo_freed () 96) = nullptr \<and> snd (ring_alloc (fst (ring_alloc demo_freed () 96)) () 96) = 1040"
proof -
  have inv: "ring_inv demo_freed"
    unfolding ring_inv_def using demo_freed_lists
    by (auto simp: demo_freed_def demo_full_def demo_ring_def ring_eval split del: if_split)
  have none: "ring_live demo_freed = (\<lambda>_. None)"
  proof
    fix p
    have "it_lock (rb_items demo_freed x) = 0" if "x \<in> set ([0, 24, 48, 72, 96, 120] @ [])" for x
      using that by (auto simp: demo_freed_def demo_full_def demo_ring_def ring_eval split del: if_split)
    then show "ring_live demo_freed p = None"
      using ring_live_lists [OF demo_freed_lists, of p] by (cases "ring_live demo_freed p") auto
  qed
  have "rb_free_count demo_freed = 6" "snd (ring_alloc demo_freed () 96) = nullptr"
    "snd (ring_alloc (fst (ring_alloc demo_freed () 96)) () 96) = 1040"
    by (simp_all add: demo_freed_def demo_full_def demo_ring_def ring_eval split del: if_split)
  then show ?thesis using RingBuffer_collect_half [OF inv none] none by simp
qed

end
