(* ===== verification/Sw_Bytes.thy ===== *)
theory Sw_Bytes
  imports Sw_Prelude
begin

text \<open>
  Byte buffers: \<open>memcpy\<close> into a buffer, reading a range of it, and the little- and big-endian
  encodings of unsigned integers. The table rows and all the binary protocols are built on these.
\<close>

section \<open>Ranges of a buffer\<close>

text \<open>\<open>bytes_at d off n\<close> reads \<open>n\<close> bytes from \<open>d + off\<close>; \<open>memcpy_at d off src\<close> writes \<open>src\<close> there.\<close>

definition bytes_at :: "'a list \<Rightarrow> nat \<Rightarrow> nat \<Rightarrow> 'a list" where
  "bytes_at d off n = take n (drop off d)"

definition memcpy_at :: "'a list \<Rightarrow> nat \<Rightarrow> 'a list \<Rightarrow> 'a list" where
  "memcpy_at d off src = take off d @ src @ drop (off + length src) d"

lemma length_bytes_at [simp]: "length (bytes_at d off n) = min n (length d - off)"
  by (simp add: bytes_at_def min.commute)

lemma length_memcpy_at [simp]: "off + length src \<le> length d \<Longrightarrow> length (memcpy_at d off src) = length d"
  by (simp add: memcpy_at_def)

lemma nth_bytes_at: "i < n \<Longrightarrow> off + i < length d \<Longrightarrow> bytes_at d off n ! i = d ! (off + i)"
  by (simp add: bytes_at_def)

lemma nth_memcpy_at:
  "off + length src \<le> length d \<Longrightarrow> i < length d \<Longrightarrow>
    memcpy_at d off src ! i = (if off \<le> i \<and> i < off + length src then src ! (i - off) else d ! i)"
  by (auto simp: memcpy_at_def nth_append min_def)

lemma bytes_at_memcpy_same [simp]:
  "off + length src \<le> length d \<Longrightarrow> n = length src \<Longrightarrow> bytes_at (memcpy_at d off src) off n = src"
  by (simp add: bytes_at_def memcpy_at_def)

lemma bytes_at_memcpy_other:
  assumes "off + length src \<le> length d" "p + n \<le> off \<or> off + length src \<le> p"
  shows "bytes_at (memcpy_at d off src) p n = bytes_at d p n"
proof (rule nth_equalityI)
  show "length (bytes_at (memcpy_at d off src) p n) = length (bytes_at d p n)" using assms(1) by simp
next
  fix i assume "i < length (bytes_at (memcpy_at d off src) p n)"
  then show "bytes_at (memcpy_at d off src) p n ! i = bytes_at d p n ! i"
    using assms by (auto simp: nth_bytes_at nth_memcpy_at)
qed

lemma bytes_at_bytes_at: "p + m \<le> n \<Longrightarrow> bytes_at (bytes_at d off n) p m = bytes_at d (off + p) m"
  by (simp add: bytes_at_def drop_take take_take add.commute)

lemma bytes_at_split: "bytes_at d a (m + n) = bytes_at d a m @ bytes_at d (a + m) n"
  by (simp add: bytes_at_def take_add add.commute)

lemma bytes_at_all [simp]: "length d \<le> n \<Longrightarrow> bytes_at d 0 n = d"
  by (simp add: bytes_at_def)

lemma bytes_at_0 [simp]: "bytes_at d p 0 = []"
  by (simp add: bytes_at_def)

lemma bytes_at_append1: "p + n \<le> length xs \<Longrightarrow> bytes_at (xs @ ys) p n = bytes_at xs p n"
  by (simp add: bytes_at_def)

lemma bytes_at_append2: "length xs \<le> p \<Longrightarrow> bytes_at (xs @ ys) p n = bytes_at ys (p - length xs) n"
  by (simp add: bytes_at_def)

section \<open>Encodings of integers\<close>

fun le_bytes :: "nat \<Rightarrow> nat \<Rightarrow> bytes" where
  "le_bytes 0 v = []"
| "le_bytes (Suc n) v = of_nat v # le_bytes n (v div 256)"

fun le_value :: "bytes \<Rightarrow> nat" where
  "le_value [] = 0"
| "le_value (b # bs) = unat b + 256 * le_value bs"

definition be_bytes :: "nat \<Rightarrow> nat \<Rightarrow> bytes" where
  "be_bytes n v = rev (le_bytes n v)"

definition be_value :: "bytes \<Rightarrow> nat" where
  "be_value bs = le_value (rev bs)"

lemma length_le_bytes [simp]: "length (le_bytes n v) = n"
  by (induction n v rule: le_bytes.induct) auto

lemma length_be_bytes [simp]: "length (be_bytes n v) = n"
  by (simp add: be_bytes_def)

lemma unat_of_nat_byte: "unat (of_nat v :: byte) = v mod 256"
  by (simp add: unsigned_of_nat take_bit_eq_mod)

lemma unat_byte_less: "unat (b :: byte) < 256"
  using unsigned_less [of b] by simp

lemma le_value_bytes_mod: "le_value (le_bytes n v) = v mod 256 ^ n"
proof (induction n v rule: le_bytes.induct)
  case (2 n v)
  then show ?case by (simp add: unat_of_nat_byte mod_mult2_eq)
qed simp

lemma le_value_bytes [simp]: "v < 256 ^ n \<Longrightarrow> le_value (le_bytes n v) = v"
  by (simp add: le_value_bytes_mod)

lemma le_value_less: "le_value bs < 256 ^ length bs"
proof (induction bs)
  case (Cons b bs)
  have "unat b + 256 * le_value bs < 256 * (le_value bs + 1)" using unat_byte_less [of b] by simp
  also have "\<dots> \<le> 256 * 256 ^ length bs" using Cons by (intro mult_le_mono2) simp
  finally show ?case by simp
qed simp

lemma le_bytes_value [simp]: "n = length bs \<Longrightarrow> le_bytes n (le_value bs) = bs"
proof (induction bs arbitrary: n)
  case (Cons b bs)
  have "(of_nat (unat b + 256 * le_value bs) :: byte) = b"
    using unat_of_nat_byte [of "unat b + 256 * le_value bs"] unat_byte_less [of b]
    by (simp add: word_unat_eq_iff del: of_nat_add of_nat_mult)
  moreover have "(unat b + 256 * le_value bs) div 256 = le_value bs" using unat_byte_less [of b] by simp
  ultimately show ?case using Cons by simp
qed simp

lemma be_value_bytes [simp]: "v < 256 ^ n \<Longrightarrow> be_value (be_bytes n v) = v"
  by (simp add: be_value_def be_bytes_def)

lemma be_value_bytes_mod: "be_value (be_bytes n v) = v mod 256 ^ n"
  by (simp add: be_value_def be_bytes_def le_value_bytes_mod)

lemma be_bytes_value [simp]: "n = length bs \<Longrightarrow> be_bytes n (be_value bs) = bs"
  by (simp add: be_value_def be_bytes_def)

lemma be_value_less: "be_value bs < 256 ^ length bs"
  using le_value_less [of "rev bs"] by (simp add: be_value_def)

lemma le_value_append: "le_value (xs @ ys) = le_value xs + 256 ^ length xs * le_value ys"
  by (induction xs) (auto simp: algebra_simps)

lemma be_value_append: "be_value (xs @ ys) = be_value xs * 256 ^ length ys + be_value ys"
  by (simp add: be_value_def le_value_append)

lemma be_value_Cons: "be_value (b # bs) = unat b * 256 ^ length bs + be_value bs"
  using be_value_append [of "[b]" bs] by (simp add: be_value_def)

lemma be_value_Nil [simp]: "be_value [] = 0"
  by (simp add: be_value_def)

end
