(* ===== verification/Sw_Table.thy ===== *)
theory Sw_Table
  imports Sw_FixedPool Sw_Bytes Complex_Main
begin

text \<open>
  \<open>src/memory/table.cc\<close> and \<open>include/swoole_table.h\<close>: the shared-memory hash table. A row is a record in
  a store from addresses; the root row of every bucket lives in the table's own memory, the conflict
  rows in a \<open>FixedPool\<close>. Row data is a list of bytes addressed by column. Operations are atomic (each
  holds the lock of its bucket throughout); the row lock itself is modelled at the end.
\<close>

section \<open>Columns\<close>

datatype column_type = TYPE_INT | TYPE_FLOAT | TYPE_STRING

record TableColumn =
  col_type :: column_type
  col_size :: nat
  col_name :: string
  col_index :: nat

text \<open>\<open>enum Type\<close>, for the range check of \<open>add_column\<close>.\<close>

definition column_type_of :: "int \<Rightarrow> column_type option" where
  "column_type_of c = (if c = 1 then Some TYPE_INT else if c = 2 then Some TYPE_FLOAT
                       else if c = 3 then Some TYPE_STRING else None)"

definition sizeof_TableStringLength :: nat where "sizeof_TableStringLength = 4"

definition TableColumn_new :: "string \<Rightarrow> column_type \<Rightarrow> nat \<Rightarrow> TableColumn" where
  "TableColumn_new name ty sz =
     \<lparr>col_type = ty,
      col_size = (case ty of TYPE_INT \<Rightarrow> 8 | TYPE_FLOAT \<Rightarrow> 8 | TYPE_STRING \<Rightarrow> wrap32 (sz + sizeof_TableStringLength)),
      col_name = name, col_index = 0\<rparr>"

text \<open>\<open>TableRow::set_value\<close> on the data of a row; \<open>None\<close> is a null \<open>value\<close>.\<close>

definition set_value :: "TableColumn \<Rightarrow> bytes option \<Rightarrow> nat \<Rightarrow> bytes \<Rightarrow> bytes" where
  "set_value col value vlen d =
     (case col_type col of
        TYPE_INT \<Rightarrow> memcpy_at d (col_index col) (case value of None \<Rightarrow> [] | Some v \<Rightarrow> take 8 v)
      | TYPE_FLOAT \<Rightarrow> memcpy_at d (col_index col) (case value of None \<Rightarrow> [] | Some v \<Rightarrow> take 8 v)
      | TYPE_STRING \<Rightarrow>
          let vlen = (if vlen > col_size col - sizeof_TableStringLength
                      then col_size col - sizeof_TableStringLength else vlen);
              vlen = (if value = None then 0 else vlen);
              d = memcpy_at d (col_index col) (le_bytes sizeof_TableStringLength vlen)
          in if vlen > 0 then memcpy_at d (col_index col + sizeof_TableStringLength)
                                (case value of None \<Rightarrow> [] | Some v \<Rightarrow> take vlen v)
             else d)"

definition get_value_num :: "TableColumn \<Rightarrow> bytes \<Rightarrow> bytes" where
  "get_value_num col d = bytes_at d (col_index col) 8"

definition get_value_str :: "TableColumn \<Rightarrow> bytes \<Rightarrow> nat \<times> bytes" where
  "get_value_str col d =
     (le_value (bytes_at d (col_index col) sizeof_TableStringLength), drop (col_index col + sizeof_TableStringLength) d)"

definition column_clear :: "TableColumn \<Rightarrow> bytes \<Rightarrow> bytes" where
  "column_clear col d =
     (if col_type col = TYPE_STRING then set_value col None 0 d
      else set_value col (Some (replicate 8 0)) 0 d)"

section \<open>Rows and the table\<close>

record TableRow =
  tr_lock :: nat
  tr_lock_pid :: nat
  tr_active :: bool
  tr_key_len :: nat
  tr_next :: addr
  tr_key :: bytes
  tr_data :: bytes

definition SW_TABLE_KEY_SIZE :: nat where "SW_TABLE_KEY_SIZE = 64"
definition sizeof_TableRow :: nat where "sizeof_TableRow = 88"

text \<open>The bytes that \<open>sw_mem_equal\<close> compares.\<close>

definition row_key :: "TableRow \<Rightarrow> bytes" where
  "row_key r = take (tr_key_len r) (tr_key r)"

text \<open>\<open>TableRow::clear\<close>: everything from \<open>lock_pid\<close> to the end of the header.\<close>

definition row_clear :: "TableRow \<Rightarrow> TableRow" where
  "row_clear r = r\<lparr>tr_lock_pid := 0, tr_active := False, tr_key_len := 0, tr_next := nullptr,
                   tr_key := replicate SW_TABLE_KEY_SIZE 0\<rparr>"

text \<open>The effect of \<open>lock\<close> and \<open>unlock\<close>; how \<open>lock\<close> waits is modelled at the end of the theory.\<close>

definition row_lock :: "nat \<Rightarrow> TableRow \<Rightarrow> TableRow" where
  "row_lock pid r = r\<lparr>tr_lock := 1, tr_lock_pid := pid\<rparr>"

definition row_unlock :: "TableRow \<Rightarrow> TableRow" where
  "row_unlock r = r\<lparr>tr_lock := 0\<rparr>"

type_synonym row_store = "addr \<Rightarrow> TableRow option"

record Table =
  tb_column_map :: "string \<Rightarrow> TableColumn option"
  tb_size :: nat
  tb_mask :: nat
  tb_item_size :: nat
  tb_memory_size :: nat
  tb_conflict_proportion :: rat
  tb_row_num :: nat
  tb_rows :: "addr list"
  tb_pool :: "FixedPool option"
  tb_absolute_index :: nat
  tb_collision_index :: nat
  tb_current :: TableRow
  tb_hash_func :: "bytes \<Rightarrow> u64"
  tb_created :: bool
  tb_memory :: addr
  tb_column_list :: "TableColumn list"
  tb_conflict_count :: nat
  tb_insert_count :: nat
  tb_delete_count :: nat
  tb_update_count :: nat
  tb_conflict_max_level :: nat
  tb_store :: row_store

subsection \<open>Making a table\<close>

definition SW_TABLE_MAX_ROW_SIZE :: nat where "SW_TABLE_MAX_ROW_SIZE = 0x80000000"

text \<open>\<open>0.2\<close> as the double it is compared with and as the float it is stored in.\<close>

definition SW_TABLE_CONFLICT_PROPORTION :: rat where
  "SW_TABLE_CONFLICT_PROPORTION = 3602879701896397 / 18014398509481984"

definition conflict_proportion_float :: rat where
  "conflict_proportion_float = 13421773 / 67108864"

text \<open>The loop \<open>while ((1U << i) < rows_size) i++\<close>; the caller has \<open>rows_size < 2^31\<close>.\<close>

function row_bits :: "nat \<Rightarrow> nat \<Rightarrow> nat" where
  "row_bits i rows_size = (if 2 ^ i < rows_size then row_bits (i + 1) rows_size else i)"
  by auto
termination
proof (relation "measure (\<lambda>(i, n). n - i)", goal_cases)
  case (2 i n)
  have "i < (2::nat) ^ i" by (rule less_exp)
  then have "i < n" using 2 by (rule less_trans)
  then show ?case by simp
qed simp

declare row_bits.simps [simp del]

definition table_rows_size :: "nat \<Rightarrow> nat" where
  "table_rows_size rows_size =
     (if rows_size \<ge> SW_TABLE_MAX_ROW_SIZE then SW_TABLE_MAX_ROW_SIZE else 2 ^ row_bits 6 rows_size)"

definition table_proportion :: "rat \<Rightarrow> rat" where
  "table_proportion p = (if p > 1 then 1 else if p < SW_TABLE_CONFLICT_PROPORTION then conflict_proportion_float else p)"

definition zero_row :: TableRow where
  "zero_row = \<lparr>tr_lock = 0, tr_lock_pid = 0, tr_active = False, tr_key_len = 0, tr_next = nullptr,
    tr_key = replicate SW_TABLE_KEY_SIZE 0, tr_data = []\<rparr>"

text \<open>\<open>mem\<close> is the result of the global memory pool, which hands out zeroed memory.\<close>

definition Table_make :: "addr \<Rightarrow> (bytes \<Rightarrow> u64) \<Rightarrow> nat \<Rightarrow> rat \<Rightarrow> Table option" where
  "Table_make mem hash_php rows_size conflict_proportion =
     (if mem = nullptr then None
      else Some
        \<lparr>tb_column_map = (\<lambda>_. None), tb_size = table_rows_size rows_size, tb_mask = table_rows_size rows_size - 1,
         tb_item_size = 0, tb_memory_size = 0, tb_conflict_proportion = table_proportion conflict_proportion,
         tb_row_num = 0, tb_rows = [], tb_pool = None, tb_absolute_index = 0, tb_collision_index = 0,
         tb_current = zero_row, tb_hash_func = hash_php, tb_created = False, tb_memory = nullptr,
         tb_column_list = [], tb_conflict_count = 0, tb_insert_count = 0, tb_delete_count = 0,
         tb_update_count = 0, tb_conflict_max_level = 0, tb_store = (\<lambda>_. None)\<rparr>)"

definition Table_add_column :: "Table \<Rightarrow> string \<Rightarrow> int \<Rightarrow> nat \<Rightarrow> Table \<times> bool" where
  "Table_add_column t name ty sz =
     (if tb_created t then (t, False)
      else case column_type_of ty of
        None \<Rightarrow> (t, False)
      | Some ty \<Rightarrow>
          if tb_column_map t name \<noteq> None then (t, False)
          else if ty = TYPE_STRING \<and> sz > (2 ^ 32 - 1) - sizeof_TableStringLength then (t, False)
          else
            let col = TableColumn_new name ty sz in
            if col_size col > (2 ^ 64 - 1) - tb_item_size t then (t, False)
            else
              let col = col\<lparr>col_index := tb_item_size t\<rparr> in
              (t\<lparr>tb_item_size := tb_item_size t + col_size col, tb_column_map := (tb_column_map t)(name \<mapsto> col),
                 tb_column_list := tb_column_list t @ [col]\<rparr>, True))"

definition get_column :: "Table \<Rightarrow> string \<Rightarrow> TableColumn option" where
  "get_column t key = tb_column_map t key"

text \<open>Sums and products of \<open>size_t\<close>; None on overflow.\<close>

definition size_mul_overflow :: "nat \<Rightarrow> nat \<Rightarrow> nat option" where
  "size_mul_overflow a b = (if a \<noteq> 0 \<and> b > (2 ^ 64 - 1) div a then None else Some (wrap64 (a * b)))"

definition size_add_overflow :: "nat \<Rightarrow> nat \<Rightarrow> nat option" where
  "size_add_overflow a b = (if b > (2 ^ 64 - 1) - a then None else Some (wrap64 (a + b)))"

text \<open>\<open>size * conflict_proportion\<close>: \<open>size\<close> is a power of two, so the float product is exact.\<close>

definition conflict_row_num :: "Table \<Rightarrow> nat" where
  "conflict_row_num t = nat \<lfloor>of_nat (tb_size t) * tb_conflict_proportion t\<rfloor>"

definition calc_memory_size :: "Table \<Rightarrow> nat" where
  "calc_memory_size t =
     (case size_add_overflow (tb_size t) (conflict_row_num t) of None \<Rightarrow> 0
      | Some row_num \<Rightarrow> (case size_add_overflow sizeof_TableRow (tb_item_size t) of None \<Rightarrow> 0
      | Some row_memory_size \<Rightarrow>
         let row_memory_size = SW_MEM_ALIGNED_SIZE row_memory_size in
         (case size_mul_overflow row_num row_memory_size of None \<Rightarrow> 0
      | Some memory_size \<Rightarrow> (case size_mul_overflow (row_num - tb_size t) sizeof_struct_slice of None \<Rightarrow> 0
      | Some pool_size \<Rightarrow> (case size_add_overflow pool_size sizeof_struct_impl of None \<Rightarrow> 0
      | Some pool_size \<Rightarrow> (case size_add_overflow memory_size pool_size of None \<Rightarrow> 0
      | Some memory_size \<Rightarrow> (case size_mul_overflow (tb_size t) 8 of None \<Rightarrow> 0
      | Some rows_index_size \<Rightarrow> (case size_add_overflow memory_size rows_index_size of None \<Rightarrow> 0
      | Some memory_size \<Rightarrow> memory_size))))))))"

text \<open>
  \<open>create\<close>: \<open>shm\<close> gives the address of shared memory for a size (0 on failure; the memory is zeroed),
  \<open>iter_mem\<close> that of the iterator's row. An exception of a constructor is an error value.
\<close>

definition row_memory_size :: "Table \<Rightarrow> nat" where
  "row_memory_size t = SW_MEM_ALIGNED_SIZE (wrap64 (sizeof_TableRow + tb_item_size t))"

definition empty_row :: "Table \<Rightarrow> TableRow" where
  "empty_row t = zero_row\<lparr>tr_data := replicate (tb_item_size t) 0\<rparr>"

definition Table_create :: "(nat \<Rightarrow> addr) \<Rightarrow> addr \<Rightarrow> Table \<Rightarrow> pool_error + (Table \<times> bool)" where
  "Table_create shm iter_mem t =
     (if tb_created t then Inr (t, False)
      else
        let msize = calc_memory_size t; rsize = row_memory_size t in
        if msize = 0 then Inr (t, False)
        else if rsize > 2 ^ 32 - 1 then Inr (t, False)
        else
          let memory = shm msize in
          if memory = nullptr then Inr (t, False)
          else
            let base = memory + tb_size t * 8;
                rows = map (\<lambda>i. base + rsize * i) [0..<tb_size t];
                pool_memory = base + rsize * tb_size t;
                pool_size = msize - tb_size t * 8 - rsize * tb_size t
            in case FixedPool_new_at (wrap32 rsize) pool_memory pool_size True of
                 Inl e \<Rightarrow> Inl e
               | Inr pool \<Rightarrow>
                   if iter_mem = nullptr then Inl BAD_ALLOC
                   else Inr (t\<lparr>tb_memory := memory, tb_rows := rows,
                     tb_store := (\<lambda>a. if a \<in> set rows \<or> a - sizeof_struct_slice \<in> dom (fp_slices pool) \<and> sizeof_struct_slice \<le> a
                                     then Some (empty_row t) else None),
                     tb_pool := Some pool, tb_absolute_index := 0, tb_collision_index := 0, tb_current := empty_row t,
                     tb_memory_size := msize, tb_created := True\<rparr>, True))"

definition get_available_slice_num :: "Table \<Rightarrow> nat option" where
  "get_available_slice_num t = map_option get_number_of_spare_slice (tb_pool t)"

definition get_total_slice_num :: "Table \<Rightarrow> nat option" where
  "get_total_slice_num t = map_option fp_slice_num (tb_pool t)"

text \<open>\<open>destroy\<close>: the shared memory and the table object (from the global memory pool) are released.\<close>

definition Table_destroy :: "Table \<Rightarrow> dealloc list" where
  "Table_destroy t = (if tb_memory t \<noteq> nullptr then [SHM_FREE (tb_memory t)] else [])"

section \<open>Operations on rows\<close>

definition row_upd :: "(TableRow \<Rightarrow> TableRow) \<Rightarrow> addr \<Rightarrow> Table \<Rightarrow> Table" where
  "row_upd f a t = t\<lparr>tb_store := (tb_store t)(a := map_option f (tb_store t a))\<rparr>"

text \<open>\<open>hash\<close>: the root row of a key; None when the assertion on the index fails.\<close>

definition hash_index :: "Table \<Rightarrow> bytes \<Rightarrow> nat" where
  "hash_index t key = unat (tb_hash_func t key AND of_nat (tb_mask t))"

definition table_hash :: "Table \<Rightarrow> bytes \<Rightarrow> addr option" where
  "table_hash t key = (if hash_index t key < tb_size t then Some (tb_rows t ! hash_index t key) else None)"

definition is_valid_key_length :: "nat \<Rightarrow> bool" where
  "is_valid_key_length keylen \<longleftrightarrow> keylen > 0 \<and> keylen < SW_TABLE_KEY_SIZE"

definition alloc_row :: "Table \<Rightarrow> (Table \<times> addr) option" where
  "alloc_row t =
     (case tb_pool t of None \<Rightarrow> None
      | Some pool \<Rightarrow> (case FixedPool_alloc pool 0 of None \<Rightarrow> None
      | Some (pool', row) \<Rightarrow> Some (t\<lparr>tb_pool := Some pool'\<rparr>, row)))"

definition free_row :: "Table \<Rightarrow> addr \<Rightarrow> Table option" where
  "free_row t row =
     (let t = row_upd row_clear row t in
      case tb_pool t of None \<Rightarrow> None
      | Some pool \<Rightarrow> map_option (\<lambda>pool'. t\<lparr>tb_pool := Some pool'\<rparr>) (FixedPool_free pool row))"

text \<open>\<open>init_row\<close> clears the header from \<open>active\<close> on and writes the key with a trailing NUL.\<close>

definition init_row :: "Table \<Rightarrow> addr \<Rightarrow> bytes \<Rightarrow> Table" where
  "init_row t row key =
     (row_upd (\<lambda>r. r\<lparr>tr_active := True, tr_key_len := length key, tr_next := nullptr,
                    tr_key := memcpy_at (replicate SW_TABLE_KEY_SIZE 0) 0 (key @ [0])\<rparr>) row t)
       \<lparr>tb_row_num := wrap32 (tb_row_num t + 1)\<rparr>"

text \<open>\<open>find_row\<close>: the row (0 if there is none), the row before it and the level it stopped at. None when
  the chain leaves the store.\<close>

partial_function (option) find_row_loop ::
  "row_store \<Rightarrow> bytes \<Rightarrow> addr \<Rightarrow> addr \<Rightarrow> nat \<Rightarrow> (addr \<times> addr \<times> nat) option" where
  "find_row_loop S key row previous level =
     (case S row of None \<Rightarrow> None
      | Some r \<Rightarrow>
          if row_key r = key then Some (row, previous, level)
          else if tr_next r = nullptr then Some (nullptr, row, level)
          else find_row_loop S key (tr_next r) row (wrap32 (level + 1)))"

definition find_row :: "Table \<Rightarrow> addr \<Rightarrow> bytes \<Rightarrow> (addr \<times> addr \<times> nat) option" where
  "find_row t bucket key =
     (case tb_store t bucket of None \<Rightarrow> None
      | Some r \<Rightarrow> if \<not> tr_active r then Some (nullptr, nullptr, 0)
                  else find_row_loop (tb_store t) key bucket nullptr 1)"

text \<open>A value to store: the column and its bytes.\<close>

type_synonym TableValues = "(TableColumn \<times> bytes) list"

definition apply_value :: "TableColumn \<times> bytes \<Rightarrow> bytes \<Rightarrow> bytes" where
  "apply_value v d =
     (if col_type (fst v) = TYPE_STRING then set_value (fst v) (Some (snd v)) (length (snd v)) d
      else memcpy_at d (col_index (fst v)) (take (col_size (fst v)) (snd v)))"

definition apply_values :: "TableValues \<Rightarrow> addr \<Rightarrow> Table \<Rightarrow> Table" where
  "apply_values vs row t = row_upd (\<lambda>r. r\<lparr>tr_data := fold apply_value vs (tr_data r)\<rparr>) row t"

definition match_value :: "bytes \<Rightarrow> TableColumn \<times> bytes \<Rightarrow> bool" where
  "match_value d v \<longleftrightarrow>
     (if col_type (fst v) = TYPE_STRING then
        (let len = le_value (bytes_at d (col_index (fst v)) sizeof_TableStringLength) in
         \<not> (len \<noteq> length (snd v) \<or>
            (len \<noteq> 0 \<and> bytes_at d (col_index (fst v) + sizeof_TableStringLength) len \<noteq> take len (snd v))))
      else bytes_at d (col_index (fst v)) (col_size (fst v)) = take (col_size (fst v)) (snd v))"

definition match_values :: "TableRow \<Rightarrow> TableValues \<Rightarrow> bool" where
  "match_values r vs \<longleftrightarrow> list_all (match_value (tr_data r)) vs"

definition clear_row :: "addr \<Rightarrow> Table \<Rightarrow> Table" where
  "clear_row row t = row_upd (\<lambda>r. r\<lparr>tr_data := fold column_clear (tb_column_list t) (tr_data r)\<rparr>) row t"

text \<open>The fields of a row that the code reads through a pointer.\<close>

definition row_at :: "Table \<Rightarrow> addr \<Rightarrow> TableRow" where
  "row_at t a = (case tb_store t a of None \<Rightarrow> zero_row | Some r \<Rightarrow> r)"

definition delete_row :: "Table \<Rightarrow> addr \<Rightarrow> addr \<Rightarrow> addr \<Rightarrow> Table option" where
  "delete_row t bucket row previous =
     map_option (\<lambda>t. t\<lparr>tb_delete_count := wrap64 (tb_delete_count t + 1), tb_row_num := sub32 (tb_row_num t) 1\<rparr>)
       (let r = row_at t row in
        if tr_next r = nullptr \<and> row = bucket then Some (row_upd row_clear row t)
        else if row = bucket then
          let n = row_at t (tr_next r) in
          free_row (row_upd (\<lambda>r. r\<lparr>tr_next := tr_next n,
                                  tr_key := memcpy_at (tr_key r) 0 (take (tr_key_len n + 1) (tr_key n)),
                                  tr_key_len := tr_key_len n,
                                  tr_data := memcpy_at (tr_data r) 0 (take (tb_item_size t) (tr_data n))\<rparr>) row t) (tr_next r)
        else free_row (row_upd (\<lambda>p. p\<lparr>tr_next := tr_next r\<rparr>) previous t) row)"

section \<open>Operations of the table\<close>

text \<open>\<open>get\<close> returns the row and the bucket that it leaves locked (0 for none).\<close>

definition Table_get :: "nat \<Rightarrow> Table \<Rightarrow> bytes \<Rightarrow> (Table \<times> addr \<times> addr) option" where
  "Table_get pid t key =
     (if \<not> is_valid_key_length (length key) then Some (t, nullptr, nullptr)
      else case table_hash t key of None \<Rightarrow> None
      | Some bucket \<Rightarrow>
          let t = row_upd (row_lock pid) bucket t in
          map_option (\<lambda>(row, _, _). (t, row, bucket)) (find_row t bucket key))"

definition Table_exists :: "nat \<Rightarrow> Table \<Rightarrow> bytes \<Rightarrow> (Table \<times> bool) option" where
  "Table_exists pid t key =
     map_option (\<lambda>(t, row, rowlock). (if rowlock \<noteq> nullptr then row_upd row_unlock rowlock t else t, row \<noteq> nullptr))
       (Table_get pid t key)"

text \<open>The first \<open>set\<close>: the row, the locked bucket and the flags (new row, conflict).\<close>

definition Table_set_row :: "nat \<Rightarrow> Table \<Rightarrow> bytes \<Rightarrow> (Table \<times> addr \<times> addr \<times> bool \<times> bool) option" where
  "Table_set_row pid t key =
     (if \<not> is_valid_key_length (length key) then Some (t, nullptr, nullptr, False, False)
      else case table_hash t key of None \<Rightarrow> None
      | Some bucket \<Rightarrow>
          let t = row_upd (row_lock pid) bucket t in
          (case find_row t bucket key of None \<Rightarrow> None
           | Some (row, previous, level) \<Rightarrow>
               if row = nullptr then
                 if tr_active (row_at t bucket) then
                   let t = t\<lparr>tb_conflict_count := wrap64 (tb_conflict_count t + 1),
                             tb_conflict_max_level := (if level > tb_conflict_max_level t then level else tb_conflict_max_level t)\<rparr> in
                   (case alloc_row t of None \<Rightarrow> None
                    | Some (t, row) \<Rightarrow>
                        if row = nullptr then Some (t, nullptr, bucket, False, False)
                        else
                          let t = row_upd (\<lambda>p. p\<lparr>tr_next := row\<rparr>) previous (init_row t row key) in
                          Some (t\<lparr>tb_insert_count := wrap64 (tb_insert_count t + 1)\<rparr>, row, bucket, True, level > 1))
                 else
                   let t = init_row t bucket key in
                   Some (t\<lparr>tb_insert_count := wrap64 (tb_insert_count t + 1)\<rparr>, bucket, bucket, True, False)
               else Some (t\<lparr>tb_update_count := wrap64 (tb_update_count t + 1)\<rparr>, row, bucket, False, previous \<noteq> nullptr)))"

text \<open>The operations below return whether they succeeded, and \<open>set\<close> and \<open>add\<close> also \<open>out_of_space\<close>.\<close>

definition Table_set :: "nat \<Rightarrow> Table \<Rightarrow> bytes \<Rightarrow> TableValues \<Rightarrow> (Table \<times> bool \<times> bool) option" where
  "Table_set pid t key values =
     (if \<not> is_valid_key_length (length key) then Some (t, False, False)
      else case Table_set_row pid t key of None \<Rightarrow> None
      | Some (t, row, rowlock, new_row, conflict) \<Rightarrow>
          if row = nullptr then
            if rowlock \<noteq> nullptr then Some (row_upd row_unlock rowlock t, False, True) else Some (t, False, False)
          else
            let t = (if new_row then clear_row row t else t) in
            Some (row_upd row_unlock rowlock (apply_values values row t), True, False))"

definition Table_add :: "nat \<Rightarrow> Table \<Rightarrow> bytes \<Rightarrow> TableValues \<Rightarrow> (Table \<times> bool \<times> bool) option" where
  "Table_add pid t key values =
     (if \<not> is_valid_key_length (length key) then Some (t, False, False)
      else case table_hash t key of None \<Rightarrow> None
      | Some bucket \<Rightarrow>
          let t = row_upd (row_lock pid) bucket t;
              finish = (\<lambda>row t. let t = apply_values values row (clear_row row t) in
                row_upd row_unlock bucket (t\<lparr>tb_insert_count := wrap64 (tb_insert_count t + 1)\<rparr>)) in
          (case find_row t bucket key of None \<Rightarrow> None
           | Some (row, previous, level) \<Rightarrow>
               if row \<noteq> nullptr then Some (row_upd row_unlock bucket t, False, False)
               else if tr_active (row_at t bucket) then
                 (case alloc_row t of None \<Rightarrow> None
                  | Some (t, row) \<Rightarrow>
                      if row = nullptr then Some (row_upd row_unlock bucket t, False, True)
                      else
                        let t = row_upd (\<lambda>p. p\<lparr>tr_next := row\<rparr>) previous (init_row t row key);
                            t = t\<lparr>tb_conflict_count := wrap64 (tb_conflict_count t + 1),
                                  tb_conflict_max_level := (if level > tb_conflict_max_level t then level else tb_conflict_max_level t)\<rparr>
                        in Some (finish row t, True, False))
               else Some (finish bucket (init_row t bucket key), True, False)))"

definition Table_update :: "nat \<Rightarrow> Table \<Rightarrow> bytes \<Rightarrow> TableValues \<Rightarrow> (Table \<times> bool) option" where
  "Table_update pid t key values =
     (if \<not> is_valid_key_length (length key) then Some (t, False)
      else case table_hash t key of None \<Rightarrow> None
      | Some bucket \<Rightarrow>
          let t = row_upd (row_lock pid) bucket t in
          (case find_row t bucket key of None \<Rightarrow> None
           | Some (row, previous, level) \<Rightarrow>
               if row = nullptr then Some (row_upd row_unlock bucket t, False)
               else
                 let t = apply_values values row t in
                 Some (row_upd row_unlock bucket (t\<lparr>tb_update_count := wrap64 (tb_update_count t + 1)\<rparr>), True)))"

definition Table_cmpset :: "nat \<Rightarrow> Table \<Rightarrow> bytes \<Rightarrow> TableValues \<Rightarrow> TableValues \<Rightarrow> (Table \<times> bool) option" where
  "Table_cmpset pid t key expected values =
     (if \<not> is_valid_key_length (length key) then Some (t, False)
      else case table_hash t key of None \<Rightarrow> None
      | Some bucket \<Rightarrow>
          let t = row_upd (row_lock pid) bucket t in
          (case find_row t bucket key of None \<Rightarrow> None
           | Some (row, previous, level) \<Rightarrow>
               if row = nullptr \<or> \<not> match_values (row_at t row) expected then Some (row_upd row_unlock bucket t, False)
               else
                 let t = apply_values values row t in
                 Some (row_upd row_unlock bucket (t\<lparr>tb_update_count := wrap64 (tb_update_count t + 1)\<rparr>), True)))"

definition Table_cmpdel :: "nat \<Rightarrow> Table \<Rightarrow> bytes \<Rightarrow> TableValues \<Rightarrow> (Table \<times> bool) option" where
  "Table_cmpdel pid t key expected =
     (if \<not> is_valid_key_length (length key) then Some (t, False)
      else case table_hash t key of None \<Rightarrow> None
      | Some bucket \<Rightarrow>
          let t = row_upd (row_lock pid) bucket t in
          (case find_row t bucket key of None \<Rightarrow> None
           | Some (row, previous, level) \<Rightarrow>
               if row = nullptr \<or> \<not> match_values (row_at t row) expected then Some (row_upd row_unlock bucket t, False)
               else map_option (\<lambda>t. (row_upd row_unlock bucket t, True)) (delete_row t bucket row previous)))"

text \<open>\<open>getdel\<close> also returns the bytes of the column, or of the whole row.\<close>

definition Table_getdel :: "nat \<Rightarrow> Table \<Rightarrow> bytes \<Rightarrow> TableColumn option \<Rightarrow> (Table \<times> bool \<times> bytes) option" where
  "Table_getdel pid t key column =
     (if \<not> is_valid_key_length (length key) then Some (t, False, [])
      else case table_hash t key of None \<Rightarrow> None
      | Some bucket \<Rightarrow>
          let t = row_upd (row_lock pid) bucket t in
          (case find_row t bucket key of None \<Rightarrow> None
           | Some (row, previous, level) \<Rightarrow>
               if row = nullptr then Some (row_upd row_unlock bucket t, False, [])
               else
                 let snapshot = bytes_at (tr_data (row_at t row)) (case column of None \<Rightarrow> 0 | Some c \<Rightarrow> col_index c)
                                  (case column of None \<Rightarrow> tb_item_size t | Some c \<Rightarrow> col_size c) in
                 map_option (\<lambda>t. (row_upd row_unlock bucket t, True, snapshot)) (delete_row t bucket row previous)))"

definition Table_del :: "nat \<Rightarrow> Table \<Rightarrow> bytes \<Rightarrow> (Table \<times> bool) option" where
  "Table_del pid t key =
     (if \<not> is_valid_key_length (length key) then Some (t, False)
      else case table_hash t key of None \<Rightarrow> None
      | Some bucket \<Rightarrow>
          let t = row_upd (row_lock pid) bucket t in
          (case find_row t bucket key of None \<Rightarrow> None
           | Some (row, previous, level) \<Rightarrow>
               if row = nullptr then Some (row_upd row_unlock bucket t, False)
               else map_option (\<lambda>t. (row_upd row_unlock bucket t, True)) (delete_row t bucket row previous)))"

definition table_count :: "Table \<Rightarrow> nat" where
  "table_count t = tb_row_num t"

section \<open>The columns of a row\<close>

text \<open>The bytes of a column in a row, and the value they stand for.\<close>

definition cell :: "TableColumn \<Rightarrow> bytes \<Rightarrow> bytes" where
  "cell c d = bytes_at d (col_index c) (col_size c)"

definition cell_ok :: "TableColumn \<Rightarrow> bytes \<Rightarrow> bool" where
  "cell_ok c b \<longleftrightarrow> length b = col_size c \<and> (col_type c = TYPE_STRING \<longrightarrow> le_value (take 4 b) \<le> col_size c - 4)"

definition cell_value :: "TableColumn \<Rightarrow> bytes \<Rightarrow> bytes" where
  "cell_value c b = (if col_type c = TYPE_STRING then take (le_value (take 4 b)) (drop 4 b) else b)"

definition cols_ok :: "TableColumn list \<Rightarrow> nat \<Rightarrow> bool" where
  "cols_ok cols item_size \<longleftrightarrow>
     (\<forall>c \<in> set cols. col_index c + col_size c \<le> item_size \<and> col_size c < 2 ^ 32 \<and>
        (if col_type c = TYPE_STRING then 4 \<le> col_size c else col_size c = 8)) \<and>
     (\<forall>c \<in> set cols. \<forall>c' \<in> set cols. c \<noteq> c' \<longrightarrow>
        col_index c + col_size c \<le> col_index c' \<or> col_index c' + col_size c' \<le> col_index c)"

text \<open>What is kept of a value: a string is cut to the size of its column.\<close>

definition stored :: "TableColumn \<Rightarrow> bytes \<Rightarrow> bytes" where
  "stored c v = (if col_type c = TYPE_STRING then take (col_size c - 4) v else take 8 v)"

definition value_ok :: "TableColumn list \<Rightarrow> TableColumn \<times> bytes \<Rightarrow> bool" where
  "value_ok cols v \<longleftrightarrow> fst v \<in> set cols \<and> (col_type (fst v) \<noteq> TYPE_STRING \<longrightarrow> 8 \<le> length (snd v))"

lemma cols_okD:
  assumes "cols_ok cols n" "c \<in> set cols"
  shows "col_index c + col_size c \<le> n" "col_size c < 2 ^ 32"
    "col_type c = TYPE_STRING \<Longrightarrow> 4 \<le> col_size c" "col_type c \<noteq> TYPE_STRING \<Longrightarrow> col_size c = 8"
    "c' \<in> set cols \<Longrightarrow> c \<noteq> c' \<Longrightarrow> col_index c + col_size c \<le> col_index c' \<or> col_index c' + col_size c' \<le> col_index c"
  using assms by (auto simp: cols_ok_def split: if_splits)

text \<open>Writing a string: length prefix and bytes land in the cell of the column.\<close>

lemma string_cell:
  fixes v :: bytes
  assumes "cols_ok cols (length d)" "c \<in> set cols" "col_type c = TYPE_STRING"
  defines "v' \<equiv> take (col_size c - 4) v"
  shows "length (set_value c (Some v) (length v) d) = length d"
    "cell_ok c (cell c (set_value c (Some v) (length v) d))"
    "cell_value c (cell c (set_value c (Some v) (length v) d)) = v'"
    "p + n \<le> col_index c \<or> col_index c + col_size c \<le> p \<Longrightarrow> bytes_at (set_value c (Some v) (length v) d) p n = bytes_at d p n"
proof -
  note C = cols_okD [OF assms(1,2)]
  let ?i = "col_index c"
  have lv: "length v' \<le> col_size c - 4" "length v' < 2 ^ 32" using C(2) by (auto simp: v'_def)
  let ?d1 = "memcpy_at d ?i (le_bytes 4 (length v'))"
  have sv: "set_value c (Some v) (length v) d = memcpy_at ?d1 (?i + 4) v'"
    using assms(3) by (auto simp: set_value_def sizeof_TableStringLength_def v'_def Let_def memcpy_at_def min_def)
  have l1: "length ?d1 = length d" using C(1) C(3) [OF assms(3)] by simp
  show len: "length (set_value c (Some v) (length v) d) = length d"
    unfolding sv using l1 lv C(1) C(3) [OF assms(3)] by simp
  have pre: "take 4 (cell c (set_value c (Some v) (length v) d)) = le_bytes 4 (length v')"
  proof -
    have "take 4 (cell c (memcpy_at ?d1 (?i + 4) v')) = bytes_at (memcpy_at ?d1 (?i + 4) v') ?i 4"
      using C(3) [OF assms(3)] by (simp add: cell_def bytes_at_def min_def)
    also have "\<dots> = bytes_at ?d1 ?i 4"
      using l1 lv C(1) C(3) [OF assms(3)] by (intro bytes_at_memcpy_other) auto
    also have "\<dots> = le_bytes 4 (length v')"
      using C(1) C(3) [OF assms(3)] by (intro bytes_at_memcpy_same) auto
    finally show ?thesis unfolding sv .
  qed
  have le: "le_value (le_bytes 4 (length v')) = length v'" using lv(2) by (intro le_value_bytes) simp
  show "cell_ok c (cell c (set_value c (Some v) (length v) d))"
    unfolding cell_ok_def pre le using len lv C(1) by (simp add: cell_def)
  have "take (length v') (drop 4 (cell c (memcpy_at ?d1 (?i + 4) v'))) = bytes_at (memcpy_at ?d1 (?i + 4) v') (?i + 4) (length v')"
    using lv C(3) [OF assms(3)] by (simp add: cell_def bytes_at_def drop_take min_def add.commute)
  also have "\<dots> = v'" using l1 lv C(1) C(3) [OF assms(3)] by (intro bytes_at_memcpy_same) auto
  finally show "cell_value c (cell c (set_value c (Some v) (length v) d)) = v'"
    unfolding cell_value_def pre le using assms(3) by (simp add: sv)
  assume far: "p + n \<le> ?i \<or> ?i + col_size c \<le> p"
  have "bytes_at (memcpy_at ?d1 (?i + 4) v') p n = bytes_at ?d1 p n"
    using far l1 lv C(1) C(3) [OF assms(3)] by (intro bytes_at_memcpy_other) auto
  also have "\<dots> = bytes_at d p n"
    using far C(1) C(3) [OF assms(3)] by (intro bytes_at_memcpy_other) auto
  finally show "bytes_at (set_value c (Some v) (length v) d) p n = bytes_at d p n" unfolding sv .
qed

lemma number_cell:
  assumes "cols_ok cols (length d)" "c \<in> set cols" "col_type c \<noteq> TYPE_STRING" "length v = 8"
  shows "length (memcpy_at d (col_index c) v) = length d"
    "cell_ok c (cell c (memcpy_at d (col_index c) v))"
    "cell_value c (cell c (memcpy_at d (col_index c) v)) = v"
    "p + n \<le> col_index c \<or> col_index c + col_size c \<le> p \<Longrightarrow> bytes_at (memcpy_at d (col_index c) v) p n = bytes_at d p n"
proof -
  note C = cols_okD [OF assms(1,2)]
  show l: "length (memcpy_at d (col_index c) v) = length d" using C(1,4) assms(3,4) by simp
  have "cell c (memcpy_at d (col_index c) v) = v"
    unfolding cell_def using C(1,4) assms(3,4) by (intro bytes_at_memcpy_same) auto
  then show "cell_ok c (cell c (memcpy_at d (col_index c) v))" "cell_value c (cell c (memcpy_at d (col_index c) v)) = v"
    using C(4) assms(3,4) by (auto simp: cell_ok_def cell_value_def)
  assume "p + n \<le> col_index c \<or> col_index c + col_size c \<le> p"
  then show "bytes_at (memcpy_at d (col_index c) v) p n = bytes_at d p n"
    using C(1,4) assms(3,4) by (intro bytes_at_memcpy_other) auto
qed

lemma clear_string_eq:
  "col_type c = TYPE_STRING \<Longrightarrow> set_value c None 0 d = set_value c (Some []) (length ([] :: bytes)) d"
  by (simp add: set_value_def Let_def)

text \<open>One column written: its own cell holds the value, the others keep theirs.\<close>

definition writes :: "TableColumn list \<Rightarrow> TableColumn \<Rightarrow> bytes \<Rightarrow> (bytes \<Rightarrow> bytes) \<Rightarrow> bool" where
  "writes cols c v f \<longleftrightarrow> (\<forall>d. cols_ok cols (length d) \<longrightarrow>
     length (f d) = length d \<and> cell_ok c (cell c (f d)) \<and> cell_value c (cell c (f d)) = v \<and>
     (\<forall>c' \<in> set cols. c' \<noteq> c \<longrightarrow> cell c' (f d) = cell c' d))"

lemma writes_apply: "value_ok cols v \<Longrightarrow> writes cols (fst v) (stored (fst v) (snd v)) (apply_value v)"
proof -
  assume v: "value_ok cols v"
  then have c: "fst v \<in> set cols" by (simp add: value_ok_def)
  show ?thesis
  proof (cases "col_type (fst v) = TYPE_STRING")
    case True
    have eq: "apply_value v d = set_value (fst v) (Some (snd v)) (length (snd v)) d" for d
      using True by (simp add: apply_value_def)
    show ?thesis unfolding writes_def eq
    proof (intro allI impI conjI ballI)
      fix d :: bytes assume d: "cols_ok cols (length d)"
      note S = string_cell [OF d c True, where v = "snd v"]
      show "length (set_value (fst v) (Some (snd v)) (length (snd v)) d) = length d" by (rule S(1))
      show "cell_ok (fst v) (cell (fst v) (set_value (fst v) (Some (snd v)) (length (snd v)) d))" by (rule S(2))
      show "cell_value (fst v) (cell (fst v) (set_value (fst v) (Some (snd v)) (length (snd v)) d)) = stored (fst v) (snd v)"
        using S(3) True by (simp add: stored_def)
      fix c' assume "c' \<in> set cols" "c' \<noteq> fst v"
      then show "cell c' (set_value (fst v) (Some (snd v)) (length (snd v)) d) = cell c' d"
        unfolding cell_def using cols_okD(5) [OF d c, of c'] by (intro S(4)) auto
    qed
  next
    case False
    show ?thesis unfolding writes_def
    proof (intro allI impI)
      fix d :: bytes assume d: "cols_ok cols (length d)"
      have "apply_value v d = memcpy_at d (col_index (fst v)) (take 8 (snd v))"
        using False cols_okD(4) [OF d c] by (simp add: apply_value_def)
      moreover note N = number_cell [OF d c False, where v = "take 8 (snd v)"]
      moreover have "length (take 8 (snd v)) = 8" using v False by (simp add: value_ok_def)
      ultimately show "length (apply_value v d) = length d \<and> cell_ok (fst v) (cell (fst v) (apply_value v d)) \<and>
        cell_value (fst v) (cell (fst v) (apply_value v d)) = stored (fst v) (snd v) \<and>
        (\<forall>c' \<in> set cols. c' \<noteq> fst v \<longrightarrow> cell c' (apply_value v d) = cell c' d)"
        using False cols_okD(5) [OF d c] by (fastforce simp: stored_def cell_def)
    qed
  qed
qed

definition zero_value :: "TableColumn \<Rightarrow> bytes" where
  "zero_value c = (if col_type c = TYPE_STRING then [] else replicate 8 0)"

lemma clear_apply:
  assumes "cols_ok cols n" "c \<in> set cols"
  shows "column_clear c d = apply_value (c, zero_value c) d"
proof (cases "col_type c")
  case TYPE_STRING
  then show ?thesis by (simp add: column_clear_def apply_value_def zero_value_def clear_string_eq)
qed (use cols_okD(4) [OF assms] in \<open>auto simp: column_clear_def apply_value_def zero_value_def set_value_def\<close>)

text \<open>The abstract row: the value of every column of the table.\<close>

definition row_view :: "TableColumn list \<Rightarrow> bytes \<Rightarrow> TableColumn \<Rightarrow> bytes option" where
  "row_view cols d c = (if c \<in> set cols then Some (cell_value c (cell c d)) else None)"

definition data_ok :: "TableColumn list \<Rightarrow> nat \<Rightarrow> bytes \<Rightarrow> bool" where
  "data_ok cols n d \<longleftrightarrow> cols_ok cols n \<and> length d = n \<and> (\<forall>c \<in> set cols. cell_ok c (cell c d))"

lemma apply_value_view:
  assumes "data_ok cols n d" "value_ok cols v"
  shows "data_ok cols n (apply_value v d)"
    "row_view cols (apply_value v d) = (row_view cols d)(fst v \<mapsto> stored (fst v) (snd v))"
proof -
  have d: "cols_ok cols (length d)" using assms(1) by (simp add: data_ok_def)
  have w: "length (apply_value v d) = length d" "cell_ok (fst v) (cell (fst v) (apply_value v d))"
    "cell_value (fst v) (cell (fst v) (apply_value v d)) = stored (fst v) (snd v)"
    "\<And>c'. c' \<in> set cols \<Longrightarrow> c' \<noteq> fst v \<Longrightarrow> cell c' (apply_value v d) = cell c' d"
    using writes_apply [OF assms(2)] d unfolding writes_def by blast+
  show "data_ok cols n (apply_value v d)" using assms(1) w unfolding data_ok_def by metis
  show "row_view cols (apply_value v d) = (row_view cols d)(fst v \<mapsto> stored (fst v) (snd v))"
    using w assms(2) by (auto simp: row_view_def value_ok_def)
qed

definition spec_apply :: "TableValues \<Rightarrow> (TableColumn \<Rightarrow> bytes option) \<Rightarrow> TableColumn \<Rightarrow> bytes option" where
  "spec_apply vs m = fold (\<lambda>v m. m(fst v \<mapsto> stored (fst v) (snd v))) vs m"

lemma apply_values_view:
  assumes "data_ok cols n d" "list_all (value_ok cols) vs"
  shows "data_ok cols n (fold apply_value vs d) \<and> row_view cols (fold apply_value vs d) = spec_apply vs (row_view cols d)"
  using assms
proof (induction vs arbitrary: d)
  case (Cons v vs)
  then show ?case using apply_value_view [of cols n d v] by (simp add: spec_apply_def)
qed (simp add: spec_apply_def)

text \<open>\<open>clear_row\<close> makes any row data well formed, with zero values.\<close>

definition zero_view :: "TableColumn list \<Rightarrow> TableColumn \<Rightarrow> bytes option" where
  "zero_view cols c = (if c \<in> set cols then Some (zero_value c) else None)"

lemma value_ok_zero: "c \<in> set cols \<Longrightarrow> value_ok cols (c, zero_value c)"
  by (simp add: value_ok_def zero_value_def)

lemma stored_zero: "stored c (zero_value c) = zero_value c"
  by (simp add: stored_def zero_value_def)

lemma clear_columns:
  assumes "cols_ok cols (length d)" "set cs \<subseteq> set cols"
  shows "length (fold column_clear cs d) = length d \<and>
    (\<forall>c \<in> set cs. cell_ok c (cell c (fold column_clear cs d)) \<and> cell_value c (cell c (fold column_clear cs d)) = zero_value c)"
  using assms
proof (induction cs arbitrary: d rule: rev_induct)
  case (snoc c cs)
  let ?d = "fold column_clear cs d"
  have IH: "length ?d = length d"
    "\<And>c. c \<in> set cs \<Longrightarrow> cell_ok c (cell c ?d) \<and> cell_value c (cell c ?d) = zero_value c"
    using snoc by auto
  have c: "c \<in> set cols" and ok: "cols_ok cols (length ?d)" using snoc IH(1) by auto
  have eq: "column_clear c ?d = apply_value (c, zero_value c) ?d" by (rule clear_apply [OF ok c])
  have w: "length (column_clear c ?d) = length ?d" "cell_ok c (cell c (column_clear c ?d))"
    "cell_value c (cell c (column_clear c ?d)) = zero_value c"
    "\<And>c'. c' \<in> set cols \<Longrightarrow> c' \<noteq> c \<Longrightarrow> cell c' (column_clear c ?d) = cell c' ?d"
    using writes_apply [OF value_ok_zero [OF c]] ok unfolding writes_def eq by (auto simp: stored_zero)
  have keep: "cell_ok x (cell x (column_clear c ?d)) \<and> cell_value x (cell x (column_clear c ?d)) = zero_value x"
    if "x \<in> set cs" for x
    using that w IH(2) snoc.prems(2) by (cases "x = c") auto
  then show ?case using w IH(1) by auto
qed simp

lemma clear_row_view:
  assumes "cols_ok cols n" "length d = n"
  shows "data_ok cols n (fold column_clear cols d) \<and> row_view cols (fold column_clear cols d) = zero_view cols"
  using clear_columns [of cols d cols] assms by (auto simp: data_ok_def row_view_def zero_view_def)

text \<open>What \<open>match_values\<close>, \<open>get_value\<close> and \<open>getdel\<close> read is the abstract value.\<close>

lemma cell_string:
  assumes "data_ok cols n d" "c \<in> set cols" "col_type c = TYPE_STRING"
  shows "bytes_at d (col_index c) 4 = take 4 (cell c d)" "le_value (take 4 (cell c d)) \<le> col_size c - 4"
    "cell_value c (cell c d) = bytes_at d (col_index c + 4) (le_value (take 4 (cell c d)))"
    "length (cell_value c (cell c d)) = le_value (take 4 (cell c d))"
proof -
  have C: "cols_ok cols n" "length d = n" "cell_ok c (cell c d)" using assms by (auto simp: data_ok_def)
  note D = cols_okD [OF C(1) assms(2)]
  show "bytes_at d (col_index c) 4 = take 4 (cell c d)"
    using D(3) assms(3) by (simp add: cell_def bytes_at_def min_def)
  show len: "le_value (take 4 (cell c d)) \<le> col_size c - 4" using C(3) assms(3) by (simp add: cell_ok_def)
  then show eq: "cell_value c (cell c d) = bytes_at d (col_index c + 4) (le_value (take 4 (cell c d)))"
    using D(3) assms(3) by (simp add: cell_value_def cell_def bytes_at_def drop_take min_def add.commute)
  show "length (cell_value c (cell c d)) = le_value (take 4 (cell c d))"
    using len D(1,3) C(2) assms(3) by (simp add: eq)
qed

definition spec_match :: "(TableColumn \<Rightarrow> bytes option) \<Rightarrow> TableColumn \<times> bytes \<Rightarrow> bool" where
  "spec_match m v \<longleftrightarrow> m (fst v) = Some (if col_type (fst v) = TYPE_STRING then snd v else take 8 (snd v))"

lemma match_value_view:
  assumes "data_ok cols n d" "fst v \<in> set cols"
  shows "match_value d v = spec_match (row_view cols d) v"
proof (cases "col_type (fst v) = TYPE_STRING")
  case True
  note S = cell_string [OF assms True]
  let ?L = "le_value (take 4 (cell (fst v) d))" and ?w = "cell_value (fst v) (cell (fst v) d)"
  have "match_value d v \<longleftrightarrow> ?L = length (snd v) \<and> (?L \<noteq> 0 \<longrightarrow> ?w = take ?L (snd v))"
    using True by (auto simp: match_value_def sizeof_TableStringLength_def Let_def S(1) S(3))
  also have "\<dots> \<longleftrightarrow> ?w = snd v" using S(4) by auto
  finally show ?thesis using True assms(2) by (simp add: spec_match_def row_view_def)
next
  case False
  have "cols_ok cols n" using assms(1) by (simp add: data_ok_def)
  then have "col_size (fst v) = 8" using cols_okD(4) assms(2) False by blast
  then show ?thesis
    using False assms(2) by (auto simp: match_value_def spec_match_def row_view_def cell_def cell_value_def)
qed

lemma get_value_view:
  assumes "data_ok cols n d" "c \<in> set cols"
  shows "col_type c = TYPE_STRING \<Longrightarrow> row_view cols d c = Some (take (fst (get_value_str c d)) (snd (get_value_str c d)))"
    "col_type c \<noteq> TYPE_STRING \<Longrightarrow> row_view cols d c = Some (get_value_num c d)"
proof -
  assume s: "col_type c = TYPE_STRING"
  show "row_view cols d c = Some (take (fst (get_value_str c d)) (snd (get_value_str c d)))"
    using cell_string [OF assms s] assms(2)
    by (simp add: row_view_def get_value_str_def sizeof_TableStringLength_def) (simp add: bytes_at_def)
next
  assume s: "col_type c \<noteq> TYPE_STRING"
  have "cols_ok cols n" using assms(1) by (simp add: data_ok_def)
  then have "col_size c = 8" using cols_okD(4) assms(2) s by blast
  then show "row_view cols d c = Some (get_value_num c d)"
    using s assms(2) by (simp add: row_view_def get_value_num_def cell_value_def cell_def)
qed

end
