(* ===== verification/Sw_TableMap.thy ===== *)
theory Sw_TableMap
  imports Sw_Table
begin

text \<open>
  The hash table of \<open>Sw_Table\<close> as a map. A representation (\<open>table_rep\<close>) lists the rows of every bucket;
  \<open>table_map\<close> reads off the map from keys to rows of column values. Every operation is shown to keep the
  representation and to act on the map as specified; the last section has the properties of whole runs.
\<close>

section \<open>Buckets\<close>

text \<open>A chain of rows linked by \<open>next\<close>.\<close>

fun chain :: "row_store \<Rightarrow> addr list \<Rightarrow> bool" where
  "chain S [] \<longleftrightarrow> True"
| "chain S (x # xs) \<longleftrightarrow> (\<exists>r. S x = Some r \<and> tr_next r = hd (xs @ [nullptr])) \<and> chain S xs"

lemma chain_append: "chain S (xs @ ys) \<Longrightarrow> chain S ys"
  by (induction xs) auto

lemma chain_frame: "(\<And>x. x \<in> set xs \<Longrightarrow> S x = T x) \<Longrightarrow> chain S xs = chain T xs"
  by (induction xs) auto

lemma chain_stored: "chain S xs \<Longrightarrow> x \<in> set xs \<Longrightarrow> \<exists>r. S x = Some r"
  by (induction xs) auto

text \<open>Changes of a row that keep its link.\<close>

lemma chain_keep:
  "(\<And>x. map_option tr_next (T x) = map_option tr_next (S x)) \<Longrightarrow> chain S xs = chain T xs"
proof (induction xs)
  case (Cons x xs)
  then show ?case using Cons.prems [of x] by (cases "S x"; cases "T x") auto
qed simp

text \<open>Walking a chain: \<open>find_row_loop\<close> stops at the first row with the key, or at the end.\<close>

abbreviation key_at :: "row_store \<Rightarrow> addr \<Rightarrow> bytes" where
  "key_at S x \<equiv> row_key (the (S x))"

lemma find_row_loop_found:
  assumes "chain S (as @ x # bs)" "nullptr \<notin> set (as @ x # bs)" "\<forall>y \<in> set as. key_at S y \<noteq> k" "key_at S x = k"
  shows "\<exists>l'. find_row_loop S k (hd (as @ [x])) p l = Some (x, last (p # as), l')"
  using assms
proof (induction as arbitrary: p l)
  case Nil
  then show ?case by (subst find_row_loop.simps) auto
next
  case (Cons a as)
  then obtain r where r: "S a = Some r" "tr_next r = hd (as @ [x])" by (cases as) auto
  moreover have "hd (as @ [x]) \<noteq> nullptr" using Cons.prems(2) by (cases as) auto
  moreover have "row_key r \<noteq> k" using Cons.prems(3) r by simp
  moreover obtain l' where "find_row_loop S k (hd (as @ [x])) a (wrap32 (l + 1)) = Some (x, last (a # as), l')"
    using Cons by fastforce
  ultimately show ?case by (subst find_row_loop.simps) auto
qed

lemma find_row_loop_missing:
  assumes "chain S xs" "xs \<noteq> []" "nullptr \<notin> set xs" "\<forall>y \<in> set xs. key_at S y \<noteq> k"
  shows "\<exists>l'. find_row_loop S k (hd xs) p l = Some (nullptr, last xs, l')"
  using assms
proof (induction xs arbitrary: p l)
  case (Cons a as)
  then obtain r where r: "S a = Some r" "tr_next r = hd (as @ [nullptr])" "row_key r \<noteq> k" by auto
  show ?case
  proof (cases "as = []")
    case True
    then show ?thesis using r by (subst find_row_loop.simps) auto
  next
    case False
    then have n: "tr_next r = hd as" "hd as \<noteq> nullptr" using r Cons.prems(3) by (cases as; auto)+
    obtain l' where "find_row_loop S k (hd as) a (wrap32 (l + 1)) = Some (nullptr, last as, l')"
      using Cons False by fastforce
    then show ?thesis using r n False by (subst find_row_loop.simps) auto
  qed
qed simp

text \<open>A row in use.\<close>

definition entry_ok :: "Table \<Rightarrow> nat \<Rightarrow> TableRow \<Rightarrow> bool" where
  "entry_ok t i r \<longleftrightarrow> tr_active r \<and> is_valid_key_length (tr_key_len r) \<and> hash_index t (row_key r) = i \<and>
     data_ok (tb_column_list t) (tb_item_size t) (tr_data r)"

text \<open>The rows of bucket \<open>i\<close>: the root alone when it is not in use, otherwise the whole chain with
  distinct keys.\<close>

definition bucket_ok :: "Table \<Rightarrow> nat \<Rightarrow> addr list \<Rightarrow> bool" where
  "bucket_ok t i xs \<longleftrightarrow> xs \<noteq> [] \<and> hd xs = tb_rows t ! i \<and> chain (tb_store t) xs \<and> nullptr \<notin> set xs \<and> distinct xs \<and>
     (if tr_active (row_at t (hd xs))
      then (\<forall>x \<in> set xs. entry_ok t i (row_at t x)) \<and> distinct (map (\<lambda>x. row_key (row_at t x)) xs)
      else tl xs = [])"

definition bucket_entries :: "Table \<Rightarrow> addr list \<Rightarrow> (bytes \<times> (TableColumn \<Rightarrow> bytes option)) list" where
  "bucket_entries t xs =
     (if tr_active (row_at t (hd xs))
      then map (\<lambda>x. (row_key (row_at t x), row_view (tb_column_list t) (tr_data (row_at t x)))) xs else [])"

text \<open>The addresses of the rows in the pool.\<close>

definition pool_rows :: "FixedPool \<Rightarrow> addr set" where
  "pool_rows p = (\<lambda>i. slice_addr p i + sizeof_struct_slice) ` {..<fp_slice_num p}"

definition table_rep :: "Table \<Rightarrow> addr list list \<Rightarrow> bool" where
  "table_rep t B \<longleftrightarrow>
     (\<exists>k \<le> 31. tb_size t = 2 ^ k) \<and> tb_mask t = tb_size t - 1 \<and> length B = tb_size t \<and> length (tb_rows t) = tb_size t \<and>
     (\<forall>i < tb_size t. bucket_ok t i (B ! i)) \<and> distinct (concat B) \<and>
     cols_ok (tb_column_list t) (tb_item_size t) \<and>
     (\<exists>p. tb_pool t = Some p \<and> pool_inv p \<and> dom (fixed_live p) = set (concat (map tl B)) \<and>
        set (tb_rows t) \<inter> pool_rows p = {} \<and> dom (tb_store t) = set (tb_rows t) \<union> pool_rows p) \<and>
     (\<forall>a r. tb_store t a = Some r \<longrightarrow> length (tr_data r) = tb_item_size t \<and> length (tr_key r) = SW_TABLE_KEY_SIZE)"

text \<open>What no operation on rows changes.\<close>

definition same_table :: "Table \<Rightarrow> Table \<Rightarrow> bool" where
  "same_table t u \<longleftrightarrow> tb_size u = tb_size t \<and> tb_mask u = tb_mask t \<and> tb_rows u = tb_rows t \<and>
     tb_hash_func u = tb_hash_func t \<and> tb_column_list u = tb_column_list t \<and> tb_item_size u = tb_item_size t"

lemma same_tableD:
  assumes "same_table t u"
  shows "tb_size u = tb_size t" "tb_mask u = tb_mask t" "tb_rows u = tb_rows t" "tb_hash_func u = tb_hash_func t"
    "tb_column_list u = tb_column_list t" "tb_item_size u = tb_item_size t" "hash_index u = hash_index t"
    "entry_ok u = entry_ok t"
  using assms by (auto simp: same_table_def hash_index_def [abs_def] entry_ok_def [abs_def])

lemma row_at_Some: "tb_store t a = Some r \<Longrightarrow> row_at t a = r"
  by (simp add: row_at_def)

lemma bucket_frame:
  assumes "same_table t u" "\<And>x. x \<in> set xs \<Longrightarrow> tb_store u x = tb_store t x"
  shows "bucket_ok u i xs = bucket_ok t i xs" "bucket_entries u xs = bucket_entries t xs"
proof -
  have r: "row_at u x = row_at t x" if "x \<in> set xs" for x using assms(2) [OF that] by (simp add: row_at_def)
  have c: "chain (tb_store u) xs = chain (tb_store t) xs" using assms(2) by (intro chain_frame) auto
  have m: "map (\<lambda>x. row_key (row_at u x)) xs = map (\<lambda>x. row_key (row_at t x)) xs" using r by simp
  show "bucket_ok u i xs = bucket_ok t i xs"
    unfolding bucket_ok_def c m same_tableD [OF assms(1)] using r by (cases xs) auto
  show "bucket_entries u xs = bucket_entries t xs"
    unfolding bucket_entries_def same_tableD [OF assms(1)] using r by (cases xs) auto
qed

lemma bucket_okD:
  assumes "bucket_ok t i xs"
  shows "xs \<noteq> []" "hd xs = tb_rows t ! i" "chain (tb_store t) xs" "nullptr \<notin> set xs" "distinct xs"
    "x \<in> set xs \<Longrightarrow> tb_store t x = Some (row_at t x)"
    "tr_active (row_at t (hd xs)) \<Longrightarrow> x \<in> set xs \<Longrightarrow> entry_ok t i (row_at t x)"
    "tr_active (row_at t (hd xs)) \<Longrightarrow> distinct (map (\<lambda>x. row_key (row_at t x)) xs)"
    "\<not> tr_active (row_at t (hd xs)) \<Longrightarrow> xs = [tb_rows t ! i]"
proof -
  show "xs \<noteq> []" "hd xs = tb_rows t ! i" "chain (tb_store t) xs" "nullptr \<notin> set xs" "distinct xs"
    "tr_active (row_at t (hd xs)) \<Longrightarrow> x \<in> set xs \<Longrightarrow> entry_ok t i (row_at t x)"
    "tr_active (row_at t (hd xs)) \<Longrightarrow> distinct (map (\<lambda>x. row_key (row_at t x)) xs)"
    using assms by (auto simp: bucket_ok_def)
  show "\<not> tr_active (row_at t (hd xs)) \<Longrightarrow> xs = [tb_rows t ! i]"
    using assms by (cases xs) (auto simp: bucket_ok_def)
  assume "x \<in> set xs"
  then obtain r where "tb_store t x = Some r" using assms chain_stored [of "tb_store t" xs x] by (auto simp: bucket_ok_def)
  then show "tb_store t x = Some (row_at t x)" by (simp add: row_at_Some)
qed

lemma table_repD:
  assumes "table_rep t B"
  shows "tb_mask t = tb_size t - 1" "length B = tb_size t" "length (tb_rows t) = tb_size t"
    "i < tb_size t \<Longrightarrow> bucket_ok t i (B ! i)" "distinct (concat B)" "cols_ok (tb_column_list t) (tb_item_size t)"
    "tb_store t a = Some r \<Longrightarrow> length (tr_data r) = tb_item_size t \<and> length (tr_key r) = SW_TABLE_KEY_SIZE"
  using assms unfolding table_rep_def by blast+

lemma table_repI:
  assumes "\<exists>k \<le> 31. tb_size t = 2 ^ k" "tb_mask t = tb_size t - 1" "length B = tb_size t" "length (tb_rows t) = tb_size t"
    "\<And>i. i < tb_size t \<Longrightarrow> bucket_ok t i (B ! i)" "distinct (concat B)" "cols_ok (tb_column_list t) (tb_item_size t)"
    "tb_pool t = Some p" "pool_inv p" "dom (fixed_live p) = set (concat (map tl B))"
    "set (tb_rows t) \<inter> pool_rows p = {}" "dom (tb_store t) = set (tb_rows t) \<union> pool_rows p"
    "\<And>a r. tb_store t a = Some r \<Longrightarrow> length (tr_data r) = tb_item_size t \<and> length (tr_key r) = SW_TABLE_KEY_SIZE"
  shows "table_rep t B"
  unfolding table_rep_def using assms by blast

lemma table_rep_size: "table_rep t B \<Longrightarrow> \<exists>k \<le> 31. tb_size t = 2 ^ k"
  unfolding table_rep_def by blast

lemma table_rep_pool:
  assumes "table_rep t B"
  obtains p where "tb_pool t = Some p" "pool_inv p" "dom (fixed_live p) = set (concat (map tl B))"
    "set (tb_rows t) \<inter> pool_rows p = {}" "dom (tb_store t) = set (tb_rows t) \<union> pool_rows p"
  using assms unfolding table_rep_def by blast

lemma hash_index_less: "table_rep t B \<Longrightarrow> hash_index t key < tb_size t"
proof -
  assume rep: "table_rep t B"
  then obtain k where k: "k \<le> 31" "tb_size t = 2 ^ k" by (auto simp: table_rep_def)
  have m: "(of_nat (2 ^ k - 1) :: u64) = mask k" by (simp add: mask_eq_exp_minus_1 of_nat_diff)
  have "unat (tb_hash_func t key AND mask k) = take_bit k (unat (tb_hash_func t key))"
    by (simp add: take_bit_eq_mask [symmetric] unsigned_take_bit_eq)
  also have "\<dots> < 2 ^ k" by (simp add: take_bit_eq_mod)
  finally have "unat (tb_hash_func t key AND of_nat (2 ^ k - 1)) < 2 ^ k" unfolding m .
  then show ?thesis unfolding hash_index_def table_repD(1) [OF rep] k(2) .
qed

lemma table_hash_rep: "table_rep t B \<Longrightarrow> table_hash t key = Some (tb_rows t ! hash_index t key)"
  using hash_index_less by (simp add: table_hash_def)

text \<open>Two buckets share no row.\<close>

lemma set_bucket: "i < length B \<Longrightarrow> set (B ! i) \<subseteq> set (concat B)"
  by (metis UN_upper nth_mem set_concat)

lemma set_concat_nth: "set (concat C) = (\<Union>j \<in> {..<length C}. set (C ! j))"
  by (induction C) (auto simp: lessThan_Suc_eq_insert_0)

lemma buckets_disjoint:
  assumes "distinct (concat B)" "i < length B" "j < length B" "i \<noteq> j"
  shows "set (B ! i) \<inter> set (B ! j) = {}"
  using assms
proof (induction B arbitrary: i j)
  case (Cons b B)
  have "set b \<inter> set (B ! n) = {}" if "n < length B" for n
    using Cons.prems(1) set_bucket [OF that] by auto
  then show ?case using Cons by (cases i; cases j) (auto simp: Int_commute)
qed simp

lemma set_concat_update:
  assumes "distinct (concat B)" "i < length B"
  shows "set (concat (B[i := xs])) = set (concat B) - set (B ! i) \<union> set xs"
proof -
  have "set (B ! j) \<inter> set (B ! i) = {}" if "j < length B" "j \<noteq> i" for j
    using buckets_disjoint [OF assms(1) that(1) assms(2) that(2)] .
  then have "(\<Union>j \<in> {..<length B}. set (B[i := xs] ! j)) = (\<Union>j \<in> {..<length B}. set (B ! j)) - set (B ! i) \<union> set xs"
    using assms(2) by (fastforce simp: nth_list_update split: if_splits)
  then show ?thesis unfolding set_concat_nth by simp
qed

lemma distinct_concat_update:
  assumes "distinct (concat B)" "i < length B" "distinct xs" "(set xs - set (B ! i)) \<inter> set (concat B) = {}"
  shows "distinct (concat (B[i := xs]))"
  using assms
proof (induction B arbitrary: i)
  case (Cons b B)
  show ?case
  proof (cases i)
    case 0
    then show ?thesis using Cons.prems by auto
  next
    case (Suc j)
    have "set (B ! j) \<subseteq> set (concat B)" using Cons.prems(2) Suc by (intro set_bucket) simp
    moreover have "set b \<inter> set (concat B) = {}" "(set xs - set (B ! j)) \<inter> set b = {}"
      using Cons.prems(1,4) Suc by auto
    ultimately have "set b \<inter> set xs = {}" by blast
    then show ?thesis
      using Cons.IH [of j] Cons.prems Suc set_concat_update [of B j xs] by auto
  qed
qed simp

lemma distinct_tails: "distinct (concat B) \<Longrightarrow> distinct (concat (map tl B))"
proof (induction B)
  case (Cons b B)
  have "set (concat (map tl B)) \<subseteq> set (concat B)" by (auto dest: list.set_sel(2) [rotated]) (metis list.sel(2) list.set_sel(2))
  then show ?case using Cons by (cases b) auto
qed simp

section \<open>Replacing a bucket\<close>

definition table_map :: "Table \<Rightarrow> addr list list \<Rightarrow> bytes \<Rightarrow> (TableColumn \<Rightarrow> bytes option) option" where
  "table_map t B k =
     (if is_valid_key_length (length k) then map_of (bucket_entries t (B ! hash_index t k)) k else None)"

lemma same_pool_rows: "same_pool p q \<Longrightarrow> pool_rows q = pool_rows p"
  by (simp add: pool_rows_def same_pool_addr) (simp add: same_pool_def)

lemma table_replace:
  assumes rep: "table_rep t B" and i: "i < tb_size t" and same: "same_table t u" and ok: "bucket_ok u i xs"
    and frame: "\<And>a. a \<notin> set (B ! i) \<Longrightarrow> a \<notin> set xs \<Longrightarrow> tb_store u a = tb_store t a"
    and fresh: "(set xs - set (B ! i)) \<inter> set (concat B) = {}"
    and pool: "tb_pool t = Some p" "tb_pool u = Some q" "pool_inv q" "same_pool p q"
      "dom (fixed_live q) = dom (fixed_live p) - set (tl (B ! i)) \<union> set (tl xs)"
    and dom: "dom (tb_store u) = dom (tb_store t)"
    and sizes: "\<And>a r. tb_store u a = Some r \<Longrightarrow> length (tr_data r) = tb_item_size t \<and> length (tr_key r) = SW_TABLE_KEY_SIZE"
  shows "table_rep u (B[i := xs])"
    and "table_map u (B[i := xs]) = (\<lambda>k. if is_valid_key_length (length k) \<and> hash_index t k = i
      then map_of (bucket_entries u xs) k else table_map t B k)"
proof -
  note R = table_repD [OF rep] and S = same_tableD [OF same]
  have iB: "i < length B" using i R(2) by simp
  have keep: "tb_store u a = tb_store t a" if "j < tb_size t" "j \<noteq> i" "a \<in> set (B ! j)" for j a
  proof (rule frame)
    show "a \<notin> set (B ! i)" using buckets_disjoint [OF R(5), of j i] that iB R(2) by auto
    show "a \<notin> set xs" using fresh that \<open>a \<notin> set (B ! i)\<close> set_bucket [of j B] R(2) by auto
  qed
  have other: "bucket_ok u j (B ! j)" "bucket_entries u (B ! j) = bucket_entries t (B ! j)" if "j < tb_size t" "j \<noteq> i" for j
    using bucket_frame [OF same keep [OF that]] R(4) that by blast+
  obtain p' where P: "tb_pool t = Some p'" "dom (fixed_live p') = set (concat (map tl B))"
    "set (tb_rows t) \<inter> pool_rows p' = {}" "dom (tb_store t) = set (tb_rows t) \<union> pool_rows p'"
    by (rule table_rep_pool [OF rep])
  have pp: "p' = p" using P(1) pool(1) by simp
  show "table_rep u (B[i := xs])"
  proof (rule table_repI [where p = q], unfold S)
    fix j assume "j < tb_size t"
    then show "bucket_ok u j (B[i := xs] ! j)" using other(1) [of j] ok iB R(2) by (cases "j = i") simp_all
  next
    show "distinct (concat (B[i := xs]))" by (rule distinct_concat_update [OF R(5) iB bucket_okD(5) [OF ok] fresh])
    show "dom (fixed_live q) = set (concat (map tl (B[i := xs])))"
      using pool(5) P(2) pp set_concat_update [OF distinct_tails [OF R(5)], of i "tl xs"] iB by (simp add: map_update)
    show "set (tb_rows t) \<inter> pool_rows q = {}" "dom (tb_store u) = set (tb_rows t) \<union> pool_rows q"
      using P(3,4) pp dom by (simp_all add: same_pool_rows [OF pool(4)])
  qed (use table_rep_size [OF rep] R pool sizes in auto)
  show "table_map u (B[i := xs]) = (\<lambda>k. if is_valid_key_length (length k) \<and> hash_index t k = i
      then map_of (bucket_entries u xs) k else table_map t B k)"
    using iB other(2) hash_index_less [OF rep] by (auto simp: fun_eq_iff table_map_def S)
qed

text \<open>The form in which the operations use it: the key of bucket \<open>i\<close> gets the value \<open>v\<close>.\<close>

lemma table_map_upd:
  assumes "table_map u B' = (\<lambda>k. if is_valid_key_length (length k) \<and> hash_index t k = hash_index t key
      then map_of (bucket_entries u xs) k else table_map t B k)"
    and "map_of (bucket_entries u xs) = (map_of (bucket_entries t (B ! hash_index t key)))(key := v)"
    and "is_valid_key_length (length key)"
  shows "table_map u B' = (table_map t B)(key := v)"
  unfolding assms(1,2) using assms(3) by (auto simp: fun_eq_iff table_map_def)

lemma map_of_insert: "k \<notin> fst ` set as \<Longrightarrow> map_of (as @ (k, v) # bs) = (map_of (as @ (k, w) # bs))(k \<mapsto> v)"
  by (induction as) (auto simp: fun_eq_iff)

lemma map_of_snoc: "k \<notin> fst ` set as \<Longrightarrow> map_of (as @ [(k, v)]) = (map_of as)(k \<mapsto> v)"
  by (induction as) (auto simp: fun_eq_iff)

lemma map_of_remove:
  "k \<notin> fst ` set as \<Longrightarrow> k \<notin> fst ` set bs \<Longrightarrow> map_of (as @ bs) = (map_of (as @ (k, v) # bs))(k := None)"
  by (induction as) (auto simp: fun_eq_iff map_of_eq_None_iff)

text \<open>Fields that rows and buckets do not depend on.\<close>

definition same_core :: "Table \<Rightarrow> Table \<Rightarrow> bool" where
  "same_core t u \<longleftrightarrow> same_table t u \<and> tb_store u = tb_store t \<and> tb_pool u = tb_pool t"

lemma same_core_rep: "same_core t u \<Longrightarrow> table_rep u B = table_rep t B"
proof -
  assume c: "same_core t u"
  then have s: "same_table t u" by (simp add: same_core_def)
  have "bucket_ok u i xs = bucket_ok t i xs" for i xs
    using c by (intro bucket_frame(1)) (auto simp: same_core_def)
  then show ?thesis using c unfolding table_rep_def same_tableD [OF s] by (simp add: same_core_def)
qed

lemma same_core_map: "same_core t u \<Longrightarrow> table_map u B = table_map t B"
proof -
  assume c: "same_core t u"
  then have s: "same_table t u" by (simp add: same_core_def)
  have "bucket_entries u xs = bucket_entries t xs" for xs
    using c by (intro bucket_frame(2)) (auto simp: same_core_def)
  then show ?thesis by (simp add: fun_eq_iff table_map_def same_tableD [OF s])
qed

lemma row_upd_fields [simp]:
  "tb_size (row_upd f a t) = tb_size t" "tb_mask (row_upd f a t) = tb_mask t" "tb_rows (row_upd f a t) = tb_rows t"
  "tb_hash_func (row_upd f a t) = tb_hash_func t" "tb_column_list (row_upd f a t) = tb_column_list t"
  "tb_item_size (row_upd f a t) = tb_item_size t" "tb_pool (row_upd f a t) = tb_pool t"
  "tb_row_num (row_upd f a t) = tb_row_num t"
  "tb_store (row_upd f a t) = (tb_store t)(a := map_option f (tb_store t a))"
  by (simp_all add: row_upd_def)

lemma same_table_row_upd [simp]: "same_table t (row_upd f a t)"
  by (simp add: same_table_def)

text \<open>Taking and releasing a row lock.\<close>

definition inert :: "(TableRow \<Rightarrow> TableRow) \<Rightarrow> bool" where
  "inert f \<longleftrightarrow> (\<forall>r. tr_active (f r) = tr_active r \<and> tr_key_len (f r) = tr_key_len r \<and> tr_next (f r) = tr_next r \<and>
     tr_key (f r) = tr_key r \<and> tr_data (f r) = tr_data r)"

lemma inert_lock [simp]: "inert (row_lock pid)" "inert row_unlock"
  by (simp_all add: inert_def row_lock_def row_unlock_def)

lemma inert_row:
  assumes "inert f"
  shows "tr_active (row_at (row_upd f a t) x) = tr_active (row_at t x)" "tr_next (row_at (row_upd f a t) x) = tr_next (row_at t x)"
    "tr_key_len (row_at (row_upd f a t) x) = tr_key_len (row_at t x)" "tr_key (row_at (row_upd f a t) x) = tr_key (row_at t x)"
    "tr_data (row_at (row_upd f a t) x) = tr_data (row_at t x)" "row_key (row_at (row_upd f a t) x) = row_key (row_at t x)"
    "entry_ok t i (row_at (row_upd f a t) x) = entry_ok t i (row_at t x)"
  using assms by (auto simp: inert_def row_at_def row_key_def entry_ok_def split: option.split)

lemma inert_rep:
  assumes "inert f" "table_rep t B"
  shows "table_rep (row_upd f a t) B" "table_map (row_upd f a t) B = table_map t B"
proof -
  let ?u = "row_upd f a t"
  note I = inert_row [OF assms(1)]
  have S: "same_table t ?u" by simp
  have "chain (tb_store t) xs = chain (tb_store ?u) xs" for xs
    using assms(1) by (intro chain_keep) (auto simp: inert_def option.map_comp comp_def)
  then have b: "bucket_ok ?u i xs = bucket_ok t i xs" for i xs
    by (simp add: bucket_ok_def I same_tableD(8) [OF S])
  have e: "bucket_entries ?u xs = bucket_entries t xs" for xs
    by (simp add: bucket_entries_def I)
  obtain p where P: "tb_pool t = Some p" "pool_inv p" "dom (fixed_live p) = set (concat (map tl B))"
    "set (tb_rows t) \<inter> pool_rows p = {}" "dom (tb_store t) = set (tb_rows t) \<union> pool_rows p"
    by (rule table_rep_pool [OF assms(2)])
  show "table_rep ?u B"
  proof (rule table_repI [where p = p], unfold b same_tableD [OF S])
    show "dom (tb_store ?u) = set (tb_rows t) \<union> pool_rows p" unfolding P(5) [symmetric] by (auto simp: dom_def)
    fix x r assume "tb_store ?u x = Some r"
    then show "length (tr_data r) = tb_item_size t \<and> length (tr_key r) = SW_TABLE_KEY_SIZE"
      using assms(1) table_repD(7) [OF assms(2)] by (auto simp: inert_def split: if_splits)
  qed (use table_rep_size [OF assms(2)] table_repD [OF assms(2)] P in simp_all)
  show "table_map ?u B = table_map t B" by (simp add: fun_eq_iff table_map_def e same_tableD [OF S])
qed

section \<open>Finding a row\<close>

lemma bucket_dom:
  assumes "bucket_ok t i xs" "hash_index t k = i"
  shows "map_of (bucket_entries t xs) k \<noteq> None \<longleftrightarrow> tr_active (row_at t (hd xs)) \<and> k \<in> (\<lambda>x. row_key (row_at t x)) ` set xs"
proof -
  have "map_of (bucket_entries t xs) k \<noteq> None \<longleftrightarrow> k \<in> fst ` set (bucket_entries t xs)"
    by (simp add: map_of_eq_None_iff)
  then show ?thesis by (auto simp: bucket_entries_def image_image)
qed

lemma find_row_inactive:
  assumes "table_rep t B" "hash_index t k = i" "\<not> tr_active (row_at t (tb_rows t ! i))"
  shows "find_row t (tb_rows t ! i) k = Some (nullptr, nullptr, 0)" "B ! i = [tb_rows t ! i]" "table_map t B k = None"
proof -
  have ok: "bucket_ok t i (B ! i)" using table_repD(4) [OF assms(1)] hash_index_less [OF assms(1)] assms(2) by blast
  have na: "\<not> tr_active (row_at t (hd (B ! i)))" using assms(3) bucket_okD(2) [OF ok] by simp
  show B: "B ! i = [tb_rows t ! i]" by (rule bucket_okD(9) [OF ok na])
  show "find_row t (tb_rows t ! i) k = Some (nullptr, nullptr, 0)"
    using bucket_okD(6) [OF ok, of "tb_rows t ! i"] B assms(3) by (simp add: find_row_def)
  show "table_map t B k = None" using B assms(2,3) by (simp add: table_map_def bucket_entries_def)
qed

lemma find_row_found:
  assumes "table_rep t B" "hash_index t k = i" "table_map t B k \<noteq> None"
  shows "\<exists>as x bs l. B ! i = as @ x # bs \<and> row_key (row_at t x) = k \<and> tr_active (row_at t (tb_rows t ! i)) \<and> x \<noteq> nullptr \<and>
    find_row t (tb_rows t ! i) k = Some (x, last (nullptr # as), l) \<and>
    table_map t B k = Some (row_view (tb_column_list t) (tr_data (row_at t x)))"
proof -
  have ok: "bucket_ok t i (B ! i)" using table_repD(4) [OF assms(1)] hash_index_less [OF assms(1)] assms(2) by blast
  note D = bucket_okD [OF ok]
  have v: "is_valid_key_length (length k)" and m: "map_of (bucket_entries t (B ! i)) k \<noteq> None"
    using assms(2,3) by (auto simp: table_map_def split: if_splits)
  then have act: "tr_active (row_at t (hd (B ! i)))" "k \<in> (\<lambda>x. row_key (row_at t x)) ` set (B ! i)"
    using bucket_dom [OF ok assms(2)] by auto
  then obtain x where x: "x \<in> set (B ! i)" "row_key (row_at t x) = k" by auto
  then obtain as bs where ab: "B ! i = as @ x # bs" by (meson split_list)
  have ka: "\<forall>y \<in> set as. row_key (row_at t y) \<noteq> k"
  proof -
    have "k \<notin> (\<lambda>x. row_key (row_at t x)) ` set as" using D(8) [OF act(1)] x(2) unfolding ab by simp
    then show ?thesis by blast
  qed
  have the: "key_at (tb_store t) y = row_key (row_at t y)" if "y \<in> set (B ! i)" for y using D(6) [OF that] by simp
  obtain l where l: "find_row_loop (tb_store t) k (hd (as @ [x])) nullptr 1 = Some (x, last (nullptr # as), l)"
    using find_row_loop_found [of "tb_store t" as x bs k nullptr 1] D(3,4) ka x(2) the unfolding ab by auto
  have h: "hd (as @ [x]) = tb_rows t ! i" using D(2) ab by (cases as) auto
  have "map_of (bucket_entries t (B ! i)) k = Some (row_view (tb_column_list t) (tr_data (row_at t x)))"
  proof (rule map_of_is_SomeI)
    have "map fst (bucket_entries t (B ! i)) = map (\<lambda>x. row_key (row_at t x)) (B ! i)"
      using act(1) by (simp add: bucket_entries_def comp_def)
    then show "distinct (map fst (bucket_entries t (B ! i)))" using D(8) [OF act(1)] by simp
    show "(k, row_view (tb_column_list t) (tr_data (row_at t x))) \<in> set (bucket_entries t (B ! i))"
      using act(1) x by (auto simp: bucket_entries_def)
  qed
  then have "table_map t B k = Some (row_view (tb_column_list t) (tr_data (row_at t x)))"
    using v assms(2) by (simp add: table_map_def)
  moreover have "find_row t (tb_rows t ! i) k = Some (x, last (nullptr # as), l)"
    using D(6) [of "hd (B ! i)"] hd_in_set [OF D(1)] act(1) l h D(2) by (simp add: find_row_def)
  moreover have "x \<noteq> nullptr" using D(4) x(1) by metis
  ultimately show ?thesis using ab x(2) act(1) D(2) by metis
qed

lemma find_row_missing:
  assumes "table_rep t B" "hash_index t k = i" "is_valid_key_length (length k)" "table_map t B k = None"
    "tr_active (row_at t (tb_rows t ! i))"
  shows "\<exists>l. find_row t (tb_rows t ! i) k = Some (nullptr, last (B ! i), l)"
    "k \<notin> (\<lambda>x. row_key (row_at t x)) ` set (B ! i)"
proof -
  have ok: "bucket_ok t i (B ! i)" using table_repD(4) [OF assms(1)] hash_index_less [OF assms(1)] assms(2) by blast
  note D = bucket_okD [OF ok]
  have "map_of (bucket_entries t (B ! i)) k = None" using assms(2-4) by (simp add: table_map_def)
  then show nk: "k \<notin> (\<lambda>x. row_key (row_at t x)) ` set (B ! i)"
    using bucket_dom [OF ok assms(2)] assms(5) D(2) by auto
  have "key_at (tb_store t) y = row_key (row_at t y)" if "y \<in> set (B ! i)" for y using D(6) [OF that] by simp
  then have "\<exists>l. find_row_loop (tb_store t) k (hd (B ! i)) nullptr 1 = Some (nullptr, last (B ! i), l)"
    using D(1,3,4) nk by (intro find_row_loop_missing) auto
  then show "\<exists>l. find_row t (tb_rows t ! i) k = Some (nullptr, last (B ! i), l)"
    using D(2) D(6) [of "hd (B ! i)"] hd_in_set [OF D(1)] assms(5) by (simp add: find_row_def)
qed

section \<open>Updating a row\<close>

lemma row_at_upd: "tb_store t x = Some r \<Longrightarrow> row_at (row_upd f x t) y = (if y = x then f r else row_at t y)"
  by (simp add: row_at_def)

lemma bucket_rep: "table_rep t B \<Longrightarrow> i < tb_size t \<Longrightarrow> bucket_ok t i (B ! i)"
  by (rule table_repD(4))

lemma chain_data: "chain (tb_store (row_upd (\<lambda>r. r\<lparr>tr_data := g (tr_data r)\<rparr>) x t)) xs = chain (tb_store t) xs"
  by (rule sym, rule chain_keep) (simp add: option.map_comp comp_def)

lemma update_row_rep:
  assumes rep: "table_rep t B" and i: "i < tb_size t" and B: "B ! i = as @ x # bs"
    and act: "tr_active (row_at t (tb_rows t ! i))"
    and g: "data_ok (tb_column_list t) (tb_item_size t) (g (tr_data (row_at t x)))"
  defines "u \<equiv> row_upd (\<lambda>r. r\<lparr>tr_data := g (tr_data r)\<rparr>) x t"
  shows "table_rep u B"
    "table_map u B = (table_map t B)(row_key (row_at t x) \<mapsto> row_view (tb_column_list t) (g (tr_data (row_at t x))))"
proof -
  note ok = bucket_rep [OF rep i] note D = bucket_okD [OF ok]
  have x: "x \<in> set (B ! i)" "tb_store t x = Some (row_at t x)" using B D(6) [of x] by auto
  have act': "tr_active (row_at t (hd (B ! i)))" using act D(2) by simp
  have same: "same_table t u" by (simp add: u_def)
  note E = same_tableD [OF same]
  have row: "row_at u y = (if y = x then (row_at t x)\<lparr>tr_data := g (tr_data (row_at t x))\<rparr> else row_at t y)" for y
    unfolding u_def by (rule row_at_upd [OF x(2)])
  have key: "row_key (row_at u y) = row_key (row_at t y)" "tr_active (row_at u y) = tr_active (row_at t y)" for y
    by (simp_all add: row row_key_def)
  have ent: "entry_ok t i (row_at u y)" if "y \<in> set (B ! i)" for y
    using D(7) [OF act' that] D(7) [OF act' x(1)] g by (auto simp: row entry_ok_def row_key_def)
  have uok: "bucket_ok u i (B ! i)"
    unfolding bucket_ok_def E key using ok act' ent by (simp add: bucket_ok_def u_def chain_data del: row_upd_fields(9))
  obtain p where P: "tb_pool t = Some p" "pool_inv p" "dom (fixed_live p) = set (concat (map tl B))"
    by (rule table_rep_pool [OF rep])
  have tl: "set (tl (B ! i)) \<subseteq> dom (fixed_live p)"
    using P(3) set_bucket [of i "map tl B"] i table_repD(2) [OF rep] by simp
  have dom: "dom (tb_store u) = dom (tb_store t)" by (auto simp: u_def dom_def)
  have sizes: "length (tr_data r) = tb_item_size t \<and> length (tr_key r) = SW_TABLE_KEY_SIZE" if "tb_store u a = Some r" for a r
    using that table_repD(7) [OF rep, of a] g x(2) by (auto simp: u_def data_ok_def split: if_splits)
  have T: "table_rep u (B[i := B ! i])" "table_map u (B[i := B ! i]) = (\<lambda>k. if is_valid_key_length (length k) \<and> hash_index t k = i
      then map_of (bucket_entries u (B ! i)) k else table_map t B k)"
    by (rule table_replace [OF rep i same uok, where p = p and q = p];
        use P tl dom sizes x in \<open>auto simp: u_def same_pool_def\<close>)+
  show "table_rep u B" using T(1) by simp
  have k: "row_key (row_at t x) \<notin> (\<lambda>y. row_key (row_at t y)) ` set as"
    "hash_index t (row_key (row_at t x)) = i" "is_valid_key_length (length (row_key (row_at t x)))"
  proof -
    show "row_key (row_at t x) \<notin> (\<lambda>y. row_key (row_at t y)) ` set as" using D(8) [OF act'] unfolding B by simp
    show "hash_index t (row_key (row_at t x)) = i" using D(7) [OF act' x(1)] by (simp add: entry_ok_def)
    show "is_valid_key_length (length (row_key (row_at t x)))"
      using D(7) [OF act' x(1)] table_repD(7) [OF rep x(2)]
      by (auto simp: entry_ok_def row_key_def is_valid_key_length_def min_def)
  qed
  have ent_eq: "bucket_entries v (B ! i) = map (\<lambda>y. (row_key (row_at v y), row_view (tb_column_list t) (tr_data (row_at v y)))) as @
      (row_key (row_at t x), row_view (tb_column_list t) (tr_data (row_at v x))) #
      map (\<lambda>y. (row_key (row_at v y), row_view (tb_column_list t) (tr_data (row_at v y)))) bs" if "v = t \<or> v = u" for v
    using that act' B by (auto simp: bucket_entries_def key E)
  have "map_of (bucket_entries u (B ! i)) = (map_of (bucket_entries t (B ! i)))
    (row_key (row_at t x) \<mapsto> row_view (tb_column_list t) (g (tr_data (row_at t x))))"
  proof -
    have "x \<notin> set as" "x \<notin> set bs" using D(5) B by auto
    then have m: "map (\<lambda>y. (row_key (row_at u y), row_view (tb_column_list t) (tr_data (row_at u y)))) zs =
        map (\<lambda>y. (row_key (row_at t y), row_view (tb_column_list t) (tr_data (row_at t y)))) zs" if "zs = as \<or> zs = bs" for zs
      using that by (auto simp: row)
    show ?thesis
      unfolding ent_eq [OF disjI2 [OF refl]] ent_eq [OF disjI1 [OF refl]] m [OF disjI1 [OF refl]] m [OF disjI2 [OF refl]]
      using k(1) by (subst map_of_insert [where w = "row_view (tb_column_list t) (tr_data (row_at t x))"]) (auto simp: row image_image)
  qed
  then show "table_map u B = (table_map t B)(row_key (row_at t x) \<mapsto> row_view (tb_column_list t) (g (tr_data (row_at t x))))"
    using table_map_upd [of u B t "row_key (row_at t x)" "B ! i" B] T(2) k(2,3) by simp
qed

section \<open>Inserting a row\<close>

definition fresh_entry :: "Table \<Rightarrow> bytes \<Rightarrow> TableRow \<Rightarrow> bool" where
  "fresh_entry t key r \<longleftrightarrow> entry_ok t (hash_index t key) r \<and> row_key r = key \<and> tr_next r = nullptr \<and>
     length (tr_key r) = SW_TABLE_KEY_SIZE"

lemma insert_root_rep:
  assumes rep: "table_rep t B" and v: "is_valid_key_length (length key)"
    and na: "\<not> tr_active (row_at t (tb_rows t ! hash_index t key))"
    and same: "same_table t u" and pool: "tb_pool u = tb_pool t"
    and st: "tb_store u = (tb_store t)(tb_rows t ! hash_index t key \<mapsto> r)" and r: "fresh_entry t key r"
  shows "table_rep u B" "table_map u B = (table_map t B)(key \<mapsto> row_view (tb_column_list t) (tr_data r))"
proof -
  define i where "i = hash_index t key"
  define x where "x = tb_rows t ! i"
  have i: "i < tb_size t" using hash_index_less [OF rep] by (simp add: i_def)
  note ok = bucket_rep [OF rep i] note D = bucket_okD [OF ok]
  have B: "B ! i = [x]" using find_row_inactive(2) [OF rep refl na] by (simp add: i_def x_def)
  note E = same_tableD [OF same]
  have row: "row_at u x = r" using st by (simp add: row_at_def x_def i_def)
  have act: "tr_active r" using r by (simp add: fresh_entry_def entry_ok_def)
  have uok: "bucket_ok u i [x]"
    using r D(2,4) B row act st by (simp add: bucket_ok_def E fresh_entry_def i_def [symmetric] x_def)
  obtain p where P: "tb_pool t = Some p" "pool_inv p" "dom (tb_store t) = set (tb_rows t) \<union> pool_rows p"
    by (rule table_rep_pool [OF rep])
  have x: "x \<in> dom (tb_store t)" using P(3) i table_repD(3) [OF rep] by (simp add: x_def)
  have dom: "dom (tb_store u) = dom (tb_store t)" using x unfolding st i_def [symmetric] x_def [symmetric] by auto
  have sizes: "length (tr_data s) = tb_item_size t \<and> length (tr_key s) = SW_TABLE_KEY_SIZE" if "tb_store u a = Some s" for a s
    using that table_repD(7) [OF rep, of a] r unfolding st
    by (auto simp: fresh_entry_def entry_ok_def data_ok_def split: if_splits)
  have T: "table_rep u (B[i := [x]])" "table_map u (B[i := [x]]) = (\<lambda>k. if is_valid_key_length (length k) \<and> hash_index t k = i
      then map_of (bucket_entries u [x]) k else table_map t B k)"
    by (rule table_replace [OF rep i same uok, where p = p and q = p];
        use P dom sizes B pool in \<open>auto simp: st same_pool_def i_def [symmetric] x_def [symmetric]\<close>)+
  have BB: "B[i := [x]] = B" using B by (metis list_update_id)
  show "table_rep u B" using T(1) BB by simp
  have "bucket_entries u [x] = [(key, row_view (tb_column_list t) (tr_data r))]" "bucket_entries t (B ! i) = []"
    using row act r na B by (simp_all add: bucket_entries_def E fresh_entry_def x_def i_def)
  then show "table_map u B = (table_map t B)(key \<mapsto> row_view (tb_column_list t) (tr_data r))"
    using table_map_upd [OF T(2) [unfolded BB, unfolded i_def], of "Some (row_view (tb_column_list t) (tr_data r))"] v
    by (simp add: i_def [symmetric])
qed

lemma chain_snoc:
  assumes "chain S xs" "xs \<noteq> []" "p \<notin> set xs" "p \<noteq> nullptr" "distinct xs" "tr_next r = nullptr" "S (last xs) = Some l"
  shows "chain (S(p \<mapsto> r, last xs \<mapsto> l\<lparr>tr_next := p\<rparr>)) (xs @ [p])"
  using assms
proof (induction xs)
  case (Cons x xs)
  show ?case
  proof (cases "xs = []")
    case False
    then have "x \<noteq> last xs" "x \<noteq> p" using Cons.prems by (metis distinct.simps(2) last_in_set, simp)
    then show ?thesis using Cons False by (auto simp: hd_append)
  qed (use Cons.prems in auto)
qed simp

lemma insert_conflict_rep:
  assumes rep: "table_rep t B" and v: "is_valid_key_length (length key)" and none: "table_map t B key = None"
    and act: "tr_active (row_at t (tb_rows t ! hash_index t key))"
    and same: "same_table t u"
    and pool: "tb_pool t = Some p" "tb_pool u = Some q" "pool_inv q" "same_pool p q" "dom (fixed_live q) = insert x (dom (fixed_live p))"
    and x: "x \<noteq> nullptr" "x \<notin> set (concat B)" "x \<in> dom (tb_store t)"
    and st: "tb_store u = (tb_store t)(x \<mapsto> r, last (B ! hash_index t key) \<mapsto>
      (row_at t (last (B ! hash_index t key)))\<lparr>tr_next := x\<rparr>)"
    and r: "fresh_entry t key r"
  shows "\<exists>B'. table_rep u B' \<and> table_map u B' = (table_map t B)(key \<mapsto> row_view (tb_column_list t) (tr_data r))"
proof -
  define i where "i = hash_index t key"
  define l where "l = last (B ! i)"
  have i: "i < tb_size t" using hash_index_less [OF rep] by (simp add: i_def)
  note ok = bucket_rep [OF rep i] note D = bucket_okD [OF ok]
  note E = same_tableD [OF same]
  have act': "tr_active (row_at t (hd (B ! i)))" using act D(2) by (simp add: i_def)
  have lx: "l \<in> set (B ! i)" "tb_store t l = Some (row_at t l)" using D(1) D(6) [of l] by (auto simp: l_def)
  have xB: "x \<notin> set (B ! i)" using x(2) set_bucket [of i B] i table_repD(2) [OF rep] by auto
  have lnx: "l \<noteq> x" using lx xB by auto
  have row: "row_at u y = (if y = l then (row_at t l)\<lparr>tr_next := x\<rparr> else if y = x then r else row_at t y)" for y
    unfolding row_at_def st i_def [symmetric] l_def [symmetric] using lnx by simp
  have key: "row_key (row_at u y) = row_key (row_at t y)" "tr_active (row_at u y) = tr_active (row_at t y)"
    "tr_data (row_at u y) = tr_data (row_at t y)" if "y \<noteq> x" for y
    using that by (auto simp: row row_key_def)
  have rx: "row_at u x = r" using lnx by (simp add: row)
  have hx: "hd (B ! i) \<noteq> x" using hd_in_set [OF D(1)] xB by auto
  have kx: "key \<notin> (\<lambda>y. row_key (row_at t y)) ` set (B ! i)" using find_row_missing(2) [OF rep refl v none act] by (simp add: i_def)
  have mk: "map (\<lambda>y. row_key (row_at u y)) (B ! i) = map (\<lambda>y. row_key (row_at t y)) (B ! i)"
    using xB by (intro map_cong refl key(1)) auto
  have ent: "entry_ok t i (row_at u y)" if "y \<in> set (B ! i)" for y
  proof -
    have "y \<noteq> x" using that xB by auto
    then show ?thesis using D(7) [OF act' that] by (auto simp: entry_ok_def row row_key_def)
  qed
  have uok: "bucket_ok u i (B ! i @ [x])"
  proof -
    have "chain (tb_store u) (B ! i @ [x])"
      unfolding st i_def [symmetric] using chain_snoc [OF D(3) D(1) xB x(1) D(5) _ lx(2) [unfolded l_def]] r
      by (simp add: fresh_entry_def l_def)
    moreover have "\<forall>y \<in> set (B ! i @ [x]). entry_ok u i (row_at u y)"
      using ent rx r by (auto simp: E fresh_entry_def i_def)
    moreover have "distinct (map (\<lambda>y. row_key (row_at u y)) (B ! i @ [x]))"
    proof -
      have "map (\<lambda>y. row_key (row_at u y)) (B ! i @ [x]) = map (\<lambda>y. row_key (row_at t y)) (B ! i) @ [key]"
        using mk rx r by (simp add: fresh_entry_def)
      then show ?thesis using D(8) [OF act'] kx by (simp only: distinct_append) auto
    qed
    moreover have "tr_active (row_at u (hd (B ! i @ [x])))" using D(1) act' key(2) [OF hx] by (simp add: hd_append)
    ultimately show ?thesis using D x(1) xB by (auto simp: bucket_ok_def E hd_append)
  qed
  have dom: "dom (tb_store u) = dom (tb_store t)"
    using x(3) lx(2) unfolding st i_def [symmetric] l_def [symmetric] by auto
  have sizes: "length (tr_data s) = tb_item_size t \<and> length (tr_key s) = SW_TABLE_KEY_SIZE" if "tb_store u a = Some s" for a s
    using that table_repD(7) [OF rep, of a] table_repD(7) [OF rep lx(2)] r unfolding st i_def [symmetric] l_def [symmetric]
    by (auto simp: fresh_entry_def entry_ok_def data_ok_def split: if_splits)
  have frame: "tb_store u a = tb_store t a" if "a \<notin> set (B ! i)" "a \<notin> set (B ! i @ [x])" for a
    using that lx(1) unfolding st i_def [symmetric] l_def [symmetric] by auto
  have tls: "set (tl (B ! i @ [x])) = insert x (set (tl (B ! i)))" using D(1) by simp
  have live: "dom (fixed_live q) = dom (fixed_live p) - set (tl (B ! i)) \<union> set (tl (B ! i @ [x]))"
  proof -
    obtain p' where "tb_pool t = Some p'" "dom (fixed_live p') = set (concat (map tl B))" by (rule table_rep_pool [OF rep])
    then have "set (tl (B ! i)) \<subseteq> dom (fixed_live p)"
      using pool(1) set_bucket [of i "map tl B"] i table_repD(2) [OF rep] by simp
    then show ?thesis unfolding pool(5) tls by blast
  qed
  have fresh: "(set (B ! i @ [x]) - set (B ! i)) \<inter> set (concat B) = {}" using x(2) by auto
  have T: "table_rep u (B[i := B ! i @ [x]])"
    "table_map u (B[i := B ! i @ [x]]) = (\<lambda>k. if is_valid_key_length (length k) \<and> hash_index t k = i
      then map_of (bucket_entries u (B ! i @ [x])) k else table_map t B k)"
    by (rule table_replace [OF rep i same uok _ fresh pool(1-4) live dom]; blast intro: frame dest: sizes)+
  have "map_of (bucket_entries u (B ! i @ [x])) = (map_of (bucket_entries t (B ! i)))(key \<mapsto> row_view (tb_column_list t) (tr_data r))"
  proof -
    have "bucket_entries u (B ! i @ [x]) = bucket_entries t (B ! i) @ [(key, row_view (tb_column_list t) (tr_data r))]"
    proof -
      have nx: "y \<noteq> x" if "y \<in> set (B ! i)" for y using that xB by auto
      have "map (\<lambda>y. (row_key (row_at u y), row_view (tb_column_list t) (tr_data (row_at u y)))) (B ! i) =
          map (\<lambda>y. (row_key (row_at t y), row_view (tb_column_list t) (tr_data (row_at t y)))) (B ! i)"
        using key(1,3) [OF nx] by simp
      then show ?thesis using D(1) act' key(2) [OF hx] rx r by (simp add: bucket_entries_def hd_append E fresh_entry_def)
    qed
    moreover have "key \<notin> fst ` set (bucket_entries t (B ! i))" using kx act' by (auto simp: bucket_entries_def)
    ultimately show ?thesis using map_of_snoc by metis
  qed
  then have "table_map u (B[i := B ! i @ [x]]) = (table_map t B)(key \<mapsto> row_view (tb_column_list t) (tr_data r))"
    using table_map_upd [of u "B[i := B ! i @ [x]]" t key "B ! i @ [x]" B] T(2) v unfolding i_def by simp
  then show ?thesis using T(1) by blast
qed

section \<open>Deleting a row\<close>

lemma free_row_ok:
  assumes "tb_pool t = Some p" "pool_inv p" "x \<in> dom (fixed_live p)"
  shows "\<exists>q. free_row t x = Some ((row_upd row_clear x t)\<lparr>tb_pool := Some q\<rparr>) \<and> pool_inv q \<and> same_pool p q \<and>
    dom (fixed_live q) = dom (fixed_live p) - {x}"
proof -
  have l: "fixed_live p x \<noteq> None" using assms(3) by auto
  obtain q where q: "FixedPool_free p x = Some q" "same_pool p q" using fixed_free_cases [OF assms(2) l] by blast
  then have "fixed_free p x = q" by (simp add: fixed_free_def)
  then have "pool_inv q" "dom (fixed_live q) = dom (fixed_live p) - {x}"
    using fixed_pool.free_inv [OF assms(2) l] fixed_pool.free_live [OF assms(2) l] by auto
  then show ?thesis using q assms(1) by (intro exI [of _ q]) (simp add: free_row_def Let_def)
qed

text \<open>A bucket that loses the pool row \<open>z\<close>.\<close>

lemma shrink_rep:
  assumes rep: "table_rep t B" and i: "i < tb_size t" and same: "same_table t u" and ok: "bucket_ok u i xs"
    and z: "z \<in> set (tl (B ! i))" and xs: "set xs = set (B ! i) - {z}"
    and frame: "\<And>a. a \<notin> set (B ! i) \<Longrightarrow> tb_store u a = tb_store t a"
    and pool: "tb_pool t = Some p" "tb_pool u = Some q" "pool_inv q" "same_pool p q" "dom (fixed_live q) = dom (fixed_live p) - {z}"
    and dom: "dom (tb_store u) = dom (tb_store t)"
    and sizes: "\<And>a r. tb_store u a = Some r \<Longrightarrow> length (tr_data r) = tb_item_size t \<and> length (tr_key r) = SW_TABLE_KEY_SIZE"
  shows "table_rep u (B[i := xs])"
    and "table_map u (B[i := xs]) = (\<lambda>k. if is_valid_key_length (length k) \<and> hash_index t k = i
      then map_of (bucket_entries u xs) k else table_map t B k)"
proof -
  note ok' = bucket_rep [OF rep i]
  have tl: "set (tl ys) = set ys - {tb_rows t ! i}" if "bucket_ok v i ys" "tb_rows v = tb_rows t" for v ys
    using bucket_okD(1,2,5) [OF that(1)] that(2) by (cases ys) auto
  obtain p' where "tb_pool t = Some p'" "dom (fixed_live p') = set (concat (map tl B))" by (rule table_rep_pool [OF rep])
  then have "set (tl (B ! i)) \<subseteq> dom (fixed_live p)"
    using pool(1) set_bucket [of i "map tl B"] i table_repD(2) [OF rep] by simp
  moreover have "set (tl xs) = set (tl (B ! i)) - {z}"
    using tl [OF ok same_tableD(3) [OF same]] tl [OF ok' refl] xs by auto
  ultimately have live: "dom (fixed_live q) = dom (fixed_live p) - set (tl (B ! i)) \<union> set (tl xs)"
    using pool(5) z by blast
  have fr: "(set xs - set (B ! i)) \<inter> set (concat B) = {}" using xs by blast
  show "table_rep u (B[i := xs])"
    and "table_map u (B[i := xs]) = (\<lambda>k. if is_valid_key_length (length k) \<and> hash_index t k = i
      then map_of (bucket_entries u xs) k else table_map t B k)"
    by (rule table_replace [OF rep i same ok _ fr pool(1-4) live dom]; blast intro: frame dest: sizes)+
qed

lemma clear_sizes [simp]: "length (tr_key (row_clear r)) = SW_TABLE_KEY_SIZE" "tr_data (row_clear r) = tr_data r"
  "tr_active (row_clear r) = False" "tr_next (row_clear r) = nullptr"
  by (simp_all add: row_clear_def)

lemma entry_key:
  assumes "table_rep t B" "entry_ok t i r" "tb_store t x = Some r"
  shows "is_valid_key_length (length (row_key r))" "hash_index t (row_key r) = i" "length (row_key r) = tr_key_len r"
  using assms(2) table_repD(7) [OF assms(1,3)]
  by (auto simp: entry_ok_def row_key_def is_valid_key_length_def min_def)

text \<open>The only row of a bucket is cleared in place.\<close>

lemma delete_single:
  assumes rep: "table_rep t B" and i: "i < tb_size t" and B: "B ! i = [x]" and act: "tr_active (row_at t x)"
  defines "u \<equiv> row_upd row_clear x t"
  shows "table_rep u B" "table_map u B = (table_map t B)(row_key (row_at t x) := None)"
proof -
  note ok = bucket_rep [OF rep i] note D = bucket_okD [OF ok]
  have x: "tb_store t x = Some (row_at t x)" "x = tb_rows t ! i" using B D(2) D(6) [of x] by auto
  have same: "same_table t u" by (simp add: u_def)
  have row: "row_at u x = row_clear (row_at t x)" unfolding u_def row_at_upd [OF x(1)] by simp
  have uok: "bucket_ok u i [x]"
    using row x D(4) B by (simp add: bucket_ok_def u_def)
  obtain p where P: "tb_pool t = Some p" "pool_inv p" by (rule table_rep_pool [OF rep])
  have dom: "dom (tb_store u) = dom (tb_store t)" by (auto simp: u_def dom_def)
  have sizes: "length (tr_data r) = tb_item_size t \<and> length (tr_key r) = SW_TABLE_KEY_SIZE" if "tb_store u a = Some r" for a r
    using that table_repD(7) [OF rep, of a] x(1) by (auto simp: u_def split: if_splits)
  have T: "table_rep u (B[i := [x]])" "table_map u (B[i := [x]]) = (\<lambda>k. if is_valid_key_length (length k) \<and> hash_index t k = i
      then map_of (bucket_entries u [x]) k else table_map t B k)"
    by (rule table_replace [OF rep i same uok, where p = p and q = p];
        use P dom sizes B in \<open>auto simp: u_def same_pool_def\<close>)+
  have BB: "B[i := [x]] = B" using B by (metis list_update_id)
  show "table_rep u B" using T(1) BB by simp
  have e: "entry_ok t i (row_at t x)" using D(7) [of x] act B by simp
  note K = entry_key [OF rep e x(1)]
  have "bucket_entries u [x] = []" "bucket_entries t (B ! i) = [(row_key (row_at t x), row_view (tb_column_list t) (tr_data (row_at t x)))]"
    using row act B by (simp_all add: bucket_entries_def)
  then have "map_of (bucket_entries u [x]) = (map_of (bucket_entries t (B ! i)))(row_key (row_at t x) := None)" by simp
  then show "table_map u B = (table_map t B)(row_key (row_at t x) := None)"
    using table_map_upd [of u B t "row_key (row_at t x)" "[x]" B None] T(2) BB K(1,2) by simp
qed

text \<open>A conflict row is unlinked.\<close>

lemma chain_unlink:
  assumes "chain S (as @ p # x # bs)" "distinct (as @ p # x # bs)" "S p = Some rp" "S x = Some rx"
  shows "chain (S(p \<mapsto> rp\<lparr>tr_next := tr_next rx\<rparr>, x \<mapsto> c)) (as @ p # bs)"
  using assms
proof (induction as)
  case Nil
  define T where "T = S(p \<mapsto> rp\<lparr>tr_next := tr_next rx\<rparr>, x \<mapsto> c)"
  have "chain T bs = chain S bs" using Nil by (intro chain_frame) (auto simp: T_def)
  moreover have "T p = Some (rp\<lparr>tr_next := tr_next rx\<rparr>)" "chain S bs" "tr_next rx = hd (bs @ [nullptr])"
    using Nil by (auto simp: T_def)
  ultimately have "chain T (p # bs)" by simp
  then show ?case unfolding T_def append_Nil .
next
  case (Cons a as)
  then show ?case by (auto simp: hd_append)
qed

lemma delete_conflict:
  assumes rep: "table_rep t B" and i: "i < tb_size t" and B: "B ! i = as @ m # x # bs"
    and act: "tr_active (row_at t (tb_rows t ! i))"
    and same: "same_table t u"
    and st: "tb_store u = (tb_store t)(m \<mapsto> (row_at t m)\<lparr>tr_next := tr_next (row_at t x)\<rparr>, x \<mapsto> row_clear (row_at t x))"
    and pool: "tb_pool t = Some p" "tb_pool u = Some q" "pool_inv q" "same_pool p q" "dom (fixed_live q) = dom (fixed_live p) - {x}"
  shows "\<exists>B'. table_rep u B' \<and> table_map u B' = (table_map t B)(row_key (row_at t x) := None)"
proof -
  note ok = bucket_rep [OF rep i] note D = bucket_okD [OF ok]
  note E = same_tableD [OF same]
  let ?xs = "as @ m # bs"
  have act': "tr_active (row_at t (hd (B ! i)))" using act D(2) by simp
  have mx: "tb_store t m = Some (row_at t m)" "tb_store t x = Some (row_at t x)" using D(6) B by auto
  have nx: "x \<noteq> m" "x \<notin> set ?xs" "x \<in> set (tl (B ! i))" using D(5) B by (cases as; auto)+
  have row: "row_at u y = (if y = m then (row_at t m)\<lparr>tr_next := tr_next (row_at t x)\<rparr> else row_at t y)" if "y \<noteq> x" for y
    using that nx unfolding row_at_def st by simp
  have key: "row_key (row_at u y) = row_key (row_at t y)" "tr_active (row_at u y) = tr_active (row_at t y)"
    "tr_data (row_at u y) = tr_data (row_at t y)" "entry_ok t i (row_at u y) = entry_ok t i (row_at t y)" if "y \<in> set ?xs" for y
  proof -
    have "y \<noteq> x" using that nx(2) by auto
    then show "row_key (row_at u y) = row_key (row_at t y)" "tr_active (row_at u y) = tr_active (row_at t y)"
      "tr_data (row_at u y) = tr_data (row_at t y)" "entry_ok t i (row_at u y) = entry_ok t i (row_at t y)"
      by (simp_all add: row row_key_def entry_ok_def)
  qed
  have hd: "hd ?xs = hd (B ! i)" "hd ?xs \<in> set ?xs" using B by (cases as; simp)+
  have mk: "map (\<lambda>y. row_key (row_at u y)) ?xs = map (\<lambda>y. row_key (row_at t y)) ?xs"
    by (intro map_cong refl key(1))
  have dk: "distinct (map (\<lambda>y. row_key (row_at t y)) (as @ m # x # bs))" using D(8) [OF act'] B by simp
  have uok: "bucket_ok u i ?xs"
  proof -
    have "chain (tb_store u) ?xs"
      unfolding st using chain_unlink [OF _ _ mx] D(3,5) B by simp
    moreover have "\<forall>y \<in> set ?xs. entry_ok u i (row_at u y)" using key(4) D(7) [OF act'] B by (auto simp: E)
    moreover have "distinct (map (\<lambda>y. row_key (row_at u y)) ?xs)" unfolding mk using dk by auto
    ultimately show ?thesis
      unfolding bucket_ok_def using D(2,4,5) hd key(2) [OF hd(2)] act' B by (auto simp: E)
  qed
  have dom: "dom (tb_store u) = dom (tb_store t)" using mx unfolding st by auto
  have sizes: "length (tr_data s) = tb_item_size t \<and> length (tr_key s) = SW_TABLE_KEY_SIZE" if "tb_store u a = Some s" for a s
    using that table_repD(7) [OF rep, of a] table_repD(7) [OF rep mx(1)] table_repD(7) [OF rep mx(2)] unfolding st
    by (auto split: if_splits)
  have frame: "tb_store u a = tb_store t a" if "a \<notin> set (B ! i)" for a using that B unfolding st by auto
  have xs: "set ?xs = set (B ! i) - {x}" using B nx(2) by auto
  have T: "table_rep u (B[i := ?xs])"
    "table_map u (B[i := ?xs]) = (\<lambda>k. if is_valid_key_length (length k) \<and> hash_index t k = i
      then map_of (bucket_entries u ?xs) k else table_map t B k)"
    by (rule shrink_rep [OF rep i same uok nx(3) xs _ pool dom]; blast intro: frame dest: sizes)+
  have e: "entry_ok t i (row_at t x)" using D(7) [OF act'] B by simp
  note K = entry_key [OF rep e mx(2)]
  have "map_of (bucket_entries u ?xs) = (map_of (bucket_entries t (B ! i)))(row_key (row_at t x) := None)"
  proof -
    let ?e = "\<lambda>v y. (row_key (row_at v y), row_view (tb_column_list t) (tr_data (row_at v y)))"
    have "bucket_entries u ?xs = map (?e u) ?xs"
      using key(2) [OF hd(2)] hd(1) act' by (simp add: bucket_entries_def E)
    also have "\<dots> = map (?e t) ?xs" by (intro map_cong refl) (simp add: key(1,3))
    finally have u: "bucket_entries u ?xs = map (?e t) (as @ [m]) @ map (?e t) bs" by simp
    have t: "bucket_entries t (B ! i) = map (?e t) (as @ [m]) @ ?e t x # map (?e t) bs"
      using act' B by (simp add: bucket_entries_def)
    have "row_key (row_at t x) \<notin> fst ` set (map (?e t) (as @ [m]))" "row_key (row_at t x) \<notin> fst ` set (map (?e t) bs)"
      using dk by (auto simp: image_image)
    then show ?thesis unfolding u t by (rule map_of_remove)
  qed
  then have "table_map u (B[i := ?xs]) = (table_map t B)(row_key (row_at t x) := None)"
    using table_map_upd [of u "B[i := ?xs]" t "row_key (row_at t x)" ?xs B None] T(2) K(1,2) by simp
  then show ?thesis using T(1) by blast
qed

text \<open>A root with a chain takes over its first conflict row.\<close>

lemma moved_key:
  assumes "k < SW_TABLE_KEY_SIZE" "length a = SW_TABLE_KEY_SIZE" "length b = SW_TABLE_KEY_SIZE"
  shows "take k (memcpy_at a 0 (take (k + 1) b)) = take k b" "length (memcpy_at a 0 (take (k + 1) b)) = SW_TABLE_KEY_SIZE"
  using assms by (auto simp: memcpy_at_def min_def)

lemma delete_root_moved:
  assumes rep: "table_rep t B" and i: "i < tb_size t" and B: "B ! i = x # n # ys"
    and act: "tr_active (row_at t x)"
    and same: "same_table t u"
    and st: "tb_store u = (tb_store t)(x \<mapsto> r, n \<mapsto> row_clear (row_at t n))"
    and r: "tr_active r" "tr_next r = tr_next (row_at t n)" "tr_key_len r = tr_key_len (row_at t n)"
      "row_key r = row_key (row_at t n)" "tr_data r = tr_data (row_at t n)" "length (tr_key r) = SW_TABLE_KEY_SIZE"
    and pool: "tb_pool t = Some p" "tb_pool u = Some q" "pool_inv q" "same_pool p q" "dom (fixed_live q) = dom (fixed_live p) - {n}"
  shows "\<exists>B'. table_rep u B' \<and> table_map u B' = (table_map t B)(row_key (row_at t x) := None)"
proof -
  note ok = bucket_rep [OF rep i] note D = bucket_okD [OF ok]
  note E = same_tableD [OF same]
  let ?xs = "x # ys"
  have act': "tr_active (row_at t (hd (B ! i)))" using act B by simp
  have xn: "tb_store t x = Some (row_at t x)" "tb_store t n = Some (row_at t n)" using D(6) B by auto
  have nx: "x \<noteq> n" "n \<notin> set ?xs" "x \<notin> set ys" "n \<in> set (tl (B ! i))" using D(5) B by auto
  have rx: "row_at u x = r" using nx unfolding row_at_def st by simp
  have row: "row_at u y = row_at t y" if "y \<in> set ys" for y
  proof -
    have "y \<noteq> x" "y \<noteq> n" using that nx by auto
    then show ?thesis unfolding row_at_def st by simp
  qed
  have mk: "map (\<lambda>y. row_key (row_at u y)) ?xs = map (\<lambda>y. row_key (row_at t y)) (n # ys)"
    using row rx r(4) by simp
  have dk: "distinct (map (\<lambda>y. row_key (row_at t y)) (x # n # ys))" using D(8) [OF act'] B by simp
  have er: "entry_ok t i r" using D(7) [OF act', of n] B r by (simp add: entry_ok_def)
  have ch: "chain (tb_store u) ?xs"
  proof -
    have "chain (tb_store u) ys = chain (tb_store t) ys" using nx by (intro chain_frame) (auto simp: st)
    moreover have "chain (tb_store t) (n # ys)" using D(3) B by simp
    moreover have "tb_store u x = Some r" using nx by (simp add: st)
    ultimately show ?thesis using r(2) xn(2) by simp
  qed
  have uok: "bucket_ok u i ?xs"
  proof -
    have "\<forall>y \<in> set ?xs. entry_ok u i (row_at u y)" using er rx row D(7) [OF act'] B by (auto simp: E)
    moreover have "distinct (map (\<lambda>y. row_key (row_at u y)) ?xs)" unfolding mk using dk by simp
    ultimately show ?thesis unfolding bucket_ok_def using ch D(2,4,5) B rx r(1) by (auto simp: E)
  qed
  have dom: "dom (tb_store u) = dom (tb_store t)" using xn unfolding st by auto
  have sizes: "length (tr_data s) = tb_item_size t \<and> length (tr_key s) = SW_TABLE_KEY_SIZE" if "tb_store u a = Some s" for a s
    using that table_repD(7) [OF rep, of a] table_repD(7) [OF rep xn(2)] r(5,6) unfolding st
    by (auto split: if_splits)
  have frame: "tb_store u a = tb_store t a" if "a \<notin> set (B ! i)" for a using that B unfolding st by auto
  have xs: "set ?xs = set (B ! i) - {n}" using B nx(2) by auto
  have T: "table_rep u (B[i := ?xs])"
    "table_map u (B[i := ?xs]) = (\<lambda>k. if is_valid_key_length (length k) \<and> hash_index t k = i
      then map_of (bucket_entries u ?xs) k else table_map t B k)"
    by (rule shrink_rep [OF rep i same uok nx(4) xs _ pool dom]; blast intro: frame dest: sizes)+
  have e: "entry_ok t i (row_at t x)" using D(7) [OF act'] B by simp
  note K = entry_key [OF rep e xn(1)]
  have "map_of (bucket_entries u ?xs) = (map_of (bucket_entries t (B ! i)))(row_key (row_at t x) := None)"
  proof -
    let ?e = "\<lambda>v y. (row_key (row_at v y), row_view (tb_column_list t) (tr_data (row_at v y)))"
    have u: "bucket_entries u ?xs = [] @ map (?e t) (n # ys)" using rx r row by (simp add: bucket_entries_def E)
    have t: "bucket_entries t (B ! i) = [] @ ?e t x # map (?e t) (n # ys)" using act' B by (simp add: bucket_entries_def)
    have "row_key (row_at t x) \<notin> fst ` set []" "row_key (row_at t x) \<notin> fst ` set (map (?e t) (n # ys))"
      using dk by (auto simp: image_image)
    then show ?thesis unfolding u t by (rule map_of_remove)
  qed
  then have "table_map u (B[i := ?xs]) = (table_map t B)(row_key (row_at t x) := None)"
    using table_map_upd [of u "B[i := ?xs]" t "row_key (row_at t x)" ?xs B None] T(2) K(1,2) by simp
  then show ?thesis using T(1) by blast
qed

definition counted_delete :: "Table \<Rightarrow> Table" where
  "counted_delete t = t\<lparr>tb_delete_count := wrap64 (tb_delete_count t + 1), tb_row_num := sub32 (tb_row_num t) 1\<rparr>"

lemma counted_delete_simps [simp]:
  "same_core t (counted_delete t)" "tb_row_num (counted_delete t) = sub32 (tb_row_num t) 1"
  by (simp_all add: counted_delete_def same_core_def same_table_def)

lemma delete_row_rep:
  assumes rep: "table_rep t B" and i: "i < tb_size t" and B: "B ! i = as @ x # bs"
    and act: "tr_active (row_at t (tb_rows t ! i))"
  shows "\<exists>u B'. delete_row t (tb_rows t ! i) x (last (nullptr # as)) = Some u \<and> table_rep u B' \<and>
    table_map u B' = (table_map t B)(row_key (row_at t x) := None) \<and> same_table t u \<and>
    tb_row_num u = sub32 (tb_row_num t) 1 \<and> get_total_slice_num u = get_total_slice_num t"
proof -
  note ok = bucket_rep [OF rep i] note D = bucket_okD [OF ok]
  obtain p where P: "tb_pool t = Some p" "pool_inv p" "dom (fixed_live p) = set (concat (map tl B))"
    by (rule table_rep_pool [OF rep])
  have tl: "set (tl (B ! i)) \<subseteq> dom (fixed_live p)"
    using P(3) set_bucket [of i "map tl B"] i table_repD(2) [OF rep] by simp
  have act': "tr_active (row_at t (hd (B ! i)))" using act D(2) by simp
  have finish: ?thesis if "delete_row t (tb_rows t ! i) x (last (nullptr # as)) = Some (counted_delete v)" "table_rep v B'"
    "table_map v B' = (table_map t B)(row_key (row_at t x) := None)" "same_table t v" "tb_row_num v = tb_row_num t"
    "get_total_slice_num v = get_total_slice_num t" for v B'
  proof -
    have c: "same_core v (counted_delete v)" by simp
    then have "same_table t (counted_delete v)" using that(4) by (auto simp: same_core_def same_table_def)
    moreover have "get_total_slice_num (counted_delete v) = get_total_slice_num t"
      using that(6) by (simp add: get_total_slice_num_def counted_delete_def)
    ultimately show ?thesis using that same_core_rep [OF c] same_core_map [OF c] by (auto intro!: exI [of _ B'])
  qed
  have sx: "tb_store t x = Some (row_at t x)" using D(6) [of x] B by simp
  show ?thesis
  proof (cases as)
    case Nil
    then have xr: "x = tb_rows t ! i" using D(2) B by simp
    show ?thesis
    proof (cases bs)
      case Nil
      then have B1: "B ! i = [x]" using B \<open>as = []\<close> by simp
      then have "tr_next (row_at t x) = nullptr" using D(3) sx by simp
      then have "delete_row t (tb_rows t ! i) x (last (nullptr # as)) = Some (counted_delete (row_upd row_clear x t))"
        by (simp add: delete_row_def xr counted_delete_def Let_def)
      then show ?thesis using delete_single [OF rep i B1] act xr by (intro finish [of "row_upd row_clear x t" B]) (auto simp: get_total_slice_num_def)
    next
      case (Cons n ys)
      then have B2: "B ! i = x # n # ys" using B \<open>as = []\<close> by simp
      have nn: "tr_next (row_at t x) = n" "n \<noteq> nullptr" "n \<noteq> x" using D(3,4,5) sx B2 by auto
      have sn: "tb_store t n = Some (row_at t n)" using D(6) [of n] B2 by simp
      let ?n = "row_at t n"
      let ?f = "\<lambda>r. r\<lparr>tr_next := tr_next ?n, tr_key := memcpy_at (tr_key r) 0 (take (tr_key_len ?n + 1) (tr_key ?n)),
        tr_key_len := tr_key_len ?n, tr_data := memcpy_at (tr_data r) 0 (take (tb_item_size t) (tr_data ?n))\<rparr>"
      let ?t1 = "row_upd ?f x t"
      have nl: "n \<in> dom (fixed_live p)" using tl B2 by auto
      then obtain q where q: "free_row ?t1 n = Some ((row_upd row_clear n ?t1)\<lparr>tb_pool := Some q\<rparr>)" "pool_inv q" "same_pool p q"
        "dom (fixed_live q) = dom (fixed_live p) - {n}"
        using free_row_ok [of ?t1 p n] P by auto
      define v where "v = (row_upd row_clear n ?t1)\<lparr>tb_pool := Some q\<rparr>"
      have del: "delete_row t (tb_rows t ! i) x (last (nullptr # as)) = Some (counted_delete v)"
        using q(1) nn by (simp add: delete_row_def xr [symmetric] counted_delete_def Let_def v_def)
      have en: "entry_ok t i ?n" using D(7) [OF act', of n] B2 by simp
      then have kn: "tr_key_len ?n < SW_TABLE_KEY_SIZE" by (simp add: entry_ok_def is_valid_key_length_def)
      note sz = table_repD(7) [OF rep sx] table_repD(7) [OF rep sn]
      have vs: "tb_store v = (tb_store t)(x \<mapsto> ?f (row_at t x), n \<mapsto> row_clear ?n)"
        using sx sn nn(3) by (simp add: v_def)
      have dat: "tr_data (?f (row_at t x)) = tr_data ?n" using sz by (simp add: memcpy_at_def)
      have ks: "row_key (?f (row_at t x)) = row_key ?n" "length (tr_key (?f (row_at t x))) = SW_TABLE_KEY_SIZE"
        using moved_key [OF kn, of "tr_key (row_at t x)" "tr_key ?n"] sz by (simp_all add: row_key_def)
      have "\<exists>B'. table_rep v B' \<and> table_map v B' = (table_map t B)(row_key (row_at t x) := None)"
        by (rule delete_root_moved [OF rep i B2 _ _ vs _ _ _ ks(1) dat ks(2) P(1) _ q(2-4)])
          (use act xr in \<open>auto simp: v_def same_table_def\<close>)
      moreover have "same_table t v" "tb_row_num v = tb_row_num t" "get_total_slice_num v = get_total_slice_num t"
        using q(3) P(1) by (simp_all add: v_def same_table_def get_total_slice_num_def same_pool_def)
      ultimately show ?thesis using del finish by blast
    qed
  next
    case (Cons a as')
    then obtain zs m where z: "as = zs @ [m]" by (metis list.distinct(1) rev_exhaust)
    then have B3: "B ! i = zs @ m # x # bs" using B by simp
    have nn: "x \<noteq> tb_rows t ! i" "m \<noteq> x" "x \<in> set (tl (B ! i))" using D(2,5) B3 by (cases zs; auto)+
    have sm: "tb_store t m = Some (row_at t m)" using D(6) [of m] B3 by simp
    let ?t1 = "row_upd (\<lambda>r. r\<lparr>tr_next := tr_next (row_at t x)\<rparr>) m t"
    have xl: "x \<in> dom (fixed_live p)" using tl nn(3) by auto
    then obtain q where q: "free_row ?t1 x = Some ((row_upd row_clear x ?t1)\<lparr>tb_pool := Some q\<rparr>)" "pool_inv q" "same_pool p q"
      "dom (fixed_live q) = dom (fixed_live p) - {x}"
      using free_row_ok [of ?t1 p x] P by auto
    define v where "v = (row_upd row_clear x ?t1)\<lparr>tb_pool := Some q\<rparr>"
    have del: "delete_row t (tb_rows t ! i) x (last (nullptr # as)) = Some (counted_delete v)"
      using q(1) nn(1) z by (simp add: delete_row_def counted_delete_def Let_def v_def)
    have vs: "tb_store v = (tb_store t)(m \<mapsto> (row_at t m)\<lparr>tr_next := tr_next (row_at t x)\<rparr>, x \<mapsto> row_clear (row_at t x))"
      using sx sm nn(2) by (simp add: v_def)
    have "\<exists>B'. table_rep v B' \<and> table_map v B' = (table_map t B)(row_key (row_at t x) := None)"
      by (rule delete_conflict [OF rep i B3 act _ vs P(1) _ q(2-4)]) (auto simp: v_def same_table_def)
    moreover have "same_table t v" "tb_row_num v = tb_row_num t" "get_total_slice_num v = get_total_slice_num t"
        using q(3) P(1) by (simp_all add: v_def same_table_def get_total_slice_num_def same_pool_def)
    ultimately show ?thesis using del finish by blast
  qed
qed

section \<open>Counting rows\<close>

lemma entries_length:
  "bucket_ok t i xs \<Longrightarrow> length (bucket_entries t xs) = (if tr_active (row_at t (hd xs)) then length xs else 0)"
  by (simp add: bucket_entries_def)

lemma entries_dom:
  assumes rep: "table_rep t B" and i: "i < tb_size t"
  shows "dom (map_of (bucket_entries t (B ! i))) = {k \<in> dom (table_map t B). hash_index t k = i}"
    "card (dom (map_of (bucket_entries t (B ! i)))) = length (bucket_entries t (B ! i))"
proof -
  note ok = bucket_rep [OF rep i] note D = bucket_okD [OF ok]
  have key: "hash_index t k = i \<and> is_valid_key_length (length k)" if "k \<in> dom (map_of (bucket_entries t (B ! i)))" for k
  proof -
    have "tr_active (row_at t (hd (B ! i)))" "k \<in> (\<lambda>x. row_key (row_at t x)) ` set (B ! i)"
      using that by (auto simp: dom_map_of_conv_image_fst bucket_entries_def split: if_splits)
    then show ?thesis using entry_key [OF rep D(7) D(6)] by auto
  qed
  then show "dom (map_of (bucket_entries t (B ! i))) = {k \<in> dom (table_map t B). hash_index t k = i}"
    by (fastforce simp: table_map_def split: if_splits)
  have "distinct (map fst (bucket_entries t (B ! i)))"
    using D(8) by (simp add: bucket_entries_def comp_def)
  then show "card (dom (map_of (bucket_entries t (B ! i)))) = length (bucket_entries t (B ! i))"
    using distinct_card [of "map fst (bucket_entries t (B ! i))"] by (simp add: dom_map_of_conv_image_fst)
qed

lemma table_dom:
  assumes rep: "table_rep t B"
  shows "dom (table_map t B) = (\<Union>i<tb_size t. dom (map_of (bucket_entries t (B ! i))))" "finite (dom (table_map t B))"
    "card (dom (table_map t B)) = (\<Sum>i<tb_size t. length (bucket_entries t (B ! i)))"
proof -
  show dom: "dom (table_map t B) = (\<Union>i<tb_size t. dom (map_of (bucket_entries t (B ! i))))"
    using entries_dom(1) [OF rep] hash_index_less [OF rep] by auto
  show "finite (dom (table_map t B))" unfolding dom by (simp add: finite_dom_map_of)
  have "card (\<Union>i<tb_size t. dom (map_of (bucket_entries t (B ! i)))) = (\<Sum>i<tb_size t. card (dom (map_of (bucket_entries t (B ! i)))))"
  proof (rule card_UN_disjoint)
    show "\<forall>i\<in>{..<tb_size t}. \<forall>j\<in>{..<tb_size t}. i \<noteq> j \<longrightarrow>
      dom (map_of (bucket_entries t (B ! i))) \<inter> dom (map_of (bucket_entries t (B ! j))) = {}"
      using entries_dom(1) [OF rep] by auto
  qed (simp_all add: finite_dom_map_of)
  then show "card (dom (table_map t B)) = (\<Sum>i<tb_size t. length (bucket_entries t (B ! i)))"
    unfolding dom using entries_dom(2) [OF rep] by simp
qed

lemma table_occupied:
  assumes rep: "table_rep t B"
  shows "hash_index t ` dom (table_map t B) = {i. i < tb_size t \<and> tr_active (row_at t (tb_rows t ! i))}"
proof -
  have "(\<exists>k \<in> dom (table_map t B). hash_index t k = i) \<longleftrightarrow> tr_active (row_at t (tb_rows t ! i))" if i: "i < tb_size t" for i
  proof -
    note ok = bucket_rep [OF rep i] note D = bucket_okD [OF ok]
    have "(\<exists>k \<in> dom (table_map t B). hash_index t k = i) \<longleftrightarrow> dom (map_of (bucket_entries t (B ! i))) \<noteq> {}"
      unfolding entries_dom(1) [OF rep i] by auto
    also have "\<dots> \<longleftrightarrow> bucket_entries t (B ! i) \<noteq> []" by (simp add: dom_map_of_conv_image_fst)
    also have "\<dots> \<longleftrightarrow> tr_active (row_at t (tb_rows t ! i))" using D(1,2) by (simp add: bucket_entries_def)
    finally show ?thesis .
  qed
  then show ?thesis using hash_index_less [OF rep] by (auto simp: image_iff) blast
qed

text \<open>The conflict rows in use: one less than the keys of each occupied bucket.\<close>

definition conflicts :: "('k \<Rightarrow> nat) \<Rightarrow> ('k \<Rightarrow> 'v option) \<Rightarrow> nat" where
  "conflicts h M = card (dom M) - card (h ` dom M)"

lemma live_conflicts:
  assumes rep: "table_rep t B" and p: "tb_pool t = Some p"
  shows "card (dom (fixed_live p)) = conflicts (hash_index t) (table_map t B)"
proof -
  let ?n = "tb_size t" and ?a = "\<lambda>i. tr_active (row_at t (tb_rows t ! i))"
  obtain p' where "tb_pool t = Some p'" "dom (fixed_live p') = set (concat (map tl B))" by (rule table_rep_pool [OF rep])
  then have "card (dom (fixed_live p)) = length (concat (map tl B))"
    using p distinct_card [OF distinct_tails [OF table_repD(5) [OF rep]]] by simp
  also have "\<dots> = (\<Sum>i<?n. length (tl (B ! i)))"
    using table_repD(2) [OF rep] by (simp add: length_concat comp_def sum_list_sum_nth atLeast0LessThan)
  finally have l: "card (dom (fixed_live p)) = (\<Sum>i<?n. length (tl (B ! i)))" .
  have "card (hash_index t ` dom (table_map t B)) = (\<Sum>i<?n. if ?a i then 1 else 0)"
    unfolding table_occupied [OF rep] by (simp add: sum.If_cases) (rule arg_cong [where f = card], auto)
  moreover have "length (bucket_entries t (B ! i)) = length (tl (B ! i)) + (if ?a i then 1 else 0)" if "i < ?n" for i
  proof -
    note D = bucket_okD [OF bucket_rep [OF rep that]]
    show ?thesis using D(1,2) D(9) by (cases "?a i") (auto simp: bucket_entries_def)
  qed
  ultimately show ?thesis
    unfolding conflicts_def table_dom(3) [OF rep] l by (simp add: sum.distrib)
qed

section \<open>The table as a map\<close>

definition table_abs :: "Table \<Rightarrow> (bytes \<Rightarrow> (TableColumn \<Rightarrow> bytes option) option) \<Rightarrow> bool" where
  "table_abs t M \<longleftrightarrow> (\<exists>B. table_rep t B \<and> M = table_map t B) \<and> tb_row_num t = wrap32 (card (dom M))"

lemma table_absI: "table_rep t B \<Longrightarrow> table_map t B = M \<Longrightarrow> tb_row_num t = wrap32 (card (dom M)) \<Longrightarrow> table_abs t M"
  unfolding table_abs_def by blast

lemma table_abs_finite: "table_abs t M \<Longrightarrow> finite (dom M)"
  unfolding table_abs_def using table_dom(2) by blast

lemma wrap32_Suc: "wrap32 (wrap32 n + 1) = wrap32 (n + 1)"
  by (simp add: wrap32_def mod_Suc_eq)

lemma wrap32_pred: "0 < n \<Longrightarrow> sub32 (wrap32 n) 1 = wrap32 (n - 1)"
proof (cases n)
  case (Suc m)
  have "(Suc m mod 2 ^ 32 + 2 ^ 32 - 1) mod 2 ^ 32 = (m :: nat) mod 2 ^ 32"
  proof -
    have "Suc m mod 2 ^ 32 + 2 ^ 32 - 1 = Suc m mod 2 ^ 32 + (2 ^ 32 - 1 :: nat)" by simp
    moreover have "(Suc m mod 2 ^ 32 + (2 ^ 32 - 1)) mod 2 ^ 32 = (Suc m + (2 ^ 32 - 1 :: nat)) mod 2 ^ 32" by (simp add: mod_add_left_eq)
    moreover have "Suc m + (2 ^ 32 - 1) = m + (2 ^ 32 :: nat)" by simp
    ultimately show ?thesis by (metis mod_add_self2)
  qed
  then show ?thesis using Suc by (simp add: sub32_def wrap32_def)
qed simp

lemma abs_insert:
  "finite (dom M) \<Longrightarrow> M k = None \<Longrightarrow> wrap32 (wrap32 (card (dom M)) + 1) = wrap32 (card (dom (M(k \<mapsto> v))))"
  using wrap32_Suc [of "card (dom M)"] by (simp add: card_insert_if domIff)

lemma abs_update: "M k \<noteq> None \<Longrightarrow> card (dom (M(k \<mapsto> v))) = card (dom M)"
  by (simp add: insert_absorb domIff)

lemma abs_delete:
  assumes "finite (dom M)" "M k \<noteq> None"
  shows "sub32 (wrap32 (card (dom M))) 1 = wrap32 (card (dom (M(k := None))))"
proof -
  have "k \<in> dom M" using assms(2) by (simp add: domIff)
  then have "0 < card (dom M)" "card (dom M - {k}) = card (dom M) - 1"
    using assms(1) card_gt_0_iff by auto
  then show ?thesis using wrap32_pred by simp
qed

text \<open>Allocating a conflict row: it fails exactly when all the rows of the pool are in use.\<close>

lemma fixed_live_card:
  assumes "pool_lists p idle busy"
  shows "card (dom (fixed_live p)) = length busy"
proof -
  have "dom (fixed_live p) = (\<lambda>x. x + sizeof_struct_slice) ` set busy"
  proof (rule set_eqI)
    fix a show "a \<in> dom (fixed_live p) \<longleftrightarrow> a \<in> (\<lambda>x. x + sizeof_struct_slice) ` set busy"
      by (auto simp: fixed_live_lists [OF assms] dom_def image_iff split: if_splits) force
  qed
  then show ?thesis using pool_listsD(4) [OF assms] by (simp add: card_image distinct_card)
qed

lemma live_pool_rows:
  assumes "pool_inv p"
  shows "dom (fixed_live p) \<subseteq> pool_rows p"
proof -
  obtain idle busy where L: "pool_lists p idle busy" using assms by (auto simp: pool_inv_def)
  show ?thesis
  proof
    fix a assume "a \<in> dom (fixed_live p)"
    then have "sizeof_struct_slice \<le> a" "a - sizeof_struct_slice \<in> set (idle @ busy)"
      by (auto simp: fixed_live_lists [OF L] dom_def split: if_splits)
    then show "a \<in> pool_rows p" unfolding pool_listsD(5) [OF L] pool_rows_def by force
  qed
qed

lemma alloc_row_cases:
  assumes rep: "table_rep t B" and p: "tb_pool t = Some p" and t1: "tb_pool t1 = tb_pool t"
  shows "alloc_row t1 = Some (t1, nullptr) \<and> conflicts (hash_index t) (table_map t B) = fp_slice_num p \<or>
    (\<exists>q x. alloc_row t1 = Some (t1\<lparr>tb_pool := Some q\<rparr>, x) \<and> conflicts (hash_index t) (table_map t B) < fp_slice_num p \<and>
      x \<noteq> nullptr \<and> x \<notin> set (concat B) \<and> x \<in> dom (tb_store t) \<and> pool_inv q \<and> same_pool p q \<and>
      dom (fixed_live q) = insert x (dom (fixed_live p)))"
proof -
  obtain p' where P: "tb_pool t = Some p'" "pool_inv p'" "dom (fixed_live p') = set (concat (map tl B))"
    "set (tb_rows t) \<inter> pool_rows p' = {}" "dom (tb_store t) = set (tb_rows t) \<union> pool_rows p'"
    by (rule table_rep_pool [OF rep])
  have pp: "p' = p" using P(1) p by simp
  note c = live_conflicts [OF rep p]
  obtain idle busy where L: "pool_lists p idle busy" "pool_shape p" using P(2) pp by (auto simp: pool_inv_def)
  note len = pool_lists_length [OF L(1)]
  show ?thesis
  proof (cases idle)
    case Nil
    then have "FixedPool_alloc p 0 = Some (p, nullptr)" using FixedPool_alloc_fail [OF L(2,1)] by simp
    then have "alloc_row t1 = Some (t1, nullptr)" using p t1 by (simp add: alloc_row_def)
    then show ?thesis using c fixed_live_card [OF L(1)] len Nil by simp
  next
    case (Cons y ys)
    then obtain q where q: "FixedPool_alloc p 0 = Some (q, y + sizeof_struct_slice)" "pool_lists q ys (busy @ [y])" "same_pool p q"
      using FixedPool_alloc_ok [OF L(2), of y ys busy 0] L(1) by auto
    let ?x = "y + sizeof_struct_slice"
    have fr: "snd (fixed_alloc p () 0) = ?x" "?x \<noteq> nullptr" "fst (fixed_alloc p () 0) = q"
      using q(1) by (simp_all add: fixed_alloc_def sizeof_struct_slice_def)
    have inv: "pool_inv q" using q(2,3) L(2) same_pool_shape by (auto simp: pool_inv_def)
    have nl: "fixed_live p ?x = None" and dl: "dom (fixed_live q) = insert ?x (dom (fixed_live p))"
      using fixed_alloc_fresh [OF P(2) [unfolded pp] fr(1,2)] fr(3) by auto
    have pr: "?x \<in> pool_rows p" using live_pool_rows [OF inv] dl same_pool_rows [OF q(3)] by auto
    have "?x \<notin> set (concat B)"
    proof
      assume "?x \<in> set (concat B)"
      then obtain i where i: "i < tb_size t" "?x \<in> set (B ! i)" using table_repD(2) [OF rep] unfolding set_concat_nth by auto
      note D = bucket_okD [OF bucket_rep [OF rep i(1)]]
      have "tb_rows t ! i \<in> set (tb_rows t)" using i(1) table_repD(3) [OF rep] by simp
      then have "?x \<noteq> tb_rows t ! i" using P(4) pp pr by auto
      then have "?x \<in> set (tl (B ! i))" using i(2) D(1,2) by (cases "B ! i") auto
      then have "?x \<in> dom (fixed_live p)"
        using P(3) pp set_bucket [of i "map tl B"] i(1) table_repD(2) [OF rep] by auto
      then show False using nl by auto
    qed
    then show ?thesis
      using q(1,3) p t1 c fixed_live_card [OF L(1)] len Cons fr(2) pr P(5) pp inv dl by (auto simp: alloc_row_def)
  qed
qed

section \<open>The operations\<close>

definition same_geom :: "Table \<Rightarrow> Table \<Rightarrow> bool" where
  "same_geom t u \<longleftrightarrow> same_table t u \<and> get_total_slice_num u = get_total_slice_num t"

lemma same_geom_refl [simp]: "same_geom t t"
  by (simp add: same_geom_def same_table_def)

lemma same_geom_trans: "same_geom t u \<Longrightarrow> same_geom u v \<Longrightarrow> same_geom t v"
  by (simp add: same_geom_def same_table_def)

lemma same_geom_upd [simp]: "same_geom t (row_upd f a t)"
  by (simp add: same_geom_def get_total_slice_num_def)

lemma same_geom_core: "same_core t u \<Longrightarrow> same_geom t u"
  by (simp add: same_geom_def same_core_def get_total_slice_num_def)

lemma abs_inert: "table_abs t M \<Longrightarrow> inert f \<Longrightarrow> table_abs (row_upd f a t) M"
  unfolding table_abs_def using inert_rep [of f t _ a] by fastforce

lemma abs_core: "same_core t u \<Longrightarrow> tb_row_num u = tb_row_num t \<Longrightarrow> table_abs t M \<Longrightarrow> table_abs u M"
  unfolding table_abs_def using same_core_rep same_core_map by fastforce

text \<open>Every operation ends by releasing the bucket's lock.\<close>

lemma finish_unlock:
  assumes "table_abs u M" "same_geom t u"
  shows "table_abs (row_upd row_unlock a u) M \<and> same_geom t (row_upd row_unlock a u)"
  using abs_inert [OF assms(1)] same_geom_trans [OF assms(2) same_geom_upd] by simp

text \<open>Every operation begins by hashing a valid key and locking the bucket.\<close>

lemma locked_bucket:
  assumes "table_abs t M"
  defines "b \<equiv> \<lambda>k. tb_rows t ! hash_index t k"
  shows "table_hash t k = Some (b k)" "table_abs (row_upd (row_lock pid) (b k) t) M"
    "\<exists>B. table_rep (row_upd (row_lock pid) (b k) t) B \<and> M = table_map (row_upd (row_lock pid) (b k) t) B"
  using assms table_hash_rep abs_inert [OF assms(1) inert_lock(1)] unfolding table_abs_def by blast+

definition values_ok :: "Table \<Rightarrow> TableValues \<Rightarrow> bool" where
  "values_ok t vs \<longleftrightarrow> list_all (value_ok (tb_column_list t)) vs"

text \<open>Writing the values of a found row.\<close>

lemma update_found:
  assumes rep: "table_rep t B" and M: "M = table_map t B" "M k \<noteq> None" and n: "tb_row_num t = wrap32 (card (dom M))"
    and vs: "values_ok t vs"
    and x: "B ! hash_index t k = as @ x # bs" "row_key (row_at t x) = k" "tr_active (row_at t (tb_rows t ! hash_index t k))"
      "M k = Some (row_view (tb_column_list t) (tr_data (row_at t x)))"
  shows "table_abs (apply_values vs x t) (M(k \<mapsto> spec_apply vs (the (M k))))" "same_geom t (apply_values vs x t)"
proof -
  have i: "hash_index t k < tb_size t" by (rule hash_index_less [OF rep])
  note D = bucket_okD [OF bucket_rep [OF rep i]]
  have "entry_ok t (hash_index t k) (row_at t x)" using D(7) [of x] D(2) x(1,3) by simp
  then have d: "data_ok (tb_column_list t) (tb_item_size t) (tr_data (row_at t x))" by (simp add: entry_ok_def)
  note A = apply_values_view [OF d vs [unfolded values_ok_def]]
  note U = update_row_rep [OF rep i x(1,3), where g = "fold apply_value vs"]
  have "tb_row_num (apply_values vs x t) = wrap32 (card (dom (M(k \<mapsto> spec_apply vs (the (M k))))))"
    unfolding abs_update [of M k, OF M(2)] using n by (simp add: apply_values_def)
  then show "table_abs (apply_values vs x t) (M(k \<mapsto> spec_apply vs (the (M k))))"
    using U A M(1) x(2,4) by (auto simp: apply_values_def intro!: table_absI)
  show "same_geom t (apply_values vs x t)" by (simp add: apply_values_def)
qed

lemma apply_values_core: "same_core (apply_values vs x t) ((apply_values vs x t)\<lparr>tb_update_count := n\<rparr>)"
  by (simp add: same_core_def same_table_def)

lemma delete_found:
  assumes rep: "table_rep t B" and M: "M = table_map t B" "M k \<noteq> None" and n: "tb_row_num t = wrap32 (card (dom M))"
    and x: "B ! hash_index t k = as @ x # bs" "row_key (row_at t x) = k" "tr_active (row_at t (tb_rows t ! hash_index t k))"
  shows "\<exists>u. delete_row t (tb_rows t ! hash_index t k) x (last (nullptr # as)) = Some u \<and> table_abs u (M(k := None)) \<and> same_geom t u"
proof -
  have i: "hash_index t k < tb_size t" by (rule hash_index_less [OF rep])
  have fin: "finite (dom M)" using table_dom(2) [OF rep] M(1) by simp
  obtain u B' where u: "delete_row t (tb_rows t ! hash_index t k) x (last (nullptr # as)) = Some u" "table_rep u B'"
    "table_map u B' = (table_map t B)(row_key (row_at t x) := None)" "same_table t u" "tb_row_num u = sub32 (tb_row_num t) 1"
    "get_total_slice_num u = get_total_slice_num t"
    using delete_row_rep [OF rep i x(1,3)] by blast
  have "tb_row_num u = wrap32 (card (dom (M(k := None))))" using u(5) n abs_delete [OF fin, of k] M(2) by simp
  then have "table_abs u (M(k := None))" using u(2,3) x(2) M(1) by (intro table_absI [of u B']) auto
  then show ?thesis using u by (auto simp: same_geom_def)
qed

text \<open>What \<open>find_row\<close> finds in the locked bucket of a valid key.\<close>

lemma find_cases:
  fixes pid :: nat
  assumes abs: "table_abs t M" and v: "is_valid_key_length (length k)"
  defines "b \<equiv> tb_rows t ! hash_index t k"
  defines "t' \<equiv> row_upd (row_lock pid) b t"
  obtains (missing) B p l where "M k = None" "find_row t' b k = Some (nullptr, p, l)" "table_rep t' B" "M = table_map t' B"
      "if tr_active (row_at t' b) then p = last (B ! hash_index t' k) else p = nullptr"
  | (found) B as x bs l where "M k = Some (row_view (tb_column_list t) (tr_data (row_at t' x)))"
      "find_row t' b k = Some (x, last (nullptr # as), l)" "x \<noteq> nullptr" "table_rep t' B" "M = table_map t' B"
      "B ! hash_index t' k = as @ x # bs" "row_key (row_at t' x) = k" "tr_active (row_at t' (tb_rows t' ! hash_index t' k))"
proof -
  obtain B where rep: "table_rep t' B" and M: "M = table_map t' B"
    using locked_bucket(3) [OF abs] unfolding t'_def b_def by blast
  have hi: "tb_rows t' ! hash_index t' k = b" "tb_column_list t' = tb_column_list t" by (simp_all add: t'_def b_def hash_index_def)
  show thesis
  proof (cases "M k")
    case None
    show ?thesis
    proof (cases "tr_active (row_at t' b)")
      case True
      then obtain l where "find_row t' b k = Some (nullptr, last (B ! hash_index t' k), l)"
        using find_row_missing(1) [OF rep refl v] None M unfolding hi by auto
      then show ?thesis using missing rep M None True by simp
    next
      case False
      then have "find_row t' b k = Some (nullptr, nullptr, 0)"
        using find_row_inactive(1) [OF rep refl, of k] unfolding hi by blast
      then show ?thesis by (rule missing [OF None _ rep M]) (simp add: False)
    qed
  next
    case (Some d)
    then have "table_map t' B k \<noteq> None" using M by simp
    from find_row_found [OF rep refl this] show ?thesis using found rep M unfolding hi by metis
  qed
qed

lemma invalid_key: "table_abs t M \<Longrightarrow> \<not> is_valid_key_length (length k) \<Longrightarrow> M k = None"
  by (auto simp: table_abs_def table_map_def)

lemma locked_num: "table_abs t M \<Longrightarrow> tb_row_num (row_upd f b t) = wrap32 (card (dom M))"
  by (simp add: table_abs_def)

lemma values_ok_upd [simp]: "values_ok (row_upd f a t) vs = values_ok t vs"
  by (simp add: values_ok_def)

lemma update_finish:
  fixes n :: nat and a :: addr
  assumes "table_abs (apply_values vs x t') M'" "same_geom t' (apply_values vs x t')" "same_geom t t'"
  defines "u \<equiv> row_upd row_unlock a ((apply_values vs x t')\<lparr>tb_update_count := n\<rparr>)"
  shows "table_abs u M' \<and> same_geom t u"
  unfolding u_def
  by (rule finish_unlock [OF abs_core [OF apply_values_core _ assms(1)]
    same_geom_trans [OF assms(3) same_geom_trans [OF assms(2) same_geom_core [OF apply_values_core]]]]) simp

lemma Table_update_ok:
  assumes abs: "table_abs t M" and vs: "values_ok t vs"
  shows "\<exists>u. Table_update pid t k vs = Some (u, M k \<noteq> None) \<and>
    table_abs u (if M k = None then M else M(k \<mapsto> spec_apply vs (the (M k)))) \<and> same_geom t u"
proof (cases "is_valid_key_length (length k)")
  case False
  then show ?thesis using abs invalid_key [OF abs] by (simp add: Table_update_def)
next
  case v: True
  let ?b = "tb_rows t ! hash_index t k" let ?t = "row_upd (row_lock pid) ?b t"
  note L = locked_bucket(1) [OF abs, of k] locked_bucket(2) [OF abs, where pid = pid and k = k]
  from abs v show ?thesis
  proof (cases rule: find_cases [where pid = pid])
    case (missing B p l)
    then show ?thesis using L v finish_unlock [OF L(2) same_geom_upd] by (simp add: Table_update_def Let_def)
  next
    case (found B as x bs l)
    have U: "table_abs (apply_values vs x ?t) (M(k \<mapsto> spec_apply vs (the (M k))))" "same_geom ?t (apply_values vs x ?t)"
      by (rule update_found [OF found(4,5) _ locked_num [OF abs] _ found(6,7,8)]; use found(1) vs in simp)+
    then show ?thesis
      using L v found(1-3) update_finish [OF U same_geom_upd] by (simp add: Table_update_def Let_def)
  qed
qed

text \<open>\<open>match_values\<close> on a found row compares the abstract values.\<close>

lemma match_found:
  assumes rep: "table_rep t B" and es: "\<And>e. e \<in> set es \<Longrightarrow> fst e \<in> set (tb_column_list t)"
    and x: "B ! hash_index t k = as @ x # bs" "tr_active (row_at t (tb_rows t ! hash_index t k))"
  shows "match_values (row_at t x) es = list_all (spec_match (row_view (tb_column_list t) (tr_data (row_at t x)))) es"
    "data_ok (tb_column_list t) (tb_item_size t) (tr_data (row_at t x))"
proof -
  note D = bucket_okD [OF bucket_rep [OF rep hash_index_less [OF rep, of k]]]
  have "entry_ok t (hash_index t k) (row_at t x)" using D(7) [of x] D(2) x by simp
  then show d: "data_ok (tb_column_list t) (tb_item_size t) (tr_data (row_at t x))" by (simp add: entry_ok_def)
  show "match_values (row_at t x) es = list_all (spec_match (row_view (tb_column_list t) (tr_data (row_at t x)))) es"
    unfolding match_values_def list_all_iff using match_value_view [OF d es] by simp
qed

definition columns_ok :: "Table \<Rightarrow> TableValues \<Rightarrow> bool" where
  "columns_ok t es \<longleftrightarrow> (\<forall>e \<in> set es. fst e \<in> set (tb_column_list t))"

lemma Table_cmpset_ok:
  assumes abs: "table_abs t M" and vs: "values_ok t vs" and es: "columns_ok t es"
  shows "\<exists>u. Table_cmpset pid t k es vs = Some (u, M k \<noteq> None \<and> list_all (spec_match (the (M k))) es) \<and>
    table_abs u (if M k \<noteq> None \<and> list_all (spec_match (the (M k))) es then M(k \<mapsto> spec_apply vs (the (M k))) else M) \<and> same_geom t u"
proof (cases "is_valid_key_length (length k)")
  case False
  then show ?thesis using abs invalid_key [OF abs] by (simp add: Table_cmpset_def)
next
  case v: True
  let ?b = "tb_rows t ! hash_index t k" let ?t = "row_upd (row_lock pid) ?b t"
  note L = locked_bucket(1) [OF abs, of k] locked_bucket(2) [OF abs, where pid = pid and k = k]
  note F = finish_unlock [OF L(2) same_geom_upd]
  from abs v show ?thesis
  proof (cases rule: find_cases [where pid = pid])
    case (missing B p l)
    then show ?thesis using L v F by (simp add: Table_cmpset_def Let_def)
  next
    case (found B as x bs l)
    have m: "match_values (row_at ?t x) es = list_all (spec_match (the (M k))) es"
      using match_found(1) [OF found(4) _ found(6,8), of es] es found(1) by (simp add: columns_ok_def)
    have U: "table_abs (apply_values vs x ?t) (M(k \<mapsto> spec_apply vs (the (M k))))" "same_geom ?t (apply_values vs x ?t)"
      by (rule update_found [OF found(4,5) _ locked_num [OF abs] _ found(6,7,8)]; use found(1) vs in simp)+
    show ?thesis
    proof (cases "list_all (spec_match (the (M k))) es")
      case True
      then show ?thesis
        using L v found(1-3) m update_finish [OF U same_geom_upd] by (simp add: Table_cmpset_def Let_def)
    next
      case False
      then show ?thesis using L v found(1-3) m F by (simp add: Table_cmpset_def Let_def)
    qed
  qed
qed

lemma Table_cmpdel_ok:
  assumes abs: "table_abs t M" and es: "columns_ok t es"
  shows "\<exists>u. Table_cmpdel pid t k es = Some (u, M k \<noteq> None \<and> list_all (spec_match (the (M k))) es) \<and>
    table_abs u (if M k \<noteq> None \<and> list_all (spec_match (the (M k))) es then M(k := None) else M) \<and> same_geom t u"
proof (cases "is_valid_key_length (length k)")
  case False
  then show ?thesis using abs invalid_key [OF abs] by (simp add: Table_cmpdel_def)
next
  case v: True
  let ?b = "tb_rows t ! hash_index t k" let ?t = "row_upd (row_lock pid) ?b t"
  note L = locked_bucket(1) [OF abs, of k] locked_bucket(2) [OF abs, where pid = pid and k = k]
  note F = finish_unlock [OF L(2) same_geom_upd]
  from abs v show ?thesis
  proof (cases rule: find_cases [where pid = pid])
    case (missing B p l)
    then show ?thesis using L v F by (simp add: Table_cmpdel_def Let_def)
  next
    case (found B as x bs l)
    have m: "match_values (row_at ?t x) es = list_all (spec_match (the (M k))) es"
      using match_found(1) [OF found(4) _ found(6,8), of es] es found(1) by (simp add: columns_ok_def)
    obtain u where u: "delete_row ?t ?b x (last (nullptr # as)) = Some u" "table_abs u (M(k := None))" "same_geom ?t u"
      using delete_found [OF found(4,5) _ locked_num [OF abs] found(6,7,8)] found(1) by (auto simp: hash_index_def)
    show ?thesis
    proof (cases "list_all (spec_match (the (M k))) es")
      case True
      then show ?thesis
        using L v found(1-3) m u(1) finish_unlock [OF u(2) same_geom_trans [OF same_geom_upd u(3)]]
        by (simp add: Table_cmpdel_def Let_def)
    next
      case False
      then show ?thesis using L v found(1-3) m F by (simp add: Table_cmpdel_def Let_def)
    qed
  qed
qed

lemma Table_del_ok:
  assumes abs: "table_abs t M"
  shows "\<exists>u. Table_del pid t k = Some (u, M k \<noteq> None) \<and> table_abs u (M(k := None)) \<and> same_geom t u"
proof (cases "is_valid_key_length (length k)")
  case False
  then show ?thesis using abs invalid_key [OF abs, of k] by (simp add: Table_del_def fun_upd_idem)
next
  case v: True
  let ?b = "tb_rows t ! hash_index t k" let ?t = "row_upd (row_lock pid) ?b t"
  note L = locked_bucket(1) [OF abs, of k] locked_bucket(2) [OF abs, where pid = pid and k = k]
  note F = finish_unlock [OF L(2) same_geom_upd]
  from abs v show ?thesis
  proof (cases rule: find_cases [where pid = pid])
    case (missing B p l)
    then show ?thesis using L v F by (simp add: Table_del_def Let_def fun_upd_idem)
  next
    case (found B as x bs l)
    obtain u where u: "delete_row ?t ?b x (last (nullptr # as)) = Some u" "table_abs u (M(k := None))" "same_geom ?t u"
      using delete_found [OF found(4,5) _ locked_num [OF abs] found(6,7,8)] found(1) by (auto simp: hash_index_def)
    then show ?thesis
      using L v found(1-3) finish_unlock [OF u(2) same_geom_trans [OF same_geom_upd u(3)]]
      by (simp add: Table_del_def Let_def)
  qed
qed

text \<open>\<open>getdel\<close> hands out the bytes of the row, or of one column.\<close>

definition snapshot_ok :: "TableColumn list \<Rightarrow> (TableColumn \<Rightarrow> bytes option) \<Rightarrow> TableColumn option \<Rightarrow> bytes \<Rightarrow> bool" where
  "snapshot_ok cols m col d \<longleftrightarrow> (case col of None \<Rightarrow> row_view cols d = m | Some c \<Rightarrow> m c = Some (cell_value c d))"

lemma Table_getdel_ok:
  assumes abs: "table_abs t M" and col: "case col of None \<Rightarrow> True | Some c \<Rightarrow> c \<in> set (tb_column_list t)"
  shows "\<exists>u d. Table_getdel pid t k col = Some (u, M k \<noteq> None, d) \<and> table_abs u (M(k := None)) \<and> same_geom t u \<and>
    (if M k = None then d = [] else snapshot_ok (tb_column_list t) (the (M k)) col d)"
proof (cases "is_valid_key_length (length k)")
  case False
  then show ?thesis using abs invalid_key [OF abs, of k] by (simp add: Table_getdel_def fun_upd_idem)
next
  case v: True
  let ?b = "tb_rows t ! hash_index t k" let ?t = "row_upd (row_lock pid) ?b t"
  note L = locked_bucket(1) [OF abs, of k] locked_bucket(2) [OF abs, where pid = pid and k = k]
  note F = finish_unlock [OF L(2) same_geom_upd]
  from abs v show ?thesis
  proof (cases rule: find_cases [where pid = pid])
    case (missing B p l)
    then show ?thesis using L v F by (simp add: Table_getdel_def Let_def fun_upd_idem)
  next
    case (found B as x bs l)
    obtain u where u: "delete_row ?t ?b x (last (nullptr # as)) = Some u" "table_abs u (M(k := None))" "same_geom ?t u"
      using delete_found [OF found(4,5) _ locked_num [OF abs] found(6,7,8)] found(1) by (auto simp: hash_index_def)
    let ?d = "bytes_at (tr_data (row_at ?t x)) (case col of None \<Rightarrow> 0 | Some c \<Rightarrow> col_index c)
      (case col of None \<Rightarrow> tb_item_size ?t | Some c \<Rightarrow> col_size c)"
    have "length (tr_data (row_at ?t x)) = tb_item_size t"
      using match_found(2) [OF found(4) _ found(6,8), of "[]"] by (simp add: data_ok_def)
    then have s: "snapshot_ok (tb_column_list t) (the (M k)) col ?d"
      using found(1) col by (auto simp: snapshot_ok_def row_view_def cell_def split: option.splits)
    have g: "Table_getdel pid t k col = Some (row_upd row_unlock ?b u, True, ?d)"
      using L v found(1-3) u(1) by (simp add: Table_getdel_def Let_def)
    show ?thesis using g s found(1) finish_unlock [OF u(2) same_geom_trans [OF same_geom_upd u(3)]] by auto
  qed
qed

text \<open>A new row: header initialised, columns cleared, values applied.\<close>

definition fill_row :: "bytes \<Rightarrow> TableColumn list \<Rightarrow> TableValues \<Rightarrow> TableRow \<Rightarrow> TableRow" where
  "fill_row key cols vs r = r\<lparr>tr_active := True, tr_key_len := length key, tr_next := nullptr,
     tr_key := memcpy_at (replicate SW_TABLE_KEY_SIZE 0) 0 (key @ [0]),
     tr_data := fold apply_value vs (fold column_clear cols (tr_data r))\<rparr>"

lemma fill_row_fresh:
  assumes "cols_ok (tb_column_list t) (tb_item_size t)" "length (tr_data r) = tb_item_size t" "values_ok t vs"
    "is_valid_key_length (length key)"
  shows "fresh_entry t key (fill_row key (tb_column_list t) vs r)"
    "row_view (tb_column_list t) (tr_data (fill_row key (tb_column_list t) vs r)) = spec_apply vs (zero_view (tb_column_list t))"
proof -
  note C = clear_row_view [OF assms(1,2)]
  note A = apply_values_view [OF conjunct1 [OF C] assms(3) [unfolded values_ok_def]]
  have "length key + 1 \<le> SW_TABLE_KEY_SIZE" using assms(4) by (simp add: is_valid_key_length_def)
  then show "fresh_entry t key (fill_row key (tb_column_list t) vs r)"
    using A assms(4) by (auto simp: fresh_entry_def entry_ok_def fill_row_def row_key_def memcpy_at_def)
  show "row_view (tb_column_list t) (tr_data (fill_row key (tb_column_list t) vs r)) = spec_apply vs (zero_view (tb_column_list t))"
    using A C by (simp add: fill_row_def)
qed

lemma insert_root_ok:
  assumes rep: "table_rep t B" and M: "M = table_map t B" "M k = None" and n: "tb_row_num t = wrap32 (card (dom M))"
    and v: "is_valid_key_length (length k)" and vs: "values_ok t vs"
    and na: "\<not> tr_active (row_at t b)" and b: "b = tb_rows t ! hash_index t k"
    and u: "same_table t u" "tb_pool u = tb_pool t" "tb_row_num u = wrap32 (tb_row_num t + 1)"
      "tb_store u = (tb_store t)(b := map_option (fill_row k (tb_column_list t) vs) (tb_store t b))"
  shows "table_abs u (M(k \<mapsto> spec_apply vs (zero_view (tb_column_list t))))" "same_geom t u"
proof -
  note D = bucket_okD [OF bucket_rep [OF rep hash_index_less [OF rep, of k]]]
  have s: "tb_store t b = Some (row_at t b)" using D(6) [of b] D(1,2) b hd_in_set by metis
  let ?r = "fill_row k (tb_column_list t) vs (row_at t b)"
  have st: "tb_store u = (tb_store t)(tb_rows t ! hash_index t k \<mapsto> ?r)" using u(4) s b by simp
  have l: "length (tr_data (row_at t b)) = tb_item_size t" using table_repD(7) [OF rep s] by simp
  note R = fill_row_fresh [OF table_repD(6) [OF rep] l vs v]
  note I = insert_root_rep [OF rep v _ u(1,2) st R(1)]
  have "tb_row_num u = wrap32 (card (dom (M(k \<mapsto> spec_apply vs (zero_view (tb_column_list t))))))"
    using u(3) n abs_insert [of M k] table_dom(2) [OF rep] M by simp
  then show "table_abs u (M(k \<mapsto> spec_apply vs (zero_view (tb_column_list t))))"
    using I na b R(2) M(1) by (intro table_absI [of u B]) auto
  show "same_geom t u" using u(1,2) by (simp add: same_geom_def get_total_slice_num_def)
qed

lemma insert_conflict_ok:
  assumes rep: "table_rep t B" and M: "M = table_map t B" "M k = None" and n: "tb_row_num t = wrap32 (card (dom M))"
    and v: "is_valid_key_length (length k)" and vs: "values_ok t vs"
    and act: "tr_active (row_at t (tb_rows t ! hash_index t k))"
    and pool: "tb_pool t = Some p" "tb_pool u = Some q" "pool_inv q" "same_pool p q" "dom (fixed_live q) = insert x (dom (fixed_live p))"
    and x: "x \<noteq> nullptr" "x \<notin> set (concat B)" "x \<in> dom (tb_store t)"
    and u: "same_table t u" "tb_row_num u = wrap32 (tb_row_num t + 1)"
      "tb_store u = (tb_store t)(x := map_option (fill_row k (tb_column_list t) vs) (tb_store t x),
         last (B ! hash_index t k) := map_option (\<lambda>r. r\<lparr>tr_next := x\<rparr>) (tb_store t (last (B ! hash_index t k))))"
  shows "table_abs u (M(k \<mapsto> spec_apply vs (zero_view (tb_column_list t))))" "same_geom t u"
proof -
  note D = bucket_okD [OF bucket_rep [OF rep hash_index_less [OF rep, of k]]]
  let ?l = "last (B ! hash_index t k)"
  have s: "tb_store t ?l = Some (row_at t ?l)" using D(6) [of ?l] D(1) by simp
  have sx: "tb_store t x = Some (row_at t x)" using x(3) by (auto simp: row_at_def)
  let ?r = "fill_row k (tb_column_list t) vs (row_at t x)"
  have st: "tb_store u = (tb_store t)(x \<mapsto> ?r, ?l \<mapsto> (row_at t ?l)\<lparr>tr_next := x\<rparr>)" using u(3) s sx by simp
  have l: "length (tr_data (row_at t x)) = tb_item_size t" using table_repD(7) [OF rep sx] by simp
  note R = fill_row_fresh [OF table_repD(6) [OF rep] l vs v]
  obtain B' where B': "table_rep u B'" "table_map u B' = (table_map t B)(k \<mapsto> row_view (tb_column_list t) (tr_data ?r))"
    using insert_conflict_rep [OF rep v _ act u(1) pool x st R(1)] M by auto
  have "tb_row_num u = wrap32 (card (dom (M(k \<mapsto> spec_apply vs (zero_view (tb_column_list t))))))"
    using u(2) n abs_insert [of M k] table_dom(2) [OF rep] M by simp
  then show "table_abs u (M(k \<mapsto> spec_apply vs (zero_view (tb_column_list t))))"
    using B' R(2) M(1) by (intro table_absI [of u B']) auto
  show "same_geom t u" using u(1) pool(1,2,4) by (simp add: same_geom_def get_total_slice_num_def same_pool_def)
qed

text \<open>Whether there is room for a new key: its bucket is free, or the pool has a spare row.\<close>

definition room :: "Table \<Rightarrow> (bytes \<Rightarrow> 'v option) \<Rightarrow> bytes \<Rightarrow> bool" where
  "room t M k \<longleftrightarrow> hash_index t k \<notin> hash_index t ` dom M \<or>
     conflicts (hash_index t) M < (case get_total_slice_num t of None \<Rightarrow> 0 | Some n \<Rightarrow> n)"

lemma room_active:
  assumes "table_rep t B" "M = table_map t B" "tb_pool t = Some p"
  shows "room t M k \<longleftrightarrow> \<not> tr_active (row_at t (tb_rows t ! hash_index t k)) \<or> conflicts (hash_index t) M < fp_slice_num p"
  using table_occupied [OF assms(1)] hash_index_less [OF assms(1), of k] assms(2,3)
  by (auto simp: room_def get_total_slice_num_def)

lemma room_same: "same_geom t u \<Longrightarrow> room u M k = room t M k"
  using same_tableD(7) [of t u] by (simp add: room_def same_geom_def)

lemma fill_row_steps:
  "(\<lambda>r. r\<lparr>tr_data := fold apply_value vs (tr_data r)\<rparr>) ((\<lambda>r. r\<lparr>tr_data := fold column_clear cols (tr_data r)\<rparr>)
    (r\<lparr>tr_active := True, tr_key_len := length key, tr_next := nullptr,
       tr_key := memcpy_at (replicate SW_TABLE_KEY_SIZE 0) 0 (key @ [0])\<rparr>)) = fill_row key cols vs r"
  by (simp add: fill_row_def)

definition spec_insert :: "TableColumn list \<Rightarrow> TableValues \<Rightarrow> (bytes \<Rightarrow> (TableColumn \<Rightarrow> bytes option) option) \<Rightarrow> bytes \<Rightarrow>
    bytes \<Rightarrow> (TableColumn \<Rightarrow> bytes option) option" where
  "spec_insert cols vs M k = M(k \<mapsto> spec_apply vs (case M k of None \<Rightarrow> zero_view cols | Some m \<Rightarrow> m))"

lemmas row_simps = init_row_def clear_row_def apply_values_def option.map_comp comp_def fill_row_def [abs_def]

lemma bucket_nonnull:
  assumes "table_rep t B"
  shows "tb_rows t ! hash_index t k \<noteq> nullptr" "last (B ! hash_index t k) \<in> set (concat B)"
proof -
  note D = bucket_okD [OF bucket_rep [OF assms hash_index_less [OF assms, of k]]]
  show "tb_rows t ! hash_index t k \<noteq> nullptr" using D(1,2,4) hd_in_set by metis
  show "last (B ! hash_index t k) \<in> set (concat B)"
    using last_in_set [OF D(1)] set_bucket [of "hash_index t k" B] hash_index_less [OF assms, of k] table_repD(2) [OF assms]
    by (metis subsetD)
qed

lemma apply_values_counter:
  "apply_values vs x (t\<lparr>tb_update_count := n\<rparr>) = (apply_values vs x t)\<lparr>tb_update_count := n\<rparr>"
  by (simp add: apply_values_def row_upd_def)

lemma row_upd_counters [simp]: "tb_insert_count (row_upd f a t) = tb_insert_count t" "tb_update_count (row_upd f a t) = tb_update_count t"
  by (simp_all add: row_upd_def)

lemma locked_index [simp]: "hash_index (row_upd f b t) = hash_index t"
  by (simp add: hash_index_def [abs_def])

text \<open>The new rows of \<open>set\<close> and \<open>add\<close>; the states differ in counters only.\<close>

lemma new_root:
  fixes pid :: nat and k :: bytes
  assumes abs: "table_abs t M" and v: "is_valid_key_length (length k)" and vs: "values_ok t vs"
  defines "b \<equiv> tb_rows t ! hash_index t k"
  defines "t' \<equiv> row_upd (row_lock pid) b t"
  assumes rep: "table_rep t' B" "M = table_map t' B" "M k = None" "\<not> tr_active (row_at t' b)"
    and u: "same_table t' u" "tb_pool u = tb_pool t'" "tb_row_num u = wrap32 (tb_row_num t' + 1)"
      "tb_store u = (tb_store t')(b := map_option (fill_row k (tb_column_list t') vs) (tb_store t' b))"
  shows "table_abs (row_upd row_unlock b u) (spec_insert (tb_column_list t) vs M k) \<and> same_geom t (row_upd row_unlock b u)"
proof -
  have n: "tb_row_num t' = wrap32 (card (dom M))" using locked_num [OF abs] by (simp add: t'_def)
  have U: "table_abs u (M(k \<mapsto> spec_apply vs (zero_view (tb_column_list t'))))" "same_geom t' u"
    by (rule insert_root_ok [OF rep(1-3) n v _ rep(4) _ u]; use vs in \<open>simp add: t'_def b_def\<close>)+
  then show ?thesis
    using finish_unlock [OF U(1) same_geom_trans [OF _ U(2)], of t b] rep(3) by (auto simp: spec_insert_def t'_def)
qed

lemma new_conflict:
  fixes pid :: nat and k :: bytes
  assumes abs: "table_abs t M" and v: "is_valid_key_length (length k)" and vs: "values_ok t vs"
  defines "b \<equiv> tb_rows t ! hash_index t k"
  defines "t' \<equiv> row_upd (row_lock pid) b t"
  assumes rep: "table_rep t' B" "M = table_map t' B" "M k = None" "tr_active (row_at t' b)"
    and p: "p = last (B ! hash_index t' k)"
    and pool: "tb_pool t' = Some pl" "tb_pool u = Some q" "pool_inv q" "same_pool pl q" "dom (fixed_live q) = insert x (dom (fixed_live pl))"
    and x: "x \<noteq> nullptr" "x \<notin> set (concat B)" "x \<in> dom (tb_store t')"
    and u: "same_table t' u" "tb_row_num u = wrap32 (tb_row_num t' + 1)"
      "x \<noteq> p \<Longrightarrow> tb_store u = (tb_store t')(x := map_option (fill_row k (tb_column_list t') vs) (tb_store t' x),
         p := map_option (\<lambda>r. r\<lparr>tr_next := x\<rparr>) (tb_store t' p))"
  shows "table_abs (row_upd row_unlock b u) (spec_insert (tb_column_list t) vs M k) \<and> same_geom t (row_upd row_unlock b u)"
proof -
  have n: "tb_row_num t' = wrap32 (card (dom M))" using locked_num [OF abs] by (simp add: t'_def)
  have "x \<noteq> p" using bucket_nonnull(2) [OF rep(1), of k] x(2) p by auto
  note st = u(3) [OF this, unfolded p]
  have U: "table_abs u (M(k \<mapsto> spec_apply vs (zero_view (tb_column_list t'))))" "same_geom t' u"
    by (rule insert_conflict_ok [OF rep(1-3) n v _ _ pool x u(1,2) st]; use vs rep(4) in \<open>simp add: t'_def b_def\<close>)+
  then show ?thesis
    using finish_unlock [OF U(1) same_geom_trans [OF _ U(2)], of t b] rep(3) by (auto simp: spec_insert_def t'_def)
qed

lemma room_locked:
  fixes pid :: nat
  assumes "table_rep (row_upd (row_lock pid) b t) B" "M = table_map (row_upd (row_lock pid) b t) B"
    "tb_pool (row_upd (row_lock pid) b t) = Some p" "b = tb_rows t ! hash_index t k"
  shows "room t M k \<longleftrightarrow> \<not> tr_active (row_at (row_upd (row_lock pid) b t) b) \<or> conflicts (hash_index t) M < fp_slice_num p"
  using room_active [OF assms(1-3), of k] room_same [of t "row_upd (row_lock pid) b t" M k] assms(4) by simp

lemma Table_set_ok:
  fixes k :: bytes
  assumes abs: "table_abs t M" and vs: "values_ok t vs"
  defines "ok \<equiv> is_valid_key_length (length k) \<and> (M k \<noteq> None \<or> room t M k)"
  shows "\<exists>u. Table_set pid t k vs = Some (u, ok, is_valid_key_length (length k) \<and> \<not> ok) \<and>
    table_abs u (if ok then spec_insert (tb_column_list t) vs M k else M) \<and> same_geom t u"
proof (cases "is_valid_key_length (length k)")
  case False
  then show ?thesis using abs by (simp add: Table_set_def ok_def)
next
  case v: True
  let ?b = "tb_rows t ! hash_index t k" let ?t = "row_upd (row_lock pid) ?b t"
  note L = locked_bucket(1) [OF abs, of k] locked_bucket(2) [OF abs, where pid = pid and k = k]
  from abs v show ?thesis
  proof (cases rule: find_cases [where pid = pid])
    case (found B as x bs l)
    have U: "table_abs (apply_values vs x ?t) (M(k \<mapsto> spec_apply vs (the (M k))))" "same_geom ?t (apply_values vs x ?t)"
      by (rule update_found [OF found(4,5) _ locked_num [OF abs] _ found(6,7,8)]; use found(1) vs in simp)+
    have "Table_set pid t k vs = Some (row_upd row_unlock ?b ((apply_values vs x ?t)
        \<lparr>tb_update_count := wrap64 (tb_update_count ?t + 1)\<rparr>), True, False)"
      using L v found(1-3) by (simp add: Table_set_def Table_set_row_def Let_def apply_values_counter)
    then show ?thesis
      using update_finish [OF U same_geom_upd] v found(1) by (auto simp: ok_def spec_insert_def)
  next
    case (missing B p l)
    obtain pl where P: "tb_pool ?t = Some pl" by (rule table_rep_pool [OF missing(3)])
    have bn: "?b \<noteq> nullptr" using bucket_nonnull(1) [OF missing(3), of k] by simp
    note rm = room_locked [OF missing(3,4) P refl]
    show ?thesis
    proof (cases "tr_active (row_at ?t ?b)")
      case False
      let ?u = "apply_values vs ?b (clear_row ?b ((init_row ?t ?b k)\<lparr>tb_insert_count := wrap64 (tb_insert_count ?t + 1)\<rparr>))"
      have U: "table_abs (row_upd row_unlock ?b ?u) (spec_insert (tb_column_list t) vs M k) \<and> same_geom t (row_upd row_unlock ?b ?u)"
        by (rule new_root [OF abs v vs missing(3,4,1) False]) (simp_all add: row_simps same_table_def)
      have "Table_set pid t k vs = Some (row_upd row_unlock ?b ?u, True, False)"
        using L v missing(1,2) False bn by (simp add: Table_set_def Table_set_row_def Let_def init_row_def)
      then show ?thesis using U v False rm by (auto simp: ok_def)
    next
      case act: True
      let ?t1 = "?t\<lparr>tb_conflict_count := wrap64 (tb_conflict_count ?t + 1),
         tb_conflict_max_level := (if l > tb_conflict_max_level ?t then l else tb_conflict_max_level ?t)\<rparr>"
      have c: "same_core ?t ?t1" by (simp add: same_core_def same_table_def)
      have p: "p = last (B ! hash_index ?t k)" using missing(5) act by simp
      have "tb_pool ?t1 = tb_pool ?t" by simp
      from alloc_row_cases [OF missing(3) P this] show ?thesis
      proof (elim disjE exE conjE)
        assume a: "alloc_row ?t1 = Some (?t1, nullptr)" "conflicts (hash_index ?t) (table_map ?t B) = fp_slice_num pl"
        have "Table_set pid t k vs = Some (row_upd row_unlock ?b ?t1, False, True)"
          using L v missing(1,2) act a(1) bn by (simp add: Table_set_def Table_set_row_def Let_def)
        moreover have "\<not> room t M k" using rm act a(2) missing(4) by simp
        ultimately show ?thesis
          using finish_unlock [OF abs_core [OF c _ L(2)] same_geom_trans [OF same_geom_upd same_geom_core [OF c]]] v missing(1)
          by (auto simp: ok_def)
      next
        fix q x assume a: "alloc_row ?t1 = Some (?t1\<lparr>tb_pool := Some q\<rparr>, x)"
          "conflicts (hash_index ?t) (table_map ?t B) < fp_slice_num pl" "x \<noteq> nullptr" "x \<notin> set (concat B)" "x \<in> dom (tb_store ?t)"
          "pool_inv q" "same_pool pl q" "dom (fixed_live q) = insert x (dom (fixed_live pl))"
        let ?t2 = "row_upd (\<lambda>r. r\<lparr>tr_next := x\<rparr>) p (init_row (?t1\<lparr>tb_pool := Some q\<rparr>) x k)"
        let ?u = "apply_values vs x (clear_row x (?t2\<lparr>tb_insert_count := wrap64 (tb_insert_count ?t2 + 1)\<rparr>))"
        have U: "table_abs (row_upd row_unlock ?b ?u) (spec_insert (tb_column_list t) vs M k) \<and> same_geom t (row_upd row_unlock ?b ?u)"
          by (rule new_conflict [OF abs v vs missing(3,4,1) act p P _ a(6-8) a(3-5)])
            (simp_all add: row_simps same_table_def fun_upd_twist)
        have "Table_set pid t k vs = Some (row_upd row_unlock ?b ?u, True, False)"
          using L v missing(1,2) act a(1,3) by (simp add: Table_set_def Table_set_row_def Let_def)
        moreover have "room t M k" using rm a(2) missing(4) by simp
        ultimately show ?thesis using U v by (auto simp: ok_def)
      qed
    qed
  qed
qed

lemma Table_add_ok:
  fixes k :: bytes
  assumes abs: "table_abs t M" and vs: "values_ok t vs"
  defines "ok \<equiv> is_valid_key_length (length k) \<and> M k = None \<and> room t M k"
  shows "\<exists>u. Table_add pid t k vs = Some (u, ok, is_valid_key_length (length k) \<and> M k = None \<and> \<not> ok) \<and>
    table_abs u (if ok then spec_insert (tb_column_list t) vs M k else M) \<and> same_geom t u"
proof (cases "is_valid_key_length (length k)")
  case False
  then show ?thesis using abs by (simp add: Table_add_def ok_def)
next
  case v: True
  let ?b = "tb_rows t ! hash_index t k" let ?t = "row_upd (row_lock pid) ?b t"
  note L = locked_bucket(1) [OF abs, of k] locked_bucket(2) [OF abs, where pid = pid and k = k]
  from abs v show ?thesis
  proof (cases rule: find_cases [where pid = pid])
    case (found B as x bs l)
    then show ?thesis using L v finish_unlock [OF L(2) same_geom_upd] by (simp add: Table_add_def Let_def ok_def)
  next
    case (missing B p l)
    obtain pl where P: "tb_pool ?t = Some pl" by (rule table_rep_pool [OF missing(3)])
    note rm = room_locked [OF missing(3,4) P refl]
    show ?thesis
    proof (cases "tr_active (row_at ?t ?b)")
      case False
      let ?w = "apply_values vs ?b (clear_row ?b (init_row ?t ?b k))"
      let ?u = "?w\<lparr>tb_insert_count := wrap64 (tb_insert_count ?w + 1)\<rparr>"
      have U: "table_abs (row_upd row_unlock ?b ?u) (spec_insert (tb_column_list t) vs M k) \<and> same_geom t (row_upd row_unlock ?b ?u)"
        by (rule new_root [OF abs v vs missing(3,4,1) False]) (simp_all add: row_simps same_table_def)
      have "Table_add pid t k vs = Some (row_upd row_unlock ?b ?u, True, False)"
        using L v missing(1,2) False by (simp add: Table_add_def Let_def)
      then show ?thesis using U v False rm missing(1) by (auto simp: ok_def)
    next
      case act: True
      have p: "p = last (B ! hash_index ?t k)" using missing(5) act by simp
      from alloc_row_cases [OF missing(3) P refl] show ?thesis
      proof (elim disjE exE conjE)
        assume a: "alloc_row ?t = Some (?t, nullptr)" "conflicts (hash_index ?t) (table_map ?t B) = fp_slice_num pl"
        have "Table_add pid t k vs = Some (row_upd row_unlock ?b ?t, False, True)"
          using L v missing(1,2) act a(1) by (simp add: Table_add_def Let_def)
        moreover have "\<not> room t M k" using rm act a(2) missing(4) by simp
        ultimately show ?thesis using finish_unlock [OF L(2) same_geom_upd] v missing(1) by (auto simp: ok_def)
      next
        fix q x assume a: "alloc_row ?t = Some (?t\<lparr>tb_pool := Some q\<rparr>, x)"
          "conflicts (hash_index ?t) (table_map ?t B) < fp_slice_num pl" "x \<noteq> nullptr" "x \<notin> set (concat B)" "x \<in> dom (tb_store ?t)"
          "pool_inv q" "same_pool pl q" "dom (fixed_live q) = insert x (dom (fixed_live pl))"
        let ?t2 = "row_upd (\<lambda>r. r\<lparr>tr_next := x\<rparr>) p (init_row (?t\<lparr>tb_pool := Some q\<rparr>) x k)"
        let ?t3 = "?t2\<lparr>tb_conflict_count := wrap64 (tb_conflict_count ?t2 + 1),
          tb_conflict_max_level := (if l > tb_conflict_max_level ?t2 then l else tb_conflict_max_level ?t2)\<rparr>"
        let ?w = "apply_values vs x (clear_row x ?t3)"
        let ?u = "?w\<lparr>tb_insert_count := wrap64 (tb_insert_count ?w + 1)\<rparr>"
        have U: "table_abs (row_upd row_unlock ?b ?u) (spec_insert (tb_column_list t) vs M k) \<and> same_geom t (row_upd row_unlock ?b ?u)"
          by (rule new_conflict [OF abs v vs missing(3,4,1) act p P _ a(6-8) a(3-5)])
            (simp_all add: row_simps same_table_def fun_upd_twist)
        have "Table_add pid t k vs = Some (row_upd row_unlock ?b ?u, True, False)"
          using L v missing(1,2) act a(1,3) by (simp add: Table_add_def Let_def)
        moreover have "room t M k" using rm a(2) missing(4) by simp
        ultimately show ?thesis using U v missing(1) by (auto simp: ok_def)
      qed
    qed
  qed
qed

text \<open>\<open>get\<close>: the row handed out, under the bucket's lock, holds the values of the key.\<close>

lemma Table_get_ok:
  assumes abs: "table_abs t M"
  shows "\<exists>t' row rowlock. Table_get pid t k = Some (t', row, rowlock) \<and> table_abs t' M \<and> same_geom t t' \<and>
    (rowlock \<noteq> nullptr \<longleftrightarrow> is_valid_key_length (length k)) \<and>
    M k = (if row = nullptr then None else Some (row_view (tb_column_list t) (tr_data (row_at t' row))))"
proof (cases "is_valid_key_length (length k)")
  case False
  then show ?thesis using abs invalid_key [OF abs] by (simp add: Table_get_def)
next
  case v: True
  let ?b = "tb_rows t ! hash_index t k" let ?t = "row_upd (row_lock pid) ?b t"
  note L = locked_bucket(1) [OF abs, of k] locked_bucket(2) [OF abs, where pid = pid and k = k]
  from abs v show ?thesis
  proof (cases rule: find_cases [where pid = pid])
    case (missing B p l)
    then show ?thesis using L v bucket_nonnull(1) [OF missing(3), of k] by (simp add: Table_get_def Let_def)
  next
    case (found B as x bs l)
    then show ?thesis using L v bucket_nonnull(1) [OF found(4), of k] by (simp add: Table_get_def Let_def)
  qed
qed

lemma Table_exists_ok:
  assumes abs: "table_abs t M"
  shows "\<exists>u. Table_exists pid t k = Some (u, M k \<noteq> None) \<and> table_abs u M \<and> same_geom t u"
proof -
  obtain t' row rowlock where G: "Table_get pid t k = Some (t', row, rowlock)" "table_abs t' M" "same_geom t t'"
    "M k = (if row = nullptr then None else Some (row_view (tb_column_list t) (tr_data (row_at t' row))))"
    using Table_get_ok [OF abs] by blast
  then show ?thesis
    using finish_unlock [OF G(2,3)] by (cases "rowlock = nullptr") (auto simp: Table_exists_def)
qed

section \<open>Creating a table\<close>

lemma row_bits_spec:
  "row_bits i n = (if 2 ^ i < n then row_bits (i + 1) n else i)"
  by (rule row_bits.simps)

lemma row_bits_least: "n \<le> 2 ^ row_bits i n" "i \<le> row_bits i n" "row_bits i n = i \<or> 2 ^ (row_bits i n - 1) < n"
proof (induction i n rule: row_bits.induct)
  case (1 i n)
  case 1 then show ?case using \<open>2 ^ i < n \<Longrightarrow> n \<le> 2 ^ row_bits (i + 1) n\<close> row_bits_spec [of i n] by auto
next
  case (1 i n)
  case 2 then show ?case using \<open>2 ^ i < n \<Longrightarrow> i + 1 \<le> row_bits (i + 1) n\<close> row_bits_spec [of i n] by auto
next
  case (1 i n)
  case 3 then show ?case
    using \<open>2 ^ i < n \<Longrightarrow> row_bits (i + 1) n = i + 1 \<or> 2 ^ (row_bits (i + 1) n - 1) < n\<close> row_bits_spec [of i n] by auto
qed

lemma table_rows_size_pow: "\<exists>k. 6 \<le> k \<and> k \<le> 31 \<and> table_rows_size n = 2 ^ k"
proof (cases "n \<ge> SW_TABLE_MAX_ROW_SIZE")
  case True
  then show ?thesis by (intro exI [of _ 31]) (simp add: table_rows_size_def SW_TABLE_MAX_ROW_SIZE_def)
next
  case False
  let ?k = "row_bits 6 n"
  have "?k \<le> 31"
  proof (rule ccontr)
    assume k: "\<not> ?k \<le> 31"
    then have "2 ^ (?k - 1) < n" using row_bits_least(3) [of 6 n] by auto
    moreover have "(2::nat) ^ 31 \<le> 2 ^ (?k - 1)" using k by (intro power_increasing) auto
    ultimately show False using False by (simp add: SW_TABLE_MAX_ROW_SIZE_def)
  qed
  then show ?thesis using row_bits_least(2) [of 6 n] False by (intro exI [of _ ?k]) (simp add: table_rows_size_def)
qed

text \<open>A table before \<open>create\<close>.\<close>

definition fresh_table :: "Table \<Rightarrow> bool" where
  "fresh_table t \<longleftrightarrow> \<not> tb_created t \<and> (\<exists>k. 6 \<le> k \<and> k \<le> 31 \<and> tb_size t = 2 ^ k) \<and> tb_mask t = tb_size t - 1 \<and>
     SW_TABLE_CONFLICT_PROPORTION \<le> tb_conflict_proportion t \<and> tb_conflict_proportion t \<le> 1 \<and>
     tb_row_num t = 0 \<and> cols_ok (tb_column_list t) (tb_item_size t)"

lemma Table_make_fresh: "Table_make mem h n p = Some t \<Longrightarrow> fresh_table t"
  using table_rows_size_pow [of n]
  by (auto simp: Table_make_def fresh_table_def cols_ok_def table_proportion_def SW_TABLE_CONFLICT_PROPORTION_def
      conflict_proportion_float_def split: if_splits)

lemma add_column_cols:
  assumes "cols_ok cols n" "col_index c = n" "col_size c < 2 ^ 32"
    "if col_type c = TYPE_STRING then 4 \<le> col_size c else col_size c = 8"
  shows "cols_ok (cols @ [c]) (n + col_size c)"
  unfolding cols_ok_def
proof (intro conjI ballI impI)
  fix x assume x: "x \<in> set (cols @ [c])"
  show "col_index x + col_size x \<le> n + col_size c" "col_size x < 2 ^ 32"
    "if col_type x = TYPE_STRING then 4 \<le> col_size x else col_size x = 8"
    using x cols_okD(1-4) [OF assms(1), of x] assms(2-4) by (auto split: if_splits)
  fix y assume y: "y \<in> set (cols @ [c])" and xy: "x \<noteq> y"
  show "col_index x + col_size x \<le> col_index y \<or> col_index y + col_size y \<le> col_index x"
  proof (cases "x = c \<or> y = c")
    case True
    then show ?thesis
      using x y xy cols_okD(1) [OF assms(1), of x] cols_okD(1) [OF assms(1), of y] assms(2) by auto
  next
    case False
    then show ?thesis using x y xy cols_okD(5) [OF assms(1), of x y] by auto
  qed
qed

lemma Table_add_column_fresh:
  assumes "fresh_table t"
  shows "fresh_table (fst (Table_add_column t name ty sz))"
proof (cases "snd (Table_add_column t name ty sz)")
  case False
  then have "fst (Table_add_column t name ty sz) = t"
    by (auto simp: Table_add_column_def Let_def split: option.splits if_splits)
  then show ?thesis using assms by simp
next
  case True
  then obtain y where y: "column_type_of ty = Some y" "\<not> (y = TYPE_STRING \<and> sz > (2 ^ 32 - 1) - sizeof_TableStringLength)"
    "fst (Table_add_column t name ty sz) = t\<lparr>tb_item_size := tb_item_size t + col_size (TableColumn_new name y sz),
       tb_column_map := (tb_column_map t)(name \<mapsto> (TableColumn_new name y sz)\<lparr>col_index := tb_item_size t\<rparr>),
       tb_column_list := tb_column_list t @ [(TableColumn_new name y sz)\<lparr>col_index := tb_item_size t\<rparr>]\<rparr>"
    by (auto simp: Table_add_column_def Let_def split: option.splits if_splits)
  let ?c = "(TableColumn_new name y sz)\<lparr>col_index := tb_item_size t\<rparr>"
  have "col_size ?c < 2 ^ 32" "if col_type ?c = TYPE_STRING then 4 \<le> col_size ?c else col_size ?c = 8"
    using y(2) by (auto simp: TableColumn_new_def sizeof_TableStringLength_def wrap32_def split: column_type.splits)
  then have "cols_ok (tb_column_list t @ [?c]) (tb_item_size t + col_size ?c)"
    using assms by (intro add_column_cols) (auto simp: fresh_table_def)
  then show ?thesis using assms unfolding y(3) by (simp add: fresh_table_def)
qed

lemma conflict_rows:
  assumes "fresh_table t"
  shows "12 \<le> conflict_row_num t" "conflict_row_num t \<le> tb_size t"
proof -
  obtain k where k: "6 \<le> k" "tb_size t = 2 ^ k" using assms by (auto simp: fresh_table_def)
  then have s: "64 \<le> tb_size t" using power_increasing [of 6 k "2::nat"] by simp
  have p: "3602879701896397 / 18014398509481984 \<le> tb_conflict_proportion t" "tb_conflict_proportion t \<le> 1"
    using assms by (auto simp: fresh_table_def SW_TABLE_CONFLICT_PROPORTION_def)
  have "(12 :: rat) \<le> 64 * (3602879701896397 / 18014398509481984)" by simp
  also have "\<dots> \<le> of_nat (tb_size t) * tb_conflict_proportion t" using s p by (intro mult_mono) auto
  finally have "12 \<le> \<lfloor>of_nat (tb_size t) * tb_conflict_proportion t\<rfloor>" by (simp add: le_floor_iff)
  then show "12 \<le> conflict_row_num t" unfolding conflict_row_num_def by (metis nat_mono nat_numeral)
  have "of_nat (tb_size t) * tb_conflict_proportion t \<le> of_nat (tb_size t) * 1" using p by (intro mult_left_mono) auto
  then have "\<lfloor>of_nat (tb_size t) * tb_conflict_proportion t\<rfloor> \<le> int (tb_size t)" by (simp add: floor_le_iff)
  then show "conflict_row_num t \<le> tb_size t" by (simp add: conflict_row_num_def)
qed

text \<open>\<open>calc_memory_size\<close> is exact, or 0 when the exact size does not fit.\<close>

lemma size_add_Some: "size_add_overflow a b = Some c \<Longrightarrow> a < 2 ^ 64 \<Longrightarrow> c = a + b \<and> c < 2 ^ 64"
  by (auto simp: size_add_overflow_def wrap64_def split: if_splits)

lemma size_mul_Some:
  assumes "size_mul_overflow a b = Some c"
  shows "c = a * b \<and> c < 2 ^ 64"
proof -
  have "a = 0 \<or> b \<le> (2 ^ 64 - 1) div a" and c: "c = wrap64 (a * b)" using assms by (auto simp: size_mul_overflow_def split: if_splits)
  then have "a * b \<le> a * ((2 ^ 64 - 1) div a)" by auto
  also have "\<dots> \<le> 2 ^ 64 - 1" by simp
  finally have "a * b < 2 ^ 64" by simp
  then show ?thesis using c by simp
qed

lemma calc_memory_exact:
  assumes "calc_memory_size t \<noteq> 0" "tb_size t < 2 ^ 64" "tb_item_size t < 2 ^ 63"
  shows "calc_memory_size t = (tb_size t + conflict_row_num t) * row_memory_size t +
      (conflict_row_num t * sizeof_struct_slice + sizeof_struct_impl) + tb_size t * 8"
    "calc_memory_size t < 2 ^ 64"
proof -
  obtain rn rs m1 p1 p2 m2 ri m3 where c: "size_add_overflow (tb_size t) (conflict_row_num t) = Some rn"
    "size_add_overflow sizeof_TableRow (tb_item_size t) = Some rs"
    "size_mul_overflow rn (SW_MEM_ALIGNED_SIZE rs) = Some m1" "size_mul_overflow (rn - tb_size t) sizeof_struct_slice = Some p1"
    "size_add_overflow p1 sizeof_struct_impl = Some p2" "size_add_overflow m1 p2 = Some m2"
    "size_mul_overflow (tb_size t) 8 = Some ri" "size_add_overflow m2 ri = Some m3" "calc_memory_size t = m3"
    using assms(1) by (auto simp: calc_memory_size_def Let_def split: option.splits)
  note e = size_add_Some [OF c(1) assms(2)] size_add_Some [OF c(2)] size_mul_Some [OF c(3)] size_mul_Some [OF c(4)]
    size_mul_Some [OF c(7)]
  note e2 = size_add_Some [OF c(5)] size_add_Some [OF c(6)] size_add_Some [OF c(8)]
  have rs: "rs = sizeof_TableRow + tb_item_size t" "row_memory_size t = SW_MEM_ALIGNED_SIZE rs"
    using e(2) by (auto simp: sizeof_TableRow_def row_memory_size_def)
  show "calc_memory_size t = (tb_size t + conflict_row_num t) * row_memory_size t +
      (conflict_row_num t * sizeof_struct_slice + sizeof_struct_impl) + tb_size t * 8"
    "calc_memory_size t < 2 ^ 64"
    using e e2 c(9) rs by auto
qed

lemma row_size:
  assumes "tb_item_size t < 2 ^ 62"
  shows "sizeof_TableRow + tb_item_size t \<le> row_memory_size t" "8 dvd row_memory_size t"
proof -
  have w: "wrap64 (sizeof_TableRow + tb_item_size t) = sizeof_TableRow + tb_item_size t" "sizeof_TableRow + tb_item_size t < 2 ^ 63"
    using assms by (auto simp: sizeof_TableRow_def)
  show "sizeof_TableRow + tb_item_size t \<le> row_memory_size t" "8 dvd row_memory_size t"
    using aligned8_bounds(1,3) [OF w(2)] by (simp_all add: row_memory_size_def w(1))
qed

text \<open>The conflict pool in the rest of the table's memory has exactly the rows asked for.\<close>

lemma FixedPool_new_at_ok:
  assumes "8 dvd ss" "0 < ss" "ss < 2 ^ 32" "memory \<noteq> nullptr" "2 \<le> n" "n < 2 ^ 32"
    "sz = n * (sizeof_struct_slice + ss) + sizeof_struct_impl"
  shows "\<exists>p. FixedPool_new_at ss memory sz shared = Inr p \<and> pool_shape p \<and>
    pool_lists p (rev (map (slice_addr p) [0..<n])) [] \<and> fp_slice_num p = n \<and> fp_slice_size p = ss \<and>
    fp_memory p = memory + sizeof_struct_impl \<and> fp_size p = sz - sizeof_struct_impl"
proof -
  obtain q where q: "ss = 8 * q" using assms(1) by (elim dvdE)
  have "(ss + 7) div 8 * 8 = ss" using q by simp
  then have al: "SW_MEM_ALIGNED_SIZE ss = ss" using aligned8 [of ss] assms(3) by simp
  have b: "ss \<le> 2 ^ 32 - 8" using q assms(3) by simp
  have d: "n * (sizeof_struct_slice + ss) div (ss + sizeof_struct_slice) = n" using assms(2) by (simp add: add.commute)
  let ?s = "\<lparr>fp_memory = memory + sizeof_struct_impl, fp_size = n * (sizeof_struct_slice + ss), fp_head = nullptr, fp_tail = nullptr,
           fp_slice_num = n, fp_slice_use = 0, fp_slice_size = ss, fp_shared = shared,
           fp_allocated = False, fp_slices = (\<lambda>_. None)\<rparr>"
  have "0 < n * (sizeof_struct_slice + ss)" using assms(2,5) by simp
  then have "FixedPool_new_at ss memory sz shared = Inr (pool_init ?s)"
    using al b d assms(3-7) by (simp add: FixedPool_new_at_def SW_DEFAULT_ALIGNMENT_def Let_def)
  then show ?thesis
    using pool_init_ok [of ?s] assms
    by (auto simp: pool_shape_def same_pool_def slice_addr_def [abs_def] sizeof_struct_impl_def)
qed

lemma new_pool_live: "pool_lists p idle [] \<Longrightarrow> fixed_live p = (\<lambda>_. None)"
  by (auto simp: fun_eq_iff fixed_live_lists)

text \<open>The state after a successful \<open>create\<close> on memory \<open>m\<close> with pool \<open>p\<close>.\<close>

definition created_table :: "Table \<Rightarrow> addr \<Rightarrow> FixedPool \<Rightarrow> Table" where
  "created_table t m p =
     (let rows = map (\<lambda>i. m + tb_size t * 8 + row_memory_size t * i) [0..<tb_size t] in
      t\<lparr>tb_memory := m, tb_rows := rows,
        tb_store := (\<lambda>a. if a \<in> set rows \<or> a - sizeof_struct_slice \<in> dom (fp_slices p) \<and> sizeof_struct_slice \<le> a
                        then Some (empty_row t) else None),
        tb_pool := Some p, tb_absolute_index := 0, tb_collision_index := 0, tb_current := empty_row t,
        tb_memory_size := calc_memory_size t, tb_created := True\<rparr>)"

lemma created_fields:
  "tb_size (created_table t m p) = tb_size t" "tb_mask (created_table t m p) = tb_mask t" "tb_pool (created_table t m p) = Some p"
  "tb_column_list (created_table t m p) = tb_column_list t" "tb_item_size (created_table t m p) = tb_item_size t"
  "tb_row_num (created_table t m p) = tb_row_num t" "tb_hash_func (created_table t m p) = tb_hash_func t"
  "tb_rows (created_table t m p) = map (\<lambda>i. m + tb_size t * 8 + row_memory_size t * i) [0..<tb_size t]"
  by (simp_all add: created_table_def Let_def)

lemma pool_rows_dom:
  assumes "pool_lists p idle busy"
  shows "a - sizeof_struct_slice \<in> dom (fp_slices p) \<and> sizeof_struct_slice \<le> a \<longleftrightarrow> a \<in> pool_rows p"
proof -
  have "dom (fp_slices p) = slice_addr p ` {..<fp_slice_num p}" using pool_listsD(5,6) [OF assms] by simp
  then show ?thesis by (force simp: pool_rows_def)
qed

lemma created_rep:
  assumes fresh: "fresh_table t" and item: "tb_item_size t < 2 ^ 62" and m: "m \<noteq> nullptr"
    and p: "pool_shape p" "pool_lists p idle []" "fp_memory p = m + tb_size t * 8 + row_memory_size t * tb_size t + sizeof_struct_impl"
  shows "table_rep (created_table t m p) (map (\<lambda>a. [a]) (tb_rows (created_table t m p)))"
    "table_map (created_table t m p) (map (\<lambda>a. [a]) (tb_rows (created_table t m p))) = (\<lambda>_. None)"
proof -
  let ?u = "created_table t m p" and ?r = "row_memory_size t"
  let ?rows = "tb_rows ?u"
  have r0: "0 < ?r" using row_size(1) [OF item] by (simp add: sizeof_TableRow_def)
  have len: "length ?rows = tb_size t" by (simp add: created_fields)
  have st: "tb_store ?u a = (if a \<in> set ?rows \<or> a \<in> pool_rows p then Some (empty_row t) else None)" for a
    unfolding pool_rows_dom [OF p(2), symmetric] by (simp add: created_table_def Let_def)
  have row: "row_at ?u a = empty_row t" if "a \<in> set ?rows" for a using that by (simp add: row_at_def st)
  have na: "\<not> tr_active (empty_row t)" "tr_next (empty_row t) = nullptr" by (simp_all add: empty_row_def zero_row_def)
  have nth: "?rows ! i \<in> set ?rows" "?rows ! i \<noteq> nullptr" if "i < tb_size t" for i
    using that m len by (auto simp: created_fields)
  have ok: "bucket_ok ?u i (map (\<lambda>a. [a]) ?rows ! i)" if "i < tb_size t" for i
    using nth [OF that] that len row na by (simp add: bucket_ok_def st)
  have far: "a < pool_base" if ra: "a \<in> set ?rows" "pool_base = fp_memory p + sizeof_struct_slice" for a pool_base
  proof -
    obtain i where i: "i < tb_size t" "a = m + tb_size t * 8 + ?r * i" using ra(1) by (auto simp: created_fields)
    then have "?r * i < ?r * tb_size t" using r0 by simp
    then show ?thesis using i(2) ra(2) p(3) by linarith
  qed
  show "table_rep ?u (map (\<lambda>a. [a]) ?rows)"
  proof (rule table_repI [where p = p])
    show "\<exists>k\<le>31. tb_size ?u = 2 ^ k" "tb_mask ?u = tb_size ?u - 1" "cols_ok (tb_column_list ?u) (tb_item_size ?u)"
      using fresh by (auto simp: fresh_table_def created_fields)
    show "bucket_ok ?u i (map (\<lambda>a. [a]) ?rows ! i)" if "i < tb_size ?u" for i using ok that by (simp add: created_fields)
    have "distinct ?rows" using r0 by (auto simp: created_fields distinct_map inj_on_def)
    then show "distinct (concat (map (\<lambda>a. [a]) ?rows))" by (simp add: comp_def)
    show "dom (fixed_live p) = set (concat (map tl (map (\<lambda>a. [a]) ?rows)))"
      by (simp add: new_pool_live [OF p(2)] comp_def)
    show "set ?rows \<inter> pool_rows p = {}" using far by (force simp: pool_rows_def slice_addr_def)
    show "dom (tb_store ?u) = set ?rows \<union> pool_rows p" by (auto simp: dom_def st)
    fix a r assume "tb_store ?u a = Some r"
    then show "length (tr_data r) = tb_item_size ?u \<and> length (tr_key r) = SW_TABLE_KEY_SIZE"
      by (auto simp: st empty_row_def zero_row_def created_fields split: if_splits)
  qed (use len p in \<open>auto simp: created_fields pool_inv_def\<close>)
  then have "hash_index ?u k < tb_size t" for k using hash_index_less by (metis created_fields(1))
  then show "table_map ?u (map (\<lambda>a. [a]) ?rows) = (\<lambda>_. None)"
    using nth(1) row na len by (auto simp: fun_eq_iff table_map_def bucket_entries_def)
qed

text \<open>\<open>create\<close> succeeds exactly when the memory size fits, and then gives an empty table whose conflict
  pool has \<open>conflict_row_num\<close> rows.\<close>

lemma Table_create_ok:
  assumes fresh: "fresh_table t" and item: "tb_item_size t < 2 ^ 62"
    and size: "calc_memory_size t \<noteq> 0" "row_memory_size t < 2 ^ 32"
    and mem: "shm (calc_memory_size t) \<noteq> nullptr" "iter_mem \<noteq> nullptr"
  shows "\<exists>u. Table_create shm iter_mem t = Inr (u, True) \<and> table_abs u (\<lambda>_. None) \<and>
    get_total_slice_num u = Some (conflict_row_num t) \<and> tb_column_list u = tb_column_list t \<and> tb_hash_func u = tb_hash_func t \<and>
    tb_mask u = tb_mask t \<and> tb_absolute_index u = 0 \<and> tb_collision_index u = 0"
proof -
  let ?m = "shm (calc_memory_size t)" and ?r = "row_memory_size t" and ?n = "conflict_row_num t"
  obtain k where k: "k \<le> 31" "tb_size t = 2 ^ k" using fresh by (auto simp: fresh_table_def)
  then have s: "tb_size t \<le> 2 ^ 31" using power_increasing [of k 31 "2::nat"] by simp
  note c = conflict_rows [OF fresh]
  have calc: "calc_memory_size t = (tb_size t + ?n) * ?r + (?n * sizeof_struct_slice + sizeof_struct_impl) + tb_size t * 8"
    using calc_memory_exact [OF size(1)] s item by simp
  let ?pm = "?m + tb_size t * 8 + ?r * tb_size t"
  have sz: "calc_memory_size t - tb_size t * 8 - ?r * tb_size t = ?n * (sizeof_struct_slice + ?r) + sizeof_struct_impl"
    unfolding calc by (simp add: algebra_simps)
  have r: "8 dvd ?r" "0 < ?r" using row_size [OF item] by (auto simp: sizeof_TableRow_def)
  obtain p where p: "FixedPool_new_at ?r ?pm (?n * (sizeof_struct_slice + ?r) + sizeof_struct_impl) True = Inr p" "pool_shape p"
    "pool_lists p (rev (map (slice_addr p) [0..<?n])) []" "fp_slice_num p = ?n" "fp_memory p = ?pm + sizeof_struct_impl"
    using FixedPool_new_at_ok [OF r size(2), of ?pm ?n _ True] mem(1) c s by auto
  have "Table_create shm iter_mem t = Inr (created_table t ?m p, True)"
    using fresh size mem p(1) sz by (simp add: Table_create_def Let_def created_table_def fresh_table_def add.assoc)
  moreover have "table_abs (created_table t ?m p) (\<lambda>_. None)"
    using created_rep [OF fresh item mem(1) p(2,3,5)] fresh
    by (intro table_absI) (auto simp: created_fields fresh_table_def wrap32_def)
  ultimately show ?thesis using p(4) by (auto simp: get_total_slice_num_def created_table_def Let_def)
qed

section \<open>Runs of operations\<close>

text \<open>A read is \<open>get\<close>, a copy of the row's data, and the release of the bucket's lock by the caller.\<close>

definition table_read :: "nat \<Rightarrow> Table \<Rightarrow> bytes \<Rightarrow> (Table \<times> bytes option) option" where
  "table_read pid t k =
     map_option (\<lambda>(t, row, rowlock). (if rowlock \<noteq> nullptr then row_upd row_unlock rowlock t else t,
       if row \<noteq> nullptr then Some (tr_data (row_at t row)) else None)) (Table_get pid t k)"

datatype table_op =
    TRead bytes
  | TExists bytes
  | TSet bytes TableValues
  | TAdd bytes TableValues
  | TUpdate bytes TableValues
  | TCmpset bytes TableValues TableValues
  | TCmpdel bytes TableValues
  | TGetdel bytes "TableColumn option"
  | TDel bytes

datatype table_res = RRow "bytes option" | RBool bool | RSpace bool bool | RData bool bytes

fun table_exec :: "nat \<Rightarrow> Table \<Rightarrow> table_op \<Rightarrow> (Table \<times> table_res) option" where
  "table_exec pid t (TRead k) = map_option (\<lambda>(u, r). (u, RRow r)) (table_read pid t k)"
| "table_exec pid t (TExists k) = map_option (\<lambda>(u, r). (u, RBool r)) (Table_exists pid t k)"
| "table_exec pid t (TSet k vs) = map_option (\<lambda>(u, r, s). (u, RSpace r s)) (Table_set pid t k vs)"
| "table_exec pid t (TAdd k vs) = map_option (\<lambda>(u, r, s). (u, RSpace r s)) (Table_add pid t k vs)"
| "table_exec pid t (TUpdate k vs) = map_option (\<lambda>(u, r). (u, RBool r)) (Table_update pid t k vs)"
| "table_exec pid t (TCmpset k es vs) = map_option (\<lambda>(u, r). (u, RBool r)) (Table_cmpset pid t k es vs)"
| "table_exec pid t (TCmpdel k es) = map_option (\<lambda>(u, r). (u, RBool r)) (Table_cmpdel pid t k es)"
| "table_exec pid t (TGetdel k c) = map_option (\<lambda>(u, r, d). (u, RData r d)) (Table_getdel pid t k c)"
| "table_exec pid t (TDel k) = map_option (\<lambda>(u, r). (u, RBool r)) (Table_del pid t k)"

fun table_execs :: "Table \<Rightarrow> (nat \<times> table_op) list \<Rightarrow> (Table \<times> table_res list) option" where
  "table_execs t [] = Some (t, [])"
| "table_execs t ((pid, c) # cs) =
     (case table_exec pid t c of None \<Rightarrow> None
      | Some (u, r) \<Rightarrow> map_option (\<lambda>(v, rs). (v, r # rs)) (table_execs u cs))"

text \<open>The contract of the arguments: columns of the table, and 8 bytes for a number.\<close>

fun table_op_ok :: "Table \<Rightarrow> table_op \<Rightarrow> bool" where
  "table_op_ok t (TSet k vs) \<longleftrightarrow> values_ok t vs"
| "table_op_ok t (TAdd k vs) \<longleftrightarrow> values_ok t vs"
| "table_op_ok t (TUpdate k vs) \<longleftrightarrow> values_ok t vs"
| "table_op_ok t (TCmpset k es vs) \<longleftrightarrow> columns_ok t es \<and> values_ok t vs"
| "table_op_ok t (TCmpdel k es) \<longleftrightarrow> columns_ok t es"
| "table_op_ok t (TGetdel k c) \<longleftrightarrow> (case c of None \<Rightarrow> True | Some c \<Rightarrow> c \<in> set (tb_column_list t))"
| "table_op_ok t _ \<longleftrightarrow> True"

text \<open>The specification: a finite map from keys to rows of values. \<open>t\<close> gives the geometry (columns, hash,
  number of conflict rows).\<close>

type_synonym table_model = "bytes \<Rightarrow> (TableColumn \<Rightarrow> bytes option) option"

definition matching :: "table_model \<Rightarrow> bytes \<Rightarrow> TableValues \<Rightarrow> bool" where
  "matching M k es \<longleftrightarrow> M k \<noteq> None \<and> list_all (spec_match (the (M k))) es"

fun spec_next :: "Table \<Rightarrow> table_model \<Rightarrow> table_op \<Rightarrow> table_model" where
  "spec_next t M (TRead k) = M"
| "spec_next t M (TExists k) = M"
| "spec_next t M (TSet k vs) =
     (if is_valid_key_length (length k) \<and> (M k \<noteq> None \<or> room t M k) then spec_insert (tb_column_list t) vs M k else M)"
| "spec_next t M (TAdd k vs) =
     (if is_valid_key_length (length k) \<and> M k = None \<and> room t M k then spec_insert (tb_column_list t) vs M k else M)"
| "spec_next t M (TUpdate k vs) = (if M k = None then M else M(k \<mapsto> spec_apply vs (the (M k))))"
| "spec_next t M (TCmpset k es vs) = (if matching M k es then M(k \<mapsto> spec_apply vs (the (M k))) else M)"
| "spec_next t M (TCmpdel k es) = (if matching M k es then M(k := None) else M)"
| "spec_next t M (TGetdel k c) = M(k := None)"
| "spec_next t M (TDel k) = M(k := None)"

fun spec_res :: "Table \<Rightarrow> table_model \<Rightarrow> table_op \<Rightarrow> table_res \<Rightarrow> bool" where
  "spec_res t M (TRead k) r \<longleftrightarrow> (\<exists>d. r = RRow d \<and> M k = map_option (row_view (tb_column_list t)) d)"
| "spec_res t M (TExists k) r \<longleftrightarrow> r = RBool (M k \<noteq> None)"
| "spec_res t M (TSet k vs) r \<longleftrightarrow> (let ok = M k \<noteq> None \<or> room t M k; v = is_valid_key_length (length k) in r = RSpace (v \<and> ok) (v \<and> \<not> ok))"
| "spec_res t M (TAdd k vs) r \<longleftrightarrow> (let v = is_valid_key_length (length k) \<and> M k = None in r = RSpace (v \<and> room t M k) (v \<and> \<not> room t M k))"
| "spec_res t M (TUpdate k vs) r \<longleftrightarrow> r = RBool (M k \<noteq> None)"
| "spec_res t M (TCmpset k es vs) r \<longleftrightarrow> r = RBool (matching M k es)"
| "spec_res t M (TCmpdel k es) r \<longleftrightarrow> r = RBool (matching M k es)"
| "spec_res t M (TGetdel k c) r \<longleftrightarrow>
     (\<exists>d. r = RData (M k \<noteq> None) d \<and> (if M k = None then d = [] else snapshot_ok (tb_column_list t) (the (M k)) c d))"
| "spec_res t M (TDel k) r \<longleftrightarrow> r = RBool (M k \<noteq> None)"

fun spec_nexts :: "Table \<Rightarrow> table_model \<Rightarrow> (nat \<times> table_op) list \<Rightarrow> table_model" where
  "spec_nexts t M [] = M"
| "spec_nexts t M ((pid, c) # cs) = spec_nexts t (spec_next t M c) cs"

fun spec_results :: "Table \<Rightarrow> table_model \<Rightarrow> (nat \<times> table_op) list \<Rightarrow> table_res list \<Rightarrow> bool" where
  "spec_results t M [] rs \<longleftrightarrow> rs = []"
| "spec_results t M ((pid, c) # cs) rs \<longleftrightarrow>
     (case rs of [] \<Rightarrow> False | r # rs \<Rightarrow> spec_res t M c r \<and> spec_results t (spec_next t M c) cs rs)"

lemma table_read_ok:
  assumes "table_abs t M"
  shows "\<exists>u d. table_read pid t k = Some (u, d) \<and> table_abs u M \<and> same_geom t u \<and> M k = map_option (row_view (tb_column_list t)) d"
proof -
  obtain t' row rowlock where G: "Table_get pid t k = Some (t', row, rowlock)" "table_abs t' M" "same_geom t t'"
    "M k = (if row = nullptr then None else Some (row_view (tb_column_list t) (tr_data (row_at t' row))))"
    using Table_get_ok [OF assms] by blast
  then show ?thesis
    using finish_unlock [OF G(2,3)] by (cases "rowlock = nullptr") (auto simp: table_read_def)
qed

lemma table_exec_ok:
  assumes abs: "table_abs t M" and ok: "table_op_ok t c"
  shows "\<exists>u r. table_exec pid t c = Some (u, r) \<and> table_abs u (spec_next t M c) \<and> same_geom t u \<and> spec_res t M c r"
proof (cases c)
  case (TRead k)
  then show ?thesis using table_read_ok [OF abs, of pid k] by fastforce
next
  case (TExists k)
  then show ?thesis using Table_exists_ok [OF abs, of pid k] by fastforce
next
  case (TSet k vs)
  then show ?thesis using Table_set_ok [OF abs, where vs = vs and k = k and pid = pid] ok by (fastforce simp: Let_def)
next
  case (TAdd k vs)
  then show ?thesis using Table_add_ok [OF abs, where vs = vs and k = k and pid = pid] ok by (fastforce simp: Let_def)
next
  case (TUpdate k vs)
  then show ?thesis using Table_update_ok [OF abs, of vs pid k] ok by fastforce
next
  case (TCmpset k es vs)
  then show ?thesis using Table_cmpset_ok [OF abs, of vs es pid k] ok by (fastforce simp: matching_def)
next
  case (TCmpdel k es)
  then show ?thesis using Table_cmpdel_ok [OF abs, of es pid k] ok by (fastforce simp: matching_def)
next
  case (TGetdel k col)
  then show ?thesis using Table_getdel_ok [OF abs, of col pid k] ok by fastforce
next
  case (TDel k)
  then show ?thesis using Table_del_ok [OF abs, of pid k] by fastforce
qed

lemma same_geom_spec:
  assumes "same_geom t u"
  shows "spec_next u M c = spec_next t M c" "spec_res u M c r = spec_res t M c r" "table_op_ok u c = table_op_ok t c"
proof -
  have c: "tb_column_list u = tb_column_list t" using assms by (simp add: same_geom_def same_table_def)
  have r: "room u M k = room t M k" for M :: table_model and k using room_same [OF assms] .
  show "spec_next u M c = spec_next t M c" by (cases c) (auto simp: c r)
  show "spec_res u M c r = spec_res t M c r" by (cases c) (simp_all add: c r)
  show "table_op_ok u c = table_op_ok t c"
    by (cases c) (simp_all add: c values_ok_def columns_ok_def split: option.split)
qed

lemma same_geom_specs:
  assumes "same_geom t u"
  shows "spec_nexts u M cs = spec_nexts t M cs" "spec_results u M cs rs = spec_results t M cs rs"
proof -
  note S = same_geom_spec [OF assms]
  show "spec_nexts u M cs = spec_nexts t M cs"
    by (induction cs arbitrary: M) (auto simp: S)
  show "spec_results u M cs rs = spec_results t M cs rs"
    by (induction cs arbitrary: M rs) (auto simp: S split: list.splits)
qed

lemma table_execs_ok:
  assumes "table_abs t M" "\<And>x. x \<in> set cs \<Longrightarrow> table_op_ok t (snd x)"
  shows "\<exists>u rs. table_execs t cs = Some (u, rs) \<and> table_abs u (spec_nexts t M cs) \<and> spec_results t M cs rs \<and> same_geom t u"
  using assms
proof (induction cs arbitrary: t M)
  case Nil
  then show ?case by simp
next
  case (Cons x cs)
  obtain pid c where x: "x = (pid, c)" by (cases x)
  obtain u r where u: "table_exec pid t c = Some (u, r)" "table_abs u (spec_next t M c)" "same_geom t u" "spec_res t M c r"
    using table_exec_ok [OF Cons.prems(1), of c pid] Cons.prems(2) [of x] x by auto
  note S = same_geom_spec [OF u(3)]
  have "\<And>y. y \<in> set cs \<Longrightarrow> table_op_ok u (snd y)" using Cons.prems(2) by (simp add: S)
  from Cons.IH [OF u(2) this] show ?case
    using u x same_geom_trans [OF u(3)] by (auto simp: same_geom_specs [OF u(3)])
qed

section \<open>Row locks\<close>

definition locks :: "Table \<Rightarrow> addr \<Rightarrow> nat option" where
  "locks t a = map_option tr_lock (tb_store t a)"

lemma locks_upd: "(\<And>r. tr_lock (f r) = tr_lock r) \<Longrightarrow> locks (row_upd f a t) = locks t"
  by (simp add: fun_eq_iff locks_def option.map_comp comp_def)

lemma locks_fields [simp]:
  "locks (t\<lparr>tb_pool := p\<rparr>) = locks t" "locks (t\<lparr>tb_conflict_count := n\<rparr>) = locks t" "locks (t\<lparr>tb_conflict_max_level := n\<rparr>) = locks t"
  "locks (t\<lparr>tb_insert_count := n\<rparr>) = locks t" "locks (t\<lparr>tb_update_count := n\<rparr>) = locks t"
  "locks (t\<lparr>tb_delete_count := n\<rparr>) = locks t" "locks (t\<lparr>tb_row_num := n\<rparr>) = locks t"
  by (simp_all add: fun_eq_iff locks_def)

lemma locks_steps [simp]:
  "locks (row_upd row_clear a t) = locks t" "locks (row_upd (tr_next_update f) a t) = locks t"
  "locks (init_row t a k) = locks t" "locks (apply_values vs a t) = locks t" "locks (clear_row a t) = locks t"
  by (simp_all add: locks_upd row_clear_def init_row_def apply_values_def clear_row_def)

lemma locks_alloc: "alloc_row t = Some (u, x) \<Longrightarrow> locks u = locks t"
  by (auto simp: alloc_row_def split: option.splits prod.splits)

lemma locks_delete: "delete_row t b x p = Some u \<Longrightarrow> locks u = locks t"
  by (auto simp: delete_row_def free_row_def Let_def locks_upd split: if_splits option.splits)

text \<open>No bucket is locked.\<close>

definition unlocked :: "Table \<Rightarrow> bool" where
  "unlocked t \<longleftrightarrow> (\<forall>a r. tb_store t a = Some r \<longrightarrow> tr_lock r = 0)"

lemma unlocked_locks: "unlocked t \<longleftrightarrow> (\<forall>a n. locks t a = Some n \<longrightarrow> n = 0)"
  by (auto simp: unlocked_def locks_def)

lemma unlock_bucket:
  assumes "unlocked t" "locks v = locks (row_upd (row_lock pid) b t)"
  shows "unlocked (row_upd row_unlock b v)"
proof -
  have "locks (row_upd row_unlock b v) = (locks v)(b := map_option (\<lambda>_. 0) (locks v b))"
    by (auto simp: fun_eq_iff locks_def row_unlock_def option.map_comp comp_def)
  also have "\<dots> = (locks t)(b := map_option (\<lambda>_. 0) (locks t b))"
    unfolding assms(2) by (auto simp: fun_eq_iff locks_def row_lock_def option.map_comp comp_def)
  finally show ?thesis using assms(1) by (auto simp: unlocked_locks)
qed

text \<open>Every operation, on every path through it, releases the bucket it has locked.\<close>

lemmas table_op_defs = Table_get_def Table_exists_def table_read_def Table_set_row_def Table_set_def Table_add_def
  Table_update_def Table_cmpset_def Table_cmpdel_def Table_getdel_def Table_del_def

lemma hash_nonnull: "table_abs t M \<Longrightarrow> table_hash t k \<noteq> Some nullptr"
  unfolding table_abs_def using table_hash_rep bucket_nonnull(1) by (metis option.inject)

lemma unlocked_update:
  assumes "unlocked t" "Table_update pid t k vs = Some (u, r)"
  shows "unlocked u"
  using assms by (auto simp: Table_update_def Let_def split: if_splits option.splits prod.splits intro!: unlock_bucket [of t _ pid])

lemma unlocked_cmpset:
  assumes "unlocked t" "Table_cmpset pid t k es vs = Some (u, r)"
  shows "unlocked u"
  using assms by (auto simp: Table_cmpset_def Let_def split: if_splits option.splits prod.splits intro!: unlock_bucket [of t _ pid])

lemma unlocked_deletes:
  assumes "unlocked t"
  shows "Table_cmpdel pid t k es = Some (u, r) \<Longrightarrow> unlocked u" "Table_del pid t k = Some (u, r) \<Longrightarrow> unlocked u"
    "Table_getdel pid t k col = Some (u, r, d) \<Longrightarrow> unlocked u"
  using assms
  by (auto simp: Table_cmpdel_def Table_del_def Table_getdel_def Let_def split: if_splits option.splits prod.splits
      intro!: unlock_bucket [of t _ pid] dest!: locks_delete)

lemma unlocked_reads:
  assumes "unlocked t" "table_hash t k \<noteq> Some nullptr"
  shows "Table_exists pid t k = Some (u, r) \<Longrightarrow> unlocked u" "table_read pid t k = Some (u, d) \<Longrightarrow> unlocked u"
  using assms
  by (auto simp: Table_exists_def table_read_def Table_get_def Let_def split: if_splits option.splits prod.splits
      intro!: unlock_bucket [of t _ pid])

lemma unlocked_add:
  assumes "unlocked t" "Table_add pid t k vs = Some (u, r, s)"
  shows "unlocked u"
  using assms by (auto simp: Table_add_def Let_def split: if_splits option.splits prod.splits
      intro!: unlock_bucket [of t _ pid] dest!: locks_alloc)

lemma unlocked_set:
  assumes "unlocked t" "table_hash t k \<noteq> Some nullptr" "Table_set pid t k vs = Some (u, r, s)"
  shows "unlocked u"
  using assms by (auto simp: Table_set_def Table_set_row_def Let_def split: if_splits option.splits prod.splits
      intro!: unlock_bucket [of t _ pid] dest!: locks_alloc)

lemma table_exec_unlocked:
  assumes "unlocked t" "table_exec pid t c = Some (u, r)" "table_abs t M"
  shows "unlocked u"
  using assms(2) unlocked_update [OF assms(1)] unlocked_cmpset [OF assms(1)] unlocked_deletes [OF assms(1)]
    unlocked_reads [OF assms(1) hash_nonnull [OF assms(3)]] unlocked_add [OF assms(1)]
    unlocked_set [OF assms(1) hash_nonnull [OF assms(3)]]
  by (cases c) (auto split: option.splits)

lemma table_execs_unlocked:
  assumes "table_abs t M" "unlocked t" "\<And>x. x \<in> set cs \<Longrightarrow> table_op_ok t (snd x)" "table_execs t cs = Some (u, rs)"
  shows "unlocked u"
  using assms
proof (induction cs arbitrary: t M rs)
  case (Cons x cs)
  obtain pid c where x: "x = (pid, c)" by (cases x)
  obtain v r where v: "table_exec pid t c = Some (v, r)" "table_abs v (spec_next t M c)" "same_geom t v"
    using table_exec_ok [OF Cons.prems(1), of c pid] Cons.prems(3) [of x] x by auto
  have "unlocked v" by (rule table_exec_unlocked [OF Cons.prems(2) v(1) Cons.prems(1)])
  then show ?case
    using Cons.IH [OF v(2)] Cons.prems(3,4) v(1) x by (auto simp: same_geom_spec [OF v(3)])
qed simp

section \<open>Properties of the table\<close>

definition add_columns :: "Table \<Rightarrow> (string \<times> int \<times> nat) list \<Rightarrow> Table" where
  "add_columns t cs = foldl (\<lambda>t (name, ty, sz). fst (Table_add_column t name ty sz)) t cs"

lemma add_columns_fresh: "fresh_table t \<Longrightarrow> fresh_table (add_columns t cs)"
  by (induction cs arbitrary: t) (auto simp: add_columns_def intro: Table_add_column_fresh)

lemma create_conditions:
  assumes "Table_create shm iter_mem t = Inr (u, True)"
  shows "calc_memory_size t \<noteq> 0" "row_memory_size t < 2 ^ 32" "shm (calc_memory_size t) \<noteq> nullptr" "iter_mem \<noteq> nullptr"
  using assms by (auto simp: Table_create_def Let_def split: if_splits sum.splits)

lemma created_abs:
  assumes "Table_make mem h rows prop = Some t" "Table_create shm iter_mem (add_columns t cols) = Inr (t0, True)"
    "tb_item_size (add_columns t cols) < 2 ^ 62"
  shows "table_abs t0 (\<lambda>_. None)" "get_total_slice_num t0 = Some (conflict_row_num (add_columns t cols))"
    "tb_absolute_index t0 = 0" "tb_collision_index t0 = 0"
proof -
  note c = create_conditions [OF assms(2)]
  have f: "fresh_table (add_columns t cols)" by (rule add_columns_fresh [OF Table_make_fresh [OF assms(1)]])
  show "table_abs t0 (\<lambda>_. None)" "get_total_slice_num t0 = Some (conflict_row_num (add_columns t cols))"
    "tb_absolute_index t0 = 0" "tb_collision_index t0 = 0"
    using Table_create_ok [where shm = shm and iter_mem = iter_mem, OF f assms(3) c] assms(2) by auto
qed

lemma created_unlocked: "unlocked t \<Longrightarrow> Table_create shm iter_mem t = Inr (u, b) \<Longrightarrow> unlocked u"
  by (auto simp: unlocked_def Table_create_def Let_def empty_row_def zero_row_def split: if_splits sum.splits)

lemma add_columns_store: "tb_store (add_columns t cs) = tb_store t"
proof (induction cs arbitrary: t)
  case (Cons c cs)
  have "tb_store (fst (Table_add_column t n ty sz)) = tb_store t" for t n ty sz
    by (auto simp: Table_add_column_def Let_def split: option.splits)
  then show ?case using Cons by (cases c) (simp add: add_columns_def)
qed (simp add: add_columns_def)

lemma make_store: "Table_make mem h n p = Some t \<Longrightarrow> tb_store t = (\<lambda>_. None)"
  by (auto simp: Table_make_def split: if_splits)

text \<open>C2: a table that was made, given columns and created behaves, for any sequence of reads, \<open>set\<close>, \<open>add\<close>,
  \<open>update\<close>, \<open>cmpset\<close>, \<open>cmpdel\<close>, \<open>getdel\<close>, \<open>del\<close> and \<open>exists\<close> by any processes, like a map from keys to rows of
  column values: every call returns (chains end, no assertion fails, no row is lost or shared between
  buckets), its results are those of the map, and it reports lack of space exactly when the key is new,
  its bucket is occupied and all \<open>size * conflict_proportion\<close> conflict rows are in use. \<open>count()\<close> is the
  number of keys.\<close>

theorem table_run_refines:
  assumes "Table_make mem h rows prop = Some t" "Table_create shm iter_mem (add_columns t cols) = Inr (t0, True)"
    "tb_item_size (add_columns t cols) < 2 ^ 62" "\<And>x. x \<in> set ops \<Longrightarrow> table_op_ok t0 (snd x)"
  shows "\<exists>u rs. table_execs t0 ops = Some (u, rs) \<and> spec_results t0 (\<lambda>_. None) ops rs \<and>
    table_abs u (spec_nexts t0 (\<lambda>_. None) ops) \<and> table_count u = wrap32 (card (dom (spec_nexts t0 (\<lambda>_. None) ops))) \<and>
    get_total_slice_num t0 = Some (conflict_row_num (add_columns t cols))"
proof -
  note c = created_abs [OF assms(1-3)]
  obtain u rs where "table_execs t0 ops = Some (u, rs)" "table_abs u (spec_nexts t0 (\<lambda>_. None) ops)" "spec_results t0 (\<lambda>_. None) ops rs"
    using table_execs_ok [OF c(1), of ops] assms(4) by blast
  then show ?thesis using c(2) by (auto simp: table_abs_def table_count_def)
qed

text \<open>C19: whatever sequence of operations is run on a created table, when the last one has returned no
  bucket is left locked, on success, failure and lack of space alike.\<close>

theorem table_unlocked:
  assumes "Table_make mem h rows prop = Some t" "Table_create shm iter_mem (add_columns t cols) = Inr (t0, True)"
    "tb_item_size (add_columns t cols) < 2 ^ 62" "\<And>x. x \<in> set ops \<Longrightarrow> table_op_ok t0 (snd x)"
    "table_execs t0 ops = Some (u, rs)" "tb_store u a = Some r"
  shows "tr_lock r = 0"
proof -
  have "unlocked t0"
    by (rule created_unlocked [OF _ assms(2)]) (simp add: unlocked_def add_columns_store make_store [OF assms(1)])
  then have "unlocked u" using table_execs_unlocked [OF created_abs(1) [OF assms(1-3)]] assms(4,5) by blast
  then show ?thesis using assms(6) by (simp add: unlocked_def)
qed

text \<open>A table with 64 buckets, a number and a string of 8 bytes per row, for the examples.\<close>

definition demo_made :: Table where
  "demo_made = the (Table_make 1 (\<lambda>k. of_nat (length k)) 1 1)"

definition demo_cols :: "(string \<times> int \<times> nat) list" where
  "demo_cols = [(''id'', 1, 0), (''name'', 3, 8)]"

definition demo_table :: Table where
  "demo_table = (case Table_create (\<lambda>_. 4096) 1 (add_columns demo_made demo_cols) of Inr (u, _) \<Rightarrow> u)"

lemma demo_make: "Table_make 1 (\<lambda>k. of_nat (length k)) 1 1 = Some demo_made"
  by (simp add: demo_made_def Table_make_def)

lemma demo_sizes:
  "tb_size (add_columns demo_made demo_cols) = 64" "tb_item_size (add_columns demo_made demo_cols) = 20"
  "tb_conflict_proportion (add_columns demo_made demo_cols) = 1"
  by (simp_all add: demo_made_def demo_cols_def Table_make_def add_columns_def Table_add_column_def column_type_of_def Let_def
      TableColumn_new_def sizeof_TableStringLength_def wrap32_def table_rows_size_def SW_TABLE_MAX_ROW_SIZE_def row_bits.simps
      table_proportion_def SW_TABLE_CONFLICT_PROPORTION_def)

lemma demo_item: "tb_item_size (add_columns demo_made demo_cols) < 2 ^ 62"
  by (simp add: demo_sizes)

lemma demo_memory:
  "row_memory_size (add_columns demo_made demo_cols) = 112" "calc_memory_size (add_columns demo_made demo_cols) \<noteq> 0"
  by (simp_all add: row_memory_size_def calc_memory_size_def demo_sizes conflict_row_num_def sizeof_TableRow_def aligned8
      size_add_overflow_def size_mul_overflow_def wrap64_def sizeof_struct_slice_def sizeof_struct_impl_def Let_def)

lemma demo_create: "Table_create (\<lambda>_. 4096) 1 (add_columns demo_made demo_cols) = Inr (demo_table, True)"
proof -
  have "fresh_table (add_columns demo_made demo_cols)" by (rule add_columns_fresh [OF Table_make_fresh [OF demo_make]])
  from Table_create_ok [OF this, of "\<lambda>_. 4096" 1] show ?thesis
    using demo_sizes demo_memory by (auto simp: demo_table_def)
qed

theorem table_run_refines_witness:
  "\<exists>u rs. table_execs demo_table [(7, TAdd [1] []), (8, TDel [1]), (7, TExists [1])] = Some (u, rs) \<and>
    spec_results demo_table (\<lambda>_. None) [(7, TAdd [1] []), (8, TDel [1]), (7, TExists [1])] rs"
proof -
  have "\<And>x. x \<in> set [(7::nat, TAdd [1] []), (8, TDel [1]), (7, TExists [1])] \<Longrightarrow> table_op_ok demo_table (snd x)"
    by (auto simp: values_ok_def)
  then show ?thesis
    using table_run_refines [OF demo_make demo_create demo_item, of "[(7, TAdd [1] []), (8, TDel [1]), (7, TExists [1])]"] by blast
qed

theorem table_unlocked_witness:
  "\<exists>u rs. table_execs demo_table [(7, TAdd [1] []), (8, TDel [1])] = Some (u, rs) \<and>
    (\<forall>a r. tb_store u a = Some r \<longrightarrow> tr_lock r = 0)"
proof -
  have ok: "\<And>x. x \<in> set [(7::nat, TAdd [1] []), (8, TDel [1])] \<Longrightarrow> table_op_ok demo_table (snd x)"
    by (auto simp: values_ok_def)
  obtain u rs where u: "table_execs demo_table [(7, TAdd [1] []), (8, TDel [1])] = Some (u, rs)"
    using table_execs_ok [OF created_abs(1) [OF demo_make demo_create demo_item], of "[(7, TAdd [1] []), (8, TDel [1])]"] ok by blast
  have "tr_lock r = 0" if "tb_store u a = Some r" for a r
    using table_unlocked [OF demo_make demo_create demo_item _ u that] ok by blast
  then show ?thesis using u by blast
qed

end
