(* ===== verification/Sw_TableIter.thy ===== *)
theory Sw_TableIter
  imports Sw_TableMap
begin

text \<open>
  The iterator of \<open>src/memory/table.cc\<close> (\<open>Table::rewind\<close>, \<open>forward\<close>, \<open>current\<close>) and the wait for a row lock
  (\<open>TableRow::lock\<close>).
\<close>

section \<open>Iteration\<close>

definition get_by_index :: "Table \<Rightarrow> nat \<Rightarrow> addr" where
  "get_by_index t i = (let row = tb_rows t ! i in if tr_active (row_at t row) then row else nullptr)"

text \<open>The walk \<open>for (;; i++)\<close> to the row with number \<open>collision_index\<close>; 0 when the chain ends before it.\<close>

partial_function (option) forward_chain :: "row_store \<Rightarrow> addr \<Rightarrow> nat \<Rightarrow> nat \<Rightarrow> addr option" where
  "forward_chain S tmp_row i collision_index =
     (if tmp_row = nullptr then Some nullptr
      else if i = collision_index then Some tmp_row
      else case S tmp_row of None \<Rightarrow> None
        | Some r \<Rightarrow> forward_chain S (tr_next r) (i + 1) collision_index)"

text \<open>\<open>forward\<close>: the position and the copied row are part of the table's state. The indices stay below
  \<open>2^32\<close> since a table has at most \<open>2^31\<close> buckets and \<open>2^31\<close> conflict rows.\<close>

function Table_forward :: "nat \<Rightarrow> Table \<Rightarrow> Table option" where
  "Table_forward pid t =
     (if tb_absolute_index t < tb_size t then
        let row = get_by_index t (tb_absolute_index t) in
        if row = nullptr then Table_forward pid (t\<lparr>tb_absolute_index := tb_absolute_index t + 1\<rparr>)
        else
          let t1 = row_upd (row_lock pid) row t in
          if tr_next (row_at t1 row) = nullptr then
            Some (row_upd row_unlock row (t1\<lparr>tb_absolute_index := tb_absolute_index t + 1, tb_current := row_at t1 row\<rparr>))
          else (case forward_chain (tb_store t1) row 0 (tb_collision_index t) of
              None \<Rightarrow> None
            | Some tmp_row \<Rightarrow>
                if tmp_row = nullptr then
                  Table_forward pid (t\<lparr>tb_store := tb_store (row_upd row_unlock row t1), tb_collision_index := 0,
                                      tb_absolute_index := tb_absolute_index t + 1\<rparr>)
                else Some (row_upd row_unlock row
                  (t1\<lparr>tb_collision_index := tb_collision_index t + 1, tb_current := row_at t1 tmp_row\<rparr>)))
      else Some (t\<lparr>tb_current := zero_row\<lparr>tr_data := tr_data (tb_current t)\<rparr>\<rparr>))"
  by auto
termination
  by (relation "measure (\<lambda>(pid, t). tb_size t - tb_absolute_index t)") auto

declare Table_forward.simps [simp del]

definition Table_rewind :: "Table \<Rightarrow> Table" where
  "Table_rewind t = t\<lparr>tb_absolute_index := 0, tb_collision_index := 0, tb_current := empty_row t\<rparr>"

text \<open>A loop \<open>rewind(); forward(); while (current()->key_len) { ... forward(); }\<close> for \<open>n\<close> rows.\<close>

fun table_scan :: "nat \<Rightarrow> nat \<Rightarrow> Table \<Rightarrow> (Table \<times> TableRow list) option" where
  "table_scan pid 0 t = Some (t, [])"
| "table_scan pid (Suc n) t =
     (case Table_forward pid t of None \<Rightarrow> None
      | Some u \<Rightarrow> map_option (\<lambda>(v, rs). (v, tb_current u # rs)) (table_scan pid n u))"

lemma forward_chain_nth:
  assumes "chain S xs" "nullptr \<notin> set xs" "i \<le> c"
  shows "forward_chain S (hd (xs @ [nullptr])) i c = Some (if c - i < length xs then xs ! (c - i) else nullptr)"
  using assms
proof (induction xs arbitrary: i)
  case Nil
  then show ?case by (subst forward_chain.simps) simp
next
  case (Cons x xs)
  then obtain r where r: "S x = Some r" "tr_next r = hd (xs @ [nullptr])" by auto
  show ?case
  proof (cases "i = c")
    case True
    then show ?thesis using Cons.prems(2) by (subst forward_chain.simps) simp
  next
    case False
    then have ih: "forward_chain S (hd (xs @ [nullptr])) (i + 1) c = Some (if c - (i + 1) < length xs then xs ! (c - (i + 1)) else nullptr)"
      using Cons by (intro Cons.IH) auto
    have "c - i = Suc (c - (i + 1))" using False Cons.prems(3) by simp
    then show ?thesis using ih r False Cons.prems(2) by (subst forward_chain.simps) simp
  qed
qed

text \<open>The rows of a bucket that are in use, and the rows still to come at a position of the iterator.\<close>

definition used_rows :: "Table \<Rightarrow> addr list \<Rightarrow> addr list" where
  "used_rows t xs = (if tr_active (row_at t (hd xs)) then xs else [])"

definition to_come :: "Table \<Rightarrow> addr list list \<Rightarrow> addr list" where
  "to_come t B =
     (if tb_absolute_index t < tb_size t
      then drop (tb_collision_index t) (used_rows t (B ! tb_absolute_index t)) @
           concat (map (used_rows t) (drop (tb_absolute_index t + 1) B))
      else [])"

definition position_ok :: "Table \<Rightarrow> addr list list \<Rightarrow> bool" where
  "position_ok t B \<longleftrightarrow> tb_collision_index t = 0 \<or>
     tb_absolute_index t < tb_size t \<and> length (used_rows t (B ! tb_absolute_index t)) > 1"

text \<open>What a copy of a row shows: its key and its data.\<close>

definition row_content :: "TableRow \<Rightarrow> bytes \<times> bytes" where
  "row_content r = (row_key r, tr_data r)"

definition content_at :: "Table \<Rightarrow> addr \<Rightarrow> bytes \<times> bytes" where
  "content_at t a = row_content (row_at t a)"

lemma inert_content:
  assumes "inert f"
  shows "content_at (row_upd f a t) = content_at t" "used_rows (row_upd f a t) = used_rows t"
  using inert_row [OF assms] by (simp_all add: fun_eq_iff content_at_def row_content_def used_rows_def)

definition same_content :: "Table \<Rightarrow> Table \<Rightarrow> bool" where
  "same_content t u \<longleftrightarrow> content_at u = content_at t \<and> used_rows u = used_rows t \<and> tb_size u = tb_size t"

text \<open>The iterator's position is not part of the table's content.\<close>

lemma position_core:
  "same_core t (t\<lparr>tb_absolute_index := i\<rparr>)" "same_core t (t\<lparr>tb_collision_index := i\<rparr>)" "same_core t (t\<lparr>tb_current := r\<rparr>)"
  by (simp_all add: same_core_def same_table_def)

lemma position_rep [simp]:
  "table_rep (t\<lparr>tb_absolute_index := i\<rparr>) B = table_rep t B" "table_rep (t\<lparr>tb_collision_index := i\<rparr>) B = table_rep t B"
  "table_rep (t\<lparr>tb_current := r\<rparr>) B = table_rep t B"
  "table_map (t\<lparr>tb_absolute_index := i\<rparr>) B = table_map t B" "table_map (t\<lparr>tb_collision_index := i\<rparr>) B = table_map t B"
  "table_map (t\<lparr>tb_current := r\<rparr>) B = table_map t B"
  using same_core_rep [OF position_core(1)] same_core_rep [OF position_core(2)] same_core_rep [OF position_core(3)]
    same_core_map [OF position_core(1)] same_core_map [OF position_core(2)] same_core_map [OF position_core(3)] by blast+

lemma position_rows [simp]:
  "used_rows (t\<lparr>tb_absolute_index := i\<rparr>) = used_rows t" "used_rows (t\<lparr>tb_collision_index := i\<rparr>) = used_rows t"
  "used_rows (t\<lparr>tb_current := r\<rparr>) = used_rows t"
  "content_at (t\<lparr>tb_absolute_index := i\<rparr>) = content_at t" "content_at (t\<lparr>tb_collision_index := i\<rparr>) = content_at t"
  "content_at (t\<lparr>tb_current := r\<rparr>) = content_at t"
  by (simp_all add: fun_eq_iff used_rows_def content_at_def row_at_def)

lemma row_upd_position [simp]:
  "row_upd f a (t\<lparr>tb_absolute_index := i\<rparr>) = (row_upd f a t)\<lparr>tb_absolute_index := i\<rparr>"
  "row_upd f a (t\<lparr>tb_collision_index := i\<rparr>) = (row_upd f a t)\<lparr>tb_collision_index := i\<rparr>"
  "row_upd f a (t\<lparr>tb_current := r\<rparr>) = (row_upd f a t)\<lparr>tb_current := r\<rparr>"
  "tb_absolute_index (row_upd f a t) = tb_absolute_index t" "tb_collision_index (row_upd f a t) = tb_collision_index t"
  "tb_current (row_upd f a t) = tb_current t"
  by (simp_all add: row_upd_def)

lemma store_row_upd: "t\<lparr>tb_store := tb_store (row_upd f a (row_upd g b t))\<rparr> = row_upd f a (row_upd g b t)"
  by (simp add: row_upd_def)

text \<open>What one call of \<open>forward\<close> does.\<close>

definition forward_post :: "Table \<Rightarrow> addr list list \<Rightarrow> Table \<Rightarrow> bool" where
  "forward_post t B u \<longleftrightarrow> table_rep u B \<and> table_map u B = table_map t B \<and> same_content t u \<and> position_ok u B \<and>
     (case to_come t B of
        [] \<Rightarrow> tr_key_len (tb_current u) = 0 \<and> to_come u B = []
      | a # as \<Rightarrow> row_content (tb_current u) = content_at t a \<and> to_come u B = as)"

lemma forward_post_trans:
  assumes "forward_post s B u" "table_map s B = table_map t B" "same_content t s" "to_come s B = to_come t B"
  shows "forward_post t B u"
  using assms by (auto simp: forward_post_def same_content_def split: list.splits)

lemma to_come_next:
  assumes "length B = tb_size t" "tb_absolute_index t < tb_size t" "tb_collision_index s = 0"
    "tb_absolute_index s = tb_absolute_index t + 1" "used_rows s = used_rows t" "tb_size s = tb_size t"
  shows "to_come s B = concat (map (used_rows t) (drop (tb_absolute_index t + 1) B))"
proof (cases "tb_absolute_index t + 1 < length B")
  case True
  then have "drop (tb_absolute_index t + 1) B = B ! (tb_absolute_index t + 1) # drop (tb_absolute_index t + 2) B"
    using Cons_nth_drop_Suc [of "tb_absolute_index t + 1" B] by simp
  then show ?thesis using assms True by (simp add: to_come_def)
qed (use assms in \<open>simp add: to_come_def\<close>)

lemma forward_step:
  assumes "table_rep t B" "position_ok t B"
  shows "\<exists>u. Table_forward pid t = Some u \<and> forward_post t B u"
  using assms
proof (induction pid t rule: Table_forward.induct)
  case (1 pid t)
  let ?i = "tb_absolute_index t" and ?c = "tb_collision_index t"
  note rep = 1(3) note len = table_repD(2) [OF rep]
  show ?case
  proof (cases "?i < tb_size t")
    case False
    then show ?thesis using rep 1(4) Table_forward.simps [of pid t]
      by (auto simp: forward_post_def same_content_def position_ok_def to_come_def zero_row_def)
  next
    case i: True
    note D = bucket_okD [OF bucket_rep [OF rep i]]
    let ?row = "tb_rows t ! ?i"
    show ?thesis
    proof (cases "tr_active (row_at t ?row)")
      case False
      let ?s = "t\<lparr>tb_absolute_index := ?i + 1\<rparr>"
      have u0: "used_rows t (B ! ?i) = []" using False D(2) by (simp add: used_rows_def)
      then have c: "?c = 0" using 1(4) by (auto simp: position_ok_def)
      have g: "get_by_index t ?i = nullptr" using False by (simp add: get_by_index_def)
      obtain u where u: "Table_forward pid ?s = Some u" "forward_post ?s B u"
        using 1(1) [OF i refl g] rep c by (auto simp: position_ok_def)
      have tc: "to_come ?s B = to_come t B"
        using to_come_next [OF len i, of ?s] c i u0 by (simp add: to_come_def)
      have "forward_post t B u" by (rule forward_post_trans [OF u(2) _ _ tc]) (simp_all add: same_content_def)
      then show ?thesis using u(1) g i Table_forward.simps [of pid t] by (simp add: Let_def)
    next
      case act: True
      have g: "get_by_index t ?i = ?row" using act by (simp add: get_by_index_def)
      have nn: "?row \<noteq> nullptr" using D(1,2,4) hd_in_set by metis
      have used: "used_rows t (B ! ?i) = B ! ?i" using act D(2) by (simp add: used_rows_def)
      let ?t1 = "row_upd (row_lock pid) ?row t"
      let ?t2 = "row_upd row_unlock ?row ?t1"
      have rep2: "table_rep ?t2 B" "table_map ?t2 B = table_map t B" "used_rows ?t2 = used_rows t" "content_at ?t2 = content_at t"
        using inert_rep [OF inert_lock(2) inert_rep(1) [OF inert_lock(1) rep]] inert_rep(2) [OF inert_lock(1) rep]
          inert_content [OF inert_lock(2)] inert_content [OF inert_lock(1)] by auto
      have nx: "tr_next (row_at ?t1 ?row) = tr_next (row_at t ?row)" by (rule inert_row(2) [OF inert_lock(1)])
      have cont: "row_content (row_at ?t1 a) = content_at t a" for a
        using inert_content(1) [OF inert_lock(1), where a = ?row and t = t] unfolding content_at_def by metis
      have sr: "tb_store t ?row = Some (row_at t ?row)" using D(6) [OF hd_in_set [OF D(1)]] D(2) by simp
      obtain xs where xs: "B ! ?i = ?row # xs" using D(1,2) by (cases "B ! ?i") auto
      then have nxt: "tr_next (row_at t ?row) = hd (xs @ [nullptr])" using D(3) sr by auto
      have rest: "to_come s B = concat (map (used_rows t) (drop (?i + 1) B))"
        if "tb_collision_index s = 0" "tb_absolute_index s = ?i + 1" "used_rows s = used_rows t" "tb_size s = tb_size t" for s
        by (rule to_come_next [OF len i that])
      have tc: "to_come t B = drop ?c (B ! ?i) @ concat (map (used_rows t) (drop (?i + 1) B))"
        using i used by (simp add: to_come_def)
      show ?thesis
      proof (cases "xs = []")
        case True
        then have c: "?c = 0" using 1(4) used xs by (auto simp: position_ok_def)
        let ?u = "?t2\<lparr>tb_absolute_index := ?i + 1, tb_current := row_at ?t1 ?row\<rparr>"
        have "Table_forward pid t = Some ?u"
          using i g nn nx nxt True Table_forward.simps [of pid t] by (simp add: Let_def)
        moreover have "forward_post t B ?u"
          using rep2 c rest [of ?u] tc xs True cont by (simp add: forward_post_def same_content_def position_ok_def)
        ultimately show ?thesis by blast
      next
        case False
        then have n0: "tr_next (row_at ?t1 ?row) \<noteq> nullptr" using nx nxt D(4) xs by (cases xs) auto
        have ch: "chain (tb_store ?t1) (B ! ?i)" using D(3) chain_keep [of "tb_store ?t1" "tb_store t" "B ! ?i"]
          by (simp add: option.map_comp comp_def row_lock_def)
        have fc: "forward_chain (tb_store ?t1) ?row 0 ?c = Some (if ?c < length (B ! ?i) then (B ! ?i) ! ?c else nullptr)"
          using forward_chain_nth [OF ch D(4), of 0 ?c] xs by simp
        show ?thesis
        proof (cases "?c < length (B ! ?i)")
          case True
          let ?a = "(B ! ?i) ! ?c"
          have an: "?a \<noteq> nullptr" using True D(4) nth_mem by metis
          let ?u = "?t2\<lparr>tb_collision_index := ?c + 1, tb_current := row_at ?t1 ?a\<rparr>"
          have "Table_forward pid t = Some ?u"
            using i g nn n0 fc True an Table_forward.simps [of pid t] by (simp add: Let_def)
          moreover have "forward_post t B ?u"
          proof -
            have "to_come t B = ?a # drop (?c + 1) (B ! ?i) @ concat (map (used_rows t) (drop (?i + 1) B))"
              unfolding tc using Cons_nth_drop_Suc [OF True] by simp
            moreover have "to_come ?u B = drop (?c + 1) (B ! ?i) @ concat (map (used_rows t) (drop (?i + 1) B))"
              using i used rep2(3) by (simp add: to_come_def)
            moreover have "position_ok ?u B" using i used rep2(3) xs False by (simp add: position_ok_def)
            ultimately show ?thesis using rep2 cont by (simp add: forward_post_def same_content_def)
          qed
          ultimately show ?thesis by blast
        next
          case over: False
          let ?s = "t\<lparr>tb_store := tb_store ?t2, tb_collision_index := 0, tb_absolute_index := ?i + 1\<rparr>"
          have s: "?s = ?t2\<lparr>tb_collision_index := 0, tb_absolute_index := ?i + 1\<rparr>" by (simp add: row_upd_def)
          have fc0: "forward_chain (tb_store ?t1) ?row 0 ?c = Some nullptr" using fc over by simp
          obtain u where u: "Table_forward pid ?s = Some u" "forward_post ?s B u"
            using 1(2) [OF i g [symmetric] nn refl n0 fc0 refl] rep2 unfolding s by (auto simp: position_ok_def)
          have "to_come ?s B = to_come t B" unfolding tc s using rest [of "?t2\<lparr>tb_collision_index := 0, tb_absolute_index := ?i + 1\<rparr>"] rep2 over by simp
          then have "forward_post t B u"
            using forward_post_trans [OF u(2)] rep2 unfolding s by (simp add: same_content_def)
          then show ?thesis using u(1) i g nn n0 fc0 Table_forward.simps [of pid t] by (simp add: Let_def)
        qed
      qed
    qed
  qed
qed

lemma scan_steps:
  assumes "table_rep t B" "position_ok t B" "length (to_come t B) = n"
  shows "\<exists>u rs. table_scan pid n t = Some (u, rs) \<and> map row_content rs = map (content_at t) (to_come t B) \<and>
    table_rep u B \<and> position_ok u B \<and> to_come u B = []"
  using assms
proof (induction n arbitrary: t)
  case (Suc n)
  then obtain a as where tc: "to_come t B = a # as" by (cases "to_come t B") auto
  obtain u where u: "Table_forward pid t = Some u" "forward_post t B u" using forward_step [OF Suc.prems(1,2)] by blast
  then have U: "table_rep u B" "position_ok u B" "to_come u B = as" "row_content (tb_current u) = content_at t a" "content_at u = content_at t"
    using tc by (auto simp: forward_post_def same_content_def)
  then show ?case using Suc.IH [OF U(1,2)] Suc.prems(3) tc u(1) by auto
qed simp

lemma entries_concat:
  assumes rep: "table_rep t B"
  shows "map_of (concat (map (bucket_entries t) B)) = table_map t B" "distinct (map fst (concat (map (bucket_entries t) B)))"
    "length (concat (map (bucket_entries t) B)) = card (dom (table_map t B))"
proof -
  let ?E = "map (bucket_entries t) B"
  note len = table_repD(2) [OF rep]
  show l: "length (concat ?E) = card (dom (table_map t B))"
    unfolding table_dom(3) [OF rep] using len by (simp add: length_concat comp_def sum_list_sum_nth atLeast0LessThan)
  have set: "set (concat ?E) = (\<Union>i<tb_size t. set (bucket_entries t (B ! i)))" using len by (simp add: set_concat_nth [of ?E] del: set_concat)
  have "fst ` set (concat ?E) = dom (table_map t B)"
    unfolding set table_dom(1) [OF rep] by (auto simp: dom_map_of_conv_image_fst)
  then have "card (set (map fst (concat ?E))) = length (map fst (concat ?E))" using l by simp
  then show d: "distinct (map fst (concat ?E))" by (rule card_distinct)
  show "map_of (concat ?E) = table_map t B"
  proof
    fix k
    show "map_of (concat ?E) k = table_map t B k"
    proof (cases "table_map t B k")
      case None
      then have "k \<notin> fst ` set (concat ?E)" using \<open>fst ` set (concat ?E) = dom (table_map t B)\<close> by (simp add: domIff)
      then show ?thesis using None by (simp add: map_of_eq_None_iff)
    next
      case (Some v)
      then have "map_of (bucket_entries t (B ! hash_index t k)) k = Some v" by (auto simp: table_map_def split: if_splits)
      then have "(k, v) \<in> set (concat ?E)" unfolding set using map_of_SomeD hash_index_less [OF rep, of k] by fastforce
      then show ?thesis using d Some by simp
    qed
  qed
qed

lemma entries_content:
  "bucket_entries t xs = map (\<lambda>a. (fst (content_at t a), row_view (tb_column_list t) (snd (content_at t a)))) (used_rows t xs)"
  by (simp add: bucket_entries_def used_rows_def content_at_def row_content_def)

lemma rewind_to_come:
  assumes "table_rep t B"
  shows "to_come (Table_rewind t) B = concat (map (used_rows t) B)" "position_ok (Table_rewind t) B" "table_rep (Table_rewind t) B"
    "content_at (Table_rewind t) = content_at t"
proof -
  obtain k where "tb_size t = 2 ^ k" using table_rep_size [OF assms] by blast
  then have "0 < length B" "length B = tb_size t" using table_repD(2) [OF assms] by simp_all
  then obtain b bs where b: "B = b # bs" "tb_size t = Suc (length bs)" by (cases B) auto
  then show "to_come (Table_rewind t) B = concat (map (used_rows t) B)" by (simp add: to_come_def Table_rewind_def)
  show "position_ok (Table_rewind t) B" "table_rep (Table_rewind t) B" "content_at (Table_rewind t) = content_at t"
    using assms by (simp_all add: position_ok_def Table_rewind_def)
qed

text \<open>C18: an iteration over a table that nobody changes meanwhile shows every row exactly once: after \<open>rewind\<close>,
  as many calls of \<open>forward\<close> as there are keys show rows with distinct keys whose keys and column
  values make up the whole table, and the next call shows the end mark (\<open>key_len\<close> 0).\<close>

theorem table_scan_complete:
  assumes "table_abs t M"
  shows "\<exists>u rs v. table_scan pid (card (dom M)) (Table_rewind t) = Some (u, rs) \<and> distinct (map row_key rs) \<and>
    M = map_of (map (\<lambda>r. (row_key r, row_view (tb_column_list t) (tr_data r))) rs) \<and>
    Table_forward pid u = Some v \<and> tr_key_len (tb_current v) = 0"
proof -
  obtain B where rep: "table_rep t B" and M: "M = table_map t B" using assms by (auto simp: table_abs_def)
  note R = rewind_to_come [OF rep] and E = entries_concat [OF rep]
  let ?f = "\<lambda>x. (fst x, row_view (tb_column_list t) (snd x))"
  have ent: "concat (map (bucket_entries t) B) = map (?f \<circ> content_at t) (to_come (Table_rewind t) B)"
    unfolding R(1) by (simp add: entries_content [abs_def] map_concat comp_def)
  have n: "length (to_come (Table_rewind t) B) = card (dom M)" using arg_cong [OF ent, of length] E(3) M by simp
  obtain u rs where u: "table_scan pid (card (dom M)) (Table_rewind t) = Some (u, rs)"
    "map row_content rs = map (content_at t) (to_come (Table_rewind t) B)" "table_rep u B" "position_ok u B" "to_come u B = []"
    using scan_steps [OF R(3,2) n, of pid, unfolded R(4)] by blast
  have "map ?f (map row_content rs) = concat (map (bucket_entries t) B)" unfolding u(2) ent by simp
  then have m: "map (\<lambda>r. (row_key r, row_view (tb_column_list t) (tr_data r))) rs = concat (map (bucket_entries t) B)"
    by (simp add: row_content_def comp_def)
  then have d: "distinct (map row_key rs)" using E(2) by (simp add: m [symmetric] comp_def)
  obtain v where v: "Table_forward pid u = Some v" "forward_post u B v" using forward_step [OF u(3,4)] by blast
  then have "tr_key_len (tb_current v) = 0" using u(5) by (simp add: forward_post_def)
  then show ?thesis using u(1) d v(1) E(1) M m by auto
qed

theorem table_scan_complete_witness:
  "\<exists>t M u rs v. M [1] \<noteq> None \<and> table_abs t M \<and> table_scan 7 (card (dom M)) (Table_rewind t) = Some (u, rs) \<and>
    M = map_of (map (\<lambda>r. (row_key r, row_view (tb_column_list t) (tr_data r))) rs) \<and>
    Table_forward 7 u = Some v \<and> tr_key_len (tb_current v) = 0"
proof -
  let ?M = "spec_nexts demo_table (\<lambda>_. None) [(7, TAdd [1] [])]"
  have "\<And>x. x \<in> set [(7::nat, TAdd [1] [])] \<Longrightarrow> table_op_ok demo_table (snd x)" by (simp add: values_ok_def)
  then obtain t where t: "table_abs t ?M"
    using table_execs_ok [OF created_abs(1) [OF demo_make demo_create demo_item], of "[(7, TAdd [1] [])]"] by blast
  have "?M [1] \<noteq> None"
    by (simp add: is_valid_key_length_def SW_TABLE_KEY_SIZE_def room_def spec_insert_def)
  then show ?thesis using t table_scan_complete [OF t, of 7] by blast
qed

section \<open>Waiting for a row lock\<close>

definition SW_SPINLOCK_LOOP_N :: nat where "SW_SPINLOCK_LOOP_N = 1024"
definition SW_TABLE_FORCE_UNLOCK_TIME :: int where "SW_TABLE_FORCE_UNLOCK_TIME = 2000"

text \<open>
  What a waiting process sees in one round of the outer loop. \<open>lr_word r n\<close> is the value of \<open>lock_\<close> at the
  attempt after \<open>n\<close> pauses (0: the first attempt of the round), once as the test \<open>*lock == 0\<close> reads it and once
  as the compare-and-set finds it; other processes may change it in between. \<open>lr_dead\<close> tells whether
  \<open>lock_pid\<close> no longer exists and \<open>lr_now\<close> is the clock in milliseconds.
\<close>

record lock_round =
  lr_word :: "nat \<Rightarrow> nat \<times> nat"
  lr_dead :: bool
  lr_now :: int

text \<open>How the lock was taken: \<open>BY_SPIN n\<close> after \<open>n\<close> pauses; the last two overwrite a lock that is held.\<close>

datatype lock_how = BY_CAS | BY_SPIN nat | BY_DEAD_OWNER | BY_TIMEOUT

text \<open>\<open>*lock == 0 && sw_atomic_cmp_set(lock, 0, 1)\<close>\<close>

definition try_lock :: "nat \<times> nat \<Rightarrow> bool" where
  "try_lock w \<longleftrightarrow> fst w = 0 \<and> snd w = 0"

text \<open>The attempts of \<open>for (n = 1; n < SW_SPINLOCK_LOOP_N; n <<= 1)\<close>.\<close>

function spin_loop :: "(nat \<Rightarrow> nat \<times> nat) \<Rightarrow> nat \<Rightarrow> nat option" where
  "spin_loop w n =
     (if 0 < n \<and> n < SW_SPINLOCK_LOOP_N then if try_lock (w n) then Some n else spin_loop w (2 * n) else None)"
  by auto
termination
  by (relation "measure (\<lambda>(_, n). SW_SPINLOCK_LOOP_N - n)") auto

declare spin_loop.simps [simp del]

text \<open>The loop; \<open>t\<close> is the time marked in the first round (0 before).\<close>

partial_function (option) row_lock_loop :: "nat \<Rightarrow> (nat \<Rightarrow> lock_round) \<Rightarrow> nat \<Rightarrow> int \<Rightarrow> (lock_how \<times> nat) option" where
  "row_lock_loop cpu_num rounds i t =
     (let r = rounds i in
      if try_lock (lr_word r 0) then Some (BY_CAS, i)
      else case (if cpu_num > 1 then spin_loop (lr_word r) 1 else None) of
        Some n \<Rightarrow> Some (BY_SPIN n, i)
      | None \<Rightarrow>
          if lr_dead r then Some (BY_DEAD_OWNER, i)
          else if t = 0 then row_lock_loop cpu_num rounds (i + 1) (lr_now r)
          else if lr_now r - t > SW_TABLE_FORCE_UNLOCK_TIME then Some (BY_TIMEOUT, i)
          else row_lock_loop cpu_num rounds (i + 1) t)"

lemma spin_loop_Some:
  "spin_loop w n = Some m \<Longrightarrow> 0 < m \<and> m < SW_SPINLOCK_LOOP_N \<and> snd (w m) = 0"
  by (induction w n rule: spin_loop.induct)
    (subst (asm) (2) spin_loop.simps, simp add: try_lock_def split: if_splits)

lemma spin_loop_None:
  "spin_loop w (2 ^ k) = None \<Longrightarrow> k \<le> m \<Longrightarrow> 2 ^ m < SW_SPINLOCK_LOOP_N \<Longrightarrow> \<not> try_lock (w (2 ^ m))"
proof (induction "m - k" arbitrary: k)
  case 0
  then show ?case by (subst (asm) spin_loop.simps) (simp split: if_splits)
next
  case (Suc d)
  have "(2::nat) ^ k \<le> 2 ^ m" using Suc.prems(2) by (simp add: power_increasing)
  then have "(2::nat) ^ k < SW_SPINLOCK_LOOP_N" using Suc.prems(3) by (rule le_less_trans)
  then have "spin_loop w (2 ^ Suc k) = None"
    using Suc.prems(1) by (subst (asm) spin_loop.simps) (simp split: if_splits)
  then show ?case using Suc.hyps(1) [of "Suc k"] Suc.hyps(2) Suc.prems by simp
qed

text \<open>No attempt of a round can take the lock: each sees it held, at the test or at the compare-and-set.\<close>

definition round_fails :: "nat \<Rightarrow> lock_round \<Rightarrow> bool" where
  "round_fails c r \<longleftrightarrow> \<not> try_lock (lr_word r 0) \<and>
     (1 < c \<longrightarrow> (\<forall>m. 2 ^ m < SW_SPINLOCK_LOOP_N \<longrightarrow> \<not> try_lock (lr_word r (2 ^ m))))"

text \<open>What justifies taking the lock in round \<open>r\<close>, with the time \<open>t\<close> marked.\<close>

fun lock_reason :: "nat \<Rightarrow> lock_round \<Rightarrow> int \<Rightarrow> lock_how \<Rightarrow> bool" where
  "lock_reason c r t BY_CAS \<longleftrightarrow> snd (lr_word r 0) = 0"
| "lock_reason c r t (BY_SPIN n) \<longleftrightarrow> 1 < c \<and> 0 < n \<and> n < SW_SPINLOCK_LOOP_N \<and> snd (lr_word r n) = 0"
| "lock_reason c r t BY_DEAD_OWNER \<longleftrightarrow> round_fails c r \<and> lr_dead r"
| "lock_reason c r t BY_TIMEOUT \<longleftrightarrow> round_fails c r \<and> \<not> lr_dead r \<and> lr_now r - t > SW_TABLE_FORCE_UNLOCK_TIME"

lemma round_failsI:
  assumes "\<not> try_lock (lr_word r 0)" "(if c > 1 then spin_loop (lr_word r) 1 else None) = None"
  shows "round_fails c r"
  using assms spin_loop_None [of "lr_word r" 0] by (auto simp: round_fails_def)

text \<open>One round: it ends with the lock for a good reason, or nothing could be done and the loop goes on.\<close>

lemma row_lock_round:
  obtains (taken) how where "row_lock_loop c rounds i t = Some (how, i)" "lock_reason c (rounds i) t how"
      "t = 0 \<longrightarrow> how \<noteq> BY_TIMEOUT"
  | (next_round) "row_lock_loop c rounds i t = row_lock_loop c rounds (i + 1) (if t = 0 then lr_now (rounds i) else t)"
      "round_fails c (rounds i)" "\<not> lr_dead (rounds i)"
      "t = 0 \<or> \<not> lr_now (rounds i) - t > SW_TABLE_FORCE_UNLOCK_TIME"
proof (cases "try_lock (lr_word (rounds i) 0)")
  case True
  then have "row_lock_loop c rounds i t = Some (BY_CAS, i)" by (subst row_lock_loop.simps) simp
  then show ?thesis using True taken [of BY_CAS] by (simp add: try_lock_def)
next
  case cas: False
  show ?thesis
  proof (cases "if c > 1 then spin_loop (lr_word (rounds i)) 1 else None")
    case (Some n)
    then have "1 < c" "spin_loop (lr_word (rounds i)) 1 = Some n" by (simp_all split: if_splits)
    moreover from this cas have "row_lock_loop c rounds i t = Some (BY_SPIN n, i)" by (subst row_lock_loop.simps) simp
    ultimately show ?thesis using taken [of "BY_SPIN n"] spin_loop_Some [of "lr_word (rounds i)" 1 n] by simp
  next
    case None
    note fails = round_failsI [OF cas None]
    have eq: "row_lock_loop c rounds i t =
        (if lr_dead (rounds i) then Some (BY_DEAD_OWNER, i)
         else if t = 0 then row_lock_loop c rounds (i + 1) (lr_now (rounds i))
         else if lr_now (rounds i) - t > SW_TABLE_FORCE_UNLOCK_TIME then Some (BY_TIMEOUT, i)
         else row_lock_loop c rounds (i + 1) t)"
      using cas None by (subst row_lock_loop.simps) (simp only: Let_def option.case if_False)
    consider "lr_dead (rounds i)" | "\<not> lr_dead (rounds i)" "t \<noteq> 0" "lr_now (rounds i) - t > SW_TABLE_FORCE_UNLOCK_TIME"
      | "\<not> lr_dead (rounds i)" "t = 0 \<or> \<not> lr_now (rounds i) - t > SW_TABLE_FORCE_UNLOCK_TIME" by blast
    then show ?thesis
    proof cases
      case 1 then show ?thesis using eq fails taken [of BY_DEAD_OWNER] by simp
    next
      case 2 then show ?thesis using eq fails taken [of BY_TIMEOUT] by simp
    next
      case 3 then show ?thesis using eq fails next_round by auto
    qed
  qed
qed

lemma row_lock_wait:
  assumes "t \<noteq> 0" "lr_now (rounds (i + n)) - t > SW_TABLE_FORCE_UNLOCK_TIME"
  shows "\<exists>how j. row_lock_loop c rounds i t = Some (how, j) \<and> j \<le> i + n \<and> lock_reason c (rounds j) t how \<and>
    (\<forall>k. i \<le> k \<and> k < j \<longrightarrow> round_fails c (rounds k) \<and> \<not> lr_dead (rounds k))"
  using assms
proof (induction n arbitrary: i)
  case 0
  show ?case by (cases rule: row_lock_round [of c rounds i t]) (use 0 in auto)
next
  case (Suc n)
  show ?case
  proof (cases rule: row_lock_round [of c rounds i t])
    case (taken how)
    then show ?thesis by (intro exI [of _ how] exI [of _ i]) auto
  next
    case next_round
    obtain how j where "row_lock_loop c rounds (i + 1) t = Some (how, j)" "j \<le> i + 1 + n" "lock_reason c (rounds j) t how"
      "\<forall>k. i + 1 \<le> k \<and> k < j \<longrightarrow> round_fails c (rounds k) \<and> \<not> lr_dead (rounds k)"
      using Suc.IH [of "i + 1"] Suc.prems by auto
    moreover from this have "\<forall>k. i \<le> k \<and> k < j \<longrightarrow> round_fails c (rounds k) \<and> \<not> lr_dead (rounds k)"
      using next_round(2,3) by (metis Suc_eq_plus1 le_neq_implies_less less_eq_Suc_le)
    ultimately show ?thesis using next_round(1) Suc.prems(1) by (intro exI [of _ how] exI [of _ j]) simp
  qed
qed

text \<open>C20: \<open>lock\<close> never waits forever: once the clock (which is not 0 when it is first read) has advanced more than
  2 seconds past the first failed round it has returned. It takes the lock in the first round in which an attempt
  finds it free or the holder is dead: by a compare-and-set, at once or after some pauses, that finds the lock word
  0, and otherwise, when every attempt of the round has seen the lock held, only from a dead process or after
  those 2 seconds.\<close>

theorem row_lock_returns:
  assumes "lr_now (rounds 0) \<noteq> 0" "lr_now (rounds (Suc n)) - lr_now (rounds 0) > SW_TABLE_FORCE_UNLOCK_TIME"
  shows "\<exists>how j. row_lock_loop c rounds 0 0 = Some (how, j) \<and> j \<le> Suc n \<and>
    (\<forall>i < j. round_fails c (rounds i) \<and> \<not> lr_dead (rounds i)) \<and>
    (case how of
       BY_CAS \<Rightarrow> snd (lr_word (rounds j) 0) = 0
     | BY_SPIN k \<Rightarrow> 1 < c \<and> 0 < k \<and> k < SW_SPINLOCK_LOOP_N \<and> snd (lr_word (rounds j) k) = 0
     | BY_DEAD_OWNER \<Rightarrow> round_fails c (rounds j) \<and> lr_dead (rounds j)
     | BY_TIMEOUT \<Rightarrow> round_fails c (rounds j) \<and> \<not> lr_dead (rounds j) \<and>
         lr_now (rounds j) - lr_now (rounds 0) > SW_TABLE_FORCE_UNLOCK_TIME)"
proof (cases rule: row_lock_round [of c rounds 0 0])
  case (taken how)
  then show ?thesis by (intro exI [of _ how] exI [of _ 0]) (cases how; simp)
next
  case next_round
  obtain how j where j: "row_lock_loop c rounds 1 (lr_now (rounds 0)) = Some (how, j)" "j \<le> Suc n"
    "lock_reason c (rounds j) (lr_now (rounds 0)) how"
    "\<forall>k. 1 \<le> k \<and> k < j \<longrightarrow> round_fails c (rounds k) \<and> \<not> lr_dead (rounds k)"
    using row_lock_wait [of "lr_now (rounds 0)" rounds 1 n c] assms by auto
  then have "\<forall>i < j. round_fails c (rounds i) \<and> \<not> lr_dead (rounds i)"
    using next_round(2,3) by (metis less_one not_le)
  then show ?thesis using j next_round(1) by (intro exI [of _ how] exI [of _ j]) (cases how; simp)
qed

text \<open>A lock that stays held by a live process; the clock advances by half a second in each round.\<close>

theorem row_lock_returns_witness:
  "\<exists>how j. row_lock_loop 4 (\<lambda>i. \<lparr>lr_word = (\<lambda>_. (1, 1)), lr_dead = False, lr_now = 100 + 500 * int i\<rparr>) 0 0 = Some (how, j) \<and>
    j \<le> 5 \<and> how = BY_TIMEOUT \<and> 500 * int j > 2000"
proof -
  let ?R = "\<lambda>i. \<lparr>lr_word = (\<lambda>_. (1::nat, 1::nat)), lr_dead = False, lr_now = 100 + 500 * int i\<rparr>"
  obtain how j where "row_lock_loop 4 ?R 0 0 = Some (how, j)" "j \<le> 5"
    "case how of
       BY_CAS \<Rightarrow> snd (lr_word (?R j) 0) = 0
     | BY_SPIN k \<Rightarrow> (1::nat) < 4 \<and> 0 < k \<and> k < SW_SPINLOCK_LOOP_N \<and> snd (lr_word (?R j) k) = 0
     | BY_DEAD_OWNER \<Rightarrow> round_fails 4 (?R j) \<and> lr_dead (?R j)
     | BY_TIMEOUT \<Rightarrow> round_fails 4 (?R j) \<and> \<not> lr_dead (?R j) \<and> lr_now (?R j) - lr_now (?R 0) > SW_TABLE_FORCE_UNLOCK_TIME"
    using row_lock_returns [of ?R 4 4] by (auto simp: SW_TABLE_FORCE_UNLOCK_TIME_def)
  then show ?thesis by (intro exI [of _ how] exI [of _ j]) (cases how; simp add: SW_TABLE_FORCE_UNLOCK_TIME_def)
qed

end
