(* ===== verification/Sw_Fifo.thy ===== *)
theory Sw_Fifo
  imports Sw_Prelude
begin

text \<open>
  The interface of a bounded first-in first-out queue. The shared-memory channel \<open>Sw_Channel\<close> and the
  coroutine channel provide it.
\<close>

datatype ('a, 'b) fifo_op = Offer 'a | Poll 'b

text \<open>A run of offers and polls: the final state, the accepted and the delivered elements.\<close>

fun fifo_run :: "('s \<Rightarrow> 'a \<Rightarrow> 's \<times> bool) \<Rightarrow> ('s \<Rightarrow> 'b \<Rightarrow> 's \<times> 'a option) \<Rightarrow> 's \<Rightarrow> ('a, 'b) fifo_op list \<Rightarrow> 's \<times> 'a list \<times> 'a list" where
  "fifo_run offer poll s [] = (s, [], [])"
| "fifo_run offer poll s (Offer x # ops) =
     (let (s1, ok) = offer s x; (t, acc, out) = fifo_run offer poll s1 ops in (t, (if ok then [x] else []) @ acc, out))"
| "fifo_run offer poll s (Poll b # ops) =
     (let (s1, r) = poll s b; (t, acc, out) = fifo_run offer poll s1 ops in (t, acc, (case r of None \<Rightarrow> [] | Some x \<Rightarrow> [x]) @ out))"

text \<open>
  \<open>rep s q\<close>: state \<open>s\<close> holds the elements \<open>q\<close>, oldest first. \<open>fits b x\<close>: a poll with argument \<open>b\<close> can take
  the element \<open>x\<close>.
\<close>

locale bounded_fifo =
  fixes rep :: "'s \<Rightarrow> 'a list \<Rightarrow> bool"
    and offer :: "'s \<Rightarrow> 'a \<Rightarrow> 's \<times> bool"
    and poll :: "'s \<Rightarrow> 'b \<Rightarrow> 's \<times> 'a option"
    and fits :: "'b \<Rightarrow> 'a \<Rightarrow> bool"
  assumes offer_ok: "rep s q \<Longrightarrow> snd (offer s x) \<Longrightarrow> rep (fst (offer s x)) (q @ [x])"
    and offer_refused: "rep s q \<Longrightarrow> \<not> snd (offer s x) \<Longrightarrow> rep (fst (offer s x)) q"
    and poll_none: "rep s q \<Longrightarrow> q = [] \<or> \<not> fits b (hd q) \<Longrightarrow> snd (poll s b) = None \<and> rep (fst (poll s b)) q"
    and poll_some: "rep s (x # q) \<Longrightarrow> fits b x \<Longrightarrow> snd (poll s b) = Some x \<and> rep (fst (poll s b)) q"
begin

lemma poll_step: "rep s q \<Longrightarrow> \<exists>q'. rep (fst (poll s b)) q' \<and> q = (case snd (poll s b) of None \<Rightarrow> [] | Some x \<Rightarrow> [x]) @ q'"
proof (cases q)
  case (Cons x q')
  assume "rep s q"
  then show ?thesis using Cons poll_some [of s x q' b] poll_none [of s q b] by (cases "fits b x") auto
qed (use poll_none [of s q b] in auto)

theorem run_fifo:
  "rep s q \<Longrightarrow> fifo_run offer poll s ops = (t, acc, out) \<Longrightarrow> \<exists>q'. rep t q' \<and> q @ acc = out @ q'"
proof (induction ops arbitrary: s q acc out)
  case (Cons a ops)
  show ?case
  proof (cases a)
    case (Offer x)
    obtain s1 ok where o: "offer s x = (s1, ok)" by fastforce
    obtain acc' where r: "fifo_run offer poll s1 ops = (t, acc', out)" "acc = (if ok then [x] else []) @ acc'"
      using Cons(3) Offer o by (auto split: prod.splits)
    have "rep s1 (q @ (if ok then [x] else []))"
      using offer_ok [OF Cons(2), of x] offer_refused [OF Cons(2), of x] o by auto
    from Cons(1) [OF this r(1)] show ?thesis using r(2) by simp
  next
    case (Poll b)
    obtain s1 e where o: "poll s b = (s1, e)" by fastforce
    obtain out' where r: "fifo_run offer poll s1 ops = (t, acc, out')" "out = (case e of None \<Rightarrow> [] | Some x \<Rightarrow> [x]) @ out'"
      using Cons(3) Poll o by (auto split: prod.splits)
    obtain q' where "rep s1 q'" "q = (case e of None \<Rightarrow> [] | Some x \<Rightarrow> [x]) @ q'"
      using poll_step [OF Cons(2), of b] o by auto
    with Cons(1) [OF this(1) r(1)] show ?thesis using r(2) by auto
  qed
qed auto

text \<open>Polling until nothing is left delivers exactly the stored elements, in order.\<close>

lemma drain:
  "rep s q \<Longrightarrow> \<forall>x\<in>set q. fits b x \<Longrightarrow>
    \<exists>t. fifo_run offer poll s (replicate (length q) (Poll b)) = (t, [], q) \<and> rep t []"
proof (induction q arbitrary: s)
  case (Cons x q)
  then have p: "snd (poll s b) = Some x" "rep (fst (poll s b)) q" using poll_some [of s x q b] by auto
  with Cons show ?case by (cases "poll s b") fastforce
qed auto

end

end
