(* ===== verification/Sw_Channel.thy ===== *)
theory Sw_Channel
  imports Sw_Memory Sw_Bytes Sw_Fifo
begin

text \<open>
  \<open>src/core/channel.cc\<close>: a ring of length-prefixed messages in one piece of memory. A message may run
  past \<open>size\<close> into an overflow area of \<open>maxlen + sizeof(ChannelSlice)\<close> bytes behind it; the two tags
  tell a full ring from an empty one.
\<close>

section \<open>Data and operations\<close>

definition SW_CHAN_LOCK :: nat where "SW_CHAN_LOCK = 2"
definition SW_CHAN_NOTIFY :: nat where "SW_CHAN_NOTIFY = 4"
definition SW_CHAN_SHM :: nat where "SW_CHAN_SHM = 8"

record Channel =
  ch_head :: nat
  ch_tail :: nat
  ch_size :: nat
  ch_head_tag :: nat
  ch_tail_tag :: nat
  ch_num :: int
  ch_bytes :: nat
  ch_flags :: nat
  ch_maxlen :: int
  ch_object :: addr
  ch_mem :: bytes
  ch_lock :: bool
  ch_notify_pipe :: bool

definition sizeof_Channel :: nat where "sizeof_Channel = 80"
definition sizeof_ChannelSlice :: nat where "sizeof_ChannelSlice = 4"

definition channel_has :: "nat \<Rightarrow> nat \<Rightarrow> bool" where
  "channel_has flags f \<longleftrightarrow> flags AND f \<noteq> 0"

definition channel_free :: "nat \<Rightarrow> addr \<Rightarrow> dealloc" where
  "channel_free flags p = (if channel_has flags SW_CHAN_SHM then SHM_FREE p else SW_FREE p)"

text \<open>
  \<open>Channel::make\<close>. \<open>malloc\<close> maps the use of shared memory and the number of bytes to an address and the
  contents behind it, \<open>pipe_ready\<close> is the state of the notification pipe after its creation. None is a
  failed assertion; a null pointer comes with the memory released before.
\<close>

definition Channel_make :: "(bool \<Rightarrow> nat \<Rightarrow> addr \<times> bytes) \<Rightarrow> bool \<Rightarrow> nat \<Rightarrow> nat \<Rightarrow> nat \<Rightarrow> (Channel option \<times> dealloc list) option" where
  "Channel_make malloc pipe_ready sz maxlen flags =
     (if \<not> maxlen \<le> sz then None
      else
        let m = malloc (channel_has flags SW_CHAN_SHM) (wrap64 (sz + sizeof_Channel + maxlen + sizeof_ChannelSlice)) in
        if fst m = nullptr then Some (None, [])
        else if channel_has flags SW_CHAN_NOTIFY \<and> \<not> pipe_ready then Some (None, [channel_free flags (fst m)])
        else Some (Some \<lparr>ch_head = 0, ch_tail = 0, ch_size = sz, ch_head_tag = 0, ch_tail_tag = 0, ch_num = 0,
                    ch_bytes = 0, ch_flags = flags, ch_maxlen = to_int32 (int maxlen), ch_object = fst m,
                    ch_mem = drop sizeof_Channel (snd m), ch_lock = channel_has flags SW_CHAN_LOCK,
                    ch_notify_pipe = channel_has flags SW_CHAN_NOTIFY\<rparr>, []))"

definition channel_empty :: "Channel \<Rightarrow> bool" where
  "channel_empty s \<longleftrightarrow> ch_num s = 0"

definition channel_full :: "Channel \<Rightarrow> bool" where
  "channel_full s \<longleftrightarrow> (ch_head s = ch_tail s \<and> ch_tail_tag s \<noteq> ch_head_tag s)
     \<or> (int (ch_bytes s) + 4 * ch_num s) mod 2 ^ 64 = int (ch_size s)"

definition Channel_in :: "Channel \<Rightarrow> bytes \<Rightarrow> int \<Rightarrow> Channel \<times> int" where
  "Channel_in s in_data data_length =
     (if data_length < 0 \<or> data_length > ch_maxlen s then (s, SW_ERR)
      else if channel_full s then (s, SW_ERR)
      else
        let msize = to_int32 (4 + data_length) in
        if ch_tail s < ch_head s \<and> int (ch_head s) - int (ch_tail s) < msize then (s, SW_ERR)
        else
          let item = ch_tail s;
              t = nat (int (ch_tail s) + msize);
              s1 = (if \<not> ch_tail s < ch_head s \<and> t \<ge> ch_size s
                    then s\<lparr>ch_tail := 0, ch_tail_tag := 1 - ch_tail_tag s\<rparr>
                    else s\<lparr>ch_tail := t\<rparr>)
          in (s1\<lparr>ch_num := to_int32 (ch_num s + 1), ch_bytes := wrap64 (ch_bytes s + nat data_length),
                 ch_mem := memcpy_at (memcpy_at (ch_mem s) item (le_bytes 4 (nat data_length))) (item + 4)
                             (take (nat data_length) in_data)\<rparr>, SW_OK))"

text \<open>The message at \<open>head\<close>: its \<open>length\<close> field as a signed integer, and its data.\<close>

definition slice_length :: "Channel \<Rightarrow> int" where
  "slice_length s = to_int32 (int (le_value (bytes_at (ch_mem s) (ch_head s) 4)))"

definition slice_data :: "Channel \<Rightarrow> bytes" where
  "slice_data s = bytes_at (ch_mem s) (ch_head s + 4) (nat (slice_length s))"

text \<open>\<open>Channel::out\<close>: the new state, the return value and the bytes copied to \<open>out_buf\<close>.\<close>

definition Channel_out :: "Channel \<Rightarrow> int \<Rightarrow> Channel \<times> int \<times> bytes" where
  "Channel_out s buffer_length =
     (if channel_empty s then (s, SW_ERR, [])
      else if buffer_length < slice_length s then (s, SW_ERR, [])
      else
        let len = slice_length s;
            h = nat (int (ch_head s) + len + 4);
            s1 = (if h \<ge> ch_size s then s\<lparr>ch_head := 0, ch_head_tag := 1 - ch_head_tag s\<rparr> else s\<lparr>ch_head := h\<rparr>)
        in (s1\<lparr>ch_num := to_int32 (ch_num s - 1), ch_bytes := nat ((int (ch_bytes s) - len) mod 2 ^ 64)\<rparr>, len, slice_data s))"

text \<open>\<open>Channel::peek\<close>; None is a failed assertion.\<close>

definition Channel_peek :: "Channel \<Rightarrow> int \<Rightarrow> (int \<times> bytes) option" where
  "Channel_peek s buffer_length =
     (if \<not> channel_has (ch_flags s) SW_CHAN_LOCK then None
      else if \<not> ch_lock s then Some (SW_ERR, [])
      else if channel_empty s then Some (SW_ERR, [])
      else if buffer_length < slice_length s then Some (SW_ERR, [])
      else Some (slice_length s, slice_data s))"

text \<open>\<open>wait\<close> and \<open>notify\<close>: \<open>n\<close> is what reading from or writing to the pipe returned.\<close>

definition Channel_wait :: "Channel \<Rightarrow> int \<Rightarrow> int option" where
  "Channel_wait s n = (if \<not> channel_has (ch_flags s) SW_CHAN_NOTIFY then None else Some (if n > 0 then SW_OK else SW_ERR))"

definition Channel_notify :: "Channel \<Rightarrow> int \<Rightarrow> int option" where
  "Channel_notify s n = (if \<not> channel_has (ch_flags s) SW_CHAN_NOTIFY then None else Some (if n = 8 then SW_OK else SW_ERR))"

definition Channel_push :: "Channel \<Rightarrow> bytes \<Rightarrow> int \<Rightarrow> (Channel \<times> int) option" where
  "Channel_push s in_data data_length =
     (if \<not> channel_has (ch_flags s) SW_CHAN_LOCK then None else Some (Channel_in s in_data data_length))"

definition Channel_pop :: "Channel \<Rightarrow> int \<Rightarrow> (Channel \<times> int \<times> bytes) option" where
  "Channel_pop s buffer_length =
     (if \<not> channel_has (ch_flags s) SW_CHAN_LOCK then None else Some (Channel_out s buffer_length))"

text \<open>\<open>destroy\<close>: whether the lock is deleted, whether the pipe is closed and deleted, and the memory released.\<close>

definition Channel_destroy :: "Channel \<Rightarrow> bool \<times> bool \<times> dealloc" where
  "Channel_destroy s =
     (channel_has (ch_flags s) SW_CHAN_LOCK, channel_has (ch_flags s) SW_CHAN_NOTIFY, channel_free (ch_flags s) (ch_object s))"

definition channel_count :: "Channel \<Rightarrow> int" where
  "channel_count s = ch_num s"

definition channel_get_bytes :: "Channel \<Rightarrow> nat" where
  "channel_get_bytes s = ch_bytes s"

section \<open>Representation\<close>

definition frame :: "bytes \<Rightarrow> bytes" where
  "frame x = le_bytes 4 (length x) @ x"

definition frames :: "bytes list \<Rightarrow> bytes" where
  "frames q = concat (map frame q)"

lemma length_frame [simp]: "length (frame x) = 4 + length x"
  by (simp add: frame_def)

lemma frames_simps [simp]: "frames [] = []" "frames (x # q) = frame x @ frames q" "frames (q @ r) = frames q @ frames r"
  by (simp_all add: frames_def)

lemma length_frames: "length (frames q) = 4 * length q + sum_list (map length q)"
  by (induction q) auto

definition holds :: "bytes \<Rightarrow> nat \<Rightarrow> bytes list \<Rightarrow> bool" where
  "holds M a q \<longleftrightarrow> a + length (frames q) \<le> length M \<and> bytes_at M a (length (frames q)) = frames q"

lemma holds_Nil [simp]: "holds M a [] \<longleftrightarrow> a \<le> length M"
  by (simp add: holds_def)

lemma holds_append: "holds M a (q @ r) \<longleftrightarrow> holds M a q \<and> holds M (a + length (frames q)) r"
  by (auto simp: holds_def bytes_at_split append_eq_append_conv)

lemma holds_single:
  "holds M a [x] \<longleftrightarrow> a + 4 + length x \<le> length M \<and> bytes_at M a 4 = le_bytes 4 (length x) \<and> bytes_at M (a + 4) (length x) = x"
  by (auto simp: holds_def bytes_at_split frame_def append_eq_append_conv)

lemma holds_Cons: "holds M a (x # q) \<longleftrightarrow> holds M a [x] \<and> holds M (a + (4 + length x)) q"
  using holds_append [of M a "[x]" q] by simp

lemma holds_tl: "holds M a (x # q) \<Longrightarrow> holds M (a + (4 + length x)) q"
  using holds_Cons by blast

lemma holds_write:
  "a + 4 + length x \<le> length M \<Longrightarrow> holds (memcpy_at M a (frame x)) a [x]"
  by (simp add: holds_def)

lemma holds_other:
  assumes "holds M p q" "a + 4 + length x \<le> length M" "p + length (frames q) \<le> a \<or> a + 4 + length x \<le> p"
  shows "holds (memcpy_at M a (frame x)) p q"
  using assms by (auto simp: holds_def bytes_at_memcpy_other)

definition channel_wf :: "Channel \<Rightarrow> bool" where
  "channel_wf s \<longleftrightarrow> 0 < ch_size s \<and> ch_size s < 2 ^ 32 \<and> 0 \<le> ch_maxlen s \<and> ch_maxlen s < 2 ^ 31 - 4
     \<and> length (ch_mem s) = ch_size s + nat (ch_maxlen s) + 4
     \<and> ch_head_tag s \<le> 1 \<and> ch_tail_tag s \<le> 1 \<and> ch_head s < ch_size s \<and> ch_tail s < ch_size s"

definition linear :: "Channel \<Rightarrow> bytes list \<Rightarrow> bool" where
  "linear s q \<longleftrightarrow> ch_tail_tag s = ch_head_tag s \<and> holds (ch_mem s) (ch_head s) q
     \<and> ch_tail s = ch_head s + length (frames q)"

definition wrapped :: "Channel \<Rightarrow> bytes list \<Rightarrow> bytes \<Rightarrow> bytes list \<Rightarrow> bool" where
  "wrapped s q1 x q2 \<longleftrightarrow> ch_tail_tag s \<noteq> ch_head_tag s \<and> holds (ch_mem s) (ch_head s) (q1 @ [x])
     \<and> holds (ch_mem s) 0 q2 \<and> ch_tail s = length (frames q2) \<and> ch_tail s \<le> ch_head s
     \<and> ch_head s + length (frames q1) < ch_size s \<and> ch_size s \<le> ch_head s + length (frames (q1 @ [x]))"

definition channel_rep :: "Channel \<Rightarrow> bytes list \<Rightarrow> bool" where
  "channel_rep s q \<longleftrightarrow> channel_wf s \<and> ch_num s = int (length q) \<and> ch_bytes s = sum_list (map length q)
     \<and> (\<forall>x\<in>set q. int (length x) \<le> ch_maxlen s)
     \<and> (linear s q \<or> (\<exists>q1 x q2. q = q1 @ x # q2 \<and> wrapped s q1 x q2))"

lemma channel_rep_cases:
  assumes "channel_rep s q"
  obtains (linear) "linear s q" | (wrapped) q1 x q2 where "q = q1 @ x # q2" "wrapped s q1 x q2"
  using assms unfolding channel_rep_def by blast

lemma rep_used:
  assumes "channel_rep s q"
  shows "length (frames q) < 2 ^ 32 + 2 ^ 31"
  using assms
proof (cases rule: channel_rep_cases)
  case linear
  then show ?thesis using assms by (auto simp: linear_def channel_rep_def channel_wf_def)
next
  case (wrapped q1 x q2)
  then show ?thesis using assms by (auto simp: wrapped_def channel_rep_def channel_wf_def)
qed

lemma rep_full_iff:
  assumes "channel_rep s q"
  shows "channel_full s \<longleftrightarrow> (ch_head s = ch_tail s \<and> ch_tail_tag s \<noteq> ch_head_tag s) \<or> length (frames q) = ch_size s"
proof -
  have "int (ch_bytes s) + 4 * ch_num s = int (length (frames q))"
    using assms by (simp add: channel_rep_def length_frames)
  moreover have "int (length (frames q)) mod 2 ^ 64 = int (length (frames q))"
    using rep_used [OF assms] by simp
  ultimately show ?thesis by (simp add: channel_full_def)
qed

section \<open>Operations on the representation\<close>

lemma flip_tag: "t \<le> 1 \<Longrightarrow> 1 - t \<noteq> (t :: nat)"
  by arith

lemma memcpy_frame:
  assumes "a + 4 + length x \<le> length M" "n = length x"
  shows "memcpy_at (memcpy_at M a (le_bytes 4 n)) (a + 4) x = memcpy_at M a (frame x)"
  using assms by (simp add: memcpy_at_def frame_def ac_simps)

lemma rep_counters:
  assumes "channel_rep s q" "int (length x) \<le> ch_maxlen s"
  shows "to_int32 (ch_num s + 1) = int (length (q @ [x]))"
    "wrap64 (ch_bytes s + length x) = sum_list (map length (q @ [x]))"
proof -
  have f: "4 * length q + sum_list (map length q) < 2 ^ 32 + 2 ^ 31"
    using rep_used [OF assms(1)] by (simp add: length_frames)
  have n: "ch_num s = int (length q)" "ch_bytes s = sum_list (map length q)" "ch_maxlen s < 2 ^ 31"
    using assms(1) by (auto simp: channel_rep_def channel_wf_def)
  have "length q + 1 < 2 ^ 31" using f by simp
  then show "to_int32 (ch_num s + 1) = int (length (q @ [x]))" using n(1) by simp
  have "ch_bytes s + length x < 2 ^ 64" using f n assms(2) by simp
  then show "wrap64 (ch_bytes s + length x) = sum_list (map length (q @ [x]))" using n(2) by simp
qed

lemma in_accepts:
  assumes "channel_rep s q" "0 \<le> n" "n \<le> ch_maxlen s" "n \<le> int (length d)" "\<not> channel_full s"
    and "ch_tail s < ch_head s \<Longrightarrow> ch_tail s + 4 + nat n \<le> ch_head s"
    and "x = take (nat n) d" "t = ch_tail s + (4 + nat n)"
  shows "length x = nat n \<and> ch_tail s + 4 + length x \<le> length (ch_mem s)
    \<and> Channel_in s d n =
      ((if \<not> ch_tail s < ch_head s \<and> ch_size s \<le> t
        then s\<lparr>ch_tail := 0, ch_tail_tag := 1 - ch_tail_tag s\<rparr> else s\<lparr>ch_tail := t\<rparr>)
       \<lparr>ch_num := int (length (q @ [x])), ch_bytes := sum_list (map length (q @ [x])),
        ch_mem := memcpy_at (ch_mem s) (ch_tail s) (frame x)\<rparr>, SW_OK)"
proof -
  note wf = assms(1) [unfolded channel_rep_def channel_wf_def]
  have len: "length x = nat n" using assms(2,4,7) by simp
  have le: "int (length x) \<le> ch_maxlen s" using len assms(2,3) by simp
  have ms: "to_int32 (4 + n) = 4 + n" using wf assms(2,3) by simp
  have fit: "ch_tail s + 4 + length x \<le> length (ch_mem s)" using wf le by linarith
  have t: "nat (int (ch_tail s) + (4 + n)) = t" using assms(2,8) by linarith
  have room: "\<not> (ch_tail s < ch_head s \<and> int (ch_head s) - int (ch_tail s) < 4 + n)"
    using assms(2,6) by linarith
  note c = rep_counters [OF assms(1) le]
  show ?thesis
    using assms(2,3,5) room fit len c
    by (auto simp add: Channel_in_def ms t Let_def memcpy_frame [OF fit len [symmetric]] assms(7) [symmetric])
qed

lemma in_linear:
  assumes "channel_rep s q" "linear s q" "0 \<le> n" "n \<le> ch_maxlen s" "n \<le> int (length d)"
  shows "snd (Channel_in s d n) = SW_OK \<and> channel_rep (fst (Channel_in s d n)) (q @ [take (nat n) d])"
proof -
  define x t where "x = take (nat n) d" and "t = ch_tail s + (4 + nat n)"
  note wf = assms(1) [unfolded channel_rep_def channel_wf_def] and lin = assms(2) [unfolded linear_def]
  have nf: "\<not> channel_full s" using lin wf by (auto simp: rep_full_iff [OF assms(1)])
  have nw: "\<not> ch_tail s < ch_head s" using lin by simp
  note e = in_accepts [OF assms(1,3,4,5) nf _ x_def t_def]
  have len: "length x = nat n" and fit: "ch_tail s + 4 + length x \<le> length (ch_mem s)" using e nw by auto
  have h: "holds (memcpy_at (ch_mem s) (ch_tail s) (frame x)) (ch_head s) (q @ [x])"
    using lin holds_write [OF fit] holds_other [OF _ fit] by (simp add: holds_append)
  have le: "\<forall>y\<in>set (q @ [x]). int (length y) \<le> ch_maxlen s" using wf len assms(3,4) by auto
  show ?thesis
  proof (cases "ch_size s \<le> t")
    case True
    then have "wrapped (fst (Channel_in s d n)) q x []"
      using e nw lin wf h len flip_tag [of "ch_tail_tag s"] by (auto simp: wrapped_def t_def)
    then have "channel_rep (fst (Channel_in s d n)) (q @ [x])"
      using e nw wf le fit True by (auto simp: channel_rep_def channel_wf_def)
    then show ?thesis using e nw by (simp add: x_def)
  next
    case False
    then have "linear (fst (Channel_in s d n)) (q @ [x])"
      using e nw lin h len by (auto simp: linear_def t_def)
    then have "channel_rep (fst (Channel_in s d n)) (q @ [x])"
      using e nw wf le fit False by (auto simp: channel_rep_def channel_wf_def)
    then show ?thesis using e nw by (simp add: x_def)
  qed
qed

lemma in_wrapped:
  assumes "channel_rep s (q1 @ y # q2)" "wrapped s q1 y q2" "0 \<le> n" "n \<le> ch_maxlen s" "n \<le> int (length d)"
    and "\<not> channel_full s" "ch_tail s + 4 + nat n \<le> ch_head s"
  shows "snd (Channel_in s d n) = SW_OK \<and> channel_rep (fst (Channel_in s d n)) (q1 @ y # q2 @ [take (nat n) d])"
proof -
  define x t where "x = take (nat n) d" and "t = ch_tail s + (4 + nat n)"
  note wf = assms(1) [unfolded channel_rep_def channel_wf_def] and wr = assms(2) [unfolded wrapped_def]
  note e = in_accepts [OF assms(1,3-6) _ x_def t_def]
  have len: "length x = nat n" and fit: "ch_tail s + 4 + length x \<le> length (ch_mem s)" using e assms(7) by auto
  have le: "\<forall>z\<in>set (q1 @ y # q2 @ [x]). int (length z) \<le> ch_maxlen s" using wf len assms(3,4) by auto
  let ?M = "memcpy_at (ch_mem s) (ch_tail s) (frame x)"
  have h: "holds ?M (ch_head s) (q1 @ [y])"
    by (rule holds_other [OF _ fit]) (use wr assms(7) len in auto)
  have h2: "holds ?M 0 (q2 @ [x])"
    using wr holds_write [OF fit] holds_other [OF _ fit, of 0 q2] by (simp add: holds_append)
  have "wrapped (fst (Channel_in s d n)) q1 y (q2 @ [x])"
    using e wr h h2 len assms(7) by (auto simp: wrapped_def t_def)
  then have "channel_rep (fst (Channel_in s d n)) (q1 @ y # q2 @ [x])"
    using e wf le fit assms(7) by (auto simp: channel_rep_def channel_wf_def t_def)
  then show ?thesis using e assms(7) by (simp add: x_def)
qed

lemma in_refuses:
  assumes "channel_rep s q" "snd (Channel_in s d n) \<noteq> SW_OK"
  shows "Channel_in s d n = (s, SW_ERR)"
  using assms(2) by (auto simp: Channel_in_def Let_def split: if_splits)

text \<open>\<open>in\<close> adds the message at the end of the queue or leaves the channel unchanged.\<close>

lemma in_correct:
  assumes "channel_rep s q" "n \<le> int (length d)"
  shows "Channel_in s d n = (s, SW_ERR)
    \<or> 0 \<le> n \<and> n \<le> ch_maxlen s \<and> snd (Channel_in s d n) = SW_OK \<and> channel_rep (fst (Channel_in s d n)) (q @ [take (nat n) d])"
proof (cases "0 \<le> n \<and> n \<le> ch_maxlen s \<and> \<not> channel_full s \<and> \<not> (ch_tail s < ch_head s \<and> int (ch_head s) - int (ch_tail s) < to_int32 (4 + n))")
  case True
  then have n: "0 \<le> n" "n \<le> ch_maxlen s" by auto
  have ms: "to_int32 (4 + n) = 4 + n" using assms(1) n by (auto simp: channel_rep_def channel_wf_def)
  from assms(1) show ?thesis
  proof (cases rule: channel_rep_cases)
    case linear
    then show ?thesis using in_linear [OF assms(1) _ n assms(2)] n by simp
  next
    case (wrapped q1 x q2)
    then have "ch_tail s < ch_head s"
      using True assms(1) rep_full_iff [OF assms(1)] by (auto simp: wrapped_def)
    then have "ch_tail s + 4 + nat n \<le> ch_head s" using True n ms by linarith
    then show ?thesis using in_wrapped [of s q1 x q2 n d] wrapped assms True n by simp
  qed
next
  case False
  then show ?thesis by (auto simp: Channel_in_def Let_def)
qed

text \<open>Every message that fits in the free part of \<open>size\<close> is accepted.\<close>

lemma in_fits:
  assumes "channel_rep s q" "0 \<le> n" "n \<le> ch_maxlen s" "n \<le> int (length d)" "length (frames q) + 4 + nat n \<le> ch_size s"
  shows "snd (Channel_in s d n) = SW_OK"
  using assms(1)
proof (cases rule: channel_rep_cases)
  case linear
  then show ?thesis using in_linear assms by blast
next
  case (wrapped q1 x q2)
  then have u: "ch_tail s + 4 + nat n \<le> ch_head s" using assms(5) by (auto simp: wrapped_def)
  then have "\<not> channel_full s" using assms by (auto simp: rep_full_iff)
  then show ?thesis using in_wrapped [of s q1 x q2 n d] wrapped assms u by simp
qed

lemma head_slice:
  assumes "holds (ch_mem s) (ch_head s) [x]" "int (length x) < 2 ^ 31"
  shows "slice_length s = int (length x)" "slice_data s = x"
proof -
  have h: "bytes_at (ch_mem s) (ch_head s) 4 = le_bytes 4 (length x)" "bytes_at (ch_mem s) (ch_head s + 4) (length x) = x"
    using assms(1) by (auto simp: holds_single)
  have "length x < 256 ^ 4" using assms(2) by simp
  then have "slice_length s = to_int32 (int (length x))" by (simp only: slice_length_def h(1) le_value_bytes)
  also have "\<dots> = int (length x)" using assms(2) by (intro to_int32_id) auto
  finally show l: "slice_length s = int (length x)" .
  show "slice_data s = x" by (simp only: slice_data_def l nat_int h(2))
qed

lemma out_accepts:
  assumes "channel_rep s (x # q)" "slice_length s = int (length x)" "slice_data s = x" "int (length x) \<le> n"
    and "h = ch_head s + (4 + length x)"
  shows "Channel_out s n =
    ((if ch_size s \<le> h then s\<lparr>ch_head := 0, ch_head_tag := 1 - ch_head_tag s\<rparr> else s\<lparr>ch_head := h\<rparr>)
     \<lparr>ch_num := int (length q), ch_bytes := sum_list (map length q)\<rparr>, int (length x), x)"
proof -
  have r: "ch_num s = int (length q) + 1" "ch_bytes s = length x + sum_list (map length q)"
    using assms(1) by (auto simp: channel_rep_def)
  have f: "4 * length q + sum_list (map length q) < 2 ^ 32 + 2 ^ 31"
    using rep_used [OF assms(1)] by (simp add: length_frames)
  have 1: "to_int32 (ch_num s - 1) = int (length q)" using r(1) f by simp
  have 2: "nat ((int (ch_bytes s) - int (length x)) mod 2 ^ 64) = sum_list (map length q)" using r(2) f by simp
  have 3: "nat (int (ch_head s) + int (length x) + 4) = h" using assms(5) by simp
  have "\<not> channel_empty s" using r(1) by (simp add: channel_empty_def)
  then show ?thesis using assms(2-4) 1 2 3 by (simp add: Channel_out_def Let_def)
qed

lemma rep_head:
  assumes "channel_rep s (x # q)"
  shows "holds (ch_mem s) (ch_head s) [x]" "int (length x) < 2 ^ 31"
proof -
  show "int (length x) < 2 ^ 31" using assms by (auto simp: channel_rep_def channel_wf_def)
  from assms show "holds (ch_mem s) (ch_head s) [x]"
  proof (cases rule: channel_rep_cases)
    case linear
    then have "holds (ch_mem s) (ch_head s) (x # q)" by (simp add: linear_def)
    then show ?thesis by (rule holds_Cons [THEN iffD1, THEN conjunct1])
  next
    case (wrapped q1 y q2)
    then have h: "holds (ch_mem s) (ch_head s) (q1 @ [y])" by (simp add: wrapped_def)
    show ?thesis
    proof (cases q1)
      case Nil
      then show ?thesis using wrapped(1) h by simp
    next
      case (Cons z zs)
      then have "holds (ch_mem s) (ch_head s) (x # zs @ [y])" using wrapped(1) h by simp
      then show ?thesis by (rule holds_Cons [THEN iffD1, THEN conjunct1])
    qed
  qed
qed

lemma out_linear:
  assumes "channel_rep s (x # q)" "linear s (x # q)" "int (length x) \<le> n"
  shows "channel_rep (fst (Channel_out s n)) q"
proof -
  note e = out_accepts [OF assms(1) head_slice [OF rep_head [OF assms(1)]] assms(3) refl]
  have nb: "\<not> ch_size s \<le> ch_head s + (4 + length x)"
    using assms by (auto simp: linear_def channel_rep_def channel_wf_def)
  then have "linear (fst (Channel_out s n)) q"
    using e assms(2) holds_tl [of "ch_mem s" "ch_head s" x q] by (auto simp: linear_def)
  then show ?thesis using e assms(1) nb by (auto simp: channel_rep_def channel_wf_def)
qed

lemma out_wrapped:
  assumes "channel_rep s (x # q)" "x # q = q1 @ y # q2" "wrapped s q1 y q2" "int (length x) \<le> n"
  shows "channel_rep (fst (Channel_out s n)) q"
proof -
  note e = out_accepts [OF assms(1) head_slice [OF rep_head [OF assms(1)]] assms(4) refl]
  note wr = assms(3) [unfolded wrapped_def]
  show ?thesis
  proof (cases q1)
    case Nil
    then have xq: "x = y" "q = q2" using assms(2) by auto
    have b: "ch_size s \<le> ch_head s + (4 + length x)" using wr Nil xq by simp
    have "linear (fst (Channel_out s n)) q"
      using e b wr xq assms(1) by (auto simp: linear_def channel_rep_def channel_wf_def)
    then show ?thesis using e assms(1) b by (auto simp: channel_rep_def channel_wf_def)
  next
    case (Cons z zs)
    then have xq: "z = x" "q = zs @ y # q2" using assms(2) by auto
    have nb: "\<not> ch_size s \<le> ch_head s + (4 + length x)" using wr Cons xq by simp
    have "wrapped (fst (Channel_out s n)) zs y q2"
      using e nb wr Cons xq holds_tl [of "ch_mem s" "ch_head s" x "zs @ [y]"] by (auto simp: wrapped_def)
    then show ?thesis using e assms(1) nb xq by (auto simp: channel_rep_def channel_wf_def)
  qed
qed

lemma out_correct:
  assumes "channel_rep s (x # q)" "int (length x) \<le> n"
  shows "channel_rep (fst (Channel_out s n)) q \<and> snd (Channel_out s n) = (int (length x), x)"
proof -
  have "snd (Channel_out s n) = (int (length x), x)"
    using out_accepts [OF assms(1) head_slice [OF rep_head [OF assms(1)]] assms(2) refl] by simp
  moreover have "channel_rep (fst (Channel_out s n)) q"
    using assms(1)
  proof (cases rule: channel_rep_cases)
    case linear
    then show ?thesis using out_linear assms by blast
  next
    case (wrapped q1 y q2)
    then show ?thesis using out_wrapped assms by blast
  qed
  ultimately show ?thesis by simp
qed

lemma out_refuses:
  assumes "channel_rep s q" "q = [] \<or> n < int (length (hd q))"
  shows "Channel_out s n = (s, SW_ERR, [])"
proof (cases q)
  case Nil
  then show ?thesis using assms(1) by (simp add: channel_rep_def Channel_out_def channel_empty_def)
next
  case (Cons x q')
  then show ?thesis
    using assms head_slice [OF rep_head [of s x q']] by (simp add: Channel_out_def)
qed

section \<open>The channel is a bounded queue\<close>

definition channel_offer :: "Channel \<Rightarrow> bytes \<Rightarrow> Channel \<times> bool" where
  "channel_offer s x = (let (t, r) = Channel_in s x (int (length x)) in (t, r = SW_OK))"

definition channel_poll :: "Channel \<Rightarrow> int \<Rightarrow> Channel \<times> bytes option" where
  "channel_poll s n = (let (t, r, x) = Channel_out s n in (t, if r = SW_ERR then None else Some x))"

lemma SW_OK_ERR [simp]: "SW_ERR \<noteq> SW_OK" "SW_OK \<noteq> SW_ERR" "int n \<noteq> SW_ERR" "SW_ERR \<noteq> int n"
  by (simp_all add: SW_OK_def SW_ERR_def)

interpretation channel: bounded_fifo channel_rep channel_offer channel_poll "\<lambda>n x. int (length x) \<le> n"
proof
  fix s q x assume r: "channel_rep s q"
  note i = in_correct [OF r order_refl, of x]
  show "snd (channel_offer s x) \<Longrightarrow> channel_rep (fst (channel_offer s x)) (q @ [x])"
    using i by (auto simp: channel_offer_def split: prod.splits)
  show "\<not> snd (channel_offer s x) \<Longrightarrow> channel_rep (fst (channel_offer s x)) q"
    using i r by (auto simp: channel_offer_def split: prod.splits)
next
  fix s q and n :: int assume "channel_rep s q" "q = [] \<or> \<not> int (length (hd q)) \<le> n"
  then show "snd (channel_poll s n) = None \<and> channel_rep (fst (channel_poll s n)) q"
    using out_refuses [of s q n] by (auto simp: channel_poll_def)
next
  fix s x q and n :: int assume "channel_rep s (x # q)" "int (length x) \<le> n"
  then show "snd (channel_poll s n) = Some x \<and> channel_rep (fst (channel_poll s n)) q"
    using out_correct [of s x q n] by (auto simp: channel_poll_def split: prod.splits)
qed

text \<open>The allocator hands out as many bytes as it was asked for.\<close>

definition malloc_ok :: "(bool \<Rightarrow> nat \<Rightarrow> addr \<times> bytes) \<Rightarrow> bool" where
  "malloc_ok malloc \<longleftrightarrow> (\<forall>b n. fst (malloc b n) \<noteq> nullptr \<longrightarrow> length (snd (malloc b n)) = n)"

lemma make_rep:
  assumes "Channel_make malloc ready sz maxlen flags = Some (Some c, fr)" "malloc_ok malloc"
    and "0 < sz" "sz < 2 ^ 32" "maxlen < 2 ^ 31 - 4"
  shows "channel_rep c [] \<and> ch_size c = sz \<and> ch_maxlen c = int maxlen"
proof -
  define N where "N = sz + 80 + maxlen + 4"
  have w: "wrap64 (sz + sizeof_Channel + maxlen + sizeof_ChannelSlice) = N"
    using assms(4,5) by (simp add: N_def sizeof_Channel_def sizeof_ChannelSlice_def)
  have t: "to_int32 (int maxlen) = int maxlen" using assms(5) by simp
  let ?m = "malloc (channel_has flags SW_CHAN_SHM) N"
  from assms(1) have nn: "fst ?m \<noteq> nullptr"
    and c: "c = \<lparr>ch_head = 0, ch_tail = 0, ch_size = sz, ch_head_tag = 0, ch_tail_tag = 0, ch_num = 0,
      ch_bytes = 0, ch_flags = flags, ch_maxlen = int maxlen, ch_object = fst ?m,
      ch_mem = drop sizeof_Channel (snd ?m), ch_lock = channel_has flags SW_CHAN_LOCK,
      ch_notify_pipe = channel_has flags SW_CHAN_NOTIFY\<rparr>"
    unfolding Channel_make_def w t by (auto simp: Let_def split: if_splits)
  have "length (snd ?m) = N" using nn assms(2) unfolding malloc_ok_def by blast
  then have "length (drop sizeof_Channel (snd ?m)) = sz + maxlen + 4" by (simp add: N_def sizeof_Channel_def)
  then show ?thesis using assms(3-5) by (simp add: c channel_rep_def channel_wf_def linear_def)
qed

lemma step_fields:
  "ch_size (fst (channel_offer s x)) = ch_size s" "ch_maxlen (fst (channel_offer s x)) = ch_maxlen s"
  "ch_size (fst (channel_poll s n)) = ch_size s" "ch_maxlen (fst (channel_poll s n)) = ch_maxlen s"
  by (auto simp: channel_offer_def channel_poll_def Channel_in_def Channel_out_def Let_def)

lemma run_fields:
  "fifo_run channel_offer channel_poll s ops = (t, acc, out) \<Longrightarrow> ch_size t = ch_size s \<and> ch_maxlen t = ch_maxlen s"
proof (induction ops arbitrary: s acc out)
  case (Cons a ops)
  show ?case
  proof (cases a)
    case (Offer x)
    then show ?thesis using Cons step_fields(1,2) [of s x] by (auto split: prod.splits)
  next
    case (Poll n)
    then show ?thesis using Cons step_fields(3,4) [of s n] by (auto split: prod.splits)
  qed
qed simp

text \<open>C10: a channel made by \<open>Channel::make\<close> is a first-in first-out queue: after any sequence of \<open>in\<close> of
  messages of any length and \<open>out\<close> with any buffer length, the accepted messages are the delivered ones
  followed by the ones still stored, with their contents; \<open>count\<close> and \<open>get_bytes\<close> tell the number and
  the total length of the stored ones; and that many calls of \<open>out\<close> with room for \<open>maxlen\<close> bytes
  deliver exactly these.\<close>

theorem channel_run_fifo:
  assumes "Channel_make malloc ready sz maxlen flags = Some (Some c, fr)" "malloc_ok malloc"
    and "0 < sz" "sz < 2 ^ 32" "maxlen < 2 ^ 31 - 4"
    and "fifo_run channel_offer channel_poll c ops = (s, acc, out)"
  shows "\<exists>q. acc = out @ q \<and> channel_count s = int (length q) \<and> channel_get_bytes s = sum_list (map length q)
    \<and> (\<exists>t. fifo_run channel_offer channel_poll s (replicate (length q) (Poll (int maxlen))) = (t, [], q) \<and> channel_count t = 0)"
proof -
  note m = make_rep [OF assms(1-5)]
  obtain q where q: "channel_rep s q" "[] @ acc = out @ q"
    using channel.run_fifo [OF conjunct1 [OF m] assms(6)] by blast
  have "\<forall>x\<in>set q. int (length x) \<le> int maxlen"
    using q(1) m run_fields [OF assms(6)] by (auto simp: channel_rep_def)
  from channel.drain [OF q(1) this] obtain t where
    "fifo_run channel_offer channel_poll s (replicate (length q) (Poll (int maxlen))) = (t, [], q)" "channel_rep t []" by blast
  then show ?thesis using q by (auto simp: channel_count_def channel_get_bytes_def channel_rep_def)
qed

definition demo_malloc :: "bool \<Rightarrow> nat \<Rightarrow> addr \<times> bytes" where
  "demo_malloc b n = (4096, replicate n 0)"

lemma demo_malloc_ok: "malloc_ok demo_malloc"
  by (simp add: malloc_ok_def demo_malloc_def)

definition demo_channel :: Channel where
  "demo_channel = fst (the (map_option (\<lambda>(c, f). (the c, f)) (Channel_make demo_malloc True 16 8 SW_CHAN_LOCK)))"

lemma demo_channel_make: "Channel_make demo_malloc True 16 8 SW_CHAN_LOCK = Some (Some demo_channel, [])"
  by (simp add: demo_channel_def Channel_make_def demo_malloc_def Let_def channel_has_def SW_CHAN_LOCK_def SW_CHAN_NOTIFY_def SW_CHAN_SHM_def)

theorem channel_run_fifo_witness:
  "\<exists>q. (case fifo_run channel_offer channel_poll demo_channel [Offer [1,2,3,4,5], Offer [6], Poll 8, Offer [7,8], Offer [9,9,9,9,9,9]] of
     (s, acc, out) \<Rightarrow> acc = out @ q \<and> channel_count s = int (length q) \<and> out = [[1,2,3,4,5]] \<and> acc = [[1,2,3,4,5], [6], [7,8]])"
proof -
  let ?ops = "[Offer [1,2,3,4,5], Offer [6], Poll 8, Offer [7,8], Offer [9,9,9,9,9,9]] :: (bytes, int) fifo_op list"
  have e: "case fifo_run channel_offer channel_poll demo_channel ?ops of
      (s, acc, out) \<Rightarrow> out = [[1,2,3,4,5]] \<and> acc = [[1,2,3,4,5], [6], [7,8]]"
    by code_simp
  obtain s acc out where r: "fifo_run channel_offer channel_poll demo_channel ?ops = (s, acc, out)" by (metis surj_pair)
  from channel_run_fifo [OF demo_channel_make demo_malloc_ok _ _ _ r] obtain q where "acc = out @ q" "channel_count s = int (length q)" by auto
  then show ?thesis using e r by auto
qed

text \<open>C28: no access leaves the memory of the channel, and acceptance is guaranteed: after any sequence of
  \<open>in\<close> and \<open>out\<close>, a message of any permitted length written at \<open>tail\<close> and the message read at \<open>head\<close> lie
  within the \<open>size + maxlen + 4\<close> bytes of the channel, an empty channel accepts every message of at
  most \<open>maxlen\<close> bytes, and any channel accepts it when it fits, with its 4-byte header, into what the
  stored messages leave of \<open>size\<close>.\<close>

theorem channel_bounds:
  assumes "Channel_make malloc ready sz maxlen flags = Some (Some c, fr)" "malloc_ok malloc"
    and "0 < sz" "sz < 2 ^ 32" "maxlen < 2 ^ 31 - 4"
    and "fifo_run channel_offer channel_poll c ops = (s, acc, out)" "length x \<le> maxlen"
  shows "length (ch_mem s) = sz + maxlen + 4 \<and> ch_tail s + 4 + length x \<le> length (ch_mem s)
    \<and> (\<not> channel_empty s \<longrightarrow> 0 \<le> slice_length s \<and> int (ch_head s) + 4 + slice_length s \<le> int (length (ch_mem s)))
    \<and> (channel_empty s \<or> int (channel_get_bytes s) + 4 * channel_count s + 4 + int (length x) \<le> int sz
        \<longrightarrow> snd (Channel_in s x (int (length x))) = SW_OK)"
proof -
  note m = make_rep [OF assms(1-5)]
  obtain q where q: "channel_rep s q"
    using channel.run_fifo [OF conjunct1 [OF m] assms(6)] by blast
  have f: "ch_size s = sz" "ch_maxlen s = int maxlen" using m run_fields [OF assms(6)] by auto
  have b: "length (ch_mem s) = sz + maxlen + 4 \<and> ch_tail s + 4 + length x \<le> length (ch_mem s)"
    using q f assms(7) by (auto simp: channel_rep_def channel_wf_def)
  have h: "0 \<le> slice_length s \<and> int (ch_head s) + 4 + slice_length s \<le> int (length (ch_mem s))" if ne: "\<not> channel_empty s"
  proof (cases q)
    case Nil
    then show ?thesis using ne q by (simp add: channel_empty_def channel_rep_def)
  next
    case (Cons y q')
    then show ?thesis using rep_head [of s y q'] head_slice(1) [OF rep_head [of s y q']] q by (simp add: holds_single)
  qed
  have "snd (Channel_in s x (int (length x))) = SW_OK" if "channel_empty s"
  proof -
    have "q = []" using that q by (simp add: channel_empty_def channel_rep_def)
    then have "linear s q" using q by (auto simp: channel_rep_def)
    then show ?thesis using in_linear [OF q, of "int (length x)" x] f assms(7) by simp
  qed
  moreover have "snd (Channel_in s x (int (length x))) = SW_OK"
    if "int (channel_get_bytes s) + 4 * channel_count s + 4 + int (length x) \<le> int sz"
    using in_fits [OF q, of "int (length x)" x] that q f assms(7)
    by (auto simp: channel_get_bytes_def channel_count_def channel_rep_def length_frames)
  ultimately show ?thesis using b h by blast
qed

theorem channel_bounds_witness:
  "case fifo_run channel_offer channel_poll demo_channel [Offer [1,2,3,4,5], Poll 8, Offer [6]] of (s, acc, out) \<Rightarrow>
     ch_tail s + 4 + 2 \<le> 28 \<and> snd (Channel_in s [3,4] 2) = SW_OK"
proof -
  let ?ops = "[Offer [1,2,3,4,5], Poll 8, Offer [6]] :: (bytes, int) fifo_op list"
  obtain s acc out where r: "fifo_run channel_offer channel_poll demo_channel ?ops = (s, acc, out)" by (metis surj_pair)
  have e: "case fifo_run channel_offer channel_poll demo_channel ?ops of
      (s, acc, out) \<Rightarrow> int (channel_get_bytes s) + 4 * channel_count s + 4 + 2 \<le> 16"
    by code_simp
  from channel_bounds [OF demo_channel_make demo_malloc_ok _ _ _ r, of "[3,4]"] e r show ?thesis by auto
qed

end
