(* ===== verification/Sw_Endian.thy ===== *)
theory Sw_Endian
  imports Sw_Bytes
begin

text \<open>
  Integers in packets: the signed reading of unsigned values, the byte swaps of
  \<open>include/swoole_protocol.h\<close> on a little-endian host, \<open>swoole_unpack\<close> of \<open>src/protocol/base.cc\<close>, and
  bit operations on byte sequences.
\<close>

section \<open>Signed readings\<close>

definition to_signed :: "nat \<Rightarrow> nat \<Rightarrow> int" where
  "to_signed w v = (if v < 2 ^ (w - 1) then int v else int v - 2 ^ w)"

lemma to_signed_id [simp]: "v < 2 ^ (w - 1) \<Longrightarrow> to_signed w v = int v"
  by (simp add: to_signed_def)

lemma to_signed_neg: "2 ^ (w - 1) \<le> v \<Longrightarrow> v < 2 ^ w \<Longrightarrow> to_signed w v < 0"
  by (simp add: to_signed_def)

text \<open>Addition in \<open>ssize_t\<close>, with the wrap-around of two's complement.\<close>

definition to_int64 :: "int \<Rightarrow> int" where
  "to_int64 n = (n + 2 ^ 63) mod 2 ^ 64 - 2 ^ 63"

lemma to_int64_id [simp]: "- (2 ^ 63) \<le> n \<Longrightarrow> n < 2 ^ 63 \<Longrightarrow> to_int64 n = n"
  by (simp add: to_int64_def)

section \<open>Byte order\<close>

definition swoole_swap_endian64 :: "u64 \<Rightarrow> u64" where
  "swoole_swap_endian64 x =
     push_bit 56 (x AND 0xff) OR push_bit 40 (x AND 0xff00) OR push_bit 24 (x AND 0xff0000) OR push_bit 8 (x AND 0xff000000)
     OR drop_bit 8 (x AND 0xff00000000) OR drop_bit 24 (x AND 0xff0000000000) OR drop_bit 40 (x AND 0xff000000000000)
     OR drop_bit 56 (x AND 0xff00000000000000)"

definition swoole_hton64 :: "u64 \<Rightarrow> u64" where
  "swoole_hton64 v = swoole_swap_endian64 v"

definition swoole_ntoh64 :: "u64 \<Rightarrow> u64" where
  "swoole_ntoh64 v = swoole_swap_endian64 v"

text \<open>\<open>ntohs\<close>, \<open>ntohl\<close> and their inverses, of the C library, reverse the bytes of a 16- or 32-bit value.\<close>

definition swap_bytes :: "nat \<Rightarrow> nat \<Rightarrow> nat" where
  "swap_bytes n v = le_value (rev (le_bytes n v))"

lemma swap_bytes_load [simp]: "length bs = n \<Longrightarrow> swap_bytes n (le_value bs) = be_value bs"
  by (simp add: swap_bytes_def be_value_def)

lemma swap_bytes_store [simp]: "le_bytes n (swap_bytes n v) = be_bytes n v"
  by (simp add: swap_bytes_def be_bytes_def)

lemma bit_le_value: "bit (le_value bs) i \<longleftrightarrow> i div 8 < length bs \<and> bit (bs ! (i div 8)) (i mod 8)"
proof (induction bs arbitrary: i)
  case (Cons b bs)
  have t: "take_bit 8 (unat b + 256 * le_value bs) = unat b" "drop_bit 8 (unat b + 256 * le_value bs) = le_value bs"
    using unat_byte_less [of b] by (simp_all add: take_bit_eq_mod drop_bit_eq_div)
  show ?case
  proof (cases "i < 8")
    case True
    then have "bit (le_value (b # bs)) i = bit (take_bit 8 (le_value (b # bs))) i" by (simp add: bit_take_bit_iff)
    also have "\<dots> = bit b i" using t(1) by (simp add: bit_unsigned_iff)
    finally show ?thesis using True by simp
  next
    case False
    then obtain j where j: "i = 8 + j" using le_Suc_ex by (metis not_less)
    have "bit (le_value (b # bs)) i = bit (drop_bit 8 (le_value (b # bs))) j" by (simp add: bit_drop_bit_eq j)
    also have "\<dots> = bit (le_value bs) j" using t(2) by simp
    moreover have "(8 + j) div 8 = Suc (j div 8)" "(8 + j) mod 8 = j mod 8" by auto
    ultimately show ?thesis using Cons [of j] by (simp only: j) simp
  qed
qed simp


definition bytemask :: "nat \<Rightarrow> u64" where
  "bytemask k = push_bit k (mask 8)"

lemma byte_masks:
  "(0xff :: u64) = bytemask 0" "(0xff00 :: u64) = bytemask 8" "(0xff0000 :: u64) = bytemask 16" "(0xff000000 :: u64) = bytemask 24"
  "(0xff00000000 :: u64) = bytemask 32" "(0xff0000000000 :: u64) = bytemask 40"
  "(0xff000000000000 :: u64) = bytemask 48" "(0xff00000000000000 :: u64) = bytemask 56"
  by (simp_all add: bytemask_def mask_eq_exp_minus_1 push_bit_eq_mult)

lemma bit_bytemask: "bit (bytemask k) i \<longleftrightarrow> i < 64 \<and> k \<le> i \<and> i < k + 8"
  by (auto simp: bytemask_def bit_push_bit_iff bit_mask_iff)

lemma bit_swap64: "bit (swoole_swap_endian64 x) i \<longleftrightarrow> i < 64 \<and> bit x (8 * (7 - i div 8) + i mod 8)"
proof (cases "i < 64")
  case True
  define k r where "k = i div 8" and "r = i mod 8"
  have i: "i = 8 * k + r" "r < 8" "k < 8" using True by (auto simp: k_def r_def)
  then have k: "k = 0 \<or> k = 1 \<or> k = 2 \<or> k = 3 \<or> k = 4 \<or> k = 5 \<or> k = 6 \<or> k = 7" by linarith
  have d: "(8 * k + r) div 8 = k" "(8 * k + r) mod 8 = r" using i(2) by auto
  show ?thesis
    unfolding swoole_swap_endian64_def byte_masks i(1) d using k i(2)
    by (elim disjE) (simp_all add: bit_bytemask bit_or_iff bit_and_iff bit_push_bit_iff bit_drop_bit_eq ac_simps)
next
  case False
  then show ?thesis using bit_imp_le_length [of "swoole_swap_endian64 x" i] by auto
qed

lemma bit_be_value: "bit (be_value bs) i \<longleftrightarrow> i div 8 < length bs \<and> bit (bs ! (length bs - 1 - i div 8)) (i mod 8)"
  by (auto simp: be_value_def bit_le_value rev_nth)

lemma swap64_load:
  assumes "length bs = 8"
  shows "unat (swoole_swap_endian64 (of_nat (le_value bs))) = be_value bs"
proof (rule bit_eqI)
  fix i
  have "bit (swoole_swap_endian64 (of_nat (le_value bs))) i \<longleftrightarrow> i < 64 \<and> bit (le_value bs) (8 * (7 - i div 8) + i mod 8)"
    by (auto simp: bit_swap64 bit_of_nat_iff possible_bit_word)
  also have "\<dots> \<longleftrightarrow> bit (be_value bs) i"
    using assms by (auto simp: bit_le_value bit_be_value)
  finally show "bit (unat (swoole_swap_endian64 (of_nat (le_value bs)))) i \<longleftrightarrow> bit (be_value bs) i"
    by (simp add: bit_unsigned_iff)
qed

lemma swap64_store: "v < 2 ^ 64 \<Longrightarrow> le_bytes 8 (unat (swoole_swap_endian64 (of_nat v))) = be_bytes 8 v"
  using swap64_load [of "le_bytes 8 v"] by (simp add: be_value_def be_bytes_def)

section \<open>Bytes and their bits\<close>

lemma nat_xor_split:
  fixes a b x y :: nat
  assumes "a < 256" "b < 256"
  shows "(a + 256 * x) XOR (b + 256 * y) = (a XOR b) + 256 * (x XOR y)"
proof -
  have t: "take_bit 8 (c + 256 * z) = c" "drop_bit 8 (c + 256 * z) = z" if "c < 256" for c z :: nat
    using that by (simp_all add: take_bit_eq_mod drop_bit_eq_div)
  define l where "l = (a + 256 * x) XOR (b + 256 * y)"
  have "push_bit 8 (drop_bit 8 l) + take_bit 8 l = l" by (rule bits_ident)
  moreover have "take_bit 8 l = a XOR b" unfolding l_def using t(1) assms by (simp only: take_bit_xor)
  moreover have "drop_bit 8 l = x XOR y" unfolding l_def using t(2) assms by (simp only: drop_bit_xor)
  ultimately have "push_bit 8 (x XOR y) + (a XOR b) = l" by simp
  then show ?thesis by (simp add: push_bit_eq_mult l_def)
qed

lemma le_value_xor:
  "length xs = length ys \<Longrightarrow> le_value xs XOR le_value ys = le_value (map2 (XOR) xs ys)"
proof (induction xs ys rule: list_induct2)
  case (Cons x xs y ys)
  have "le_value (x # xs) XOR le_value (y # ys) = (unat x XOR unat y) + 256 * (le_value xs XOR le_value ys)"
    by (simp add: nat_xor_split unat_byte_less)
  then show ?case using Cons by (simp add: unsigned_xor_eq)
qed simp

lemma push_or_plus: "m < 2 ^ k \<Longrightarrow> push_bit k n OR m = m + 2 ^ k * (n :: nat)"
proof -
  assume m: "m < 2 ^ k"
  define l where "l = push_bit k n OR m"
  have "push_bit k (drop_bit k l) + take_bit k l = l" by (rule bits_ident)
  moreover have "take_bit k l = m" unfolding l_def using m by (simp add: take_bit_or take_bit_push_bit take_bit_nat_eq_self)
  moreover have "drop_bit k l = n" unfolding l_def drop_bit_or using m by (simp add: drop_bit_eq_div push_bit_eq_mult)
  ultimately have "push_bit k n + m = l" by simp
  then show ?thesis by (simp add: push_bit_eq_mult l_def mult.commute)
qed

lemma bit_flag: "drop_bit n (w::byte) AND 1 \<noteq> 0 \<longleftrightarrow> bit w n" "drop_bit n (w::byte) AND 1 = 0 \<longleftrightarrow> \<not> bit w n"
  by (simp_all add: bit_iff_odd_drop_bit and_one_eq odd_iff_mod_2_eq_one)

lemma byte_and_mask: "unat ((w::byte) AND of_nat (2 ^ k - 1)) = unat w mod 2 ^ k"
proof -
  have "(of_nat (2 ^ k - 1) :: byte) = mask k" by (simp add: mask_eq_exp_minus_1 of_nat_diff)
  then have "w AND of_nat (2 ^ k - 1) = take_bit k w" by (simp only: take_bit_eq_mask)
  moreover have "unat (take_bit k w) = unat w mod 2 ^ k" by (simp only: unsigned_take_bit_eq take_bit_eq_mod [of k "unat w"])
  ultimately show ?thesis by (simp only:)
qed

lemma byte_and_7f: "unat ((w::byte) AND 0x7f) = unat w mod 128"
  using byte_and_mask [of w 7] by simp

lemma byte_and_0f: "unat ((w::byte) AND 0xf) = unat w mod 16"
  using byte_and_mask [of w 4] by simp

lemma bit_of_nat_byte: "n < 8 \<Longrightarrow> bit (of_nat v :: byte) n \<longleftrightarrow> odd (v div 2 ^ n)"
  unfolding bit_of_nat_iff by (simp add: possible_bit_word bit_iff_odd)

section \<open>\<open>swoole_unpack\<close>\<close>

text \<open>The value of a packet field; \<open>memcpy\<close> reads as many bytes as the type has.\<close>

definition load :: "nat \<Rightarrow> bytes \<Rightarrow> nat" where
  "load n d = le_value (bytes_at d 0 n)"

lemma load_append [simp]: "n \<le> length d \<Longrightarrow> load n (d @ e) = load n d"
  by (simp add: load_def bytes_at_def)

lemma load_less: "load n d < 256 ^ n"
proof -
  have "le_value (bytes_at d 0 n) < 256 ^ min n (length d)" using le_value_less [of "bytes_at d 0 n"] by simp
  also have "\<dots> \<le> 256 ^ n" by (intro power_increasing) auto
  finally show ?thesis by (simp add: load_def)
qed

definition swoole_type_size :: "char \<Rightarrow> nat" where
  "swoole_type_size type =
     (if type = CHR ''c'' \<or> type = CHR ''C'' then 1
      else if type = CHR ''s'' \<or> type = CHR ''S'' \<or> type = CHR ''n'' \<or> type = CHR ''v'' then 2
      else if type = CHR ''l'' \<or> type = CHR ''L'' \<or> type = CHR ''N'' \<or> type = CHR ''V'' then 4
      else if type = CHR ''q'' \<or> type = CHR ''Q'' \<or> type = CHR ''J'' \<or> type = CHR ''P'' then 8
      else 0)"

definition swoole_unpack :: "char \<Rightarrow> bytes \<Rightarrow> int" where
  "swoole_unpack type d =
     (if type = CHR ''c'' then to_signed 8 (load 1 d)
      else if type = CHR ''C'' then int (load 1 d)
      else if type = CHR ''s'' then to_signed 16 (load 2 d)
      else if type = CHR ''S'' then int (load 2 d)
      else if type = CHR ''n'' then int (swap_bytes 2 (load 2 d))
      else if type = CHR ''v'' then int (load 2 d)
      else if type = CHR ''i'' then to_signed 32 (load 4 d)
      else if type = CHR ''I'' then int (load 4 d)
      else if type = CHR ''l'' then to_signed 32 (load 4 d)
      else if type = CHR ''L'' then int (load 4 d)
      else if type = CHR ''N'' then int (swap_bytes 4 (load 4 d))
      else if type = CHR ''V'' then int (load 4 d)
      else if type = CHR ''q'' then to_signed 64 (load 8 d)
      else if type = CHR ''Q'' then to_signed 64 (load 8 d)
      else if type = CHR ''J'' then to_signed 64 (unat (swoole_ntoh64 (of_nat (load 8 d))))
      else if type = CHR ''P'' then to_signed 64 (load 8 d)
      else -1)"

lemma type_size_cases:
  "swoole_type_size type \<noteq> 0 \<Longrightarrow>
    type = CHR ''c'' \<or> type = CHR ''C'' \<or> type = CHR ''s'' \<or> type = CHR ''S'' \<or> type = CHR ''n'' \<or> type = CHR ''v''
    \<or> type = CHR ''l'' \<or> type = CHR ''L'' \<or> type = CHR ''N'' \<or> type = CHR ''V'' \<or> type = CHR ''q'' \<or> type = CHR ''Q''
    \<or> type = CHR ''J'' \<or> type = CHR ''P''"
  by (rule ccontr) (simp add: swoole_type_size_def)

text \<open>\<open>swoole_unpack\<close> depends on the bytes of the field only.\<close>

lemma unpack_local:
  assumes "swoole_type_size type \<noteq> 0" "swoole_type_size type \<le> length d"
  shows "swoole_unpack type (d @ e) = swoole_unpack type d"
  using type_size_cases [OF assms(1)] assms(2)
  by (elim disjE) (simp_all add: swoole_type_size_def swoole_unpack_def)

lemma load_le_bytes [simp]: "v < 256 ^ n \<Longrightarrow> load n (le_bytes n v) = v"
  by (simp add: load_def)

lemma load_1: "load (Suc 0) [of_nat v] = v mod 256"
  by (simp add: load_def bytes_at_def unat_of_nat_byte)

lemma load_be_bytes [simp]: "load n (be_bytes n v) = le_value (be_bytes n v)"
  by (simp add: load_def)

text \<open>The unsigned big-endian and little-endian types give back what was packed.\<close>

definition pack_as :: "char \<Rightarrow> nat \<Rightarrow> bytes" where
  "pack_as type v = (if type = CHR ''n'' \<or> type = CHR ''N'' \<or> type = CHR ''J'' then be_bytes (swoole_type_size type) v
     else le_bytes (swoole_type_size type) v)"

lemma unpack_pack:
  assumes "type = CHR ''C'' \<or> type = CHR ''S'' \<or> type = CHR ''n'' \<or> type = CHR ''v'' \<or> type = CHR ''L'' \<or> type = CHR ''N''
      \<or> type = CHR ''V'' \<or> type = CHR ''Q'' \<or> type = CHR ''J'' \<or> type = CHR ''P''"
    and "v < 256 ^ swoole_type_size type" "v < 2 ^ 63"
  shows "swoole_unpack type (pack_as type v) = int v"
proof -
  have "unat (swoole_swap_endian64 (of_nat (le_value (be_bytes 8 v)))) = v"
    using assms(3) by (subst swap64_load) auto
  then show ?thesis
    using assms
    by (elim disjE) (simp_all add: swoole_unpack_def pack_as_def swoole_type_size_def swoole_ntoh64_def load_1)
qed

end
