(* ===== verification/Sw_WebSocket.thy ===== *)
theory Sw_WebSocket
  imports Sw_Endian
begin

text \<open>
  \<open>src/protocol/websocket.cc\<close> and \<open>include/swoole_websocket.h\<close>: frame headers, masking, encoding and
  decoding of frames, and \<open>dispatch_frame\<close>, which hands complete messages to the server and merges
  fragmented ones. The effects of a dispatch are returned as a list. The host is little-endian.
\<close>

section \<open>Constants and headers\<close>

definition SW_WEBSOCKET_HEADER_LEN :: nat where [simp]: "SW_WEBSOCKET_HEADER_LEN = 2"
definition SW_WEBSOCKET_MASK_LEN :: nat where [simp]: "SW_WEBSOCKET_MASK_LEN = 4"
definition SW_WEBSOCKET_MASK_DATA :: bytes where "SW_WEBSOCKET_MASK_DATA = [50, 53, 56, 69]"
definition SW_WEBSOCKET_EXT16_MAX_LEN :: nat where [simp]: "SW_WEBSOCKET_EXT16_MAX_LEN = 65535"
definition SW_WEBSOCKET_EXT16_LENGTH :: nat where [simp]: "SW_WEBSOCKET_EXT16_LENGTH = 126"
definition SW_WEBSOCKET_EXT64_LENGTH :: nat where [simp]: "SW_WEBSOCKET_EXT64_LENGTH = 127"
definition SW_WEBSOCKET_CLOSE_CODE_LEN :: nat where [simp]: "SW_WEBSOCKET_CLOSE_CODE_LEN = 2"
definition SW_WEBSOCKET_CONTROL_FRAME_PAYLOAD_MAX_LEN :: nat where [simp]: "SW_WEBSOCKET_CONTROL_FRAME_PAYLOAD_MAX_LEN = 125"
definition SW_WEBSOCKET_CLOSE_REASON_MAX_LEN :: nat where [simp]: "SW_WEBSOCKET_CLOSE_REASON_MAX_LEN = 125 - 2"

definition STATUS_CLOSING :: nat where "STATUS_CLOSING = 4"

definition FLAG_FIN :: byte where "FLAG_FIN = 1"
definition FLAG_RSV1 :: byte where "FLAG_RSV1 = 4"
definition FLAG_RSV2 :: byte where "FLAG_RSV2 = 8"
definition FLAG_RSV3 :: byte where "FLAG_RSV3 = 16"
definition FLAG_MASK :: byte where "FLAG_MASK = 32"
definition FLAG_ENCODE_HEADER_ONLY :: byte where "FLAG_ENCODE_HEADER_ONLY = 64"

definition has_flag :: "byte \<Rightarrow> byte \<Rightarrow> bool" where
  "has_flag flags f \<longleftrightarrow> flags AND f \<noteq> 0"

definition OPCODE_CONTINUATION :: nat where "OPCODE_CONTINUATION = 0"
definition OPCODE_TEXT :: nat where "OPCODE_TEXT = 1"
definition OPCODE_BINARY :: nat where "OPCODE_BINARY = 2"
definition OPCODE_CLOSE :: nat where "OPCODE_CLOSE = 8"
definition OPCODE_PING :: nat where "OPCODE_PING = 9"
definition OPCODE_PONG :: nat where "OPCODE_PONG = 10"

lemmas opcode_defs = OPCODE_CONTINUATION_def OPCODE_TEXT_def OPCODE_BINARY_def OPCODE_CLOSE_def OPCODE_PING_def OPCODE_PONG_def

record Header =
  OPCODE :: nat
  RSV3 :: bool
  RSV2 :: bool
  RSV1 :: bool
  FIN :: bool
  LENGTH7 :: nat
  MASK :: bool

text \<open>The two bytes that the bit fields of \<open>Header\<close> occupy.\<close>

definition header_bytes :: "Header \<Rightarrow> bytes" where
  "header_bytes h =
     [of_nat (OPCODE h mod 16 + 16 * of_bool (RSV3 h) + 32 * of_bool (RSV2 h) + 64 * of_bool (RSV1 h) + 128 * of_bool (FIN h)),
      of_nat (LENGTH7 h mod 128 + 128 * of_bool (MASK h))]"

record Frame =
  header :: Header
  mask_key :: bytes
  header_length :: nat
  payload_length :: nat
  payload :: "nat option"

definition get_flags :: "Frame \<Rightarrow> byte" where
  "get_flags f =
     (if FIN (header f) then FLAG_FIN else 0) OR (if RSV1 (header f) then FLAG_RSV1 else 0)
     OR (if RSV2 (header f) then FLAG_RSV2 else 0) OR (if RSV3 (header f) then FLAG_RSV3 else 0)
     OR (if MASK (header f) then FLAG_MASK else 0)"

definition set_flags :: "bool \<Rightarrow> bool \<Rightarrow> bool \<Rightarrow> bool \<Rightarrow> bool \<Rightarrow> byte" where
  "set_flags fin msk rsv1 rsv2 rsv3 =
     (if fin then FLAG_FIN else 0) OR (if msk then FLAG_MASK else 0) OR (if rsv1 then FLAG_RSV1 else 0)
     OR (if rsv2 then FLAG_RSV2 else 0) OR (if rsv3 then FLAG_RSV3 else 0)"

definition is_control_frame :: "nat \<Rightarrow> bool" where
  "is_control_frame opcode \<longleftrightarrow> opcode = OPCODE_CLOSE \<or> opcode = OPCODE_PING \<or> opcode = OPCODE_PONG"

definition get_ext_flags :: "nat \<Rightarrow> byte \<Rightarrow> nat" where
  "get_ext_flags opcode flags = (push_bit 8 opcode mod 2 ^ 16 + unat flags) mod 2 ^ 16"

definition parse_ext_flags :: "nat \<Rightarrow> nat \<times> byte" where
  "parse_ext_flags ext_flags = (drop_bit 8 ext_flags mod 256, of_nat (ext_flags AND 0xFF))"

definition parse_close_code :: "bytes \<Rightarrow> nat" where
  "parse_close_code pl = push_bit 8 (unat (pl ! 0)) OR unat (pl ! 1)"

section \<open>Operations\<close>

text \<open>\<open>get_package_length_impl\<close>: the return value and the header length it leaves in the \<open>PacketLength\<close>.\<close>

definition get_package_length_impl :: "bytes \<Rightarrow> nat \<Rightarrow> nat \<Rightarrow> int \<times> nat" where
  "get_package_length_impl buf buf_size header_len0 =
     (if buf_size < SW_WEBSOCKET_HEADER_LEN then (0, header_len0)
      else
        let msk = drop_bit 7 (buf ! 1) AND 1;
            len7 = unat (buf ! 1 AND 0x7f);
            finish = (\<lambda>header_len payload_length.
              let header_len' = (if msk \<noteq> 0 then header_len + SW_WEBSOCKET_MASK_LEN else header_len) in
              if msk \<noteq> 0 \<and> buf_size < header_len' then (0, header_len')
              else if to_signed 64 payload_length < 0 then (-1, header_len')
              else (to_int64 (int header_len' + to_signed 64 payload_length), header_len'))
        in
        if len7 = SW_WEBSOCKET_EXT16_LENGTH then
          if buf_size < SW_WEBSOCKET_HEADER_LEN + 2 then (0, SW_WEBSOCKET_HEADER_LEN + 2)
          else finish (SW_WEBSOCKET_HEADER_LEN + 2) (swap_bytes 2 (load 2 (drop SW_WEBSOCKET_HEADER_LEN buf)))
        else if len7 = SW_WEBSOCKET_EXT64_LENGTH then
          if buf_size < SW_WEBSOCKET_HEADER_LEN + 8 then (0, SW_WEBSOCKET_HEADER_LEN + 8)
          else finish (SW_WEBSOCKET_HEADER_LEN + 8)
                 (unat (swoole_ntoh64 (of_nat (load 8 (drop SW_WEBSOCKET_HEADER_LEN buf)))))
        else finish SW_WEBSOCKET_HEADER_LEN len7)"

text \<open>\<open>mask\<close>: blocks of 8 bytes, then the rest byte by byte.\<close>

definition ws_mask :: "bytes \<Rightarrow> nat \<Rightarrow> bytes \<Rightarrow> bytes" where
  "ws_mask data len key =
     (let n = len div 8;
          mask_value = load 4 key;
          mask_key64 = push_bit 32 mask_value OR mask_value;
          d = fold (\<lambda>i d. memcpy_at d (i * 8) (le_bytes 8 (load 8 (drop (i * 8) d) XOR mask_key64))) [0..<n] data
      in fold (\<lambda>i d. d[i := d ! i XOR key ! (i mod SW_WEBSOCKET_MASK_LEN)]) [n * 8..<len] d)"

text \<open>\<open>encode\<close>: the buffer afterwards and the return value. \<open>frame_header\<close> is written first, then the body.\<close>

definition ws_encode :: "bytes \<Rightarrow> bytes \<Rightarrow> nat \<Rightarrow> nat \<Rightarrow> byte \<Rightarrow> bytes \<times> bool" where
  "ws_encode buffer data len opcode flags =
     (if is_control_frame opcode \<and> (\<not> has_flag flags FLAG_FIN \<or> len > SW_WEBSOCKET_CONTROL_FRAME_PAYLOAD_MAX_LEN)
      then (buffer, False)
      else
        let h = \<lparr>OPCODE = opcode mod 16, RSV3 = False, RSV2 = False, RSV1 = has_flag flags FLAG_RSV1,
                 FIN = has_flag flags FLAG_FIN, LENGTH7 = 0, MASK = has_flag flags FLAG_MASK\<rparr>;
            frame_header =
              (if len < SW_WEBSOCKET_EXT16_LENGTH then header_bytes (h\<lparr>LENGTH7 := len\<rparr>)
               else if len \<le> SW_WEBSOCKET_EXT16_MAX_LEN
               then header_bytes (h\<lparr>LENGTH7 := SW_WEBSOCKET_EXT16_LENGTH\<rparr>) @ le_bytes 2 (swap_bytes 2 len)
               else header_bytes (h\<lparr>LENGTH7 := SW_WEBSOCKET_EXT64_LENGTH\<rparr>) @ le_bytes 8 (unat (swoole_hton64 (of_nat len))));
            buffer1 = buffer @ frame_header
        in
        if MASK h then
          let buffer2 = buffer1 @ SW_WEBSOCKET_MASK_DATA in
          if has_flag flags FLAG_ENCODE_HEADER_ONLY then (buffer2, True)
          else if len > 0 then
            let off = length buffer2; buffer3 = buffer2 @ take len data in
            (take off buffer3 @ ws_mask (drop off buffer3) len SW_WEBSOCKET_MASK_DATA, True)
          else (buffer2, True)
        else if len > 0 \<and> \<not> has_flag flags FLAG_ENCODE_HEADER_ONLY then (buffer1 @ take len data, True)
        else (buffer1, True))"

text \<open>\<open>parse_frame\<close>; None is the return value false. The payload is given by its offset.\<close>

definition parse_frame :: "bytes \<Rightarrow> nat \<Rightarrow> Frame option" where
  "parse_frame data len =
     (let h = \<lparr>OPCODE = unat (data ! 0 AND 0xf), RSV3 = (drop_bit 4 (data ! 0) AND 1 \<noteq> 0),
               RSV2 = (drop_bit 5 (data ! 0) AND 1 \<noteq> 0), RSV1 = (drop_bit 6 (data ! 0) AND 1 \<noteq> 0),
               FIN = (drop_bit 7 (data ! 0) AND 1 \<noteq> 0), LENGTH7 = unat (data ! 1 AND 0x7f),
               MASK = (drop_bit 7 (data ! 1) AND 1 \<noteq> 0)\<rparr>;
          r = get_package_length_impl data (wrap32 len) 0;
          total_length = fst r; header_len = snd r
      in
      if total_length \<le> 0 \<or> int len < total_length then None
      else
        let plen = nat total_length - header_len in
        if is_control_frame (OPCODE h) \<and> (RSV1 h \<or> \<not> FIN h \<or> plen > SW_WEBSOCKET_CONTROL_FRAME_PAYLOAD_MAX_LEN) then None
        else Some \<lparr>header = h,
                   mask_key = (if plen \<noteq> 0 \<and> MASK h then bytes_at data (header_len - SW_WEBSOCKET_MASK_LEN) SW_WEBSOCKET_MASK_LEN else []),
                   header_length = header_len, payload_length = plen,
                   payload = (if plen = 0 then None else Some header_len)\<rparr>)"

text \<open>\<open>decode\<close>: the frame and the data, unmasked in place.\<close>

definition ws_decode :: "bytes \<Rightarrow> nat \<Rightarrow> (Frame \<times> bytes) option" where
  "ws_decode data len =
     (case parse_frame data len of
        None \<Rightarrow> None
      | Some f \<Rightarrow>
          (case payload f of
             Some off \<Rightarrow>
               if MASK (header f) \<and> payload_length f > 0
               then Some (f, take off data @ ws_mask (drop off data) (payload_length f) (mask_key f))
               else Some (f, data)
           | None \<Rightarrow> Some (f, data)))"

definition pack_close_frame :: "bytes \<Rightarrow> int \<Rightarrow> bytes \<Rightarrow> nat \<Rightarrow> byte \<Rightarrow> bytes \<times> bool" where
  "pack_close_frame buffer code reason len flags =
     (if len > SW_WEBSOCKET_CLOSE_REASON_MAX_LEN then (buffer, False)
      else
        let pl = [of_int (drop_bit 8 code AND 0xFF), of_int (code AND 0xFF)] @ take len reason in
        ws_encode buffer pl (SW_WEBSOCKET_CLOSE_CODE_LEN + len) OPCODE_CLOSE (flags OR FLAG_FIN))"

section \<open>Dispatching frames\<close>

text \<open>
  The parts of the connection that \<open>dispatch_frame\<close> uses: the merge buffer with its \<open>offset\<close> field, which
  keeps the extended flags of the first fragment, and the close state.
\<close>

record Connection =
  websocket_buffer :: "(bytes \<times> nat) option"
  websocket_status :: nat

datatype ws_effect = WS_DISPATCH (eff_ext_flags: nat) (eff_len: nat) (eff_data: bytes) | WS_SEND bytes

definition dispatch_frame :: "nat \<Rightarrow> Connection \<Rightarrow> bytes \<Rightarrow> Connection \<times> ws_effect list \<times> int" where
  "dispatch_frame package_max_length conn rdata =
     (let len = length rdata in
      case ws_decode rdata len of
        None \<Rightarrow> (conn, [], SW_ERR)
      | Some (ws, data) \<Rightarrow>
          let opcode = OPCODE (header ws);
              off = len - payload_length ws;
              ext_flags = get_ext_flags opcode (get_flags ws) in
          if opcode = OPCODE_CONTINUATION then
            (case websocket_buffer conn of
               None \<Rightarrow> (conn, [], SW_ERR)
             | Some (frame_buffer, boff) \<Rightarrow>
                 if length frame_buffer + (len - off) > package_max_length then (conn, [], SW_ERR)
                 else
                   let merged = frame_buffer @ bytes_at data off (len - off) in
                   if FIN (header ws) then
                     (conn\<lparr>websocket_buffer := None\<rparr>, [WS_DISPATCH (boff OR unat FLAG_FIN) (length merged) merged], SW_OK)
                   else (conn\<lparr>websocket_buffer := Some (merged, boff)\<rparr>, [], SW_OK))
          else if opcode = OPCODE_TEXT \<or> opcode = OPCODE_BINARY then
            if \<not> FIN (header ws) then
              if websocket_buffer conn \<noteq> None then (conn, [], SW_ERR)
              else (conn\<lparr>websocket_buffer := Some (bytes_at data off (len - off), ext_flags)\<rparr>, [], SW_OK)
            else (conn, [WS_DISPATCH ext_flags (len - off) (bytes_at data off (len - off))], SW_OK)
          else if opcode = OPCODE_PING \<or> opcode = OPCODE_PONG then
            if payload_length ws > SW_WEBSOCKET_CONTROL_FRAME_PAYLOAD_MAX_LEN then (conn, [], SW_ERR)
            else if payload_length ws = 0 then (conn, [WS_DISPATCH ext_flags 0 []], SW_OK)
            else
              let offs = (if MASK (header ws) then SW_WEBSOCKET_HEADER_LEN + SW_WEBSOCKET_MASK_LEN else SW_WEBSOCKET_HEADER_LEN) in
              (conn, [WS_DISPATCH ext_flags (len - offs) (bytes_at data offs (len - offs))], SW_OK)
          else if opcode = OPCODE_CLOSE then
            if payload_length ws > SW_WEBSOCKET_CONTROL_FRAME_PAYLOAD_MAX_LEN then (conn, [], SW_ERR)
            else if websocket_status conn \<noteq> STATUS_CLOSING then
              (conn, [WS_DISPATCH ext_flags (len - off) (bytes_at data off (len - off)),
                      WS_SEND ([0x88, of_nat (payload_length ws)] @ bytes_at data (len - payload_length ws) (payload_length ws))], SW_ERR)
            else (conn\<lparr>websocket_status := 0\<rparr>, [], SW_ERR)
          else (conn, [], SW_OK))"

section \<open>Masking\<close>

definition mask_bytes :: "bytes \<Rightarrow> nat \<Rightarrow> bytes \<Rightarrow> bytes" where
  "mask_bytes data len key = map (\<lambda>i. if i < len then data ! i XOR key ! (i mod 4) else data ! i) [0..<length data]"

lemma length_mask_bytes [simp]: "length (mask_bytes data len key) = length data"
  by (simp add: mask_bytes_def)

lemma nth_mask_bytes [simp]:
  "i < length data \<Longrightarrow> mask_bytes data len key ! i = (if i < len then data ! i XOR key ! (i mod 4) else data ! i)"
  by (simp add: mask_bytes_def)

lemma key64_bytes: "length key = 4 \<Longrightarrow> push_bit 32 (load 4 key) OR load 4 key = le_value (key @ key)"
  using load_less [of 4 key] by (simp add: push_or_plus load_def le_value_append)

lemma block_xor:
  assumes "length key = 4" "8 * k + 8 \<le> length d"
  shows "le_bytes 8 (load 8 (drop (k * 8) d) XOR le_value (key @ key)) = map2 (XOR) (bytes_at d (k * 8) 8) (key @ key)"
proof -
  have "load 8 (drop (k * 8) d) = le_value (bytes_at d (k * 8) 8)" by (simp add: load_def bytes_at_def)
  then show ?thesis using assms by (simp add: le_value_xor)
qed

lemma mask_blocks:
  assumes "length key = 4" "8 * k \<le> length data"
  shows "fold (\<lambda>i d. memcpy_at d (i * 8) (le_bytes 8 (load 8 (drop (i * 8) d) XOR le_value (key @ key)))) [0..<k] data
    = mask_bytes data (8 * k) key"
  using assms(2)
proof (induction k)
  case 0
  show ?case by (rule nth_equalityI) auto
next
  case (Suc k)
  let ?d = "mask_bytes data (8 * k) key"
  have l: "8 * k + 8 \<le> length ?d" using Suc by simp
  have m8: "(key @ key) ! j = key ! ((k * 8 + j) mod 4)" if "j < 8" for j
  proof -
    have "(k * 8 + j) mod 4 = j mod 4" by presburger
    then show ?thesis using that assms(1) by (auto simp: nth_append mod_if)
  qed
  have "memcpy_at ?d (k * 8) (map2 (XOR) (bytes_at ?d (k * 8) 8) (key @ key)) = mask_bytes data (8 * Suc k) key"
  proof (rule nth_equalityI)
    show "length (memcpy_at ?d (k * 8) (map2 (XOR) (bytes_at ?d (k * 8) 8) (key @ key))) = length (mask_bytes data (8 * Suc k) key)"
      using l assms(1) by simp
  next
    fix i assume "i < length (memcpy_at ?d (k * 8) (map2 (XOR) (bytes_at ?d (k * 8) 8) (key @ key)))"
    then have i: "i < length data" using l assms(1) by simp
    then show "memcpy_at ?d (k * 8) (map2 (XOR) (bytes_at ?d (k * 8) 8) (key @ key)) ! i = mask_bytes data (8 * Suc k) key ! i"
      using l assms(1) m8 [of "i - k * 8"] by (auto simp: nth_memcpy_at nth_bytes_at)
  qed
  then show ?case using Suc block_xor [OF assms(1) l] by simp
qed

lemma mask_tail:
  assumes "m + n \<le> length data"
  shows "fold (\<lambda>i d. d[i := d ! i XOR key ! (i mod 4)]) [m..<m + n] (mask_bytes data m key) = mask_bytes data (m + n) key"
  using assms
proof (induction n)
  case (Suc n)
  then show ?case by (auto intro!: nth_equalityI simp: nth_list_update)
qed simp

lemma ws_mask_bytes:
  assumes "length key = 4" "len \<le> length data"
  shows "ws_mask data len key = mask_bytes data len key"
proof -
  have e: "8 * (len div 8) + (len - 8 * (len div 8)) = len" by simp
  have "ws_mask data len key = fold (\<lambda>i d. d[i := d ! i XOR key ! (i mod 4)]) [len div 8 * 8..<len] (mask_bytes data (8 * (len div 8)) key)"
    using mask_blocks [OF assms(1), of "len div 8" data] assms(2) by (simp add: ws_mask_def Let_def key64_bytes assms(1))
  also have "\<dots> = mask_bytes data len key"
    using mask_tail [of "8 * (len div 8)" "len - 8 * (len div 8)" data key] assms(2) by (simp only: e mult.commute [of _ 8])
  finally show ?thesis .
qed

lemma mask_twice: "mask_bytes (mask_bytes data len key) len key = data"
  by (rule nth_equalityI) (auto simp: xor.assoc)

lemma take_mask_bytes:
  "n = length xs \<Longrightarrow> mask_bytes (xs @ ys) n key = mask_bytes xs n key @ ys"
  by (rule nth_equalityI) (auto simp: nth_append)

section \<open>Encoding and decoding\<close>

lemma byte1_fields:
  assumes "l < 128"
  shows "unat ((of_nat (l + 128 * of_bool m) :: byte) AND 0x7f) = l"
    and "bit (of_nat (l + 128 * of_bool m) :: byte) 7 = m"
proof -
  show "unat ((of_nat (l + 128 * of_bool m) :: byte) AND 0x7f) = l"
    unfolding byte_and_7f unat_of_nat_byte using assms by (cases m) auto
  show "bit (of_nat (l + 128 * of_bool m) :: byte) 7 = m"
    using assms by (subst bit_of_nat_byte) (auto simp: of_bool_def)
qed

lemma byte0_fields:
  fixes r1 fin :: bool and op :: nat
  defines "b \<equiv> (of_nat (op mod 16 + 64 * of_bool r1 + 128 * of_bool fin) :: byte)"
  shows "unat (b AND 0xf) = op mod 16" "\<not> bit b 4" "\<not> bit b 5" "bit b 6 = r1" "bit b 7 = fin"
proof -
  have o: "op mod 16 < 16" by simp
  define k where "k = 4 * of_bool r1 + (8 * of_bool fin :: nat)"
  have "k < 16" by (auto simp: k_def of_bool_def)
  have "(op mod 16 + 16 * k) mod 256 = op mod 16 + 16 * k" using o \<open>k < 16\<close> by (intro mod_less) linarith
  moreover have "(op mod 16 + 16 * k) mod 16 = op mod 16" by (simp add: mod_mult_self2)
  moreover have "op mod 16 + 64 * of_bool r1 + 128 * of_bool fin = op mod 16 + 16 * k" by (simp add: k_def)
  ultimately show "unat (b AND 0xf) = op mod 16"
    unfolding b_def byte_and_0f unat_of_nat_byte by (simp only:)
  have v: "(op mod 16 + 64 * of_bool r1 + 128 * of_bool fin) div 16 = 4 * of_bool r1 + 8 * of_bool fin"
    using o by (cases r1; cases fin) auto
  have d: "n div 2 ^ 4 = n div 16" "n div 2 ^ 5 = n div 16 div 2" "n div 2 ^ 6 = n div 16 div 4" "n div 2 ^ 7 = n div 16 div 8" for n :: nat
    by (simp_all add: div_mult2_eq [symmetric])
  show "\<not> bit b 4" "\<not> bit b 5" "bit b 6 = r1" "bit b 7 = fin"
    unfolding b_def by (subst bit_of_nat_byte, simp, unfold d v, cases r1; cases fin; simp)+
qed

text \<open>The length part of a frame header: the 7-bit field and the extension.\<close>

definition len_field :: "nat \<Rightarrow> nat" where
  "len_field len = (if len < 126 then len else if len \<le> 65535 then 126 else 127)"

definition len_ext :: "nat \<Rightarrow> bytes" where
  "len_ext len = (if len < 126 then [] else if len \<le> 65535 then be_bytes 2 len else be_bytes 8 len)"

definition ws_valid :: "nat \<Rightarrow> byte \<Rightarrow> nat \<Rightarrow> bool" where
  "ws_valid op fl len \<longleftrightarrow> op < 16 \<and> \<not> has_flag fl FLAG_ENCODE_HEADER_ONLY \<and> len < 2 ^ 32 - 14
     \<and> (is_control_frame op \<longrightarrow> has_flag fl FLAG_FIN \<and> \<not> has_flag fl FLAG_RSV1 \<and> len \<le> 125)"

definition ws_head :: "nat \<Rightarrow> byte \<Rightarrow> nat \<Rightarrow> bytes" where
  "ws_head op fl len =
     of_nat (op mod 16 + 64 * of_bool (has_flag fl FLAG_RSV1) + 128 * of_bool (has_flag fl FLAG_FIN))
     # of_nat (len_field len + 128 * of_bool (has_flag fl FLAG_MASK)) # len_ext len
     @ (if has_flag fl FLAG_MASK then SW_WEBSOCKET_MASK_DATA else [])"

definition ws_body :: "byte \<Rightarrow> bytes \<Rightarrow> bytes" where
  "ws_body fl p = (if has_flag fl FLAG_MASK then mask_bytes p (length p) SW_WEBSOCKET_MASK_DATA else p)"

lemma length_MASK_DATA [simp]: "length SW_WEBSOCKET_MASK_DATA = 4"
  by (simp add: SW_WEBSOCKET_MASK_DATA_def)

lemma length_ws_body [simp]: "length (ws_body fl p) = length p"
  by (simp add: ws_body_def)

lemma mask_drop: "drop off (xs @ p) = p" "take off (xs @ p) = xs" if "off = length xs"
  using that by simp_all

lemma encode_form:
  assumes "ws_valid op fl (length p)"
  shows "ws_encode buf p (length p) op fl = (buf @ ws_head op fl (length p) @ ws_body fl p, True)"
proof -
  have z: "mask_bytes [] 0 k = []" for k by (simp add: mask_bytes_def)
  have h: "le_bytes 8 (unat (swoole_hton64 (of_nat (length p)))) = be_bytes 8 (length p)"
    using assms by (simp add: swoole_hton64_def swap64_store ws_valid_def)
  show ?thesis
    using assms
    by (auto simp: ws_encode_def ws_valid_def ws_head_def ws_body_def header_bytes_def len_field_def len_ext_def Let_def
        ws_mask_bytes z h)
qed

lemma length_ws_head: "length (ws_head op fl len) = 2 + length (len_ext len) + (if has_flag fl FLAG_MASK then 4 else 0)"
  by (simp add: ws_head_def)

lemma ws_head_le: "length (ws_head op fl len) \<le> 14"
  by (simp add: length_ws_head len_ext_def)

lemma package_length_head:
  assumes "len < 2 ^ 32 - 14" "length (ws_head op fl len) \<le> n"
  shows "get_package_length_impl (ws_head op fl len @ rest) n hl = (int (length (ws_head op fl len) + len), length (ws_head op fl len))"
proof -
  define m where "m = has_flag fl FLAG_MASK"
  have f: "len_field len < 128" by (simp add: len_field_def)
  have b1: "(ws_head op fl len @ rest) ! 1 = of_nat (len_field len + 128 * of_bool m)" by (simp add: ws_head_def m_def)
  have d2: "drop 2 (ws_head op fl len @ rest) = len_ext len @ (if m then SW_WEBSOCKET_MASK_DATA else []) @ rest"
    by (simp add: ws_head_def m_def)
  have l2: "load 2 (be_bytes 2 len @ x) = le_value (be_bytes 2 len)" "load 8 (be_bytes 8 len @ x) = le_value (be_bytes 8 len)" for x
    by (simp_all add: load_def bytes_at_def)
  have e2: "swap_bytes 2 (le_value (be_bytes 2 len)) = len" if "len \<le> 65535"
    using that by simp
  have e8: "unat (swoole_ntoh64 (of_nat (le_value (be_bytes 8 len)))) = len"
    using assms(1) by (simp add: swoole_ntoh64_def swap64_load)
  have i: "to_int64 (int k + int len) = int (k + len)" if "k \<le> 14" for k
    using that assms(1) by simp
  note b = byte1_fields [OF f, of m]
  define D H where "D = ws_head op fl len @ rest" and "H = length (ws_head op fl len)"
  have D: "unat (D ! Suc 0 AND 0x7f) = len_field len" "bit (D ! Suc 0) 7 = m" using b1 b by (simp_all add: D_def)
  have H: "H = 2 + length (len_ext len) + (if m then 4 else 0)" by (simp add: H_def length_ws_head m_def)
  consider "len < 126" | "\<not> len < 126" "len \<le> 65535" | "\<not> len < 126" "\<not> len \<le> 65535" by linarith
  then have "get_package_length_impl D n hl = (int (H + len), H)"
  proof cases
    case 1
    then have "len_field len = len" "H = 2 + (if m then 4 else 0)" by (auto simp: H len_field_def len_ext_def)
    then show ?thesis using assms 1 D i [of 2] i [of 6]
      by (cases m) (simp_all add: get_package_length_impl_def Let_def bit_flag H_def [symmetric])
  next
    case 2
    then have "len_field len = 126" "H = 4 + (if m then 4 else 0)" "swap_bytes 2 (load 2 (drop 2 D)) = len"
      using l2 e2 d2 by (auto simp: H len_field_def len_ext_def D_def)
    then show ?thesis using assms 2 D i [of 4] i [of 8]
      by (cases m) (simp_all add: get_package_length_impl_def Let_def bit_flag H_def [symmetric])
  next
    case 3
    then have "len_field len = 127" "H = 10 + (if m then 4 else 0)" "unat (swoole_ntoh64 (of_nat (load 8 (drop 2 D)))) = len"
      using l2 e8 d2 by (auto simp: H len_field_def len_ext_def D_def)
    then show ?thesis using assms 3 D i [of 10] i [of 14]
      by (cases m) (simp_all add: get_package_length_impl_def Let_def bit_flag H_def [symmetric])
  qed
  then show ?thesis by (simp only: D_def H_def)
qed

definition ws_header_of :: "nat \<Rightarrow> byte \<Rightarrow> nat \<Rightarrow> Header" where
  "ws_header_of op fl len = \<lparr>OPCODE = op, RSV3 = False, RSV2 = False, RSV1 = has_flag fl FLAG_RSV1, FIN = has_flag fl FLAG_FIN,
     LENGTH7 = len_field len, MASK = has_flag fl FLAG_MASK\<rparr>"

lemma ws_header_of_sel [simp]:
  "OPCODE (ws_header_of op fl len) = op" "RSV1 (ws_header_of op fl len) = has_flag fl FLAG_RSV1"
  "RSV2 (ws_header_of op fl len) = False" "RSV3 (ws_header_of op fl len) = False"
  "FIN (ws_header_of op fl len) = has_flag fl FLAG_FIN" "MASK (ws_header_of op fl len) = has_flag fl FLAG_MASK"
  by (simp_all add: ws_header_of_def)

lemma key_in_head:
  assumes "has_flag fl FLAG_MASK"
  shows "bytes_at (ws_head op fl len @ rest) (length (ws_head op fl len) - 4) 4 = SW_WEBSOCKET_MASK_DATA"
  using assms by (simp add: ws_head_def bytes_at_def)

lemma parse_encoded:
  assumes "ws_valid op fl len" "len = length p" "length p + length rest < 2 ^ 32 - 14"
  shows "parse_frame (ws_head op fl len @ p @ rest) (length (ws_head op fl len @ p @ rest)) =
    Some \<lparr>header = ws_header_of op fl len, mask_key = (if len \<noteq> 0 \<and> has_flag fl FLAG_MASK then SW_WEBSOCKET_MASK_DATA else []),
      header_length = length (ws_head op fl len), payload_length = len,
      payload = (if len = 0 then None else Some (length (ws_head op fl len)))\<rparr>"
proof -
  define H D where "H = length (ws_head op fl len)" and "D = ws_head op fl len @ p @ rest"
  have f: "len_field len < 128" by (simp add: len_field_def)
  have op: "op mod 16 = op" "op < 16" using assms(1) by (auto simp: ws_valid_def)
  have D0: "D ! 0 = of_nat (op mod 16 + 64 * of_bool (has_flag fl FLAG_RSV1) + 128 * of_bool (has_flag fl FLAG_FIN))"
    and D1: "D ! Suc 0 = of_nat (len_field len + 128 * of_bool (has_flag fl FLAG_MASK))" by (simp_all add: D_def ws_head_def)
  have d0: "unat (D ! 0 AND 0xf) = op mod 16" "\<not> bit (D ! 0) 4" "\<not> bit (D ! 0) 5" "bit (D ! 0) 6 = has_flag fl FLAG_RSV1"
    "bit (D ! 0) 7 = has_flag fl FLAG_FIN"
    unfolding D0 by (rule byte0_fields)+
  have d1: "unat (D ! Suc 0 AND 0x7f) = len_field len" "bit (D ! Suc 0) 7 = has_flag fl FLAG_MASK"
    unfolding D1 by (rule byte1_fields [OF f])+
  have h: "\<lparr>OPCODE = unat (D ! 0 AND 0xf), RSV3 = (drop_bit 4 (D ! 0) AND 1 \<noteq> 0), RSV2 = (drop_bit 5 (D ! 0) AND 1 \<noteq> 0),
      RSV1 = (drop_bit 6 (D ! 0) AND 1 \<noteq> 0), FIN = (drop_bit 7 (D ! 0) AND 1 \<noteq> 0), LENGTH7 = unat (D ! 1 AND 0x7f),
      MASK = (drop_bit 7 (D ! 1) AND 1 \<noteq> 0)\<rparr> = ws_header_of op fl len"
    by (simp only: bit_flag One_nat_def d0 d1 op(1) ws_header_of_def simp_thms)
  have len: "len < 2 ^ 32 - 14" and Hle: "H \<le> 14" using assms ws_head_le by (auto simp: H_def)
  have ld: "length D = H + length p + length rest" by (simp add: D_def H_def)
  have w: "wrap32 (length D) = length D" using ld Hle assms(3) by simp
  have pk: "get_package_length_impl D (length D) 0 = (int (H + len), H)"
    using package_length_head [OF len, of op fl "length D" "p @ rest" 0] ld by (simp add: D_def H_def)
  have mk: "bytes_at D (H - 4) 4 = SW_WEBSOCKET_MASK_DATA" if "has_flag fl FLAG_MASK"
    using key_in_head [OF that] by (simp add: D_def H_def)
  have pos: "0 < H" by (simp add: H_def length_ws_head)
  show ?thesis
    unfolding D_def [symmetric] H_def [symmetric] parse_frame_def h w pk Let_def
    using ld assms(1,2) mk pos by (auto simp: ws_valid_def nat_int_add)
qed

lemma decode_encoded:
  assumes "ws_valid op fl (length p)" "length p + length rest < 2 ^ 32 - 14"
  defines "H \<equiv> ws_head op fl (length p)"
  shows "\<exists>f. ws_decode (H @ ws_body fl p @ rest) (length (H @ ws_body fl p @ rest)) = Some (f, H @ p @ rest)
    \<and> header f = ws_header_of op fl (length p) \<and> payload_length f = length p \<and> header_length f = length H
    \<and> payload f = (if p = [] then None else Some (length H))"
proof -
  have m: "mask_bytes (ws_body fl p @ rest) (length p) SW_WEBSOCKET_MASK_DATA = p @ rest" if "has_flag fl FLAG_MASK"
    using that mask_twice [of p "length p"] by (simp add: ws_body_def take_mask_bytes)
  have e: "p = [] \<Longrightarrow> ws_body fl p = []" by (simp add: ws_body_def mask_bytes_def)
  note r = parse_encoded [OF assms(1), of "ws_body fl p" rest]
  show ?thesis
    using r assms(2) m e by (auto simp: ws_decode_def H_def ws_mask_bytes ws_body_def)
qed

text \<open>C29: masking by 8-byte blocks is the bytewise masking of RFC 6455: every byte of the first \<open>len\<close> is
  combined with the byte of the key at its index modulo 4, the others stay, and masking twice restores
  the data.\<close>

theorem ws_mask_bytewise:
  assumes "length key = 4" "len \<le> length data"
  shows "ws_mask data len key = map (\<lambda>i. if i < len then data ! i XOR key ! (i mod 4) else data ! i) [0..<length data]
    \<and> ws_mask (ws_mask data len key) len key = data"
  using assms by (simp add: ws_mask_bytes mask_twice) (simp add: mask_bytes_def)

theorem ws_mask_bytewise_witness:
  "ws_mask [1,2,3,4,5,6,7,8,9,10,11] 10 [1,0,0,255] = [0,2,3,251,4,6,7,247,8,10,11]"
  using ws_mask_bytewise [of "[1,0,0,255]" 10 "[1,2,3,4,5,6,7,8,9,10,11]"] by (simp add: upt_rec)

text \<open>C9: a frame that \<open>encode\<close> writes is read back by \<open>decode\<close>: for every payload, opcode and flags that
  \<open>encode\<close> accepts (a compressed control frame excepted, which \<open>parse_frame\<close> refuses), whatever data
  precedes it in the buffer and follows it in the input, \<open>get_package_length\<close> returns the exact length
  of the frame, and \<open>decode\<close> returns the opcode, the flags and the payload.\<close>

theorem ws_roundtrip:
  assumes "ws_valid op fl (length p)" "length p + length rest < 2 ^ 32 - 14"
    and "ws_encode buf p (length p) op fl = (buf', ok)"
  shows "ok \<and> take (length buf) buf' = buf \<and>
    (let F = drop (length buf) buf' in
       fst (get_package_length_impl (F @ rest) (length (F @ rest)) 0) = int (length F) \<and>
       (\<exists>f d. ws_decode (F @ rest) (length (F @ rest)) = Some (f, d) \<and> OPCODE (header f) = op
         \<and> FIN (header f) = has_flag fl FLAG_FIN \<and> RSV1 (header f) = has_flag fl FLAG_RSV1 \<and> MASK (header f) = has_flag fl FLAG_MASK
         \<and> payload_length f = length p \<and> bytes_at d (header_length f) (payload_length f) = p \<and> drop (length F) d = rest))"
proof -
  let ?H = "ws_head op fl (length p)"
  have b: "buf' = buf @ ?H @ ws_body fl p" "ok" using encode_form [OF assms(1), of buf] assms(3) by auto
  have "fst (get_package_length_impl (?H @ ws_body fl p @ rest) (length (?H @ ws_body fl p @ rest)) 0) = int (length ?H + length p)"
    using package_length_head [of "length p" op fl "length (?H @ ws_body fl p @ rest)"] assms(2) by simp
  then show ?thesis
    using b decode_encoded [OF assms(1,2)] by (auto simp: Let_def bytes_at_def add.assoc)
qed

theorem ws_roundtrip_witness:
  "case ws_encode [7] [1, 2, 3] 3 1 33 of (buf', ok) \<Rightarrow> ok \<and>
     (\<exists>f d. ws_decode (drop 1 buf' @ [9]) (length (drop 1 buf' @ [9])) = Some (f, d) \<and> OPCODE (header f) = 1 \<and> MASK (header f)
       \<and> bytes_at d (header_length f) (payload_length f) = [1, 2, 3])"
proof -
  have v: "ws_valid 1 33 (length ([1, 2, 3] :: bytes))"
    by (simp add: ws_valid_def is_control_frame_def opcode_defs has_flag_def FLAG_ENCODE_HEADER_ONLY_def)
  obtain buf' ok where e: "ws_encode [7] [1, 2, 3] (length ([1, 2, 3] :: bytes)) 1 33 = (buf', ok)" by fastforce
  have m: "has_flag 33 FLAG_MASK" by (simp add: has_flag_def FLAG_MASK_def)
  show ?thesis using ws_roundtrip [OF v _ e, of "[9]"] e m by (auto simp: Let_def numeral_3_eq_3)
qed

section \<open>Reassembly of fragmented messages\<close>

definition ws_frame :: "nat \<Rightarrow> byte \<Rightarrow> bytes \<Rightarrow> bytes" where
  "ws_frame op fl p = fst (ws_encode [] p (length p) op fl)"

definition ws_flags :: "byte \<Rightarrow> byte" where
  "ws_flags fl = set_flags (has_flag fl FLAG_FIN) (has_flag fl FLAG_MASK) (has_flag fl FLAG_RSV1) False False"

lemma decode_frame:
  assumes "ws_valid op fl (length p)"
  shows "\<exists>f H. ws_decode (ws_frame op fl p) (length (ws_frame op fl p)) = Some (f, H @ p)
    \<and> header f = ws_header_of op fl (length p) \<and> payload_length f = length p \<and> get_flags f = ws_flags fl
    \<and> length (ws_frame op fl p) = length H + length p
    \<and> (length p \<le> 125 \<longrightarrow> length H = (if has_flag fl FLAG_MASK then 6 else 2))"
proof -
  let ?H = "ws_head op fl (length p)"
  have F: "ws_frame op fl p = ?H @ ws_body fl p" by (simp add: ws_frame_def encode_form [OF assms])
  have "length p + length ([] :: bytes) < 2 ^ 32 - 14" using assms by (simp add: ws_valid_def)
  from decode_encoded [OF assms this] obtain f where f: "ws_decode (?H @ ws_body fl p) (length (?H @ ws_body fl p)) = Some (f, ?H @ p)"
    "header f = ws_header_of op fl (length p)" "payload_length f = length p" by auto
  have "length ?H = (if has_flag fl FLAG_MASK then 6 else 2)" if "length p \<le> 125"
    using that by (simp add: length_ws_head len_ext_def)
  moreover have "get_flags f = ws_flags fl" by (simp add: get_flags_def ws_flags_def set_flags_def f(2) or.assoc or.commute)
  ultimately show ?thesis using f unfolding F by fastforce
qed

text \<open>What \<open>dispatch_frame\<close> does with an encoded frame, in terms of its payload.\<close>

lemma dispatch_encoded:
  assumes "ws_valid op fl (length p)"
  shows "dispatch_frame mx conn (ws_frame op fl p) =
    (let ext = get_ext_flags op (ws_flags fl) in
     if op = OPCODE_CONTINUATION then
       (case websocket_buffer conn of
          None \<Rightarrow> (conn, [], SW_ERR)
        | Some (b, off) \<Rightarrow>
            if length b + length p > mx then (conn, [], SW_ERR)
            else if has_flag fl FLAG_FIN
            then (conn\<lparr>websocket_buffer := None\<rparr>, [WS_DISPATCH (off OR unat FLAG_FIN) (length (b @ p)) (b @ p)], SW_OK)
            else (conn\<lparr>websocket_buffer := Some (b @ p, off)\<rparr>, [], SW_OK))
     else if op = OPCODE_TEXT \<or> op = OPCODE_BINARY then
       if \<not> has_flag fl FLAG_FIN then
         if websocket_buffer conn \<noteq> None then (conn, [], SW_ERR)
         else (conn\<lparr>websocket_buffer := Some (p, ext)\<rparr>, [], SW_OK)
       else (conn, [WS_DISPATCH ext (length p) p], SW_OK)
     else if op = OPCODE_PING \<or> op = OPCODE_PONG then (conn, [WS_DISPATCH ext (length p) p], SW_OK)
     else if op = OPCODE_CLOSE then
       if websocket_status conn \<noteq> STATUS_CLOSING
       then (conn, [WS_DISPATCH ext (length p) p, WS_SEND ([0x88, of_nat (length p)] @ p)], SW_ERR)
       else (conn\<lparr>websocket_status := 0\<rparr>, [], SW_ERR)
     else (conn, [], SW_OK))"
proof -
  obtain f H where d: "ws_decode (ws_frame op fl p) (length (ws_frame op fl p)) = Some (f, H @ p)"
    "header f = ws_header_of op fl (length p)" "payload_length f = length p" "get_flags f = ws_flags fl"
    "length (ws_frame op fl p) = length H + length p"
    "length p \<le> 125 \<longrightarrow> length H = (if has_flag fl FLAG_MASK then 6 else 2)"
    using decode_frame [OF assms] by blast
  have b: "bytes_at (H @ p) (length H) (length p) = p" by (simp add: bytes_at_def)
  have c: "length p \<le> 125" if "is_control_frame op" using assms that by (simp add: ws_valid_def)
  have o: "length H + length p - (if has_flag fl FLAG_MASK then 2 + 4 else 2) = length p"
    "bytes_at (H @ p) (if has_flag fl FLAG_MASK then 2 + 4 else 2) (length p) = p" if "is_control_frame op"
    using d(6) c [OF that] by (auto simp: bytes_at_def)
  note u = dispatch_frame_def Let_def d(5) d(1) [unfolded d(5)]
  consider "op = OPCODE_CONTINUATION" | "op = OPCODE_TEXT \<or> op = OPCODE_BINARY" | "op = OPCODE_PING \<or> op = OPCODE_PONG" | "op = OPCODE_CLOSE"
    | "op \<notin> {OPCODE_CONTINUATION, OPCODE_TEXT, OPCODE_BINARY, OPCODE_PING, OPCODE_PONG, OPCODE_CLOSE}" by blast
  then show ?thesis
  proof cases
    case 1
    then show ?thesis unfolding u by (simp add: d b split: option.splits)
  next
    case 2
    then have "op \<noteq> OPCODE_CONTINUATION" by (auto simp: opcode_defs)
    then show ?thesis using 2 unfolding u by (simp add: d b)
  next
    case 3
    then have n: "op \<noteq> OPCODE_CONTINUATION" "\<not> (op = OPCODE_TEXT \<or> op = OPCODE_BINARY)" "is_control_frame op"
      by (auto simp: opcode_defs is_control_frame_def)
    have "p = [] \<Longrightarrow> length p = 0" by simp
    then show ?thesis using 3 n(1,2) c [OF n(3)] o [OF n(3)] unfolding u by (simp add: d split del: if_split cong: if_cong) auto
  next
    case 4
    then have "op \<noteq> OPCODE_CONTINUATION" "\<not> (op = OPCODE_TEXT \<or> op = OPCODE_BINARY)" "\<not> (op = OPCODE_PING \<or> op = OPCODE_PONG)"
      "is_control_frame op"
      by (auto simp: opcode_defs is_control_frame_def)
    then show ?thesis using 4 c unfolding u by (simp add: d(1-5) b)
  next
    case 5
    then show ?thesis unfolding u by (simp add: d)
  qed
qed

text \<open>Frames in their order on one connection, until one of them makes the server close it.\<close>

fun ws_run :: "nat \<Rightarrow> Connection \<Rightarrow> bytes list \<Rightarrow> Connection \<times> ws_effect list \<times> int" where
  "ws_run mx conn [] = (conn, [], SW_OK)"
| "ws_run mx conn (f # fs) =
     (let (c, effs, r) = dispatch_frame mx conn f in
      if r = SW_ERR then (c, effs, r)
      else let (c', effs', r') = ws_run mx c fs in (c', effs @ effs', r'))"

text \<open>What may come between the first and the last fragment: more fragments, pings and pongs.\<close>

datatype ws_item = Part bytes | Ping bytes | Pong bytes

fun item_frame :: "byte \<Rightarrow> ws_item \<Rightarrow> bytes" where
  "item_frame mk (Part p) = ws_frame OPCODE_CONTINUATION mk p"
| "item_frame mk (Ping p) = ws_frame OPCODE_PING (mk OR FLAG_FIN) p"
| "item_frame mk (Pong p) = ws_frame OPCODE_PONG (mk OR FLAG_FIN) p"

fun item_part :: "ws_item \<Rightarrow> bytes" where
  "item_part (Part p) = p"
| "item_part _ = []"

fun item_effect :: "byte \<Rightarrow> ws_item \<Rightarrow> ws_effect list" where
  "item_effect mk (Part p) = []"
| "item_effect mk (Ping p) = [WS_DISPATCH (get_ext_flags OPCODE_PING (mk OR FLAG_FIN)) (length p) p]"
| "item_effect mk (Pong p) = [WS_DISPATCH (get_ext_flags OPCODE_PONG (mk OR FLAG_FIN)) (length p) p]"

fun item_ok :: "ws_item \<Rightarrow> bool" where
  "item_ok (Part p) \<longleftrightarrow> True"
| "item_ok (Ping p) \<longleftrightarrow> length p \<le> 125"
| "item_ok (Pong p) \<longleftrightarrow> length p \<le> 125"

definition message :: "ws_item list \<Rightarrow> bytes" where
  "message items = concat (map item_part items)"

lemma mask_flag_cases:
  assumes "mk = 0 \<or> mk = FLAG_MASK"
  shows "\<not> has_flag mk FLAG_FIN" "\<not> has_flag mk FLAG_RSV1" "\<not> has_flag mk FLAG_ENCODE_HEADER_ONLY"
    "has_flag (mk OR FLAG_FIN) FLAG_FIN" "\<not> has_flag (mk OR FLAG_FIN) FLAG_RSV1" "\<not> has_flag (mk OR FLAG_FIN) FLAG_ENCODE_HEADER_ONLY"
    "ws_flags (mk OR FLAG_FIN) = mk OR FLAG_FIN"
  using assms
  by (auto simp: has_flag_def FLAG_FIN_def FLAG_MASK_def FLAG_RSV1_def FLAG_ENCODE_HEADER_ONLY_def ws_flags_def set_flags_def)

lemma run_item:
  assumes "mk = 0 \<or> mk = FLAG_MASK" "item_ok x" "websocket_buffer conn = Some (b, off)" "length b + length (item_part x) \<le> mx" "mx < 2 ^ 32 - 14"
  shows "dispatch_frame mx conn (item_frame mk x) = (conn\<lparr>websocket_buffer := Some (b @ item_part x, off)\<rparr>, item_effect mk x, SW_OK)"
proof (cases x)
  case (Part p)
  then have "ws_valid OPCODE_CONTINUATION mk (length p)"
    using assms mask_flag_cases [OF assms(1)] by (simp add: ws_valid_def is_control_frame_def opcode_defs)
  then show ?thesis using Part assms mask_flag_cases [OF assms(1)] by (simp add: dispatch_encoded Let_def opcode_defs)
next
  case (Ping p)
  then have "ws_valid OPCODE_PING (mk OR FLAG_FIN) (length p)"
    using assms mask_flag_cases [OF assms(1)] by (simp add: ws_valid_def is_control_frame_def opcode_defs)
  then show ?thesis using Ping assms mask_flag_cases [OF assms(1)] by (simp add: dispatch_encoded Let_def opcode_defs)
next
  case (Pong p)
  then have "ws_valid OPCODE_PONG (mk OR FLAG_FIN) (length p)"
    using assms mask_flag_cases [OF assms(1)] by (simp add: ws_valid_def is_control_frame_def opcode_defs)
  then show ?thesis using Pong assms mask_flag_cases [OF assms(1)] by (simp add: dispatch_encoded Let_def opcode_defs)
qed

lemma run_items:
  assumes "mk = 0 \<or> mk = FLAG_MASK" "mx < 2 ^ 32 - 14"
  shows "\<forall>x\<in>set items. item_ok x \<Longrightarrow> websocket_buffer conn = Some (b, off) \<Longrightarrow> length b + length (message items) \<le> mx \<Longrightarrow>
    ws_run mx conn (map (item_frame mk) items @ fs) =
      (let (c, effs, r) = ws_run mx (conn\<lparr>websocket_buffer := Some (b @ message items, off)\<rparr>) fs
       in (c, concat (map (item_effect mk) items) @ effs, r))"
proof (induction items arbitrary: conn b)
  case Nil
  then have "conn\<lparr>websocket_buffer := Some (b, off)\<rparr> = conn" by simp
  then show ?case by (simp add: message_def split: prod.splits)
next
  case (Cons x items)
  have le: "length b + length (item_part x) \<le> mx" using Cons(4) by (simp add: message_def)
  have s: "SW_OK \<noteq> SW_ERR" by (simp add: SW_OK_def SW_ERR_def)
  let ?c = "conn\<lparr>websocket_buffer := Some (b @ item_part x, off)\<rparr>"
  have "ws_run mx ?c (map (item_frame mk) items @ fs) =
      (let (c, effs, r) = ws_run mx (?c\<lparr>websocket_buffer := Some ((b @ item_part x) @ message items, off)\<rparr>) fs
       in (c, concat (map (item_effect mk) items) @ effs, r))"
    using Cons(2,4) by (intro Cons(1)) (auto simp: message_def)
  then show ?case
    using run_item [OF assms(1) _ Cons(3) le assms(2)] Cons(2) s by (simp add: message_def split: prod.splits)
qed

lemma ext_flags_fin: "op < 256 \<Longrightarrow> get_ext_flags op w OR unat FLAG_FIN = get_ext_flags op (w OR FLAG_FIN)"
proof -
  assume op: "op < 256"
  have g: "get_ext_flags op v = push_bit 8 op OR unat v" for v
    using op unat_byte_less [of v] by (subst push_or_plus) (simp_all add: get_ext_flags_def push_bit_eq_mult)
  show ?thesis by (simp add: g unsigned_or_eq or.assoc)
qed

text \<open>C30: a message that a client sends in fragments, masked or not, with pings and pongs in between,
  reaches the server as one dispatch of the concatenated payload with the opcode and flags of the first
  fragment and the final bit, after the dispatches of the pings and pongs in their order; the merge
  buffer is empty again and the connection stays open, provided that the message is not longer than
  \<open>package_max_length\<close>.\<close>

theorem ws_reassembly:
  assumes "mk = 0 \<or> mk = FLAG_MASK" "op = OPCODE_TEXT \<or> op = OPCODE_BINARY" "\<forall>x\<in>set items. item_ok x"
    and "websocket_buffer conn = None" "length (p @ message items @ q) \<le> mx" "mx < 2 ^ 32 - 14"
    and "m = p @ message items @ q"
  shows "ws_run mx conn (ws_frame op mk p # map (item_frame mk) items @ [ws_frame OPCODE_CONTINUATION (mk OR FLAG_FIN) q]) =
    (conn, concat (map (item_effect mk) items) @ [WS_DISPATCH (get_ext_flags op (mk OR FLAG_FIN)) (length m) m], SW_OK)"
proof -
  note k = mask_flag_cases [OF assms(1)]
  have s: "SW_OK \<noteq> SW_ERR" by (simp add: SW_OK_def SW_ERR_def)
  have fl: "ws_flags mk OR FLAG_FIN = mk OR FLAG_FIN"
    using assms(1) by (auto simp: has_flag_def FLAG_FIN_def FLAG_MASK_def FLAG_RSV1_def ws_flags_def set_flags_def)
  have op: "op < 256" using assms(2) by (auto simp: opcode_defs)
  let ?ext = "get_ext_flags op (ws_flags mk)"
  let ?c = "conn\<lparr>websocket_buffer := Some (p, ?ext)\<rparr>"
  let ?last = "[ws_frame OPCODE_CONTINUATION (mk OR FLAG_FIN) q]"
  have "ws_valid op mk (length p)" "ws_valid OPCODE_CONTINUATION (mk OR FLAG_FIN) (length q)"
    using assms k by (auto simp: ws_valid_def is_control_frame_def opcode_defs)
  note d = dispatch_encoded [OF this(1)] dispatch_encoded [OF this(2)]
  have 1: "dispatch_frame mx conn (ws_frame op mk p) = (?c, [], SW_OK)"
    using assms(2,4) k by (auto simp: d Let_def opcode_defs)
  have 2: "ws_run mx ?c (map (item_frame mk) items @ ?last) =
      (let (c, effs, r) = ws_run mx (?c\<lparr>websocket_buffer := Some (p @ message items, ?ext)\<rparr>) ?last
       in (c, concat (map (item_effect mk) items) @ effs, r))"
    by (rule run_items [OF assms(1,6,3)]) (use assms(5) in auto)
  have 3: "conn\<lparr>websocket_buffer := None\<rparr> = conn" using assms(4) by simp
  have 4: "dispatch_frame mx (?c\<lparr>websocket_buffer := Some (p @ message items, ?ext)\<rparr>) (ws_frame OPCODE_CONTINUATION (mk OR FLAG_FIN) q)
      = (conn, [WS_DISPATCH (get_ext_flags op (mk OR FLAG_FIN)) (length m) m], SW_OK)"
    unfolding d(2) using assms(5,7) k 3 by (simp add: Let_def ext_flags_fin [OF op] fl)
  show ?thesis using 1 2 4 s by simp
qed

theorem ws_reassembly_witness:
  "snd (ws_run 1000 \<lparr>websocket_buffer = None, websocket_status = 3\<rparr>
      (ws_frame 1 32 [65] # map (item_frame 32) [Part [66, 67], Ping [1], Part []] @ [ws_frame 0 33 [68]]))
   = ([WS_DISPATCH (get_ext_flags 9 33) 1 [1], WS_DISPATCH (get_ext_flags 1 33) 4 [65, 66, 67, 68]], SW_OK)"
  using ws_reassembly [of 32 1 "[Part [66, 67], Ping [1], Part []]" "\<lparr>websocket_buffer = None, websocket_status = 3\<rparr>" "[65]" "[68]" 1000]
  by (simp add: FLAG_MASK_def FLAG_FIN_def opcode_defs message_def)

section \<open>Close frames and extended flags\<close>

lemma parse_get_ext_flags: "op < 256 \<Longrightarrow> parse_ext_flags (get_ext_flags op w) = (op, w)"
proof -
  assume op: "op < 256"
  have g: "get_ext_flags op w = unat w + 256 * op"
    using op unat_byte_less [of w] by (simp add: get_ext_flags_def push_bit_eq_mult)
  have "drop_bit 8 (unat w + 256 * op) = op" using unat_byte_less [of w] by (simp add: drop_bit_eq_div)
  moreover have "unat w + 256 * op AND 0xFF = unat w"
    using unat_byte_less [of w] take_bit_eq_mask [of 8 "unat w + 256 * op"] by (simp add: take_bit_eq_mod mask_eq_exp_minus_1)
  ultimately show ?thesis using op by (simp add: parse_ext_flags_def g)
qed

lemma close_code_bytes:
  assumes "0 \<le> code" "code < 65536"
  shows "parse_close_code ([of_int (drop_bit 8 code AND 0xFF), of_int (code AND 0xFF)] @ r) = nat code"
proof -
  have a: "x AND 0xFF = x mod 256" for x :: int
    using take_bit_eq_mask [of 8 x] by (simp add: take_bit_eq_mod mask_eq_exp_minus_1)
  have u: "unat (of_int (x mod 256) :: byte) = nat (x mod 256)" for x :: int
    by (simp add: unsigned_of_int take_bit_eq_mod nat_mod_distrib)
  have "nat (code mod 256) < 2 ^ 8" by (simp add: nat_less_iff)
  then have "parse_close_code ([of_int (drop_bit 8 code AND 0xFF), of_int (code AND 0xFF)] @ r)
      = nat (code mod 256) + 2 ^ 8 * nat (code div 256 mod 256)"
    unfolding parse_close_code_def a by (simp add: u push_or_plus drop_bit_eq_div)
  also have "code div 256 mod 256 = code div 256" using assms by simp
  also have "nat (code mod 256) + 2 ^ 8 * nat (code div 256) = nat code"
    using assms(1) by (simp add: nat_mod_distrib nat_div_distrib)
  finally show ?thesis .
qed

text \<open>The close code and the reason given to \<open>pack_close_frame\<close> are those that \<open>decode\<close> finds.\<close>

lemma close_frame_roundtrip:
  assumes "0 \<le> code" "code < 65536" "length reason \<le> 123" "fl = 0 \<or> fl = FLAG_MASK"
    and "pack_close_frame [] code reason (length reason) fl = (F, ok)"
  shows "ok \<and> (\<exists>f d. ws_decode F (length F) = Some (f, d) \<and> OPCODE (header f) = OPCODE_CLOSE
    \<and> parse_close_code (drop (length F - payload_length f) d) = nat code
    \<and> drop 2 (drop (length F - payload_length f) d) = reason)"
proof -
  define p where "p = [of_int (drop_bit 8 code AND 0xFF), of_int (code AND 0xFF)] @ reason"
  have v: "ws_valid OPCODE_CLOSE (fl OR FLAG_FIN) (length p)"
    using assms(3) mask_flag_cases [OF assms(4)] by (simp add: ws_valid_def p_def opcode_defs)
  have "pack_close_frame [] code reason (length reason) fl = ws_encode [] p (length p) OPCODE_CLOSE (fl OR FLAG_FIN)"
    using assms(3) by (simp add: pack_close_frame_def p_def Let_def)
  then have F: "F = ws_frame OPCODE_CLOSE (fl OR FLAG_FIN) p" "ok"
    using assms(5) encode_form [OF v, of "[]"] by (auto simp: ws_frame_def)
  obtain f H where "ws_decode F (length F) = Some (f, H @ p)" "header f = ws_header_of OPCODE_CLOSE (fl OR FLAG_FIN) (length p)"
    "payload_length f = length p" "length F = length H + length p"
    using decode_frame [OF v] unfolding F(1) by blast
  then show ?thesis using F(2) close_code_bytes [OF assms(1,2), of reason] by (auto simp: p_def)
qed

end
