(* ===== verification/Sw_Base64.thy ===== *)
theory Sw_Base64
  imports Sw_Endian
begin

text \<open>
  \<open>src/core/base64.cc\<close>. The encoder appends characters to its output; the decoder works on the
  caller's output buffer, adding to the byte it began with the character before.
\<close>

section \<open>Tables\<close>

definition base64en :: bytes where
  "base64en = map (\<lambda>k. of_nat k) ([65..<91] @ [97..<123] @ [48..<58] @ [43, 47])"

definition BASE64_PAD :: byte where "BASE64_PAD = 61"
definition BASE64DE_FIRST :: int where "BASE64DE_FIRST = 43"
definition BASE64DE_LAST :: int where "BASE64DE_LAST = 122"

definition base64de :: "int list" where
  "base64de =
    [62, -1, -1, -1, 63, 52, 53, 54,
     55, 56, 57, 58, 59, 60, 61, -1,
     -1, -1, -1, -1, -1, -1, 0, 1,
     2, 3, 4, 5, 6, 7, 8, 9,
     10, 11, 12, 13, 14, 15, 16, 17,
     18, 19, 20, 21, 22, 23, 24, 25,
     -1, -1, -1, -1, -1, -1, 26, 27,
     28, 29, 30, 31, 32, 33, 34, 35,
     36, 37, 38, 39, 40, 41, 42, 43,
     44, 45, 46, 47, 48, 49, 50, 51]"

section \<open>Encoder and decoder\<close>

text \<open>The characters that the loop writes at index \<open>i\<close>, and the ones after the loop.\<close>

definition b64_emit :: "bytes \<Rightarrow> nat \<Rightarrow> bytes" where
  "b64_emit inp i =
     (if i mod 3 = 0 then [base64en ! (drop_bit 2 (unat (inp ! i)) AND 0x3F)]
      else if i mod 3 = 1 then
        [base64en ! (push_bit 4 (unat (inp ! (i - 1)) AND 0x3) + (drop_bit 4 (unat (inp ! i)) AND 0xF))]
      else
        [base64en ! (push_bit 2 (unat (inp ! (i - 1)) AND 0xF) + (drop_bit 6 (unat (inp ! i)) AND 0x3)),
         base64en ! (unat (inp ! i) AND 0x3F)])"

definition b64_tail :: "bytes \<Rightarrow> nat \<Rightarrow> bytes" where
  "b64_tail inp i =
     (if i mod 3 = 0 then [base64en ! push_bit 4 (unat (inp ! i) AND 0x3), BASE64_PAD, BASE64_PAD]
      else if i mod 3 = 1 then [base64en ! push_bit 2 (unat (inp ! i) AND 0xF), BASE64_PAD]
      else [])"

definition base64_encode :: "bytes \<Rightarrow> bytes" where
  "base64_encode inp =
     (if inp = [] then [] else concat (map (b64_emit inp) [0..<length inp]) @ b64_tail inp (length inp - 1))"

text \<open>
  The decoder loop: \<open>n\<close> characters remain from index \<open>i\<close> on. Inl is the early \<open>return 0\<close> for an invalid
  character, with the buffer as written so far; Inr the buffer and \<open>j\<close> after the loop.
\<close>

fun b64_decode_loop :: "bytes \<Rightarrow> nat \<Rightarrow> nat \<Rightarrow> nat \<Rightarrow> bytes \<Rightarrow> nat \<Rightarrow> bytes + (bytes \<times> nat)" where
  "b64_decode_loop inp inlen i 0 out j = Inr (out, j)"
| "b64_decode_loop inp inlen i (Suc n) out j =
     (if inp ! i = BASE64_PAD then Inr (out, j)
      else
        let ch = to_signed 8 (unat (inp ! i)) in
        if ch < BASE64DE_FIRST \<or> ch > BASE64DE_LAST \<or> base64de ! nat (ch - BASE64DE_FIRST) = -1 then Inl out
        else
          let c = nat (base64de ! nat (ch - BASE64DE_FIRST)) in
          if i mod 4 = 0 then b64_decode_loop inp inlen (i + 1) n (out[j := of_nat (push_bit 2 c)]) j
          else if i mod 4 = 1 then
            let out1 = out[j := out ! j + of_nat (drop_bit 4 c AND 0x3)];
                out2 = (if i < sub64 inlen 3 \<or> inp ! (inlen - 2) \<noteq> BASE64_PAD
                        then out1[j + 1 := of_nat (push_bit 4 (c AND 0xF))] else out1)
            in b64_decode_loop inp inlen (i + 1) n out2 (j + 1)
          else if i mod 4 = 2 then
            let out1 = out[j := out ! j + of_nat (drop_bit 2 c AND 0xF)];
                out2 = (if i < sub64 inlen 2 \<or> inp ! (inlen - 1) \<noteq> BASE64_PAD
                        then out1[j + 1 := of_nat (push_bit 6 (c AND 0x3))] else out1)
            in b64_decode_loop inp inlen (i + 1) n out2 (j + 1)
          else b64_decode_loop inp inlen (i + 1) n (out[j := out ! j + of_nat c]) (j + 1))"

declare b64_decode_loop.simps [simp del]

text \<open>The return value and the output buffer.\<close>

definition base64_decode :: "bytes \<Rightarrow> bytes \<Rightarrow> nat \<times> bytes" where
  "base64_decode inp out =
     (case b64_decode_loop inp (length inp) 0 (length inp) out 0 of
        Inl out' \<Rightarrow> (0, out')
      | Inr (out', j) \<Rightarrow> (j, out'[j := 0]))"

section \<open>Character tables\<close>

definition char_ok :: "nat \<Rightarrow> bool" where
  "char_ok k \<longleftrightarrow> base64en ! k \<noteq> BASE64_PAD \<and>
     (let ch = to_signed 8 (unat (base64en ! k)) in
      \<not> (ch < BASE64DE_FIRST) \<and> \<not> (ch > BASE64DE_LAST) \<and> base64de ! nat (ch - BASE64DE_FIRST) = int k)"

lemma chars_ok: "list_all char_ok [0..<64]"
  by code_simp

lemma char_ok: "k < 64 \<Longrightarrow> char_ok k"
  using chars_ok by (simp add: list_all_iff)

lemma nat_and_mask: "x AND 0x3F = x mod 64" "x AND 0xF = x mod 16" "x AND 0x3 = x mod 4" for x :: nat
  using take_bit_eq_mask [of 6 x] take_bit_eq_mask [of 4 x] take_bit_eq_mask [of 2 x]
  by (simp_all add: take_bit_eq_mod mask_eq_exp_minus_1)

lemmas bit_arith = nat_and_mask drop_bit_eq_div push_bit_eq_mult

text \<open>One step of the decoder on an encoded character.\<close>

lemma decode_step:
  assumes "inp ! i = base64en ! k" "k < 64"
  shows "b64_decode_loop inp inlen i (Suc n) out j =
     (if i mod 4 = 0 then b64_decode_loop inp inlen (i + 1) n (out[j := of_nat (4 * k)]) j
      else if i mod 4 = 1 then
        let out1 = out[j := out ! j + of_nat (k div 16)];
            out2 = (if i < sub64 inlen 3 \<or> inp ! (inlen - 2) \<noteq> BASE64_PAD
                    then out1[j + 1 := of_nat (16 * (k mod 16))] else out1)
        in b64_decode_loop inp inlen (i + 1) n out2 (j + 1)
      else if i mod 4 = 2 then
        let out1 = out[j := out ! j + of_nat (k div 4)];
            out2 = (if i < sub64 inlen 2 \<or> inp ! (inlen - 1) \<noteq> BASE64_PAD
                    then out1[j + 1 := of_nat (64 * (k mod 4))] else out1)
        in b64_decode_loop inp inlen (i + 1) n out2 (j + 1)
      else b64_decode_loop inp inlen (i + 1) n (out[j := out ! j + of_nat k]) (j + 1))"
proof -
  have c: "inp ! i \<noteq> BASE64_PAD" "\<not> to_signed 8 (unat (inp ! i)) < BASE64DE_FIRST"
    "\<not> to_signed 8 (unat (inp ! i)) > BASE64DE_LAST" "base64de ! nat (to_signed 8 (unat (inp ! i)) - BASE64DE_FIRST) = int k"
    using char_ok [OF assms(2)] unfolding char_ok_def assms(1) by (simp_all add: Let_def)
  have m: "k div 16 mod 4 = k div 16" "k div 4 mod 16 = k div 4" using assms(2) by auto
  have "int k \<noteq> -1" by simp
  then show ?thesis using c m by (simp only: b64_decode_loop.simps Let_def if_False simp_thms nat_int bit_arith) (simp add: mult.commute)
qed

section \<open>Round trip\<close>

lemma decode_shift:
  assumes "length P mod 4 = 0" "4 \<le> length Q" "length P + length Q < 2 ^ 63"
  shows "i + n = length Q \<Longrightarrow>
    b64_decode_loop (P @ Q) (length P + length Q) (length P + i) n out j = b64_decode_loop Q (length Q) i n out j"
proof (induction n arbitrary: i out j)
  case (Suc n)
  have m: "(length P + i) mod 4 = i mod 4" using assms(1) by (metis mod_add_left_eq add_0)
  have w: "length P + i < sub64 (length P + length Q) 3 \<longleftrightarrow> i < sub64 (length Q) 3"
    "length P + i < sub64 (length P + length Q) 2 \<longleftrightarrow> i < sub64 (length Q) 2"
    using assms(2,3) by auto
  have x: "(P @ Q) ! (length P + length Q - 2) = Q ! (length Q - 2)" "(P @ Q) ! (length P + length Q - 1) = Q ! (length Q - 1)"
    using assms(2) by (auto simp: nth_append)
  have s: "length P + i + 1 = length P + (i + 1)" by simp
  have ih: "b64_decode_loop (P @ Q) (length P + length Q) (length P + (i + 1)) n out j = b64_decode_loop Q (length Q) (i + 1) n out j" for out j
    by (rule Suc.IH) (use Suc.prems in simp)
  show ?case
    unfolding b64_decode_loop.simps m w x s ih nth_append_length_plus ..
qed (simp add: b64_decode_loop.simps)

lemma encode_simps:
  "base64_encode [] = []"
  "base64_encode [a] = [base64en ! (unat a div 4), base64en ! (16 * (unat a mod 4)), BASE64_PAD, BASE64_PAD]"
  "base64_encode [a, b] =
    [base64en ! (unat a div 4), base64en ! (16 * (unat a mod 4) + unat b div 16), base64en ! (4 * (unat b mod 16)), BASE64_PAD]"
  using unat_byte_less [of a] unat_byte_less [of b]
  by (simp_all add: base64_encode_def b64_emit_def b64_tail_def bit_arith upt_rec mult.commute)

definition group :: "byte \<Rightarrow> byte \<Rightarrow> byte \<Rightarrow> bytes" where
  "group a b c = [base64en ! (unat a div 4), base64en ! (16 * (unat a mod 4) + unat b div 16),
     base64en ! (4 * (unat b mod 16) + unat c div 64), base64en ! (unat c mod 64)]"

lemma emit_shift: "b64_emit (a # b # c # x) (i + 3) = b64_emit x i"
proof -
  have m: "(i + 3) mod 3 = i mod 3" by simp
  have x: "(a # b # c # x) ! (i + 3) = x ! i" by simp
  show ?thesis
  proof (cases "i mod 3 = 0")
    case True
    then show ?thesis by (simp only: b64_emit_def m x simp_thms if_True)
  next
    case False
    have "(a # b # c # x) ! (i + 3 - 1) = x ! (i - 1)" using False by (cases i) auto
    then show ?thesis by (simp only: b64_emit_def m x)
  qed
qed

lemma encode_group: "base64_encode (a # b # c # x) = group a b c @ base64_encode x"
proof -
  have "length (a # b # c # x) = 3 + length x" by simp
  moreover have "[0..<3 + length x] = [0..<3] @ [3..<3 + length x]" by (rule upt_add_eq_append) simp
  moreover have "[3..<3 + length x] = map (\<lambda>i. i + 3) [0..<length x]" using map_add_upt [of 3 "length x"] by (simp add: add.commute)
  moreover have "[0..<3] = [0, 1, 2 :: nat]" by (simp add: upt_rec)
  ultimately have u: "[0..<length (a # b # c # x)] = [0, 1, 2] @ map (\<lambda>i. i + 3) [0..<length x]"
    by (simp only:)
  have e: "concat (map (b64_emit (a # b # c # x)) (map (\<lambda>i. i + 3) [0..<length x])) = concat (map (b64_emit x) [0..<length x])"
    by (rule arg_cong [of _ _ concat]) (simp add: emit_shift)
  have g: "concat (map (b64_emit (a # b # c # x)) [0, 1, 2]) = group a b c"
    using unat_byte_less [of a] unat_byte_less [of b] unat_byte_less [of c]
    by (simp add: b64_emit_def group_def bit_arith mult.commute)
  have t: "b64_tail (a # b # c # x) (length (a # b # c # x) - 1) = (if x = [] then [] else b64_tail x (length x - 1))"
  proof (cases x)
    case (Cons d y)
    have "length (a # b # c # x) - 1 = (length x - 1) + 3" by (simp add: Cons)
    then show ?thesis by (simp add: b64_tail_def Cons)
  qed (simp add: b64_tail_def)
  show ?thesis
    unfolding base64_encode_def u map_append concat_append e g t by simp
qed

lemma induct_list3:
  assumes "P []" "\<And>a. P [a]" "\<And>a b. P [a, b]" "\<And>a b c x. P x \<Longrightarrow> P (a # b # c # x)"
  shows "P x"
proof (induction x rule: length_induct)
  case (1 x)
  consider "x = []" | a where "x = [a]" | a b where "x = [a, b]" | a b c y where "x = a # b # c # y"
    by (cases x; cases "tl x"; cases "tl (tl x)") auto
  then show ?case using assms 1 by cases auto
qed

lemma length_encode: "length (base64_encode x) = 4 * ((length x + 2) div 3)"
proof (induction x rule: induct_list3)
  case (4 a b c x)
  have "(length (a # b # c # x) + 2) div 3 = ((length x + 2) + 3) div 3" by simp
  also have "\<dots> = (length x + 2) div 3 + 1" by simp
  finally show ?case using 4 by (simp only: encode_group length_append) (simp add: group_def)
qed (simp_all add: encode_simps)


text \<open>The decoder on one full group, when a further group follows or the last one has no padding.\<close>

lemma decode_group:
  assumes "inp = group a b c @ y" "y = [] \<or> 4 \<le> length y" "length inp < 2 ^ 63" "j + 3 < length out"
  shows "\<exists>out'. b64_decode_loop inp (length inp) 0 (4 + n) out j = b64_decode_loop inp (length inp) 4 n out' (j + 3)
    \<and> length out' = length out \<and> take (j + 3) out' = take j out @ [a, b, c]"
proof -
  note less = unat_byte_less [of a] unat_byte_less [of b] unat_byte_less [of c]
  define k0 k1 k2 k3 where "k0 = unat a div 4" and "k1 = 16 * (unat a mod 4) + unat b div 16"
    and "k2 = 4 * (unat b mod 16) + unat c div 64" and "k3 = unat c mod 64"
  have k: "k0 < 64" "k1 < 64" "k2 < 64" "k3 < 64" using less by (auto simp: k0_def k1_def k2_def k3_def)
  have inp: "inp ! 0 = base64en ! k0" "inp ! 1 = base64en ! k1" "inp ! 2 = base64en ! k2" "inp ! 3 = base64en ! k3"
    by (simp_all add: assms(1) group_def k0_def k1_def k2_def k3_def)
  have np: "base64en ! i \<noteq> BASE64_PAD" if "i < 64" for i using char_ok [OF that] by (simp add: char_ok_def)
  have len: "length inp = 4 + length y" by (simp add: assms(1) group_def)
  have w: "sub64 (length inp) 3 = length inp - 3" "sub64 (length inp) 2 = length inp - 2"
    by (rule sub64_id; use assms(3) len in simp)+
  have c1: "1 < sub64 (length inp) 3 \<or> inp ! (length inp - 2) \<noteq> BASE64_PAD"
    using assms(2) len w inp np k by (cases "y = []") auto
  have c2: "2 < sub64 (length inp) 2 \<or> inp ! (length inp - 1) \<noteq> BASE64_PAD"
    using assms(2) len w inp np k by (cases "y = []") auto
  have s: "4 + n = Suc (Suc (Suc (Suc n)))" by simp
  define o1 where "o1 = out[j := of_nat (4 * k0)]"
  define o2 where "o2 = o1[j := o1 ! j + of_nat (k1 div 16), j + 1 := of_nat (16 * (k1 mod 16))]"
  define o3 where "o3 = o2[j + 1 := o2 ! (j + 1) + of_nat (k2 div 4), j + 2 := of_nat (64 * (k2 mod 4))]"
  define o4 where "o4 = o3[j + 2 := o3 ! (j + 2) + of_nat k3]"
  note o_defs = o1_def o2_def o3_def o4_def
  have 1: "b64_decode_loop inp (length inp) 0 (4 + n) out j = b64_decode_loop inp (length inp) 1 (Suc (Suc (Suc n))) o1 j"
    unfolding s by (subst decode_step [OF inp(1) k(1)]) (simp add: o1_def)
  also have "\<dots> = b64_decode_loop inp (length inp) 2 (Suc (Suc n)) o2 (j + 1)"
    by (subst decode_step [OF inp(2) k(2)]) (use c1 in \<open>simp add: Let_def o2_def numeral_2_eq_2\<close>)
  also have "\<dots> = b64_decode_loop inp (length inp) 3 (Suc n) o3 (j + 2)"
    by (subst decode_step [OF inp(3) k(3)]) (use c2 in \<open>simp add: Let_def o3_def\<close>)
  also have "\<dots> = b64_decode_loop inp (length inp) 4 n o4 (j + 3)"
    by (subst decode_step [OF inp(4) k(4)]) (simp add: Let_def o4_def, simp add: numeral_3_eq_3)
  finally have run: "b64_decode_loop inp (length inp) 0 (4 + n) out j = b64_decode_loop inp (length inp) 4 n o4 (j + 3)" .
  have v: "(of_nat (4 * k0) + of_nat (k1 div 16) :: byte) = a" "(of_nat (16 * (k1 mod 16)) + of_nat (k2 div 4) :: byte) = b"
    "(of_nat (64 * (k2 mod 4)) + of_nat k3 :: byte) = c"
    unfolding of_nat_add [symmetric] k0_def k1_def k2_def k3_def using less by simp_all
  have nth: "o4 ! j = a" "o4 ! (j + 1) = b" "o4 ! (j + 2) = c"
    using v assms(4) by (simp_all add: o_defs del: of_nat_mult)
  have len_o: "length o4 = length out" by (simp add: o_defs)
  have "take (j + 3) o4 = take j o4 @ [o4 ! j, o4 ! (j + 1), o4 ! (j + 2)]"
    using assms(4) len_o by (simp add: numeral_3_eq_3 take_Suc_conv_app_nth)
  also have "take j o4 = take j out" by (simp add: o_defs)
  finally have "take (j + 3) o4 = take j out @ [a, b, c]" using nth by (simp only:)
  then show ?thesis using run len_o by blast
qed


lemma decode_one:
  assumes "inp = base64_encode [a]" "j + 1 < length out"
  shows "\<exists>out'. b64_decode_loop inp 4 0 4 out j = Inr (out', j + 1) \<and> length out' = length out \<and> take (j + 1) out' = take j out @ [a]"
proof -
  note less = unat_byte_less [of a]
  define k0 k1 where "k0 = unat a div 4" and "k1 = 16 * (unat a mod 4)"
  have k: "k0 < 64" "k1 < 64" using less by (auto simp: k0_def k1_def)
  have inp: "inp ! 0 = base64en ! k0" "inp ! 1 = base64en ! k1" "inp ! 2 = BASE64_PAD" "inp ! 3 = BASE64_PAD"
    by (simp_all add: assms(1) encode_simps k0_def k1_def)
  have s: "(4 :: nat) = Suc (Suc (Suc (Suc 0)))" by simp
  have w: "sub64 4 3 = 1" by simp
  have v: "(of_nat (4 * k0) + of_nat (k1 div 16) :: byte) = a"
    unfolding of_nat_add [symmetric] k0_def k1_def using less by simp
  define o1 where "o1 = out[j := of_nat (4 * k0), j := of_nat (4 * k0) + of_nat (k1 div 16)]"
  have "b64_decode_loop inp 4 0 (Suc (Suc (Suc (Suc 0)))) out j = b64_decode_loop inp 4 1 (Suc (Suc (Suc 0))) (out[j := of_nat (4 * k0)]) j"
    by (subst decode_step [OF inp(1) k(1)]) simp
  also have "\<dots> = b64_decode_loop inp 4 2 (Suc (Suc 0)) o1 (j + 1)"
    by (subst decode_step [OF inp(2) k(2)]) (use w inp assms(2) in \<open>simp add: Let_def o1_def numeral_2_eq_2\<close>)
  also have "\<dots> = Inr (o1, j + 1)" by (simp add: b64_decode_loop.simps inp)
  finally have "b64_decode_loop inp 4 0 4 out j = Inr (o1, j + 1)" by (simp only: s)
  moreover have "take (j + 1) o1 = take j out @ [a]" using v assms(2) by (simp add: o1_def take_Suc_conv_app_nth del: of_nat_mult)
  ultimately show ?thesis by (simp add: o1_def)
qed

lemma decode_two:
  assumes "inp = base64_encode [a, b]" "j + 2 < length out"
  shows "\<exists>out'. b64_decode_loop inp 4 0 4 out j = Inr (out', j + 2) \<and> length out' = length out \<and> take (j + 2) out' = take j out @ [a, b]"
proof -
  note less = unat_byte_less [of a] unat_byte_less [of b]
  define k0 k1 k2 where "k0 = unat a div 4" and "k1 = 16 * (unat a mod 4) + unat b div 16" and "k2 = 4 * (unat b mod 16)"
  have k: "k0 < 64" "k1 < 64" "k2 < 64" using less by (auto simp: k0_def k1_def k2_def)
  have inp: "inp ! 0 = base64en ! k0" "inp ! 1 = base64en ! k1" "inp ! 2 = base64en ! k2" "inp ! 3 = BASE64_PAD"
    by (simp_all add: assms(1) encode_simps k0_def k1_def k2_def)
  have s: "(4 :: nat) = Suc (Suc (Suc (Suc 0)))" by simp
  have w: "sub64 4 3 = 1" "sub64 4 2 = 2" by simp_all
  have np: "base64en ! k2 \<noteq> BASE64_PAD" using char_ok [OF k(3)] by (simp add: char_ok_def)
  have v: "(of_nat (4 * k0) + of_nat (k1 div 16) :: byte) = a" "(of_nat (16 * (k1 mod 16)) + of_nat (k2 div 4) :: byte) = b"
    unfolding of_nat_add [symmetric] k0_def k1_def k2_def using less by simp_all
  define o1 where "o1 = out[j := of_nat (4 * k0)]"
  define o2 where "o2 = o1[j := o1 ! j + of_nat (k1 div 16), j + 1 := of_nat (16 * (k1 mod 16))]"
  define o3 where "o3 = o2[j + 1 := o2 ! (j + 1) + of_nat (k2 div 4)]"
  note o_defs = o1_def o2_def o3_def
  have "b64_decode_loop inp 4 0 (Suc (Suc (Suc (Suc 0)))) out j = b64_decode_loop inp 4 1 (Suc (Suc (Suc 0))) o1 j"
    by (subst decode_step [OF inp(1) k(1)]) (simp add: o1_def)
  also have "\<dots> = b64_decode_loop inp 4 2 (Suc (Suc 0)) o2 (j + 1)"
    by (subst decode_step [OF inp(2) k(2)]) (use w inp np in \<open>simp add: Let_def o2_def numeral_2_eq_2\<close>)
  also have "\<dots> = b64_decode_loop inp 4 3 (Suc 0) o3 (j + 2)"
    by (subst decode_step [OF inp(3) k(3)]) (use w inp in \<open>simp add: Let_def o3_def\<close>)
  also have "\<dots> = Inr (o3, j + 2)" by (simp add: b64_decode_loop.simps inp)
  finally have run: "b64_decode_loop inp 4 0 4 out j = Inr (o3, j + 2)" by (simp only: s)
  have nth: "o3 ! j = a" "o3 ! (j + 1) = b" using v assms(2) by (simp_all add: o_defs del: of_nat_mult)
  have len_o: "length o3 = length out" by (simp add: o_defs)
  have "take (j + 2) o3 = take j o3 @ [o3 ! j, o3 ! (j + 1)]"
    using assms(2) len_o by (simp add: numeral_2_eq_2 take_Suc_conv_app_nth)
  also have "take j o3 = take j out" by (simp add: o_defs)
  finally show ?thesis using nth run len_o by auto
qed

lemma decode_encode:
  "length (base64_encode x) < 2 ^ 63 \<Longrightarrow> j + length x < length out \<Longrightarrow>
    \<exists>out'. b64_decode_loop (base64_encode x) (length (base64_encode x)) 0 (length (base64_encode x)) out j = Inr (out', j + length x)
      \<and> length out' = length out \<and> take (j + length x) out' = take j out @ x"
proof (induction x arbitrary: j out rule: induct_list3)
  case 1
  then show ?case by (simp add: encode_simps b64_decode_loop.simps)
next
  case (2 a)
  then show ?case using decode_one [OF refl, of j out a] by (simp add: length_encode)
next
  case (3 a b)
  then show ?case using decode_two [OF refl, of j out a b] by (simp add: length_encode)
next
  case (4 a b c x)
  let ?y = "base64_encode x" and ?E = "base64_encode (a # b # c # x)"
  have E: "?E = group a b c @ ?y" by (rule encode_group)
  have g4: "length (group a b c) = 4" by (simp add: group_def)
  have y: "?y = [] \<or> 4 \<le> length ?y" by (cases x) (auto simp: encode_simps length_encode)
  obtain o1 where o1: "b64_decode_loop ?E (length ?E) 0 (4 + length ?y) out j = b64_decode_loop ?E (length ?E) 4 (length ?y) o1 (j + 3)"
    "length o1 = length out" "take (j + 3) o1 = take j out @ [a, b, c]"
    using decode_group [OF E y 4(2), of j out "length ?y"] 4(3) by auto
  have le: "length ?E = 4 + length ?y" by (simp add: E g4)
  have "b64_decode_loop ?E (length ?E) 4 (length ?y) o1 (j + 3) = b64_decode_loop ?y (length ?y) 0 (length ?y) o1 (j + 3)"
  proof (cases "?y = []")
    case True
    then show ?thesis by (simp add: b64_decode_loop.simps)
  next
    case False
    then show ?thesis using decode_shift [of "group a b c" ?y 0 "length ?y" o1 "j + 3"] y 4(2) E le by (simp add: g4)
  qed
  moreover obtain o2 where "b64_decode_loop ?y (length ?y) 0 (length ?y) o1 (j + 3) = Inr (o2, j + 3 + length x)"
    "length o2 = length o1" "take (j + 3 + length x) o2 = take (j + 3) o1 @ x"
    using 4(1) [of "j + 3" o1] 4(2,3) le o1(2) by auto
  ultimately show ?case using o1 le by (auto simp: ac_simps numeral_3_eq_3)
qed

text \<open>C31: decoding what \<open>base64_encode\<close> produced gives back the data, for every input length, whatever the
  output buffer held before; the encoded length is 4 for each started group of 3 bytes, and the result is
  terminated by a null byte.\<close>

theorem base64_roundtrip:
  assumes "length x < 2 ^ 62" "length x < length out"
  shows "length (base64_encode x) = 4 * ((length x + 2) div 3)
    \<and> fst (base64_decode (base64_encode x) out) = length x
    \<and> take (length x) (snd (base64_decode (base64_encode x) out)) = x
    \<and> snd (base64_decode (base64_encode x) out) ! length x = 0"
proof -
  have "length (base64_encode x) < 2 ^ 63" using assms(1) by (simp add: length_encode)
  from decode_encode [OF this, of 0 out] assms(2) obtain out' where
    "b64_decode_loop (base64_encode x) (length (base64_encode x)) 0 (length (base64_encode x)) out 0 = Inr (out', length x)"
    "length out' = length out" "take (length x) out' = x" by auto
  then show ?thesis using assms(2) by (simp add: base64_decode_def length_encode)
qed

theorem base64_roundtrip_witness:
  "base64_encode [102, 111, 111, 98] = [90, 109, 57, 118, 89, 103, 61, 61]
    \<and> base64_decode [90, 109, 57, 118, 89, 103, 61, 61] (replicate 6 7) = (4, [102, 111, 111, 98, 0, 7])
    \<and> fst (base64_decode (base64_encode [102, 111, 111, 98]) (replicate 6 7)) = 4"
proof -
  have "base64_encode [102, 111, 111, 98] = [90, 109, 57, 118, 89, 103, 61, 61]" by code_simp
  moreover have "base64_decode [90, 109, 57, 118, 89, 103, 61, 61] (replicate 6 7) = (4, [102, 111, 111, 98, 0, 7])" by code_simp
  moreover have "fst (base64_decode (base64_encode [102, 111, 111, 98]) (replicate 6 7)) = 4"
    using base64_roundtrip [of "[102, 111, 111, 98]" "replicate 6 7"] by simp
  ultimately show ?thesis by blast
qed

end
