(* ===== verification/Sw_String.thy ===== *)
theory Sw_String
  imports Sw_Memory Sw_Endian Sw_Base64 "HOL-Library.Sublist"
begin

text \<open>
  \<open>String\<close> of \<open>src/core/string.cc\<close> and \<open>include/swoole_string.h\<close>: a growable byte buffer with a length and
  a scan offset. \<open>s_str\<close> is the whole memory of \<open>size\<close> bytes behind \<open>str\<close>; a null \<open>str\<close> is the empty
  memory. The allocator is a parameter: \<open>malloc n\<close> gives the contents of a new block, None when it fails.
  Also the search and number formatting functions that it uses.
\<close>

section \<open>Searching and numbers\<close>

definition swoole_strnstr :: "bytes \<Rightarrow> nat \<Rightarrow> bytes \<Rightarrow> nat \<Rightarrow> nat option" where
  "swoole_strnstr haystack haystack_length needle needle_length =
     (if needle_length \<le> haystack_length
      then find (\<lambda>i. haystack ! i = needle ! 0 \<and> bytes_at haystack i needle_length = take needle_length needle)
             [0..<haystack_length - needle_length + 1]
      else None)"

definition swoole_strnpos :: "bytes \<Rightarrow> nat \<Rightarrow> bytes \<Rightarrow> nat \<Rightarrow> int" where
  "swoole_strnpos haystack haystack_length needle needle_length =
     (case swoole_strnstr haystack haystack_length needle needle_length of None \<Rightarrow> -1 | Some i \<Rightarrow> int i)"

text \<open>\<open>swoole_itoa\<close>: the digits, lowest first, then the sign, then reversed.\<close>

fun itoa_digits :: "nat \<Rightarrow> bytes" where
  "itoa_digits nn = of_nat (nn mod 10 + 48) # (if nn div 10 = 0 then [] else itoa_digits (nn div 10))"

declare itoa_digits.simps [simp del]

definition swoole_itoa :: "int \<Rightarrow> bytes" where
  "swoole_itoa v =
     (let sign_mask = (if v < 0 then -1 else 0 :: u64);
          nn = unat ((of_int v + sign_mask) XOR sign_mask)
      in rev (itoa_digits nn @ (if v < 0 then [45] else [])))"

definition swoole_size_align :: "nat \<Rightarrow> nat \<Rightarrow> nat" where
  "swoole_size_align sz pagesize = wrap64 (sz + (pagesize - sz mod pagesize))"

section \<open>The buffer\<close>

record String =
  s_length :: nat
  s_size :: nat
  s_offset :: int
  s_str :: bytes

datatype string_error = BAD_ALLOC | ASSERTION_FAILED

definition String_empty :: String where
  "String_empty = \<lparr>s_length = 0, s_size = 0, s_offset = 0, s_str = []\<rparr>"

definition String_alloc :: "(nat \<Rightarrow> bytes option) \<Rightarrow> nat \<Rightarrow> string_error + String" where
  "String_alloc malloc sz0 =
     (let sz = SW_MEM_ALIGNED_SIZE sz0 in
      case malloc sz of
        None \<Rightarrow> Inl BAD_ALLOC
      | Some m \<Rightarrow> Inr \<lparr>s_length = 0, s_size = sz, s_offset = 0, s_str = m\<rparr>)"

definition String_from :: "(nat \<Rightarrow> bytes option) \<Rightarrow> bytes \<Rightarrow> string_error + String" where
  "String_from malloc d =
     (case String_alloc malloc (wrap64 (length d + 1)) of
        Inl e \<Rightarrow> Inl e
      | Inr s \<Rightarrow> Inr (s\<lparr>s_str := (memcpy_at (s_str s) 0 d)[length d := 0], s_length := length d\<rparr>))"

definition String_copy :: "(nat \<Rightarrow> bytes option) \<Rightarrow> String \<Rightarrow> string_error + String" where
  "String_copy malloc src =
     (case String_alloc malloc (s_size src) of
        Inl e \<Rightarrow> Inl e
      | Inr s \<Rightarrow> Inr (s\<lparr>s_str := memcpy_at (s_str s) 0 (take (s_length src) (s_str src)), s_length := s_length src, s_offset := s_offset src\<rparr>))"

text \<open>\<open>move\<close>: the new string and what is left of the source.\<close>

definition String_move :: "String \<Rightarrow> String \<times> String" where
  "String_move src = (src, String_empty)"

definition String_reserve :: "(nat \<Rightarrow> bytes option) \<Rightarrow> String \<Rightarrow> nat \<Rightarrow> string_error + String" where
  "String_reserve malloc s new_size0 =
     (if s_size s = 0 then String_alloc malloc new_size0
      else
        let new_size = SW_MEM_ALIGNED_SIZE new_size0 in
        case malloc new_size of
          None \<Rightarrow> Inl BAD_ALLOC
        | Some m \<Rightarrow> Inr (s\<lparr>s_str := take new_size (s_str s) @ drop (length (s_str s)) m, s_size := new_size\<rparr>))"

text \<open>The test that \<open>append\<close> and \<open>write\<close> begin with.\<close>

definition string_ensure :: "(nat \<Rightarrow> bytes option) \<Rightarrow> String \<Rightarrow> nat \<Rightarrow> string_error + String" where
  "string_ensure malloc s new_size = (if new_size > s_size s then String_reserve malloc s new_size else Inr s)"

definition String_append :: "(nat \<Rightarrow> bytes option) \<Rightarrow> String \<Rightarrow> bytes \<Rightarrow> string_error + String" where
  "String_append malloc s d =
     (case string_ensure malloc s (wrap64 (s_length s + length d)) of
        Inl e \<Rightarrow> Inl e
      | Inr s1 \<Rightarrow> Inr (s1\<lparr>s_str := memcpy_at (s_str s1) (s_length s1) d, s_length := wrap64 (s_length s1 + length d)\<rparr>))"

definition String_append_string :: "(nat \<Rightarrow> bytes option) \<Rightarrow> String \<Rightarrow> String \<Rightarrow> string_error + String" where
  "String_append_string malloc s a = String_append malloc s (take (s_length a) (s_str a))"

definition String_append_int :: "(nat \<Rightarrow> bytes option) \<Rightarrow> String \<Rightarrow> int \<Rightarrow> string_error + String" where
  "String_append_int malloc s v = String_append malloc s (swoole_itoa v)"

definition String_write :: "(nat \<Rightarrow> bytes option) \<Rightarrow> String \<Rightarrow> nat \<Rightarrow> bytes \<Rightarrow> string_error + String" where
  "String_write malloc s off d =
     (let new_length = wrap64 (off + length d) in
      case string_ensure malloc s new_length of
        Inl e \<Rightarrow> Inl e
      | Inr s1 \<Rightarrow>
          let s2 = s1\<lparr>s_str := memcpy_at (s_str s1) off d\<rparr> in
          Inr (if new_length > s_length s2 then s2\<lparr>s_length := new_length\<rparr> else s2))"

definition String_grow :: "(nat \<Rightarrow> bytes option) \<Rightarrow> String \<Rightarrow> nat \<Rightarrow> string_error + String" where
  "String_grow malloc s incr_value =
     (let s1 = s\<lparr>s_length := wrap64 (s_length s + incr_value)\<rparr> in
      if incr_value > 0 \<and> s_length s1 \<ge> s_size s1
      then String_reserve malloc s1 (max (wrap64 (s_size s1 * 2)) (s_length s1))
      else Inr s1)"

definition String_substr :: "(nat \<Rightarrow> bytes option) \<Rightarrow> String \<Rightarrow> nat \<Rightarrow> nat \<Rightarrow> string_error + String" where
  "String_substr malloc s off len =
     (if wrap64 (off + len) > s_length s then Inr String_empty
      else
        case String_alloc malloc len of
          Inl e \<Rightarrow> Inl e
        | Inr t \<Rightarrow> String_append malloc t (bytes_at (s_str s) off len))"

text \<open>\<open>pop\<close>: the string with its new memory and the old memory handed out; None when the allocation failed.\<close>

definition String_pop :: "(nat \<Rightarrow> bytes option) \<Rightarrow> String \<Rightarrow> nat \<Rightarrow> string_error + (String \<times> bytes) option" where
  "String_pop malloc s init_size =
     (if \<not> s_length s \<ge> nat (s_offset s mod 2 ^ 64) then Inl ASSERTION_FAILED
      else
        let len = s_length s - nat (s_offset s);
            alloc_size = SW_MEM_ALIGNED_SIZE (if len = 0 then init_size else max len init_size)
        in
        case malloc alloc_size of
          None \<Rightarrow> Inr None
        | Some m \<Rightarrow>
            Inr (Some (\<lparr>s_length = len, s_size = alloc_size, s_offset = 0,
                        s_str = (if len > 0 then memcpy_at m 0 (bytes_at (s_str s) (nat (s_offset s)) len) else m)\<rparr>, s_str s)))"

definition String_reduce :: "String \<Rightarrow> int \<Rightarrow> string_error + String" where
  "String_reduce s off =
     (if \<not> (off \<ge> 0 \<and> nat off \<le> s_length s) then Inl ASSERTION_FAILED
      else if off = 0 then Inr s
      else
        let s1 = s\<lparr>s_length := s_length s - nat off, s_offset := 0\<rparr> in
        if s_length s1 = 0 then Inr s1
        else Inr (s1\<lparr>s_str := memcpy_at (s_str s1) 0 (bytes_at (s_str s1) (nat off) (s_length s1))\<rparr>))"

definition String_clear :: "String \<Rightarrow> String" where
  "String_clear s = s\<lparr>s_length := 0, s_offset := 0\<rparr>"

definition String_extend :: "(nat \<Rightarrow> bytes option) \<Rightarrow> String \<Rightarrow> nat \<Rightarrow> string_error + String" where
  "String_extend malloc s new_size =
     (if \<not> new_size > s_size s then Inl ASSERTION_FAILED else String_reserve malloc s new_size)"

text \<open>The doubling loop of \<open>extend_align\<close> and \<open>format_impl\<close>.\<close>

partial_function (option) align_loop :: "nat \<Rightarrow> nat \<Rightarrow> nat option" where
  "align_loop align_size new_size =
     (if align_size < new_size then align_loop (wrap64 (align_size * 2)) new_size else Some align_size)"

declare align_loop.simps [code]

definition String_extend_align :: "(nat \<Rightarrow> bytes option) \<Rightarrow> String \<Rightarrow> nat \<Rightarrow> (string_error + String) option" where
  "String_extend_align malloc s new_size =
     (case align_loop (SW_MEM_ALIGNED_SIZE (wrap64 (s_size s * 2))) new_size of
        None \<Rightarrow> None
      | Some align_size \<Rightarrow> Some (String_reserve malloc s align_size))"

text \<open>\<open>release\<close>: the memory handed out and the empty string.\<close>

definition String_release :: "String \<Rightarrow> bytes \<times> String" where
  "String_release s = (s_str s, String_empty)"

fun string_repeat_loop :: "(nat \<Rightarrow> bytes option) \<Rightarrow> String \<Rightarrow> bytes \<Rightarrow> nat \<Rightarrow> string_error + String" where
  "string_repeat_loop malloc s d 0 = Inr s"
| "string_repeat_loop malloc s d (Suc n) =
     (case String_append malloc s d of Inl e \<Rightarrow> Inl e | Inr s1 \<Rightarrow> string_repeat_loop malloc s1 d n)"

definition String_repeat :: "(nat \<Rightarrow> bytes option) \<Rightarrow> String \<Rightarrow> bytes \<Rightarrow> nat \<Rightarrow> string_error + String" where
  "String_repeat malloc s d n =
     (if \<not> n > 0 then Inl ASSERTION_FAILED
      else if length d = 1 then
        (case (if s_size s < wrap64 (s_length s + n) then String_reserve malloc s (wrap64 (s_length s + n)) else Inr s) of
           Inl e \<Rightarrow> Inl e
         | Inr s1 \<Rightarrow> Inr (s1\<lparr>s_str := memcpy_at (s_str s1) (s_length s1) (replicate n (d ! 0)), s_length := wrap64 (s_length s1 + n)\<rparr>))
      else string_repeat_loop malloc s d n)"

definition String_set_null_terminated :: "(nat \<Rightarrow> bytes option) \<Rightarrow> String \<Rightarrow> string_error + String" where
  "String_set_null_terminated malloc s =
     (case (if s_length s = s_size s then String_extend malloc s (wrap64 (s_length s + 1)) else Inr s) of
        Inl e \<Rightarrow> Inl e
      | Inr s1 \<Rightarrow> Inr (s1\<lparr>s_str := (s_str s1)[s_length s1 := 0]\<rparr>))"

text \<open>
  \<open>append_random_bytes\<close>: \<open>rnd\<close> is what the random source delivered, \<open>pagesize\<close> the system's page size.
\<close>

definition BASE64_ENCODE_OUT_SIZE :: "nat \<Rightarrow> nat" where
  "BASE64_ENCODE_OUT_SIZE n = (n + 2) div 3 * 4"

definition String_append_random_bytes ::
    "(nat \<Rightarrow> bytes option) \<Rightarrow> nat \<Rightarrow> bytes \<Rightarrow> String \<Rightarrow> nat \<Rightarrow> bool \<Rightarrow> string_error + (String \<times> bool)" where
  "String_append_random_bytes malloc pagesize rnd s len base64 =
     (let new_size = wrap64 (s_length s + len + (if base64 then BASE64_ENCODE_OUT_SIZE len + 1 else 0)) in
      case (if new_size > s_size s then String_reserve malloc s (swoole_size_align (wrap64 (new_size * 2)) pagesize) else Inr s) of
        Inl e \<Rightarrow> Inl e
      | Inr s1 \<Rightarrow>
          let s2 = s1\<lparr>s_str := memcpy_at (s_str s1) (s_length s1) rnd\<rparr> in
          if length rnd \<noteq> len then Inr (s2, False)
          else if base64 then
            let out = base64_encode (bytes_at (s_str s2) (s_length s2) len) in
            Inr (s2\<lparr>s_str := memcpy_at (s_str s2) (s_length s2) out, s_length := wrap64 (s_length s2 + length out)\<rparr>, True)
          else Inr (s2\<lparr>s_length := wrap64 (s_length s2 + len)\<rparr>, True))"

section \<open>Tests\<close>

definition string_contains :: "String \<Rightarrow> bytes \<Rightarrow> bool" where
  "string_contains s needle \<longleftrightarrow> swoole_strnstr (s_str s) (wrap32 (s_length s)) needle (wrap32 (length needle)) \<noteq> None"

definition string_starts_with :: "String \<Rightarrow> bytes \<Rightarrow> bool" where
  "string_starts_with s needle \<longleftrightarrow> \<not> s_length s < length needle \<and> bytes_at (s_str s) 0 (length needle) = needle"

definition string_ends_with :: "String \<Rightarrow> bytes \<Rightarrow> bool" where
  "string_ends_with s needle \<longleftrightarrow> \<not> s_length s < length needle
     \<and> bytes_at (s_str s) (s_length s - length needle) (length needle) = needle"

definition string_equals :: "String \<Rightarrow> bytes \<Rightarrow> bool" where
  "string_equals s d \<longleftrightarrow> s_length s = length d \<and> bytes_at (s_str s) 0 (length d) = d"

section \<open>Splitting\<close>

text \<open>
  \<open>split\<close>: the handler gets a packet and answers whether to go on; \<open>'s\<close> is the state it works on.
  \<open>split_loop\<close> returns the string, the handler's state, the variable \<open>_offset\<close> and whether it ran to the end.
\<close>

definition find_delim :: "String \<Rightarrow> bytes \<Rightarrow> nat option" where
  "find_delim s d =
     swoole_strnstr (drop (nat (s_offset s)) (s_str s)) (wrap32 (nat ((int (s_length s) - s_offset s) mod 2 ^ 64))) d (wrap32 (length d))"

lemma strnstr_room:
  assumes "swoole_strnstr hay hl d n = Some k" "0 < n" "n \<le> length d"
  shows "k + n \<le> length hay"
proof -
  have "bytes_at hay k n = take n d"
    using assms(1) by (auto simp: swoole_strnstr_def find_Some_iff split: if_splits)
  then have "min n (length hay - k) = n" using assms(3) by (metis length_bytes_at length_take min_absorb2)
  then show ?thesis using assms(2) by linarith
qed

function split_loop :: "('s \<Rightarrow> bytes \<Rightarrow> 's \<times> bool) \<Rightarrow> bytes \<Rightarrow> String \<Rightarrow> 's \<Rightarrow> nat \<Rightarrow> String \<times> 's \<times> nat \<times> bool" where
  "split_loop h d s st off0 =
     (if wrap32 (length d) = 0 then (s, st, off0, True)
      else
        case find_delim s d of
          None \<Rightarrow> (s, st, off0, True)
        | Some k \<Rightarrow>
            let len = k + length d; r = h st (bytes_at (s_str s) (nat (s_offset s) - off0) (len + off0)) in
            if \<not> snd r then (s, fst r, off0, False)
            else split_loop h d (s\<lparr>s_offset := s_offset s + int len\<rparr>) (fst r) 0)"
  by pat_completeness auto
termination
proof (relation "measure (\<lambda>(h, d, s, st, off0). nat (int (length (s_str s)) - s_offset s))", simp)
  fix h :: "'s \<Rightarrow> bytes \<Rightarrow> 's \<times> bool" and d s st off0 k len r
  assume a: "wrap32 (length d) \<noteq> 0" "find_delim s d = Some k" and len: "len = k + length d"
  have w: "wrap32 (length d) \<le> length d" by (simp add: wrap32_def)
  with a have "k + wrap32 (length d) \<le> length (s_str s) - nat (s_offset s)"
    using strnstr_room unfolding find_delim_def by (metis gr0I length_drop)
  then show "((h, d, s\<lparr>s_offset := s_offset s + int len\<rparr>, fst r, 0), h, d, s, st, off0)
      \<in> measure (\<lambda>(h, d, s, st, off0). nat (int (length (s_str s)) - s_offset s))"
    using a(1) w len by auto
qed

declare split_loop.simps [simp del]

definition String_split :: "('s \<Rightarrow> bytes \<Rightarrow> 's \<times> bool) \<Rightarrow> bytes \<Rightarrow> String \<Rightarrow> 's \<Rightarrow> string_error + (int \<times> String \<times> 's)" where
  "String_split h d s st =
     (if wrap32 (length d) = 0 then Inl ASSERTION_FAILED
      else
        let (s1, st1, off0, ok) = split_loop h d s st (nat (s_offset s)) in
        if \<not> ok then Inr (-1, s1, st1)
        else
          let s2 = (if int off0 = s_offset s1 then s1\<lparr>s_offset := int (s_length s1) - int (length d)\<rparr> else s1) in
          Inr (s_offset s1 - int off0, s2, st1))"

section \<open>Operations on the contents\<close>

definition contents :: "String \<Rightarrow> bytes" where
  "contents s = take (s_length s) (s_str s)"

text \<open>
  \<open>string_ok\<close> is the type invariant: the memory has \<open>size\<close> bytes, the contents lie in it, and the sizes are
  far enough from the range of \<open>size_t\<close>.
\<close>

definition string_ok :: "String \<Rightarrow> bool" where
  "string_ok s \<longleftrightarrow> s_length s \<le> s_size s \<and> length (s_str s) = s_size s \<and> s_size s < 2 ^ 61"

definition malloc_sized :: "(nat \<Rightarrow> bytes option) \<Rightarrow> bool" where
  "malloc_sized malloc \<longleftrightarrow> (\<forall>n m. malloc n = Some m \<longrightarrow> length m = n)"

lemma length_contents [simp]: "string_ok s \<Longrightarrow> length (contents s) = s_length s"
  by (simp add: contents_def string_ok_def)

lemma aligned_bounds:
  assumes "n < 2 ^ 60"
  shows "n \<le> SW_MEM_ALIGNED_SIZE n" "SW_MEM_ALIGNED_SIZE n < 2 ^ 61"
  using aligned8_bounds [of n] assms by auto

lemma alloc_ok:
  assumes "String_alloc malloc n = Inr s" "malloc_sized malloc" "n < 2 ^ 60"
  shows "string_ok s \<and> contents s = [] \<and> n \<le> s_size s \<and> s_offset s = 0 \<and> s_length s = 0"
  using assms aligned_bounds [OF assms(3)]
  by (auto simp: String_alloc_def Let_def string_ok_def contents_def malloc_sized_def split: option.splits)

lemma reserve_ok:
  assumes "String_reserve malloc s n = Inr t" "malloc_sized malloc" "string_ok s" "s_length s \<le> n" "n < 2 ^ 60"
  shows "string_ok t \<and> contents t = contents s \<and> n \<le> s_size t \<and> s_length t = s_length s \<and> (s_size s \<noteq> 0 \<longrightarrow> s_offset t = s_offset s)"
proof (cases "s_size s = 0")
  case True
  then have "String_alloc malloc n = Inr t" using assms(1) by (simp add: String_reserve_def)
  from alloc_ok [OF this assms(2,5)] show ?thesis using True assms(3) by (auto simp: string_ok_def contents_def)
next
  case False
  note b = aligned_bounds [OF assms(5)]
  obtain m where m: "length m = SW_MEM_ALIGNED_SIZE n"
    "t = s\<lparr>s_str := take (SW_MEM_ALIGNED_SIZE n) (s_str s) @ drop (length (s_str s)) m, s_size := SW_MEM_ALIGNED_SIZE n\<rparr>"
    using assms(1,2) False by (auto simp: String_reserve_def Let_def malloc_sized_def split: option.splits)
  then show ?thesis using False assms(3,4) b by (auto simp: string_ok_def contents_def min_def)
qed

lemma ensure_ok:
  assumes "string_ensure malloc s n = Inr t" "malloc_sized malloc" "string_ok s" "n < 2 ^ 60"
  shows "string_ok t \<and> contents t = contents s \<and> n \<le> s_size t \<and> s_length t = s_length s \<and> (s_size s \<noteq> 0 \<longrightarrow> s_offset t = s_offset s)"
proof (cases "n > s_size s")
  case True
  then have "String_reserve malloc s n = Inr t" "s_length s \<le> n" using assms(1,3) by (auto simp: string_ensure_def string_ok_def)
  from reserve_ok [OF this(1) assms(2,3) this(2) assms(4)] show ?thesis .
next
  case False
  then show ?thesis using assms by (auto simp: string_ensure_def)
qed

lemma write_contents:
  assumes "string_ok s" "off + length d \<le> s_size s" "off \<le> s_length s"
    and "t = s\<lparr>s_str := memcpy_at (s_str s) off d, s_length := max (s_length s) (off + length d)\<rparr>"
  shows "string_ok t" "contents t = take off (contents s) @ d @ drop (off + length d) (contents s)"
proof -
  show "string_ok t" using assms by (auto simp: string_ok_def)
  have "take (max (s_length s) (off + length d)) (take off (s_str s) @ d @ drop (off + length d) (s_str s))
      = take off (s_str s) @ d @ drop (off + length d) (take (s_length s) (s_str s))"
    using assms(1-3) by (auto simp: string_ok_def max_def drop_take)
  then show "contents t = take off (contents s) @ d @ drop (off + length d) (contents s)"
    using assms by (simp add: contents_def memcpy_at_def min_def)
qed

lemma append_ok:
  assumes "String_append malloc s d = Inr t" "malloc_sized malloc" "string_ok s" "s_length s + length d < 2 ^ 60"
  shows "string_ok t \<and> contents t = contents s @ d \<and> (s_size s \<noteq> 0 \<longrightarrow> s_offset t = s_offset s)"
proof -
  have w: "wrap64 (s_length s + length d) = s_length s + length d" using assms(4) by simp
  obtain s1 where s1: "string_ensure malloc s (s_length s + length d) = Inr s1"
    "t = s1\<lparr>s_str := memcpy_at (s_str s1) (s_length s1) d, s_length := wrap64 (s_length s1 + length d)\<rparr>"
    using assms(1) unfolding String_append_def w by (auto split: sum.splits)
  note e = ensure_ok [OF s1(1) assms(2,3,4)]
  have t: "t = s1\<lparr>s_str := memcpy_at (s_str s1) (s_length s1) d, s_length := max (s_length s1) (s_length s1 + length d)\<rparr>"
    using s1(2) e assms(4) by (simp add: max_def)
  have r: "s_length s1 + length d \<le> s_size s1" using e by simp
  have l: "length (contents s) = s_length s1" using assms(3) e by simp
  show ?thesis
    using write_contents [OF _ r le_refl t] e assms(3) l by (simp add: t)
qed

lemma write_ok:
  assumes "String_write malloc s off d = Inr t" "malloc_sized malloc" "string_ok s" "off \<le> s_length s" "off + length d < 2 ^ 60"
  shows "string_ok t \<and> contents t = take off (contents s) @ d @ drop (off + length d) (contents s)"
proof -
  have w: "wrap64 (off + length d) = off + length d" using assms(5) by simp
  obtain s1 where s1: "string_ensure malloc s (off + length d) = Inr s1"
    "t = (let s2 = s1\<lparr>s_str := memcpy_at (s_str s1) off d\<rparr> in if off + length d > s_length s2 then s2\<lparr>s_length := off + length d\<rparr> else s2)"
    using assms(1) unfolding String_write_def w Let_def by (auto split: sum.splits)
  note e = ensure_ok [OF s1(1) assms(2,3,5)]
  have t: "t = s1\<lparr>s_str := memcpy_at (s_str s1) off d, s_length := max (s_length s1) (off + length d)\<rparr>"
    unfolding s1(2) Let_def max_def by auto
  show ?thesis using write_contents [OF _ _ _ t] e assms(4) by simp
qed

lemma reduce_ok:
  assumes "string_ok s" "n \<le> s_length s"
  shows "\<exists>t. String_reduce s (int n) = Inr t \<and> string_ok t \<and> contents t = drop n (contents s)
    \<and> s_length t = s_length s - n \<and> (n \<noteq> 0 \<longrightarrow> s_offset t = 0) \<and> s_size t = s_size s"
proof (cases "n = 0 \<or> n = s_length s")
  case True
  then show ?thesis using assms by (auto simp: String_reduce_def Let_def string_ok_def contents_def)
next
  case False
  have l: "length (s_str s) = s_size s" "s_length s \<le> s_size s" using assms(1) by (auto simp: string_ok_def)
  let ?d = "bytes_at (s_str s) n (s_length s - n)"
  have "length ?d = s_length s - n" using l by simp
  then have "take (s_length s - n) (memcpy_at (s_str s) 0 ?d) = ?d" using l by (simp add: memcpy_at_def)
  also have "\<dots> = drop n (contents s)" using l by (simp add: contents_def bytes_at_def drop_take)
  finally show ?thesis using False assms l by (auto simp: String_reduce_def Let_def string_ok_def contents_def)
qed

lemma reduce_assertion: "\<not> (0 \<le> off \<and> nat off \<le> s_length s) \<Longrightarrow> String_reduce s off = Inl ASSERTION_FAILED"
  by (simp add: String_reduce_def)

lemma repeat_loop_ok:
  assumes "malloc_sized malloc"
  shows "string_repeat_loop malloc s d n = Inr t \<Longrightarrow> string_ok s \<Longrightarrow> s_length s + n * length d < 2 ^ 60 \<Longrightarrow>
    string_ok t \<and> contents t = contents s @ concat (replicate n d)"
proof (induction n arbitrary: s)
  case (Suc n)
  obtain s1 where s1: "String_append malloc s d = Inr s1" "string_repeat_loop malloc s1 d n = Inr t"
    using Suc(2) by (auto split: sum.splits)
  have b: "s_length s + length d < 2 ^ 60" using Suc(4) by simp
  note a = append_ok [OF s1(1) assms Suc(3) b]
  have "s_length s1 = s_length s + length d" using a Suc(3) by (metis length_append length_contents)
  then show ?case using Suc.IH [OF s1(2)] a Suc(4) by simp
qed auto

lemma repeat_ok:
  assumes "String_repeat malloc s d n = Inr t" "malloc_sized malloc" "string_ok s" "s_length s + n * length d < 2 ^ 60"
  shows "string_ok t \<and> contents t = contents s @ concat (replicate n d)"
proof (cases "length d = 1")
  case True
  then obtain c where d: "d = [c]" by (auto simp: length_Suc_conv)
  have "String_append malloc s (replicate n c) = Inr t"
    using assms(1) d unfolding String_repeat_def String_append_def string_ensure_def
    by (auto split: if_splits sum.splits)
  from append_ok [OF this assms(2,3)] assms(4) show ?thesis by (simp add: d concat_replicate_single)
next
  case False
  then have "string_repeat_loop malloc s d n = Inr t" using assms(1) by (auto simp: String_repeat_def split: if_splits)
  then show ?thesis using repeat_loop_ok [OF assms(2)] assms(3,4) by blast
qed

lemma substr_ok:
  assumes "String_substr malloc s off len = Inr t" "malloc_sized malloc" "string_ok s" "off + len \<le> s_length s" "s_length s < 2 ^ 60"
  shows "string_ok t \<and> contents t = bytes_at (contents s) off len"
proof -
  have w: "wrap64 (off + len) = off + len" using assms(4,5) by simp
  obtain u where u: "String_alloc malloc len = Inr u" "String_append malloc u (bytes_at (s_str s) off len) = Inr t"
    using assms(1,4) unfolding String_substr_def w by (auto split: sum.splits if_splits)
  have a: "string_ok u" "contents u = []" "s_length u = 0" using alloc_ok [OF u(1) assms(2)] assms(4,5) by auto
  have "bytes_at (s_str s) off len = bytes_at (contents s) off len"
    using assms(4) by (simp add: contents_def bytes_at_def drop_take min_def)
  then show ?thesis using append_ok [OF u(2) assms(2) a(1)] a assms(4,5) by simp
qed

lemma pop_ok:
  assumes "String_pop malloc s init_size = Inr (Some (t, old))" "malloc_sized malloc" "string_ok s"
    and "0 \<le> s_offset s" "s_offset s \<le> int (s_length s)" "init_size < 2 ^ 60" "s_length s < 2 ^ 60"
  shows "string_ok t \<and> contents t = drop (nat (s_offset s)) (contents s) \<and> s_offset t = 0 \<and> old = s_str s"
proof -
  define len where "len = s_length s - nat (s_offset s)"
  define n where "n = SW_MEM_ALIGNED_SIZE (if len = 0 then init_size else max len init_size)"
  have b: "len \<le> n" "n < 2 ^ 61"
    using aligned_bounds [of "if len = 0 then init_size else max len init_size"] assms(6,7) by (auto simp: n_def len_def)
  obtain m where m: "length m = n" "old = s_str s"
    "t = \<lparr>s_length = len, s_size = n, s_offset = 0, s_str = (if len > 0 then memcpy_at m 0 (bytes_at (s_str s) (nat (s_offset s)) len) else m)\<rparr>"
    using assms(1,2) unfolding String_pop_def len_def [symmetric] Let_def n_def [symmetric]
    by (auto simp: malloc_sized_def split: if_splits option.splits)
  have l: "length (bytes_at (s_str s) (nat (s_offset s)) len) = len" using assms(3) by (auto simp: len_def string_ok_def)
  have d: "bytes_at (s_str s) (nat (s_offset s)) len = drop (nat (s_offset s)) (contents s)"
    by (simp add: contents_def bytes_at_def drop_take len_def)
  have e: "drop (nat (s_offset s)) (contents s) = []" if "len = 0" using that d by simp
  show ?thesis using m b l d e by (auto simp: string_ok_def contents_def memcpy_at_def)
qed

lemma from_ok:
  assumes "String_from malloc d = Inr t" "malloc_sized malloc" "length d < 2 ^ 59"
  shows "string_ok t \<and> contents t = d \<and> s_str t ! length d = 0"
proof -
  have w: "wrap64 (length d + 1) = length d + 1" using assms(3) by simp
  obtain s where s: "String_alloc malloc (length d + 1) = Inr s"
    "t = s\<lparr>s_str := (memcpy_at (s_str s) 0 d)[length d := 0], s_length := length d\<rparr>"
    using assms(1) unfolding String_from_def w by (auto split: sum.splits)
  have a: "string_ok s" "length d + 1 \<le> s_size s" using alloc_ok [OF s(1) assms(2)] assms(3) by auto
  then have "take (length d) ((memcpy_at (s_str s) 0 d)[length d := 0]) = d"
    by (simp add: memcpy_at_def)
  then show ?thesis using a s(2) by (auto simp: string_ok_def contents_def)
qed

lemma copy_ok:
  assumes "String_copy malloc src = Inr t" "malloc_sized malloc" "string_ok src" "s_size src < 2 ^ 60"
  shows "string_ok t \<and> contents t = contents src \<and> s_offset t = s_offset src"
proof -
  obtain s where s: "String_alloc malloc (s_size src) = Inr s"
    "t = s\<lparr>s_str := memcpy_at (s_str s) 0 (contents src), s_length := s_length src, s_offset := s_offset src\<rparr>"
    using assms(1) by (auto simp: String_copy_def contents_def split: sum.splits)
  have a: "string_ok s" "s_size src \<le> s_size s" using alloc_ok [OF s(1) assms(2,4)] by auto
  have l: "length (contents src) = s_length src" using assms(3) by simp
  then have "take (s_length src) (memcpy_at (s_str s) 0 (contents src)) = contents src" by (simp add: memcpy_at_def)
  then show ?thesis using a s(2) assms(3) l by (auto simp: string_ok_def contents_def)
qed

lemma random_ok:
  assumes "String_append_random_bytes malloc pg rnd s len b64 = Inr (t, ok)" "malloc_sized malloc" "string_ok s"
    and "s_length s + 3 * len + pg < 2 ^ 57" "length rnd \<le> len" "0 < pg"
  shows "(ok \<longleftrightarrow> length rnd = len) \<and> string_ok t \<and> (ok \<longrightarrow> contents t = contents s @ (if b64 then base64_encode rnd else rnd))"
proof -
  define n where "n = s_length s + len + (if b64 then BASE64_ENCODE_OUT_SIZE len + 1 else 0)"
  have e4: "BASE64_ENCODE_OUT_SIZE len \<le> 2 * len + 4" by (simp add: BASE64_ENCODE_OUT_SIZE_def)
  have n: "n < 2 ^ 58" using assms(4) e4 by (auto simp: n_def)
  then have w: "wrap64 n = n" "wrap64 (n * 2) = n * 2" by simp_all
  have al: "n \<le> swoole_size_align (n * 2) pg" "swoole_size_align (n * 2) pg < 2 ^ 60"
    using n assms(4) mod_less_divisor [OF assms(6), of "n * 2"] by (auto simp: swoole_size_align_def)
  obtain s1 where s1: "(if n > s_size s then String_reserve malloc s (swoole_size_align (n * 2) pg) else Inr s) = Inr s1"
    and t: "(t, ok) = (let s2 = s1\<lparr>s_str := memcpy_at (s_str s1) (s_length s1) rnd\<rparr> in
      if length rnd \<noteq> len then (s2, False)
      else if b64 then
        let out = base64_encode (bytes_at (s_str s2) (s_length s2) len) in
        (s2\<lparr>s_str := memcpy_at (s_str s2) (s_length s2) out, s_length := wrap64 (s_length s2 + length out)\<rparr>, True)
      else (s2\<lparr>s_length := wrap64 (s_length s2 + len)\<rparr>, True))"
    using assms(1) unfolding String_append_random_bytes_def n_def [symmetric] w Let_def
    by (auto split: sum.splits if_splits)
  have sl: "s_length s \<le> swoole_size_align (n * 2) pg" using al(1) by (simp add: n_def)
  have r: "string_ok s1" "contents s1 = contents s" "n \<le> s_size s1" "s_length s1 = s_length s"
    using s1 reserve_ok [OF _ assms(2,3) sl al(2), of s1] al(1) assms(3) by (auto split: if_splits)
  define s2 where "s2 = s1\<lparr>s_str := memcpy_at (s_str s1) (s_length s1) rnd\<rparr>"
  have fit: "s_length s1 + length rnd \<le> s_size s1" using r assms(5) by (simp add: n_def)
  have s2: "string_ok s2" "contents s2 = contents s" "s_length s2 = s_length s" "s_size s2 = s_size s1"
  proof -
    have l: "length (s_str s1) = s_size s1" "s_length s1 \<le> s_size s1" using r(1) by (auto simp: string_ok_def)
    then have "take (s_length s1) (memcpy_at (s_str s1) (s_length s1) rnd) = take (s_length s1) (s_str s1)"
      by (simp add: memcpy_at_def)
    then have "contents s2 = contents s1" by (simp add: s2_def contents_def)
    then show "contents s2 = contents s" using r(2) by simp
    show "string_ok s2" using r(1) l fit by (simp add: s2_def string_ok_def)
    show "s_length s2 = s_length s" "s_size s2 = s_size s1" using r(4) by (simp_all add: s2_def)
  qed
  have at: "bytes_at (s_str s2) (s_length s2) len = rnd" if "length rnd = len"
    using fit r(1) that by (simp add: s2_def string_ok_def)
  let ?d = "if b64 then base64_encode rnd else rnd"
  have ld: "s_length s2 + length ?d \<le> s_size s2" if "length rnd = len"
    using r(3) s2 that by (auto simp: n_def length_encode BASE64_ENCODE_OUT_SIZE_def)
  have wl: "wrap64 (s_length s2 + length ?d) = s_length s2 + length ?d" if "length rnd = len"
    using ld [OF that] s2(1) by (auto simp: string_ok_def)
  have same: "memcpy_at (s_str s2) (s_length s2) rnd = s_str s2" if "length rnd = len"
    using fit r(1) by (simp add: s2_def string_ok_def memcpy_at_def)
  show ?thesis
  proof (cases "length rnd = len")
    case True
    have tt: "t = s2\<lparr>s_str := memcpy_at (s_str s2) (s_length s2) ?d, s_length := max (s_length s2) (s_length s2 + length ?d)\<rparr>" "ok"
      using t True at [OF True] wl [OF True] same [OF True] unfolding s2_def [symmetric] Let_def by (auto simp: max_def split: if_splits)
    show ?thesis using write_contents [OF s2(1) ld [OF True] le_refl tt(1)] tt(2) True s2 assms(3) by simp
  next
    case False
    then show ?thesis using t s2(1) unfolding s2_def [symmetric] Let_def by auto
  qed
qed

section \<open>A sequence of operations\<close>

datatype string_op = OpAppend bytes | OpAppendInt int | OpWrite nat bytes | OpReduce nat | OpClear | OpRepeat bytes nat | OpReserve nat

fun string_step :: "(nat \<Rightarrow> bytes option) \<Rightarrow> String \<Rightarrow> string_op \<Rightarrow> string_error + String" where
  "string_step malloc s (OpAppend d) = String_append malloc s d"
| "string_step malloc s (OpAppendInt v) = String_append_int malloc s v"
| "string_step malloc s (OpWrite off d) = String_write malloc s off d"
| "string_step malloc s (OpReduce n) = String_reduce s (int n)"
| "string_step malloc s OpClear = Inr (String_clear s)"
| "string_step malloc s (OpRepeat d n) = String_repeat malloc s d n"
| "string_step malloc s (OpReserve n) = String_reserve malloc s n"

fun string_run :: "(nat \<Rightarrow> bytes option) \<Rightarrow> String \<Rightarrow> string_op list \<Rightarrow> string_error + String" where
  "string_run malloc s [] = Inr s"
| "string_run malloc s (x # xs) = (case string_step malloc s x of Inl e \<Rightarrow> Inl e | Inr t \<Rightarrow> string_run malloc t xs)"

text \<open>
  The same on byte sequences; None where an operation is called against its contract (more removed than
  there is, a write behind the end, a repetition of zero times, less reserved than is used) or the
  buffer becomes too large.
\<close>

fun seq_step :: "bytes \<Rightarrow> string_op \<Rightarrow> bytes option" where
  "seq_step c (OpAppend d) = (if length c + length d < 2 ^ 60 then Some (c @ d) else None)"
| "seq_step c (OpAppendInt v) = (if length c + length (swoole_itoa v) < 2 ^ 60 then Some (c @ swoole_itoa v) else None)"
| "seq_step c (OpWrite off d) =
     (if off \<le> length c \<and> off + length d < 2 ^ 60 then Some (take off c @ d @ drop (off + length d) c) else None)"
| "seq_step c (OpReduce n) = (if n \<le> length c then Some (drop n c) else None)"
| "seq_step c OpClear = Some []"
| "seq_step c (OpRepeat d n) = (if 0 < n \<and> length c + n * length d < 2 ^ 60 then Some (c @ concat (replicate n d)) else None)"
| "seq_step c (OpReserve n) = (if length c \<le> n \<and> n < 2 ^ 60 then Some c else None)"

fun seq_run :: "bytes \<Rightarrow> string_op list \<Rightarrow> bytes option" where
  "seq_run c [] = Some c"
| "seq_run c (x # xs) = (case seq_step c x of None \<Rightarrow> None | Some d \<Rightarrow> seq_run d xs)"

definition malloc_total :: "(nat \<Rightarrow> bytes option) \<Rightarrow> bool" where
  "malloc_total malloc \<longleftrightarrow> (\<forall>n. malloc n \<noteq> None)"

lemma total_results:
  assumes "malloc_total malloc"
  shows "\<exists>t. String_reserve malloc s n = Inr t" "\<exists>t. String_append malloc s d = Inr t" "\<exists>t. String_write malloc s off d = Inr t"
    "\<exists>t. string_repeat_loop malloc s d n = Inr t" "0 < n \<Longrightarrow> \<exists>t. String_repeat malloc s d n = Inr t"
proof -
  have m: "\<exists>m. malloc k = Some m" for k using assms by (auto simp: malloc_total_def)
  show r: "\<exists>t. String_reserve malloc s n = Inr t" for s n
    using m [of "SW_MEM_ALIGNED_SIZE n"] by (auto simp: String_reserve_def String_alloc_def Let_def)
  have e: "\<exists>t. string_ensure malloc s n = Inr t" for s n using r by (auto simp: string_ensure_def)
  show a: "\<exists>t. String_append malloc s d = Inr t" for s d
    using e [of s "wrap64 (s_length s + length d)"] by (auto simp: String_append_def)
  show "\<exists>t. String_write malloc s off d = Inr t"
    using e [of s "wrap64 (off + length d)"] by (auto simp: String_write_def Let_def)
  show l: "\<exists>t. string_repeat_loop malloc s d n = Inr t" for s d n
  proof (induction n arbitrary: s)
    case (Suc n)
    then show ?case using a [of s d] by fastforce
  qed simp
  show "\<exists>t. String_repeat malloc s d n = Inr t" if "0 < n"
    using that l [of s d n] r [of s "wrap64 (s_length s + n)"] by (auto simp: String_repeat_def)
qed

lemma step_refines:
  assumes "malloc_sized malloc" "malloc_total malloc" "string_ok s" "seq_step (contents s) x = Some c"
  shows "\<exists>t. string_step malloc s x = Inr t \<and> string_ok t \<and> contents t = c"
proof (cases x)
  case (OpAppend d)
  then show ?thesis using assms total_results(2) [OF assms(2), of s d] append_ok [of malloc s d] by (auto split: if_splits)
next
  case (OpAppendInt v)
  then show ?thesis
    using assms total_results(2) [OF assms(2), of s "swoole_itoa v"] append_ok [of malloc s "swoole_itoa v"]
    by (auto simp: String_append_int_def split: if_splits)
next
  case (OpWrite off d)
  then show ?thesis using assms total_results(3) [OF assms(2), of s off d] write_ok [of malloc s off d] by (auto split: if_splits)
next
  case (OpReduce n)
  then show ?thesis using assms reduce_ok [of s n] by (auto split: if_splits)
next
  case OpClear
  then show ?thesis using assms by (auto simp: String_clear_def string_ok_def contents_def)
next
  case (OpRepeat d n)
  then show ?thesis using assms total_results(5) [OF assms(2), of n s d] repeat_ok [of malloc s d n] by (auto split: if_splits)
next
  case (OpReserve n)
  then show ?thesis using assms total_results(1) [OF assms(2), of s n] reserve_ok [of malloc s n] by (auto split: if_splits)
qed

text \<open>C32: a sequence of appends, writes, removals, repetitions, resizes and clears on a \<open>String\<close> does to its
  contents what the same sequence does to a list of bytes, keeps the contents within the memory, and
  runs to its end when the allocator does not fail.\<close>

theorem string_run_refines:
  assumes "malloc_sized malloc" "malloc_total malloc" "string_ok s" "seq_run (contents s) xs = Some c"
  shows "\<exists>t. string_run malloc s xs = Inr t \<and> string_ok t \<and> contents t = c"
  using assms(3,4)
proof (induction xs arbitrary: s)
  case (Cons x xs)
  then obtain d where d: "seq_step (contents s) x = Some d" "seq_run d xs = Some c" by (auto split: option.splits)
  obtain t where "string_step malloc s x = Inr t" "string_ok t" "contents t = d"
    using step_refines [OF assms(1,2) Cons(2) d(1)] by blast
  then show ?case using Cons.IH [of t] d(2) by simp
qed simp

definition zero_malloc :: "nat \<Rightarrow> bytes option" where
  "zero_malloc n = Some (replicate n 0)"

lemma zero_malloc_ok: "malloc_sized zero_malloc" "malloc_total zero_malloc"
  by (auto simp: malloc_sized_def malloc_total_def zero_malloc_def)

lemma String_empty_ok: "string_ok String_empty" "contents String_empty = []"
  by (simp_all add: String_empty_def string_ok_def contents_def)

theorem string_run_refines_witness:
  "\<exists>t. string_run zero_malloc String_empty [OpAppend [1,2,3], OpRepeat [7] 2, OpReduce 1, OpWrite 3 [9,9]] = Inr t
    \<and> contents t = [2, 3, 7, 9, 9]"
proof -
  have "seq_run (contents String_empty) [OpAppend [1,2,3], OpRepeat [7] 2, OpReduce 1, OpWrite 3 [9,9]] = Some [2, 3, 7, 9, 9]"
  proof -
    have "replicate 2 [7 :: byte] = [[7], [7]]" by (simp add: numeral_2_eq_2)
    then show ?thesis by (simp add: String_empty_ok)
  qed
  from string_run_refines [OF zero_malloc_ok String_empty_ok(1) this] show ?thesis by blast
qed

section \<open>The doubling loop\<close>

lemma align_loop_ends:
  assumes "n \<le> 2 ^ 63"
  shows "0 < a \<Longrightarrow> \<exists>m. align_loop a n = Some m \<and> n \<le> m \<and> m \<le> max a (2 * n) \<and> a \<le> m"
proof (induction "n - a" arbitrary: a rule: less_induct)
  case less
  show ?case
  proof (cases "a < n")
    case True
    then have w: "wrap64 (a * 2) = a * 2" using assms by simp
    have "n - a * 2 < n - a" using True less(2) by linarith
    from less(1) [OF this] less(2) obtain m where "align_loop (a * 2) n = Some m" "n \<le> m" "m \<le> max (a * 2) (2 * n)" "a * 2 \<le> m" by auto
    then show ?thesis using True w by (subst align_loop.simps) auto
  next
    case False
    then show ?thesis by (subst align_loop.simps) auto
  qed
qed

text \<open>From 0 the loop never reaches a positive size.\<close>

lemma align_loop_zero:
  assumes "align_loop a n = Some m"
  shows "a = 0 \<longrightarrow> n = 0"
  by (rule align_loop.raw_induct [where P = "\<lambda>a n m. a = 0 \<longrightarrow> n = 0", OF _ assms])
    (auto simp: wrap64_def split: if_splits)

text \<open>C33: for every string and every positive request, both of less than \<open>2^58\<close> bytes, and memory that can be had: on a
  string with memory the loop of \<open>extend_align\<close> ends, and the string then has at least the requested size with its
  contents unchanged; on a string without memory (\<open>size\<close> 0) it never ends.\<close>

theorem extend_align_terminates:
  assumes "malloc_sized malloc" "malloc_total malloc" "string_ok s" "s_size s < 2 ^ 58" "0 < n" "n < 2 ^ 58"
  shows "if s_size s = 0 then String_extend_align malloc s n = None
    else \<exists>t. String_extend_align malloc s n = Some (Inr t) \<and> n \<le> s_size t \<and> contents t = contents s \<and> string_ok t"
proof (cases "s_size s = 0")
  case True
  have z: "SW_MEM_ALIGNED_SIZE 0 = 0" using aligned8 [of 0] by simp
  have "align_loop 0 n = None" using align_loop_zero [of 0 n] assms(5) by (cases "align_loop 0 n") auto
  then show ?thesis using True z by (simp add: String_extend_align_def)
next
  case False
  let ?a = "SW_MEM_ALIGNED_SIZE (s_size s * 2)"
  have a: "s_size s * 2 \<le> ?a" "?a < 2 ^ 60" using aligned8_bounds [of "s_size s * 2"] assms(4) by auto
  have "n \<le> 2 ^ 63" "0 < ?a" using assms(6) a(1) False by auto
  from align_loop_ends [OF this] obtain m where m: "align_loop ?a n = Some m" "n \<le> m" "m \<le> max ?a (2 * n)" "?a \<le> m" by blast
  have w: "wrap64 (s_size s * 2) = s_size s * 2" using assms(4) by simp
  obtain t where t: "String_reserve malloc s m = Inr t" using total_results(1) [OF assms(2)] by blast
  have "s_length s \<le> m" "m < 2 ^ 60" using assms(3,6) a m by (auto simp: string_ok_def)
  from reserve_ok [OF t assms(1,3) this] show ?thesis using False m(1,2) t w by (auto simp: String_extend_align_def)
qed


theorem extend_align_terminates_witness:
  "String_extend_align zero_malloc String_empty 5 = None
   \<and> (\<exists>t. String_extend_align zero_malloc \<lparr>s_length = 1, s_size = 8, s_offset = 0, s_str = replicate 8 1\<rparr> 100 = Some (Inr t) \<and> 100 \<le> s_size t)"
proof -
  have "String_extend_align zero_malloc String_empty 5 = None"
    using extend_align_terminates [OF zero_malloc_ok String_empty_ok(1), of 5] by (simp add: String_empty_def)
  moreover have "string_ok \<lparr>s_length = 1, s_size = 8, s_offset = 0, s_str = replicate 8 1\<rparr>" by (simp add: string_ok_def)
  then have "\<exists>t. String_extend_align zero_malloc \<lparr>s_length = 1, s_size = 8, s_offset = 0, s_str = replicate 8 1\<rparr> 100 = Some (Inr t) \<and> 100 \<le> s_size t"
    using extend_align_terminates [OF zero_malloc_ok, of "\<lparr>s_length = 1, s_size = 8, s_offset = 0, s_str = replicate 8 1\<rparr>" 100] by auto
  ultimately show ?thesis by blast
qed

section \<open>Numbers\<close>

definition dec_value :: "bytes \<Rightarrow> nat" where
  "dec_value ds = foldr (\<lambda>d v. (unat d - 48) + 10 * v) ds 0"

lemma itoa_digits_value: "dec_value (itoa_digits n) = n \<and> (\<forall>d\<in>set (itoa_digits n). 48 \<le> unat d \<and> unat d \<le> 57)"
proof (induction n rule: itoa_digits.induct)
  case (1 n)
  have u: "unat (of_nat (n mod 10 + 48) :: byte) = n mod 10 + 48" unfolding unat_of_nat_byte by simp
  then show ?case
    using 1 by (subst (1 2) itoa_digits.simps) (auto simp: dec_value_def)
qed

lemma itoa_abs:
  assumes "- (2 ^ 63) \<le> v" "v < 2 ^ 63"
  shows "unat ((of_int v + (if v < 0 then -1 else 0 :: u64)) XOR (if v < 0 then -1 else 0)) = nat \<bar>v\<bar>"
proof (cases "v < 0")
  case True
  have "(of_int v + -1 :: u64) XOR -1 = NOT (of_int v - 1)" by simp
  also have "\<dots> = of_int (- v)" by (simp add: not_eq_complement)
  finally have "unat ((of_int v + -1 :: u64) XOR -1) = nat (- v)"
    using assms(1) True by (simp add: unsigned_of_int take_bit_int_eq_self del: of_int_minus)
  then show ?thesis using True by simp
next
  case False
  then show ?thesis using assms(2) by (simp add: unsigned_of_int take_bit_int_eq_self)
qed

text \<open>\<open>swoole_itoa\<close> writes the decimal representation: an optional minus sign and digits that read back as the value.\<close>

lemma itoa_correct:
  assumes "- (2 ^ 63) \<le> v" "v < 2 ^ 63"
  shows "\<exists>ds. swoole_itoa v = (if v < 0 then [45] else []) @ ds \<and> dec_value (rev ds) = nat \<bar>v\<bar> \<and> ds \<noteq> []
    \<and> (\<forall>d\<in>set ds. 48 \<le> unat d \<and> unat d \<le> 57)"
proof -
  let ?ds = "rev (itoa_digits (nat \<bar>v\<bar>))"
  have "itoa_digits n \<noteq> []" for n by (subst itoa_digits.simps) simp
  moreover have "swoole_itoa v = (if v < 0 then [45] else []) @ ?ds"
    unfolding swoole_itoa_def Let_def itoa_abs [OF assms] by simp
  ultimately show ?thesis using itoa_digits_value by (intro exI [of _ ?ds]) auto
qed

section \<open>Tests on the contents\<close>

lemma prefix_iff_take: "prefix d xs \<longleftrightarrow> length d \<le> length xs \<and> take (length d) xs = d"
  by (auto simp: prefix_def) (metis append_take_drop_id)

lemma suffix_iff_drop: "suffix d xs \<longleftrightarrow> length d \<le> length xs \<and> drop (length xs - length d) xs = d"
  by (auto simp: suffix_def) (metis append_take_drop_id)

lemma starts_with_prefix:
  assumes "string_ok s"
  shows "string_starts_with s d \<longleftrightarrow> prefix d (contents s)"
proof -
  have "take (length d) (s_str s) = take (length d) (contents s)" if "length d \<le> s_length s"
    using that by (simp add: contents_def)
  then show ?thesis using assms by (auto simp: string_starts_with_def prefix_iff_take bytes_at_def)
qed

lemma ends_with_suffix:
  assumes "string_ok s"
  shows "string_ends_with s d \<longleftrightarrow> suffix d (contents s)"
proof -
  have "bytes_at (s_str s) (s_length s - length d) (length d) = drop (s_length s - length d) (contents s)" if "length d \<le> s_length s"
    using that by (simp add: contents_def bytes_at_def drop_take)
  then show ?thesis using assms by (auto simp: string_ends_with_def suffix_iff_drop)
qed

lemma equals_contents: "string_ok s \<Longrightarrow> string_equals s d \<longleftrightarrow> contents s = d"
  by (auto simp: string_equals_def string_ok_def contents_def bytes_at_def)

section \<open>Formatted text\<close>

text \<open>
  \<open>sw_snprintf\<close> with a formatted text \<open>txt\<close> on the memory from \<open>off\<close> on: the memory and the return value.
\<close>

definition sw_snprintf :: "bytes \<Rightarrow> nat \<Rightarrow> nat \<Rightarrow> bytes \<Rightarrow> bytes \<times> nat" where
  "sw_snprintf mem off sz txt =
     (if sz = 0 then (mem, length txt)
      else if length txt \<ge> sz then (memcpy_at mem off (take (sz - 1) txt @ [0]), sz - 1)
      else (memcpy_at mem off (txt @ [0]), length txt))"

text \<open>\<open>format_impl\<close>: None when its loop does not end.\<close>

definition String_format_impl :: "(nat \<Rightarrow> bytes option) \<Rightarrow> String \<Rightarrow> bool \<Rightarrow> bool \<Rightarrow> bytes \<Rightarrow> (string_error + String \<times> nat) option" where
  "String_format_impl malloc s app grow txt =
     (if length txt = 0 then Some (Inr (s, 0))
      else
        let sz = length txt + 1;
            new_size0 = (if app then wrap64 (s_length s + sz) else sz) in
        case (if grow then align_loop (SW_MEM_ALIGNED_SIZE (wrap64 (s_size s * 2))) new_size0 else Some new_size0) of
          None \<Rightarrow> None
        | Some new_size \<Rightarrow>
            Some (case (if sz > (if app then sub64 (s_size s) (s_length s) else s_size s)
                        then String_reserve malloc s new_size else Inr s) of
                    Inl e \<Rightarrow> Inl e
                  | Inr s1 \<Rightarrow>
                      if app then
                        let r = sw_snprintf (s_str s1) (s_length s1) (sub64 (s_size s1) (s_length s1)) txt in
                        Inr (s1\<lparr>s_str := fst r, s_length := wrap64 (s_length s1 + snd r)\<rparr>, snd r)
                      else
                        let r = sw_snprintf (s_str s1) 0 (s_size s1) txt in
                        Inr (s1\<lparr>s_str := fst r, s_length := snd r\<rparr>, snd r)))"

text \<open>\<open>append_format\<close> adds the whole text, \<open>format\<close> replaces the contents by it.\<close>

lemma snprintf_fits:
  assumes "length txt < sz" "off + sz \<le> length mem"
  shows "snd (sw_snprintf mem off sz txt) = length txt" "length (fst (sw_snprintf mem off sz txt)) = length mem"
    "take (off + length txt) (fst (sw_snprintf mem off sz txt)) = take off mem @ txt"
  using assms by (auto simp: sw_snprintf_def memcpy_at_def)

lemma format_ok:
  assumes "String_format_impl malloc s app False txt = Some (Inr (t, n))" "malloc_sized malloc" "string_ok s"
    and "s_length s + length txt < 2 ^ 59" "txt \<noteq> []"
  shows "string_ok t \<and> n = length txt \<and> contents t = (if app then contents s @ txt else txt)"
proof -
  define sz where "sz = length txt + 1"
  define ns where "ns = (if app then s_length s + sz else sz)"
  have sb: "s_length s \<le> s_size s" "s_size s < 2 ^ 61" using assms(3) by (auto simp: string_ok_def)
  have w: "wrap64 (s_length s + sz) = s_length s + sz" using assms(4) by (simp add: sz_def)
  have b: "sub64 (s_size s) (s_length s) = s_size s - s_length s" using sb by simp
  let ?big = "sz > (if app then s_size s - s_length s else s_size s)"
  obtain s1 where s1: "(if ?big then String_reserve malloc s ns else Inr s) = Inr s1"
    and t: "(t, n) = (let off = (if app then s_length s1 else 0);
        r = sw_snprintf (s_str s1) off (if app then sub64 (s_size s1) (s_length s1) else s_size s1) txt in
        (s1\<lparr>s_str := fst r, s_length := (if app then wrap64 (s_length s1 + snd r) else snd r)\<rparr>, snd r))"
    using assms(1,5) unfolding String_format_impl_def Let_def sz_def [symmetric] w b ns_def
    by (cases app) (auto split: sum.splits if_splits)
  have ns: "s_length s \<le> ns" if ?big
    using that sb by (auto simp: ns_def split: if_splits)
  have nb: "ns < 2 ^ 60" using assms(4) by (auto simp: ns_def sz_def)
  have r: "string_ok s1 \<and> s_length s1 = s_length s \<and> contents s1 = contents s \<and> (if app then s_length s1 else 0) + sz \<le> s_size s1"
  proof (cases ?big)
    case True
    then have e: "String_reserve malloc s ns = Inr s1" using s1 by simp
    from reserve_ok [OF e assms(2,3) ns [OF True] nb] show ?thesis by (auto simp: ns_def split: if_splits)
  next
    case False
    then show ?thesis using s1 assms(3) sb by (auto split: if_splits)
  qed
  have l1: "length (s_str s1) = s_size s1" "s_length s1 \<le> s_size s1" "s_size s1 < 2 ^ 61" using r by (auto simp: string_ok_def)
  have b1: "sub64 (s_size s1) (s_length s1) = s_size s1 - s_length s1" using l1 by simp
  show ?thesis
  proof (cases app)
    case True
    have f: "length txt < s_size s1 - s_length s1" "s_length s1 + (s_size s1 - s_length s1) \<le> length (s_str s1)"
      using r l1 True by (auto simp: sz_def)
    note p = snprintf_fits [OF f]
    have ll: "wrap64 (s_length s1 + length txt) = s_length s1 + length txt" using r assms(4) by simp
    show ?thesis using t p r l1 b1 ll True f by (auto simp: Let_def string_ok_def contents_def)
  next
    case False
    have f: "length txt < s_size s1" "0 + s_size s1 \<le> length (s_str s1)" using r l1 False by (auto simp: sz_def)
    note p = snprintf_fits [OF f]
    show ?thesis using t p r l1 False f by (auto simp: Let_def string_ok_def contents_def)
  qed
qed

end
