(* ===== verification/Sw_Split.thy ===== *)
theory Sw_Split
  imports Sw_String
begin

text \<open>
  Packets that end in a delimiter: the splitting of a byte stream as a specification, that it does not
  depend on how the stream is cut into pieces, and that \<open>String::split\<close> computes it.
\<close>

section \<open>The first occurrence\<close>

definition occurs_at :: "bytes \<Rightarrow> bytes \<Rightarrow> nat \<Rightarrow> bool" where
  "occurs_at d xs k \<longleftrightarrow> k + length d \<le> length xs \<and> bytes_at xs k (length d) = d"

definition first_at :: "bytes \<Rightarrow> bytes \<Rightarrow> nat option" where
  "first_at d xs = find (occurs_at d xs) [0..<length xs + 1]"

lemma find_upt_Some: "find P [0..<n] = Some k \<longleftrightarrow> k < n \<and> P k \<and> (\<forall>i<k. \<not> P i)"
proof
  assume "find P [0..<n] = Some k"
  then show "k < n \<and> P k \<and> (\<forall>i<k. \<not> P i)" by (auto simp: find_Some_iff simp del: upt_Suc)
next
  assume "k < n \<and> P k \<and> (\<forall>i<k. \<not> P i)"
  then show "find P [0..<n] = Some k" by (auto simp: find_Some_iff intro!: exI [of _ k] simp del: upt_Suc)
qed

lemma first_at_Some: "first_at d xs = Some k \<longleftrightarrow> occurs_at d xs k \<and> (\<forall>i<k. \<not> occurs_at d xs i)"
proof -
  have "k < length xs + 1" if "occurs_at d xs k" using that by (simp add: occurs_at_def)
  then show ?thesis by (auto simp: first_at_def find_upt_Some simp del: upt_Suc)
qed

lemma first_at_None: "first_at d xs = None \<longleftrightarrow> (\<forall>k. \<not> occurs_at d xs k)"
proof -
  have "k < length xs + 1" if "occurs_at d xs k" for k using that by (simp add: occurs_at_def)
  then show ?thesis by (auto simp: first_at_def find_None_iff simp del: upt_Suc)
qed

lemma occurs_at_append: "k + length d \<le> length xs \<Longrightarrow> occurs_at d (xs @ ys) k \<longleftrightarrow> occurs_at d xs k"
  by (auto simp: occurs_at_def bytes_at_append1)

lemma first_at_append: "first_at d xs = Some k \<Longrightarrow> first_at d (xs @ ys) = Some k"
proof -
  assume a: "first_at d xs = Some k"
  then have k: "k + length d \<le> length xs" "occurs_at d xs k" "\<forall>i<k. \<not> occurs_at d xs i"
    unfolding first_at_Some by (auto simp: occurs_at_def)
  have "\<not> occurs_at d (xs @ ys) i" if "i < k" for i
    using k that occurs_at_append [of i d xs ys] by simp
  then show ?thesis using k occurs_at_append [of k d xs ys] by (simp add: first_at_Some)
qed

section \<open>Packets of a stream\<close>

function packets :: "bytes \<Rightarrow> bytes \<Rightarrow> bytes list \<times> bytes" where
  "packets d xs =
     (case first_at d xs of
        None \<Rightarrow> ([], xs)
      | Some k \<Rightarrow> if d = [] then ([], xs)
          else let (ps, r) = packets d (drop (k + length d) xs) in (take (k + length d) xs # ps, r))"
  by pat_completeness auto
termination
proof (relation "measure (\<lambda>(d, xs). length xs)", simp)
  fix d xs k assume "first_at d xs = Some k" "d \<noteq> []"
  then have "k + length d \<le> length xs" "0 < length d" by (auto simp: first_at_Some occurs_at_def)
  then have "length xs - (k + length d) < length xs" by linarith
  then show "((d, drop (k + length d) xs), d, xs) \<in> measure (\<lambda>(d, xs). length xs)" by simp
qed

declare packets.simps [simp del]

lemma packets_None: "first_at d xs = None \<Longrightarrow> packets d xs = ([], xs)"
  by (subst packets.simps) simp

lemma packets_Some:
  "first_at d xs = Some k \<Longrightarrow> d \<noteq> [] \<Longrightarrow>
    packets d xs = (take (k + length d) xs # fst (packets d (drop (k + length d) xs)), snd (packets d (drop (k + length d) xs)))"
  by (subst packets.simps) (simp add: case_prod_beta)

text \<open>Nothing is lost: the packets and the rest make up the stream; the rest has no delimiter.\<close>

lemma packets_concat: "d \<noteq> [] \<Longrightarrow> concat (fst (packets d xs)) @ snd (packets d xs) = xs \<and> first_at d (snd (packets d xs)) = None"
proof (induction d xs rule: packets.induct)
  case (1 d xs)
  show ?case
  proof (cases "first_at d xs")
    case (Some k)
    then show ?thesis using 1 by (simp add: packets_Some)
  qed (simp add: packets_None)
qed

lemma packets_end: "d \<noteq> [] \<Longrightarrow> p \<in> set (fst (packets d xs)) \<Longrightarrow> suffix d p \<and> (\<forall>i. occurs_at d p i \<longrightarrow> i + length d = length p)"
proof (induction d xs rule: packets.induct)
  case (1 d xs)
  show ?case
  proof (cases "first_at d xs")
    case None
    then show ?thesis using 1 by (simp add: packets_None)
  next
    case (Some k)
    let ?p = "take (k + length d) xs"
    have k: "k + length d \<le> length xs" "bytes_at xs k (length d) = d" "\<forall>i<k. \<not> occurs_at d xs i"
      using Some by (auto simp: first_at_Some occurs_at_def)
    have "suffix d ?p" using k by (auto simp: suffix_iff_drop bytes_at_def drop_take)
    moreover have "i + length d = length ?p" if "occurs_at d ?p i" for i
    proof -
      have "occurs_at d (?p @ drop (k + length d) xs) i"
        using that occurs_at_append [of i d ?p "drop (k + length d) xs"] by (simp add: occurs_at_def)
      then have "\<not> i < k" using k(3) by auto
      then show ?thesis using that k(1) by (auto simp: occurs_at_def)
    qed
    moreover have "p = ?p \<or> p \<in> set (fst (packets d (drop (k + length d) xs)))"
      using 1(3) packets_Some [OF Some 1(2)] by simp
    ultimately show ?thesis using 1(1) [OF Some 1(2) 1(2)] by blast
  qed
qed

text \<open>More data extends the packets; they depend on the rest only.\<close>

lemma packets_append:
  "d \<noteq> [] \<Longrightarrow> packets d (xs @ ys) = (fst (packets d xs) @ fst (packets d (snd (packets d xs) @ ys)), snd (packets d (snd (packets d xs) @ ys)))"
proof (induction d xs rule: packets.induct)
  case (1 d xs)
  show ?case
  proof (cases "first_at d xs")
    case None
    then show ?thesis by (simp add: packets_None)
  next
    case (Some k)
    then have k: "k + length d \<le> length xs" by (auto simp: first_at_Some occurs_at_def)
    have "packets d (drop (k + length d) xs @ ys) =
      (fst (packets d (drop (k + length d) xs)) @ fst (packets d (snd (packets d (drop (k + length d) xs)) @ ys)),
       snd (packets d (snd (packets d (drop (k + length d) xs)) @ ys)))"
      using 1 Some by simp
    then show ?thesis using packets_Some [OF first_at_append [OF Some], of ys] packets_Some [OF Some] k 1(2) by simp
  qed
qed

section \<open>\<open>String::split\<close>\<close>

text \<open>The handler on a list of packets, until it refuses one.\<close>

fun feed :: "('s \<Rightarrow> bytes \<Rightarrow> 's \<times> bool) \<Rightarrow> 's \<Rightarrow> bytes list \<Rightarrow> 's \<times> bool" where
  "feed h st [] = (st, True)"
| "feed h st (p # ps) = (let (st1, ok) = h st p in if ok then feed h st1 ps else (st1, False))"

lemma option_eqI: "(\<And>k. a = Some k \<longleftrightarrow> b = Some k) \<Longrightarrow> a = b"
  by (cases a; cases b) auto

lemma strnstr_first:
  assumes "0 < length d" "hl \<le> length hay"
  shows "swoole_strnstr hay hl d (length d) = first_at d (take hl hay)"
proof (cases "length d \<le> hl")
  case True
  have e: "(hay ! i = d ! 0 \<and> bytes_at hay i (length d) = take (length d) d) \<longleftrightarrow> occurs_at d (take hl hay) i"
    if "i < hl - length d + 1" for i
  proof -
    have le: "i + length d \<le> hl" using that True by simp
    then have b: "bytes_at (take hl hay) i (length d) = bytes_at hay i (length d)"
      by (simp add: bytes_at_def drop_take min_def)
    have "i + 0 < length hay" using assms le by linarith
    then have "bytes_at hay i (length d) ! 0 = hay ! i" using nth_bytes_at [of 0 "length d" i hay] assms(1) by simp
    then show ?thesis using b le assms(2) by (auto simp: occurs_at_def)
  qed
  have "swoole_strnstr hay hl d (length d) = find (occurs_at d (take hl hay)) [0..<hl - length d + 1]"
  proof -
    have "find (\<lambda>i. hay ! i = d ! 0 \<and> bytes_at hay i (length d) = take (length d) d) [0..<hl - length d + 1]
        = find (occurs_at d (take hl hay)) [0..<hl - length d + 1]"
      by (rule find_cong [OF refl], rule e) (simp only: set_upt atLeastLessThan_iff)
    then show ?thesis using True by (simp only: swoole_strnstr_def if_True)
  qed
  then have "swoole_strnstr hay hl d (length d) = Some k \<longleftrightarrow> first_at d (take hl hay) = Some k" for k
    using assms(2) True by (auto simp: find_upt_Some first_at_Some simp del: upt_Suc) (auto simp: occurs_at_def)
  then show ?thesis by (rule option_eqI)
next
  case False
  then have "first_at d (take hl hay) = None" by (auto simp: first_at_None occurs_at_def)
  then show ?thesis using False by (simp add: swoole_strnstr_def)
qed


text \<open>No delimiter starts in the part of the contents before the scan offset.\<close>

definition scanned :: "bytes \<Rightarrow> String \<Rightarrow> bool" where
  "scanned d s \<longleftrightarrow> 0 \<le> s_offset s \<and> s_offset s \<le> int (s_length s) \<and> (\<forall>k<nat (s_offset s). \<not> occurs_at d (contents s) k)"

lemma occurs_at_drop: "occurs_at d (drop m xs) k \<longleftrightarrow> occurs_at d xs (m + k)" if "m \<le> length xs"
  using that by (auto simp: occurs_at_def bytes_at_def add.commute)

lemma first_at_drop:
  assumes "m \<le> length xs" "\<forall>k<m. \<not> occurs_at d xs k"
  shows "first_at d xs = map_option (\<lambda>k. m + k) (first_at d (drop m xs))"
proof (cases "first_at d (drop m xs)")
  case None
  have "\<not> occurs_at d xs k" for k
    using None occurs_at_drop [OF assms(1), of d "k - m"] assms(2) by (cases "k < m") (auto simp: first_at_None)
  then have "first_at d xs = None" by (simp add: first_at_None)
  then show ?thesis using None by simp
next
  case (Some k)
  then have "occurs_at d xs (m + k)" "\<forall>i<k. \<not> occurs_at d xs (m + i)"
    using occurs_at_drop [OF assms(1)] by (auto simp: first_at_Some)
  moreover have "\<not> occurs_at d xs i" if "i < m + k" for i
    using that assms(2) calculation(2) by (cases "i < m") (auto dest!: spec [of _ "i - m"])
  ultimately have "first_at d xs = Some (m + k)" unfolding first_at_Some by blast
  then show ?thesis using Some by simp
qed

lemma find_delim_first:
  assumes "string_ok s" "s_length s < 2 ^ 32" "0 < length d" "length d < 2 ^ 32" "0 \<le> s_offset s" "s_offset s \<le> int (s_length s)"
  shows "find_delim s d = first_at d (drop (nat (s_offset s)) (contents s))"
proof -
  have n: "nat ((int (s_length s) - s_offset s) mod 2 ^ 64) = s_length s - nat (s_offset s)"
    using assms(2,5,6) by (simp add: nat_diff_distrib)
  have "s_length s - nat (s_offset s) < 2 ^ 32" using assms(2) by linarith
  then have w: "wrap32 (nat ((int (s_length s) - s_offset s) mod 2 ^ 64)) = s_length s - nat (s_offset s)" "wrap32 (length d) = length d"
    using n assms(4) by simp_all
  have le: "s_length s - nat (s_offset s) \<le> length (drop (nat (s_offset s)) (s_str s))"
    using assms(1) by (auto simp: string_ok_def)
  show ?thesis
    unfolding find_delim_def w strnstr_first [OF assms(3) le] by (simp add: contents_def drop_take)
qed

lemma packets_scanned:
  assumes "scanned d s" "string_ok s" "first_at d (drop (nat (s_offset s)) (contents s)) = r"
  shows "first_at d (contents s) = map_option (\<lambda>k. nat (s_offset s) + k) r"
  using first_at_drop [of "nat (s_offset s)" "contents s" d] assms by (auto simp: scanned_def)

text \<open>
  The loop from a packet boundary on (\<open>off0 = 0\<close>): the handler is fed the packets of the contents behind
  the offset.
\<close>

lemma split_loop_boundary:
  assumes "string_ok s" "s_length s < 2 ^ 32" "0 < length d" "length d < 2 ^ 32" "0 \<le> s_offset s" "s_offset s \<le> int (s_length s)"
  shows "case split_loop h d s st 0 of (t, st', off0, ok) \<Rightarrow>
    feed h st (fst (packets d (drop (nat (s_offset s)) (contents s)))) = (st', ok) \<and> off0 = 0
    \<and> s\<lparr>s_offset := s_offset t\<rparr> = t
    \<and> (ok \<longrightarrow> drop (nat (s_offset t)) (contents s) = snd (packets d (drop (nat (s_offset s)) (contents s)))
        \<and> s_offset s \<le> s_offset t \<and> s_offset t \<le> int (s_length s))"
  using assms
proof (induction h d s st "0 :: nat" rule: split_loop.induct)
  case (1 h d s st)
  let ?c = "drop (nat (s_offset s)) (contents s)"
  have w: "wrap32 (length d) \<noteq> 0" and ne: "d \<noteq> []" using 1(4,5) by auto
  note f = find_delim_first [OF 1(2-7)]
  show ?case
  proof (cases "find_delim s d")
    case None
    then have "split_loop h d s st 0 = (s, st, 0, True)" using w by (subst split_loop.simps) simp
    then show ?thesis using None f 1(7) by (simp add: packets_None)
  next
    case (Some k)
    define len where "len = k + length d"
    have kf: "first_at d ?c = Some k" using Some f by simp
    then have kl: "len \<le> length ?c" by (auto simp: first_at_Some occurs_at_def len_def)
    have le: "nat (s_offset s) + len \<le> s_length s" using kl 1(2,7) by (simp add: len_def) 
    have data: "bytes_at (s_str s) (nat (s_offset s)) len = take len ?c"
      using le by (simp add: bytes_at_def contents_def drop_take min_def)
    obtain st1 b where h: "h st (take len ?c) = (st1, b)" by fastforce
    have step: "split_loop h d s st 0 = (if \<not> b then (s, st1, 0, False) else split_loop h d (s\<lparr>s_offset := s_offset s + int len\<rparr>) st1 0)"
      by (subst split_loop.simps) (use w Some data h in \<open>simp add: Let_def len_def [symmetric]\<close>)
    have pk: "fst (packets d ?c) = take len ?c # fst (packets d (drop len ?c))" "snd (packets d ?c) = snd (packets d (drop len ?c))"
      using packets_Some [OF kf ne] by (simp_all add: len_def)
    show ?thesis
    proof (cases b)
      case False
      then show ?thesis using step pk h by simp
    next
      case True
      let ?s = "s\<lparr>s_offset := s_offset s + int len\<rparr>"
      have o: "nat (s_offset s + int len) = nat (s_offset s) + len" using 1(6) by simp
      have dr: "drop (nat (s_offset ?s)) (contents ?s) = drop len ?c"
        using o by (simp add: contents_def add.commute)
      have "case split_loop h d ?s (fst (h st (bytes_at (s_str s) (nat (s_offset s) - 0) (len + 0)))) 0 of (t, st', off0, ok) \<Rightarrow>
          feed h (fst (h st (bytes_at (s_str s) (nat (s_offset s) - 0) (len + 0)))) (fst (packets d (drop (nat (s_offset ?s)) (contents ?s)))) = (st', ok) \<and> off0 = 0
          \<and> ?s\<lparr>s_offset := s_offset t\<rparr> = t
          \<and> (ok \<longrightarrow> drop (nat (s_offset t)) (contents ?s) = snd (packets d (drop (nat (s_offset ?s)) (contents ?s)))
              \<and> s_offset ?s \<le> s_offset t \<and> s_offset t \<le> int (s_length ?s))"
        by (rule 1(1) [OF w Some len_def refl]) (use True h data 1 le o in \<open>auto simp: string_ok_def\<close>)
      then have "case split_loop h d ?s st1 0 of (t, st', off0, ok) \<Rightarrow>
          feed h st1 (fst (packets d (drop len ?c))) = (st', ok) \<and> off0 = 0
          \<and> ?s\<lparr>s_offset := s_offset t\<rparr> = t
          \<and> (ok \<longrightarrow> drop (nat (s_offset t)) (contents ?s) = snd (packets d (drop len ?c))
              \<and> s_offset ?s \<le> s_offset t \<and> s_offset t \<le> int (s_length ?s))"
        by (simp only: dr data h fst_conv add_0_right diff_zero)
      then show ?thesis using step True pk h by (auto simp: contents_def split: prod.splits)
    qed
  qed
qed


lemma packets_length: "d \<noteq> [] \<Longrightarrow> packets d xs = (ps, r) \<Longrightarrow> length xs = length (concat ps) + length r \<and> r = drop (length (concat ps)) xs"
  using packets_concat [of d xs] by (metis append_eq_conv_conj fst_conv length_append snd_conv)

theorem split_correct:
  assumes ok: "string_ok s" "s_length s < 2 ^ 32" "0 < length d" "length d < 2 ^ 32" "scanned d s"
    and p: "packets d (contents s) = (ps, r)" and fd: "feed h st ps = (st', b)"
  shows "\<exists>t n. String_split h d s st = Inr (n, t, st') \<and> s\<lparr>s_offset := s_offset t\<rparr> = t
    \<and> (\<not> b \<longrightarrow> n = -1)
    \<and> (b \<longrightarrow> n = int (length (concat ps)) \<and> s_offset t = (if ps = [] then int (s_length s) - int (length d) else n))"
proof -
  have o: "0 \<le> s_offset s" "s_offset s \<le> int (s_length s)" using ok(5) by (auto simp: scanned_def)
  have w: "wrap32 (length d) \<noteq> 0" and ne: "d \<noteq> []" using ok(3,4) by auto
  let ?c = "drop (nat (s_offset s)) (contents s)"
  note f = find_delim_first [OF ok(1-4) o] and sc = packets_scanned [OF ok(5,1) refl]
  show ?thesis
  proof (cases "first_at d ?c")
    case None
    then have ps: "ps = []" "st' = st" "b" using p sc fd packets_None [of d "contents s"] by auto
    have "split_loop h d s st (nat (s_offset s)) = (s, st, nat (s_offset s), True)"
      by (subst split_loop.simps) (use w None f in simp)
    then have "String_split h d s st = Inr (0, s\<lparr>s_offset := int (s_length s) - int (length d)\<rparr>, st)"
      using w o by (simp add: String_split_def)
    then show ?thesis using ps by auto
  next
    case (Some k)
    define len where "len = k + length d"
    have fc: "first_at d (contents s) = Some (nat (s_offset s) + k)" using sc Some by simp
    let ?n = "nat (s_offset s) + len"
    have kl: "?n \<le> s_length s"
      using fc ok(1) by (auto simp: first_at_Some occurs_at_def len_def)
    have pk: "packets d (contents s) = (take ?n (contents s) # fst (packets d (drop ?n (contents s))), snd (packets d (drop ?n (contents s))))"
      using packets_Some [OF fc ne] by (simp add: len_def add.assoc)
    then have ps: "ps = take ?n (contents s) # fst (packets d (drop ?n (contents s)))" "r = snd (packets d (drop ?n (contents s)))"
      using p by auto
    have data: "bytes_at (s_str s) (nat (s_offset s) - nat (s_offset s)) (len + nat (s_offset s)) = take ?n (contents s)"
      using kl by (simp add: bytes_at_def contents_def add.commute)
    obtain st1 b1 where h: "h st (take ?n (contents s)) = (st1, b1)" by fastforce
    let ?s = "s\<lparr>s_offset := s_offset s + int len\<rparr>"
    have step: "split_loop h d s st (nat (s_offset s)) = (if \<not> b1 then (s, st1, nat (s_offset s), False) else split_loop h d ?s st1 0)"
      by (subst split_loop.simps) (use w Some f data h in \<open>simp add: Let_def len_def [symmetric]\<close>)
    show ?thesis
    proof (cases b1)
      case False
      then have "st' = st1" "\<not> b" using fd ps(1) h by auto
      then show ?thesis using step False w by (simp add: String_split_def)
    next
      case True
      obtain t st2 off0 ok2 where sl: "split_loop h d ?s st1 0 = (t, st2, off0, ok2)" by (metis prod_cases4)
      have nn: "nat (s_offset ?s) = ?n" using o by simp
      have cs: "contents ?s = contents s" by (simp add: contents_def)
      have ss: "string_ok ?s" "s_length ?s < 2 ^ 32" "0 \<le> s_offset ?s" "s_offset ?s \<le> int (s_length ?s)"
        using ok(1,2) o kl by (auto simp: string_ok_def)
      note b = split_loop_boundary [OF ss(1,2) ok(3,4) ss(3,4), of h st1, unfolded sl nn cs prod.case]
      have st: "st2 = st'" "ok2 = b" using b fd ps(1) h True by auto
      have t: "s\<lparr>s_offset := s_offset t\<rparr> = t" using b by simp
      have pos: "s_offset t \<noteq> 0" if b
      proof -
        have "s_offset s + int len \<le> s_offset t" using b that st by simp
        moreover have "0 < int len" using ok(3) unfolding len_def by linarith
        ultimately show ?thesis using o(1) by linarith
      qed
      have "String_split h d s st = (if \<not> b then Inr (-1, t, st') else Inr (s_offset t, t, st'))"
        using step True sl st b w pos by (auto simp: String_split_def)
      moreover have "s_offset t = int (length (concat ps))" if "b"
      proof -
        have "length (contents s) = length (concat ps) + length r" using packets_length [OF ne p] by blast
        then have 1: "s_length s = length (concat ps) + length r" using ok(1) by simp
        have "drop (nat (s_offset t)) (contents s) = r" using b that st ps(2) by simp
        then have 2: "length r = s_length s - nat (s_offset t)" using ok(1) by (metis length_contents length_drop)
        have "s_offset ?s \<le> s_offset t" "s_offset t \<le> int (s_length s)" using b that st by auto
        then show ?thesis using 1 2 ss(3) by linarith
      qed
      ultimately show ?thesis using t ps(1) by auto
    qed
  qed
qed

end
