(* ===== verification/Sw_Protocol.thy ===== *)
theory Sw_Protocol
  imports Sw_Endian Sw_String
begin

text \<open>
  \<open>Protocol::recv_with_length_protocol\<close> of \<open>src/protocol/base.cc\<close>: packets whose length is told by their
  first bytes. The jumps between its labels are a recursive function on the label. The socket hands out
  a list of events, in pieces of any size; the server's callback \<open>onPackage\<close> and the length function are
  parameters.
\<close>

section \<open>Data\<close>

record Protocol =
  split_by_eof :: bool
  package_eof :: bytes
  package_length_type :: char
  package_length_size :: nat
  package_length_offset :: nat
  package_body_offset :: nat
  package_max_length :: nat

text \<open>What the kernel has for the socket: data, the end of the stream, or an error as \<open>catch_read_error\<close> classes it.\<close>

datatype rx = RxData bytes | RxEof | RxErr ReturnCode

record Socket =
  sk_rx :: "rx list"
  sk_removed :: bool
  sk_recv_wait :: bool
  sk_skip_recv :: bool
  sk_ssl :: bool

datatype recv_result = RECV bytes | RECV_ERR ReturnCode

definition sock_recv :: "Socket \<Rightarrow> nat \<Rightarrow> recv_result \<times> Socket" where
  "sock_recv k n =
     (case sk_rx k of
        [] \<Rightarrow> (RECV_ERR SW_WAIT, k)
      | RxData d # r \<Rightarrow>
          if n = 0 then (RECV [], k)
          else (RECV (take n d), k\<lparr>sk_rx := (if n < length d then RxData (drop n d) # r else r)\<rparr>)
      | RxEof # r \<Rightarrow> (RECV [], k\<lparr>sk_rx := r\<rparr>)
      | RxErr e # r \<Rightarrow> (RECV_ERR e, k\<lparr>sk_rx := r\<rparr>))"

section \<open>The length field\<close>

text \<open>\<open>default_length_func\<close>: the return value and the header length left in the \<open>PacketLength\<close>.\<close>

definition default_length_func :: "Protocol \<Rightarrow> nat option \<Rightarrow> bytes \<Rightarrow> nat \<Rightarrow> nat \<Rightarrow> int \<times> nat" where
  "default_length_func p get_size buf buf_size header_len =
     (let sz = (case get_size of None \<Rightarrow> package_length_size p | Some n \<Rightarrow> n) in
      if sz = 0 then (SW_ERR, header_len)
      else if buf_size < package_length_offset p + sz then (0, package_length_offset p + sz)
      else
        let body_length = swoole_unpack (package_length_type p) (drop (package_length_offset p) buf) in
        if body_length < 0 then (SW_ERR, header_len)
        else (to_int64 (int (package_body_offset p) + body_length), package_length_size p))"

section \<open>The receive loop\<close>

datatype len_label = DO_RECV | DO_DISPATCH | DO_GET_LENGTH

fun rx_weight :: "rx list \<Rightarrow> nat" where
  "rx_weight [] = 0"
| "rx_weight (RxData d # r) = length d + 1 + rx_weight r"
| "rx_weight (_ # r) = 1 + rx_weight r"

fun label_weight :: "len_label \<Rightarrow> String \<Rightarrow> nat" where
  "label_weight DO_RECV b = 0"
| "label_weight DO_GET_LENGTH b = 2 * s_length b + 1"
| "label_weight DO_DISPATCH b = 2 * (s_length b - nat (s_offset b)) + 2"

lemma extend_length: "String_extend malloc s n = Inr t \<Longrightarrow> s_length t \<le> s_length s"
  by (auto simp: String_extend_def String_reserve_def String_alloc_def Let_def split: if_splits option.splits)

lemma sock_recv_weight:
  assumes "(RECV d, k') = sock_recv k n" "d \<noteq> []"
  shows "rx_weight (sk_rx k') < rx_weight (sk_rx k)"
  using assms by (auto simp: sock_recv_def split: list.splits rx.splits if_splits)

text \<open>The bytes a receive adds to the buffer.\<close>

definition recv_into :: "String \<Rightarrow> bytes \<Rightarrow> String" where
  "recv_into b d = b\<lparr>s_str := memcpy_at (s_str b) (s_length b) d, s_length := wrap64 (s_length b + length d)\<rparr>"

text \<open>
  \<open>onp\<close> is \<open>onPackage\<close>: from the server's state and a packet the new state, whether it succeeded, and
  whether the socket was removed by it. \<open>plen\<close> is \<open>get_package_length\<close>.
\<close>

function recv_length :: "Protocol \<Rightarrow> (bytes \<Rightarrow> int) \<Rightarrow> nat \<Rightarrow> (nat \<Rightarrow> bytes option) \<Rightarrow> ('u \<Rightarrow> bytes \<Rightarrow> 'u \<times> bool \<times> bool)
    \<Rightarrow> len_label \<Rightarrow> nat \<Rightarrow> Socket \<Rightarrow> String \<Rightarrow> 'u \<Rightarrow> string_error + (int \<times> Socket \<times> String \<times> 'u)" where
  "recv_length p plen plsize malloc onp DO_RECV recv_size0 k b u =
     (if sk_removed k then Inr (SW_OK, k, b, u)
      else
        let recv_size = (if s_offset b > 0 then nat ((s_offset b - int (s_length b)) mod 2 ^ 32)
                         else package_length_offset p + plsize) in
        case sock_recv k recv_size of
          (RECV_ERR e, k1) \<Rightarrow> Inr (if e = SW_CLOSE then SW_ERR else SW_OK, k1, b, u)
        | (RECV d, k1) \<Rightarrow>
            if d = [] then Inr (SW_ERR, k1, b, u)
            else
              let b1 = recv_into b d in
              if sk_recv_wait k1 then
                if s_length b1 \<ge> nat (s_offset b1 mod 2 ^ 64) then recv_length p plen plsize malloc onp DO_DISPATCH recv_size k1 b1 u
                else if sk_ssl k1 then recv_length p plen plsize malloc onp DO_RECV recv_size k1 b1 u
                else Inr (SW_OK, k1, b1, u)
              else recv_length p plen plsize malloc onp DO_GET_LENGTH recv_size k1 b1 u)"
| "recv_length p plen plsize malloc onp DO_DISPATCH recv_size k b u =
     (let r = onp u (bytes_at (s_str b) 0 (nat (s_offset b mod 2 ^ 32))) in
      if \<not> fst (snd r) then Inr (SW_ERR, k, b, fst r)
      else
        let k1 = k\<lparr>sk_removed := snd (snd r)\<rparr> in
        if sk_removed k1 then Inr (SW_OK, k1, b, fst r)
        else
          let k2 = k1\<lparr>sk_recv_wait := False\<rparr> in
          if s_length b > nat (s_offset b mod 2 ^ 64) then
            (case String_reduce b (s_offset b) of
               Inl e \<Rightarrow> Inl e
             | Inr b1 \<Rightarrow> recv_length p plen plsize malloc onp DO_GET_LENGTH recv_size k2 b1 (fst r))
          else if sk_ssl k2 then recv_length p plen plsize malloc onp DO_RECV recv_size k2 (String_clear b) (fst r)
          else Inr (SW_OK, k2, String_clear b, fst r))"
| "recv_length p plen plsize malloc onp DO_GET_LENGTH recv_size k b u =
     (let package_length = plen (bytes_at (s_str b) 0 (wrap32 (s_length b))) in
      if package_length < 0 then Inr (SW_ERR, k, b, u)
      else if package_length = 0 then Inr (if s_length b = recv_size then SW_ERR else SW_OK, k, b, u)
      else if package_length > int (package_max_length p) then Inr (SW_ERR, k, b, u)
      else
        case (if s_size b < nat package_length then String_extend malloc b (nat package_length) else Inr b) of
          Inl e \<Rightarrow> Inl e
        | Inr b1 \<Rightarrow>
            let k1 = k\<lparr>sk_recv_wait := True\<rparr>; b2 = b1\<lparr>s_offset := package_length\<rparr> in
            if s_length b2 \<ge> nat package_length then recv_length p plen plsize malloc onp DO_DISPATCH recv_size k1 b2 u
            else recv_length p plen plsize malloc onp DO_RECV recv_size k1 b2 u)"
  by pat_completeness auto
termination
  by (relation "measures [\<lambda>(p, plen, plsize, malloc, onp, label, rs, k, b, u). rx_weight (sk_rx k),
        \<lambda>(p, plen, plsize, malloc, onp, label, rs, k, b, u). label_weight label b]")
    (auto simp: String_reduce_def Let_def split: if_splits dest: extend_length sock_recv_weight)

declare recv_length.simps [simp del]

text \<open>\<open>get_size\<close> is what \<open>get_package_length_size\<close> returns for the socket, where the protocol has that function.\<close>

definition recv_with_length_protocol :: "Protocol \<Rightarrow> (bytes \<Rightarrow> int) \<Rightarrow> nat option \<Rightarrow> (nat \<Rightarrow> bytes option)
    \<Rightarrow> ('u \<Rightarrow> bytes \<Rightarrow> 'u \<times> bool \<times> bool) \<Rightarrow> Socket \<Rightarrow> String \<Rightarrow> 'u \<Rightarrow> string_error + (int \<times> Socket \<times> String \<times> 'u)" where
  "recv_with_length_protocol p plen get_size malloc onp k b u =
     (let plsize = (case get_size of None \<Rightarrow> package_length_size p | Some n \<Rightarrow> n) in
      if get_size = Some 0 then Inr (SW_ERR, k, b, u)
      else if sk_skip_recv k then recv_length p plen plsize malloc onp DO_GET_LENGTH 0 (k\<lparr>sk_skip_recv := False\<rparr>) b u
      else recv_length p plen plsize malloc onp DO_RECV 0 k b u)"

section \<open>The reactor's callback\<close>

definition SW_BUFFER_SIZE_BIG :: nat where
  "SW_BUFFER_SIZE_BIG = 65536"

definition get_recv_buffer :: "(nat \<Rightarrow> bytes option) \<Rightarrow> String option \<Rightarrow> string_error + String" where
  "get_recv_buffer malloc rb = (case rb of Some b \<Rightarrow> Inr b | None \<Rightarrow> String_alloc malloc SW_BUFFER_SIZE_BIG)"

text \<open>The first component tells whether the close event was triggered.\<close>

definition readable_callback_length :: "Protocol \<Rightarrow> (bytes \<Rightarrow> int) \<Rightarrow> nat option \<Rightarrow> (nat \<Rightarrow> bytes option)
    \<Rightarrow> ('u \<Rightarrow> bytes \<Rightarrow> 'u \<times> bool \<times> bool) \<Rightarrow> Socket \<Rightarrow> String option \<Rightarrow> 'u \<Rightarrow> string_error + (bool \<times> Socket \<times> String option \<times> 'u)" where
  "readable_callback_length p plen get_size malloc onp k rb u =
     (case get_recv_buffer malloc rb of
        Inl e \<Rightarrow> Inl e
      | Inr b \<Rightarrow>
          case recv_with_length_protocol p plen get_size malloc onp k b u of
            Inl e \<Rightarrow> Inl e
          | Inr (rc, k1, b1, u1) \<Rightarrow>
              Inr (rc < 0, k1, if s_length b1 = 0 \<and> s_size b1 > SW_BUFFER_SIZE_BIG * 2 then None else Some b1, u1))"

text \<open>The reactor calls a callback as long as there is something to read and the connection is open.\<close>

fun serve :: "(Socket \<Rightarrow> String option \<Rightarrow> 'u \<Rightarrow> string_error + (bool \<times> Socket \<times> String option \<times> 'u))
    \<Rightarrow> nat \<Rightarrow> Socket \<Rightarrow> String option \<Rightarrow> 'u \<Rightarrow> string_error + (bool \<times> Socket \<times> String option \<times> 'u)" where
  "serve cb 0 k rb u = Inr (False, k, rb, u)"
| "serve cb (Suc n) k rb u =
     (if sk_rx k = [] then Inr (False, k, rb, u)
      else case cb k rb u of
             Inl e \<Rightarrow> Inl e
           | Inr (closed, k1, rb1, u1) \<Rightarrow> if closed then Inr (True, k1, rb1, u1) else serve cb n k1 rb1 u1)"

section \<open>Packets of a stream\<close>

text \<open>The specification: the packets that the length function cuts off a stream, and what is left of it.\<close>

function cut :: "(bytes \<Rightarrow> int) \<Rightarrow> nat \<Rightarrow> bytes \<Rightarrow> bytes list \<times> bytes" where
  "cut plen mx xs =
     (let l = plen xs in
      if 0 < l \<and> l \<le> int mx \<and> nat l \<le> length xs
      then let (ps, r) = cut plen mx (drop (nat l) xs) in (take (nat l) xs # ps, r)
      else ([], xs))"
  by pat_completeness auto
termination by (relation "measure (\<lambda>(plen, mx, xs). length xs)") auto

declare cut.simps [simp del]

definition bad_length :: "(bytes \<Rightarrow> int) \<Rightarrow> nat \<Rightarrow> bytes \<Rightarrow> bool" where
  "bad_length plen mx xs \<longleftrightarrow> plen xs < 0 \<or> plen xs > int mx"

lemma cut_step:
  "0 < plen xs \<Longrightarrow> plen xs \<le> int mx \<Longrightarrow> nat (plen xs) \<le> length xs \<Longrightarrow>
    cut plen mx xs = (take (nat (plen xs)) xs # fst (cut plen mx (drop (nat (plen xs)) xs)), snd (cut plen mx (drop (nat (plen xs)) xs)))"
  by (subst cut.simps) (simp add: Let_def case_prod_beta)

lemma cut_stop: "\<not> (0 < plen xs \<and> plen xs \<le> int mx \<and> nat (plen xs) \<le> length xs) \<Longrightarrow> cut plen mx xs = ([], xs)"
  by (subst cut.simps) (auto simp: Let_def)

definition rx_bytes :: "rx list \<Rightarrow> bytes" where
  "rx_bytes xs = concat (map (\<lambda>x. case x of RxData d \<Rightarrow> d | _ \<Rightarrow> []) xs)"

definition all_data :: "rx list \<Rightarrow> bool" where
  "all_data xs \<longleftrightarrow> (\<forall>x\<in>set xs. case x of RxData d \<Rightarrow> d \<noteq> [] | _ \<Rightarrow> False)"

definition accepts :: "('u \<Rightarrow> bytes \<Rightarrow> 'u \<times> bool \<times> bool) \<Rightarrow> bool" where
  "accepts onp \<longleftrightarrow> (\<forall>u d. snd (onp u d) = (True, False))"

definition handle_all :: "('u \<Rightarrow> bytes \<Rightarrow> 'u \<times> bool \<times> bool) \<Rightarrow> 'u \<Rightarrow> bytes list \<Rightarrow> 'u" where
  "handle_all onp = foldl (\<lambda>u d. fst (onp u d))"

text \<open>What the connection will have made of the data it has and the data to come.\<close>

definition future :: "(bytes \<Rightarrow> int) \<Rightarrow> nat \<Rightarrow> ('u \<Rightarrow> bytes \<Rightarrow> 'u \<times> bool \<times> bool) \<Rightarrow> Socket \<Rightarrow> String \<Rightarrow> 'u \<Rightarrow> 'u \<times> bytes" where
  "future plen mx onp k b u =
     (let (ps, r) = cut plen mx (contents b @ rx_bytes (sk_rx k)) in (handle_all onp u ps, r))"

lemma sock_recv_data:
  assumes "all_data (sk_rx k)" "sk_rx k \<noteq> []" "0 < n"
  shows "\<exists>d k'. sock_recv k n = (RECV d, k') \<and> d \<noteq> [] \<and> length d \<le> n \<and> rx_bytes (sk_rx k) = d @ rx_bytes (sk_rx k')
    \<and> all_data (sk_rx k') \<and> k\<lparr>sk_rx := sk_rx k'\<rparr> = k' \<and> rx_weight (sk_rx k') < rx_weight (sk_rx k)"
proof -
  obtain d r where k: "sk_rx k = RxData d # r" "d \<noteq> []" "all_data r"
    using assms(1,2) by (cases "sk_rx k") (auto simp: all_data_def split: rx.splits)
  show ?thesis
  proof (cases "n < length d")
    case True
    then show ?thesis using k assms(3) by (auto simp: sock_recv_def all_data_def rx_bytes_def)
  next
    case False
    then show ?thesis using k assms(3) by (auto simp: sock_recv_def rx_bytes_def)
  qed
qed

lemma recv_into_ok:
  assumes "string_ok b" "s_length b + length d \<le> s_size b"
  shows "string_ok (recv_into b d)" "contents (recv_into b d) = contents b @ d"
    "s_length (recv_into b d) = s_length b + length d" "s_size (recv_into b d) = s_size b" "s_offset (recv_into b d) = s_offset b"
proof -
  have "s_length b + length d < 2 ^ 61" using assms by (simp add: string_ok_def)
  then have w: "wrap64 (s_length b + length d) = s_length b + length d" by simp
  have m: "recv_into b d = b\<lparr>s_str := memcpy_at (s_str b) (s_length b) d, s_length := max (s_length b) (s_length b + length d)\<rparr>"
    using w by (simp add: recv_into_def)
  note wc = write_contents [OF assms order.refl m]
  show "string_ok (recv_into b d)" by (rule wc(1))
  show "contents (recv_into b d) = contents b @ d" using wc(2) assms(1) by simp
  show "s_length (recv_into b d) = s_length b + length d" "s_size (recv_into b d) = s_size b" "s_offset (recv_into b d) = s_offset b"
    using w by (simp_all add: recv_into_def)
qed

section \<open>What the length function promises\<close>

text \<open>
  The contract of \<open>get_package_length\<close>: once it tells a length, more data does not change it, and \<open>hdr\<close> bytes
  are enough for it to tell.
\<close>

locale packet_length =
  fixes plen :: "bytes \<Rightarrow> int" and hdr :: nat
  assumes plen_empty: "plen [] = 0"
    and plen_stable: "plen b \<noteq> 0 \<Longrightarrow> plen (b @ c) = plen b"
    and plen_complete: "plen b = 0 \<Longrightarrow> length b < hdr"

text \<open>The setting of the receive loop.\<close>

definition receiver :: "Protocol \<Rightarrow> nat \<Rightarrow> nat \<Rightarrow> (nat \<Rightarrow> bytes option) \<Rightarrow> ('u \<Rightarrow> bytes \<Rightarrow> 'u \<times> bool \<times> bool) \<Rightarrow> bool" where
  "receiver p plsize hdr malloc onp \<longleftrightarrow>
     malloc_sized malloc \<and> malloc_total malloc \<and> accepts onp \<and> package_length_offset p + plsize = hdr
     \<and> 2 * hdr \<le> SW_BUFFER_SIZE_BIG \<and> package_max_length p < 2 ^ 32"

definition buffer_ok :: "nat \<Rightarrow> Socket \<Rightarrow> String \<Rightarrow> bool" where
  "buffer_ok hdr k b \<longleftrightarrow> string_ok b \<and> 2 * hdr \<le> s_size b \<and> \<not> sk_removed k \<and> \<not> sk_skip_recv k \<and> all_data (sk_rx k)"

text \<open>The state between two packets or in the middle of one, and at the labels of the loop.\<close>

definition len_inv :: "(bytes \<Rightarrow> int) \<Rightarrow> nat \<Rightarrow> nat \<Rightarrow> Socket \<Rightarrow> String \<Rightarrow> bool" where
  "len_inv plen hdr mx k b \<longleftrightarrow> buffer_ok hdr k b \<and>
     (if sk_recv_wait k
      then s_offset b = plen (contents b) \<and> int (s_length b) < s_offset b \<and> s_offset b \<le> int mx \<and> s_offset b \<le> int (s_size b)
      else s_offset b = 0 \<and> plen (contents b) = 0)"

fun label_pre :: "(bytes \<Rightarrow> int) \<Rightarrow> nat \<Rightarrow> nat \<Rightarrow> len_label \<Rightarrow> nat \<Rightarrow> Socket \<Rightarrow> String \<Rightarrow> bool" where
  "label_pre plen hdr mx DO_RECV rs k b = len_inv plen hdr mx k b"
| "label_pre plen hdr mx DO_GET_LENGTH rs k b =
     (buffer_ok hdr k b \<and> \<not> sk_recv_wait k \<and> s_offset b = 0 \<and> contents b \<noteq> [] \<and> (rs = 0 \<or> rs = hdr) \<and> s_length b < 2 ^ 32)"
| "label_pre plen hdr mx DO_DISPATCH rs k b =
     (buffer_ok hdr k b \<and> s_offset b = plen (contents b) \<and> 0 < s_offset b \<and> s_offset b \<le> int mx \<and> s_offset b \<le> int (s_length b)
      \<and> s_length b < 2 ^ 32 \<and> (rs = 0 \<or> rs = hdr \<or> s_offset b = int (s_length b)))"

definition len_post :: "(bytes \<Rightarrow> int) \<Rightarrow> nat \<Rightarrow> nat \<Rightarrow> ('u \<Rightarrow> bytes \<Rightarrow> 'u \<times> bool \<times> bool) \<Rightarrow> nat \<Rightarrow> 'u \<times> bytes
    \<Rightarrow> string_error + (int \<times> Socket \<times> String \<times> 'u) \<Rightarrow> bool" where
  "len_post plen hdr mx onp n fut res \<longleftrightarrow>
     (\<exists>rc k b u. res = Inr (rc, k, b, u) \<and> future plen mx onp k b u = fut \<and> rx_weight (sk_rx k) \<le> n \<and> buffer_ok hdr k b
        \<and> (rc = SW_OK \<and> len_inv plen hdr mx k b \<or> rc = SW_ERR \<and> bad_length plen mx (contents b)))"

lemma len_post_le: "len_post plen hdr mx onp m fut res \<Longrightarrow> m \<le> n \<Longrightarrow> len_post plen hdr mx onp n fut res"
  unfolding len_post_def by (elim exE conjE, intro exI conjI, assumption, assumption, erule (1) order.trans)

lemma len_postI:
  assumes "future plen mx onp k b u = fut" "rx_weight (sk_rx k) \<le> n" "buffer_ok hdr k b"
    and "rc = SW_OK \<and> len_inv plen hdr mx k b \<or> rc = SW_ERR \<and> bad_length plen mx (contents b)"
  shows "len_post plen hdr mx onp n fut (Inr (rc, k, b, u))"
  using assms unfolding len_post_def by blast

lemma future_cong: "contents b @ rx_bytes (sk_rx k) = contents b' @ rx_bytes (sk_rx k') \<Longrightarrow> future plen mx onp k b u = future plen mx onp k' b' u"
  by (simp add: future_def)

definition recv_want :: "Protocol \<Rightarrow> nat \<Rightarrow> String \<Rightarrow> nat" where
  "recv_want p plsize b = (if s_offset b > 0 then nat ((s_offset b - int (s_length b)) mod 2 ^ 32) else package_length_offset p + plsize)"

lemma extend_room:
  assumes "malloc_sized malloc" "malloc_total malloc" "string_ok b" "n < 2 ^ 32"
  shows "\<exists>b1. (if s_size b < n then String_extend malloc b n else Inr b) = Inr b1 \<and>
    string_ok b1 \<and> contents b1 = contents b \<and> n \<le> s_size b1 \<and> s_size b \<le> s_size b1 \<and> s_length b1 = s_length b"
proof (cases "s_size b < n")
  case True
  obtain t where t: "String_reserve malloc b n = Inr t" using total_results(1) [OF assms(2), of b n] by blast
  have "s_length b \<le> n" "n < 2 ^ 60" using True assms(3,4) by (auto simp: string_ok_def)
  from reserve_ok [OF t assms(1,3) this] show ?thesis using True t by (auto simp: String_extend_def)
qed (use assms in auto)

text \<open>A connection between two calls of the callback, with or without a receive buffer.\<close>

definition rb_buf :: "String option \<Rightarrow> String" where
  "rb_buf rb = (case rb of None \<Rightarrow> String_empty | Some b \<Rightarrow> b)"

definition conn_inv :: "(bytes \<Rightarrow> int) \<Rightarrow> nat \<Rightarrow> nat \<Rightarrow> Socket \<Rightarrow> String option \<Rightarrow> bool" where
  "conn_inv plen hdr mx k rb \<longleftrightarrow>
     (case rb of
        None \<Rightarrow> \<not> sk_removed k \<and> \<not> sk_skip_recv k \<and> \<not> sk_recv_wait k \<and> all_data (sk_rx k)
      | Some b \<Rightarrow> len_inv plen hdr mx k b)"

context packet_length
begin

lemma hdr_pos: "0 < hdr"
  using plen_complete [OF plen_empty] by simp

text \<open>What the loop asks for fits into the buffer and ends at the packet's end.\<close>

lemma recv_want_ok:
  assumes rec: "receiver p plsize hdr malloc onp" and inv: "len_inv plen hdr (package_max_length p) k b"
  defines "rs \<equiv> recv_want p plsize b"
  shows "0 < rs" "s_length b + rs \<le> s_size b"
    and "sk_recv_wait k \<Longrightarrow> s_length b + rs = nat (s_offset b)" "\<not> sk_recv_wait k \<Longrightarrow> rs = hdr \<and> s_length b < hdr"
proof -
  let ?mx = "package_max_length p"
  have mx: "?mx < 2 ^ 32" and h: "package_length_offset p + plsize = hdr" using rec by (auto simp: receiver_def)
  have ok: "string_ok b" "2 * hdr \<le> s_size b" using inv by (auto simp: len_inv_def buffer_ok_def)
  have wait: "rs = nat (s_offset b) - s_length b" "int (s_length b) < s_offset b" "s_offset b \<le> int (s_size b)" if "sk_recv_wait k"
  proof -
    have o: "int (s_length b) < s_offset b" "s_offset b \<le> int ?mx" "s_offset b \<le> int (s_size b)"
      using inv that by (auto simp: len_inv_def)
    then have "(s_offset b - int (s_length b)) mod 2 ^ 32 = s_offset b - int (s_length b)" using mx by simp
    then show "rs = nat (s_offset b) - s_length b" using o by (simp add: rs_def recv_want_def nat_diff_distrib)
  qed (use inv that in \<open>auto simp: len_inv_def\<close>)
  then show w: "s_length b + rs = nat (s_offset b)" if "sk_recv_wait k" using that by auto
  show i: "rs = hdr \<and> s_length b < hdr" if "\<not> sk_recv_wait k"
    using inv that plen_complete [of "contents b"] ok(1) h by (auto simp: len_inv_def rs_def recv_want_def)
  have "0 < rs \<and> s_length b + rs \<le> s_size b"
  proof (cases "sk_recv_wait k")
    case True
    then show ?thesis using wait [OF True] w [OF True] by linarith
  next
    case False
    then show ?thesis using i [OF False] hdr_pos ok(2) by linarith
  qed
  then show "0 < rs" "s_length b + rs \<le> s_size b" by simp_all
qed

lemma recv_case:
  assumes rec: "receiver p plsize hdr malloc onp" and inv: "len_inv plen hdr (package_max_length p) k b"
    and IH: "\<And>label rs k' b'. rx_weight (sk_rx k') < rx_weight (sk_rx k) \<Longrightarrow> label_pre plen hdr (package_max_length p) label rs k' b' \<Longrightarrow>
      len_post plen hdr (package_max_length p) onp (rx_weight (sk_rx k')) (future plen (package_max_length p) onp k' b' u)
        (recv_length p plen plsize malloc onp label rs k' b' u)"
  shows "len_post plen hdr (package_max_length p) onp (if sk_rx k = [] then 0 else rx_weight (sk_rx k) - 1)
    (future plen (package_max_length p) onp k b u) (recv_length p plen plsize malloc onp DO_RECV rs0 k b u)"
proof (cases "sk_rx k = []")
  case True
  have "recv_length p plen plsize malloc onp DO_RECV rs0 k b u = Inr (SW_OK, k, b, u)"
    using inv True by (subst recv_length.simps) (simp add: sock_recv_def Let_def len_inv_def buffer_ok_def)
  then show ?thesis using inv True by (auto intro!: len_postI simp: len_inv_def)
next
  case False
  let ?mx = "package_max_length p"
  define rs where "rs = recv_want p plsize b"
  note want = recv_want_ok [OF rec inv, folded rs_def]
  have bok: "string_ok b" "2 * hdr \<le> s_size b" "\<not> sk_removed k" "\<not> sk_skip_recv k" "all_data (sk_rx k)"
    using inv by (auto simp: len_inv_def buffer_ok_def)
  have mx: "?mx < 2 ^ 32" "2 * hdr \<le> SW_BUFFER_SIZE_BIG" using rec by (auto simp: receiver_def)
  from sock_recv_data [OF bok(5) False want(1)] obtain d k1 where d: "sock_recv k rs = (RECV d, k1)" "d \<noteq> []" "length d \<le> rs"
    "rx_bytes (sk_rx k) = d @ rx_bytes (sk_rx k1)" "all_data (sk_rx k1)" "k\<lparr>sk_rx := sk_rx k1\<rparr> = k1"
    "rx_weight (sk_rx k1) < rx_weight (sk_rx k)" by blast
  have fl: "sk_recv_wait k1 = sk_recv_wait k" "sk_removed k1 = sk_removed k" "sk_skip_recv k1 = sk_skip_recv k" "sk_ssl k1 = sk_ssl k"
    by (subst d(6) [symmetric], simp)+
  define b1 where "b1 = recv_into b d"
  have "s_length b + length d \<le> s_size b" using want(2) d(3) by linarith
  note ri = recv_into_ok [OF bok(1) this, folded b1_def]
  have fut: "future plen ?mx onp k1 b1 u = future plen ?mx onp k b u" by (rule future_cong) (simp add: ri d(4))
  have bk: "buffer_ok hdr k1 b1" using ri bok d(5) fl by (simp add: buffer_ok_def)
  have le: "rx_weight (sk_rx k1) \<le> rx_weight (sk_rx k) - 1" using d(7) by linarith
  note go = IH [OF d(7), THEN len_post_le [OF _ le], unfolded fut]
  have step: "recv_length p plen plsize malloc onp DO_RECV rs0 k b u =
    (if sk_recv_wait k then
       if s_length b1 \<ge> nat (s_offset b1 mod 2 ^ 64) then recv_length p plen plsize malloc onp DO_DISPATCH rs k1 b1 u
       else if sk_ssl k then recv_length p plen plsize malloc onp DO_RECV rs k1 b1 u
       else Inr (SW_OK, k1, b1, u)
     else recv_length p plen plsize malloc onp DO_GET_LENGTH rs k1 b1 u)"
    using d(1,2) bok(3) fl by (subst recv_length.simps) (simp add: Let_def rs_def [unfolded recv_want_def, symmetric] b1_def [symmetric])
  show ?thesis
  proof (cases "sk_recv_wait k")
    case True
    have o: "s_offset b = plen (contents b)" "int (s_length b) < s_offset b" "s_offset b \<le> int ?mx" "s_offset b \<le> int (s_size b)"
      using inv True by (auto simp: len_inv_def)
    have om: "nat (s_offset b1 mod 2 ^ 64) = nat (s_offset b)" using o mx ri by simp
    have st: "plen (contents b1) = s_offset b" using o plen_stable [of "contents b" d] ri by simp
    have inv1: "len_inv plen hdr ?mx k1 b1" if "\<not> nat (s_offset b) \<le> s_length b1"
      using that bk fl True o st ri by (simp add: len_inv_def)
    have pre: "label_pre plen hdr ?mx DO_DISPATCH rs k1 b1" if "nat (s_offset b) \<le> s_length b1"
    proof -
      have "s_offset b1 = int (s_length b1)" using that want(3) [OF True] d(3) ri o(2) by simp
      moreover have "0 < s_offset b1" using o(2) ri(5) by linarith
      ultimately show ?thesis using bk o(1,3) ri(5) st mx(1) by simp
    qed
    show ?thesis using step True om go [of DO_DISPATCH rs b1] go [of DO_RECV rs b1] pre inv1 le bk fut False
      by (auto intro!: len_postI)
  next
    case f: False
    have "label_pre plen hdr ?mx DO_GET_LENGTH rs k1 b1"
      using bk fl f want(4) [OF f] ri inv d(2,3) mx by (auto simp: len_inv_def SW_BUFFER_SIZE_BIG_def)
    then show ?thesis using step f go [of DO_GET_LENGTH rs b1] False fut by simp
  qed
qed

lemma get_length_case:
  assumes rec: "receiver p plsize hdr malloc onp" and pre: "label_pre plen hdr (package_max_length p) DO_GET_LENGTH rs k b"
    and IH: "\<And>label k' b'. sk_rx k' = sk_rx k \<Longrightarrow> label_weight label b' < label_weight DO_GET_LENGTH b \<Longrightarrow>
      label_pre plen hdr (package_max_length p) label rs k' b' \<Longrightarrow>
      len_post plen hdr (package_max_length p) onp (rx_weight (sk_rx k')) (future plen (package_max_length p) onp k' b' u)
        (recv_length p plen plsize malloc onp label rs k' b' u)"
  shows "len_post plen hdr (package_max_length p) onp (rx_weight (sk_rx k)) (future plen (package_max_length p) onp k b u)
    (recv_length p plen plsize malloc onp DO_GET_LENGTH rs k b u)"
proof -
  let ?mx = "package_max_length p" and ?l = "plen (contents b)"
  have bok: "buffer_ok hdr k b" "string_ok b" "2 * hdr \<le> s_size b" "\<not> sk_recv_wait k" "s_offset b = 0" "contents b \<noteq> []" "rs = 0 \<or> rs = hdr" "s_length b < 2 ^ 32"
    using pre by (auto simp: buffer_ok_def)
  have "bytes_at (s_str b) 0 (wrap32 (s_length b)) = contents b" using bok(8) by (simp add: bytes_at_def contents_def)
  note step = recv_length.simps(3) [of p plen plsize malloc onp rs k b u, unfolded this Let_def]
  consider "bad_length plen ?mx (contents b)" | "?l = 0" | "0 < ?l" "?l \<le> int ?mx" unfolding bad_length_def by linarith
  then show ?thesis
  proof cases
    case 1
    then have "recv_length p plen plsize malloc onp DO_GET_LENGTH rs k b u = Inr (SW_ERR, k, b, u)"
      unfolding step by (auto simp: bad_length_def)
    then show ?thesis using 1 bok(1) by (auto intro!: len_postI)
  next
    case 2
    have "s_length b \<noteq> 0" using bok(6) length_contents [OF bok(2)] by (cases "contents b") auto
    moreover have "s_length b < hdr" using plen_complete [OF 2] bok(2) by simp
    ultimately have "s_length b \<noteq> rs" using bok(7) by auto
    then have "recv_length p plen plsize malloc onp DO_GET_LENGTH rs k b u = Inr (SW_OK, k, b, u)" unfolding step using 2 by simp
    then show ?thesis using 2 bok by (auto intro!: len_postI simp: len_inv_def)
  next
    case 3
    have mx: "?mx < 2 ^ 32" "malloc_sized malloc" "malloc_total malloc" using rec by (auto simp: receiver_def)
    have "\<exists>b1. (if s_size b < nat ?l then String_extend malloc b (nat ?l) else Inr b) = Inr b1 \<and>
        string_ok b1 \<and> contents b1 = contents b \<and> nat ?l \<le> s_size b1 \<and> s_size b \<le> s_size b1 \<and> s_length b1 = s_length b"
      by (rule extend_room [OF mx(2,3) bok(2)]) (use 3 mx(1) in linarith)
    then obtain b1 where b1: "(if s_size b < nat ?l then String_extend malloc b (nat ?l) else Inr b) = Inr b1"
      "string_ok b1" "contents b1 = contents b" "nat ?l \<le> s_size b1" "s_size b \<le> s_size b1" "s_length b1 = s_length b" by blast
    let ?k = "k\<lparr>sk_recv_wait := True\<rparr>" and ?b = "b1\<lparr>s_offset := ?l\<rparr>"
    have cs: "contents ?b = contents b" using b1(3) by (simp add: contents_def)
    have bk: "buffer_ok hdr ?k ?b" using bok(1) b1(2,4,5,6) by (simp add: buffer_ok_def string_ok_def)
    have fut: "future plen ?mx onp ?k ?b u = future plen ?mx onp k b u" by (rule future_cong) (simp add: cs)
    have disp: "label_pre plen hdr ?mx DO_DISPATCH rs ?k ?b" if "nat ?l \<le> s_length b" using that bk cs 3 b1(6) bok(7,8) by auto
    have recv: "label_pre plen hdr ?mx DO_RECV rs ?k ?b" if "\<not> nat ?l \<le> s_length b" using that bk cs 3 b1(4,6) by (auto simp: len_inv_def)
    have go: "recv_length p plen plsize malloc onp DO_GET_LENGTH rs k b u =
      recv_length p plen plsize malloc onp (if nat ?l \<le> s_length b then DO_DISPATCH else DO_RECV) rs ?k ?b u"
    proof -
      have "\<not> ?l < 0" "?l \<noteq> 0" "\<not> ?l > int ?mx" using 3 by simp_all
      then show ?thesis unfolding step by (simp only: b1(1) if_False sum.case) (simp add: b1(6))
    qed
    have rx: "sk_rx ?k = sk_rx k" by simp
    show ?thesis
    proof (cases "nat ?l \<le> s_length b")
      case True
      have "label_weight DO_DISPATCH ?b < label_weight DO_GET_LENGTH b" using True 3 b1(6) by simp
      from IH [OF rx this disp [OF True]] show ?thesis by (simp only: go True if_True fut rx)
    next
      case False
      have "label_weight DO_RECV ?b < label_weight DO_GET_LENGTH b" by simp
      from IH [OF rx this recv [OF False]] show ?thesis by (simp only: go False if_False fut rx)
    qed
  qed
qed

lemma dispatch_case:
  assumes rec: "receiver p plsize hdr malloc onp" and pre: "label_pre plen hdr (package_max_length p) DO_DISPATCH rs k b"
    and IH: "\<And>label k' b' u'. sk_rx k' = sk_rx k \<Longrightarrow> label_weight label b' < label_weight DO_DISPATCH b \<Longrightarrow>
      label_pre plen hdr (package_max_length p) label rs k' b' \<Longrightarrow>
      len_post plen hdr (package_max_length p) onp (rx_weight (sk_rx k')) (future plen (package_max_length p) onp k' b' u')
        (recv_length p plen plsize malloc onp label rs k' b' u')"
  shows "len_post plen hdr (package_max_length p) onp (rx_weight (sk_rx k)) (future plen (package_max_length p) onp k b u)
    (recv_length p plen plsize malloc onp DO_DISPATCH rs k b u)"
proof -
  let ?mx = "package_max_length p" and ?l = "nat (plen (contents b))" and ?k = "k\<lparr>sk_removed := False, sk_recv_wait := False\<rparr>"
  have bok: "buffer_ok hdr k b" "string_ok b" "s_offset b = plen (contents b)" "0 < s_offset b" "s_offset b \<le> int ?mx" "s_offset b \<le> int (s_length b)"
    "s_length b < 2 ^ 32" "rs = 0 \<or> rs = hdr \<or> s_offset b = int (s_length b)"
    using pre by (auto simp: buffer_ok_def)
  have acc: "accepts onp" using rec by (simp add: receiver_def)
  have l: "s_offset b = int ?l" "?l \<le> s_length b" "0 < ?l" using bok(3,4,6) by auto
  have m: "nat (s_offset b mod 2 ^ 32) = ?l" "nat (s_offset b mod 2 ^ 64) = ?l" using l bok(7) by (simp_all add: nat_mod_distrib)
  have data: "bytes_at (s_str b) 0 ?l = take ?l (contents b)" using l(2) by (simp add: bytes_at_def contents_def min_def)
  define u' where "u' = fst (onp u (take ?l (contents b)))"
  have onp: "onp u (take ?l (contents b)) = (u', True, False)" using acc by (simp add: accepts_def u'_def prod_eq_iff)
  have fut: "future plen ?mx onp ?k b' u' = future plen ?mx onp k b u" if "contents b' = drop ?l (contents b)" for b'
  proof -
    have st: "plen (contents b @ c) = plen (contents b)" for c using plen_stable [of "contents b" c] bok(3,4) by simp
    have le: "?l \<le> length (contents b)" using l(2) bok(2) by simp
    have "cut plen ?mx (contents b @ c) = (take ?l (contents b) # fst (cut plen ?mx (drop ?l (contents b) @ c)), snd (cut plen ?mx (drop ?l (contents b) @ c)))" for c
      using cut_step [of plen "contents b @ c" ?mx] st [of c] bok(3-5) le by simp
    then show ?thesis using that by (simp add: future_def case_prod_beta handle_all_def u'_def)
  qed
  have bk: "buffer_ok hdr ?k b'" if "string_ok b'" "s_size b' = s_size b" for b' using bok(1) that by (simp add: buffer_ok_def)
  note step = recv_length.simps(2) [of p plen plsize malloc onp rs k b u, unfolded m data onp Let_def fst_conv snd_conv]
  have rx: "sk_rx ?k = sk_rx k" by simp
  show ?thesis
  proof (cases "?l < s_length b")
    case True
    obtain b1 where b1: "String_reduce b (s_offset b) = Inr b1" "string_ok b1" "contents b1 = drop ?l (contents b)"
      "s_length b1 = s_length b - ?l" "s_offset b1 = 0" "s_size b1 = s_size b"
      using reduce_ok [OF bok(2) l(2)] l(1,3) by auto
    have go: "recv_length p plen plsize malloc onp DO_DISPATCH rs k b u = recv_length p plen plsize malloc onp DO_GET_LENGTH rs ?k b1 u'"
      unfolding step b1(1) using True by simp
    have lw: "label_weight DO_GET_LENGTH b1 < label_weight DO_DISPATCH b" using b1(4) l(1) by simp
    have "contents b1 \<noteq> []" using b1(2,4) True length_contents [OF b1(2)] by (cases "contents b1") auto
    moreover have "rs = 0 \<or> rs = hdr" using bok(8) True l(1) by linarith
    ultimately have "label_pre plen hdr ?mx DO_GET_LENGTH rs ?k b1" using bk [OF b1(2,6)] b1(4,5) bok(7) by simp
    from IH [OF rx lw this, of u'] show ?thesis by (simp only: go fut [OF b1(3)] rx)
  next
    case False
    let ?b = "String_clear b"
    have cs: "contents ?b = drop ?l (contents b)" "string_ok ?b" "s_size ?b = s_size b" "s_offset ?b = 0"
      using False bok(2) by (auto simp: String_clear_def contents_def string_ok_def)
    have inv: "len_inv plen hdr ?mx ?k ?b"
      using bk [OF cs(2,3)] cs False plen_empty bok(2) by (simp add: len_inv_def)
    have go: "recv_length p plen plsize malloc onp DO_DISPATCH rs k b u =
      (if sk_ssl k then recv_length p plen plsize malloc onp DO_RECV rs ?k ?b u' else Inr (SW_OK, ?k, ?b, u'))"
      unfolding step using False by simp
    have pre1: "label_weight DO_RECV ?b < label_weight DO_DISPATCH b" "label_pre plen hdr ?mx DO_RECV rs ?k ?b" using inv by simp_all
    show ?thesis
    proof (cases "sk_ssl k")
      case True
      from IH [OF rx pre1, of u'] show ?thesis by (simp only: go True if_True fut [OF cs(1)] rx)
    next
      case False
      have "len_post plen hdr ?mx onp (rx_weight (sk_rx k)) (future plen ?mx onp k b u) (Inr (SW_OK, ?k, ?b, u'))"
        using inv bk [OF cs(2,3)] by (intro len_postI fut cs) auto
      then show ?thesis by (simp only: go False if_False)
    qed
  qed
qed

text \<open>The loop keeps what the connection will make of the data, from every label.\<close>

lemma recv_length_ok:
  assumes rec: "receiver p plsize hdr malloc onp" and pre: "label_pre plen hdr (package_max_length p) label rs k b"
  shows "len_post plen hdr (package_max_length p) onp
    (if label = DO_RECV then rx_weight (sk_rx k) - 1 else rx_weight (sk_rx k)) (future plen (package_max_length p) onp k b u)
    (recv_length p plen plsize malloc onp label rs k b u)"
  using pre
proof (induction "(rx_weight (sk_rx k), label_weight label b)" arbitrary: label rs k b u rule: wf_induct_rule [OF wf_lex_prod [OF wf_less wf_less]])
  case 1
  have IH: "len_post plen hdr (package_max_length p) onp (rx_weight (sk_rx k')) (future plen (package_max_length p) onp k' b' u')
        (recv_length p plen plsize malloc onp label' rs' k' b' u')"
    if "rx_weight (sk_rx k') < rx_weight (sk_rx k) \<or> sk_rx k' = sk_rx k \<and> label_weight label' b' < label_weight label b"
      "label_pre plen hdr (package_max_length p) label' rs' k' b'" for label' rs' k' b' u'
    using that by (intro len_post_le [OF 1(1)]) auto
  show ?case
  proof (cases label)
    case DO_RECV
    then have "len_inv plen hdr (package_max_length p) k b" using 1(2) by simp
    from recv_case [OF rec this IH, of u rs] show ?thesis using DO_RECV by (auto elim!: len_post_le split: if_splits)
  next
    case DO_DISPATCH
    from dispatch_case [OF rec 1(2) [unfolded DO_DISPATCH] IH] show ?thesis using DO_DISPATCH by simp
  next
    case DO_GET_LENGTH
    from get_length_case [OF rec 1(2) [unfolded DO_GET_LENGTH] IH] show ?thesis using DO_GET_LENGTH by simp
  qed
qed

lemma get_recv_buffer_inv:
  assumes rec: "receiver p plsize hdr malloc onp" and inv: "conn_inv plen hdr mx k rb"
  shows "\<exists>b. get_recv_buffer malloc rb = Inr b \<and> len_inv plen hdr mx k b \<and> contents b = contents (rb_buf rb)"
proof (cases rb)
  case None
  have m: "malloc_sized malloc" "malloc_total malloc" and h: "2 * hdr \<le> SW_BUFFER_SIZE_BIG" using rec by (auto simp: receiver_def)
  obtain b where b: "String_alloc malloc SW_BUFFER_SIZE_BIG = Inr b"
    using total_results(1) [OF m(2), of String_empty SW_BUFFER_SIZE_BIG] by (auto simp: String_reserve_def String_empty_def)
  have "SW_BUFFER_SIZE_BIG < 2 ^ 60" by (simp add: SW_BUFFER_SIZE_BIG_def)
  from alloc_ok [OF b m(1) this] have "string_ok b" "contents b = []" "SW_BUFFER_SIZE_BIG \<le> s_size b" "s_offset b = 0" by auto
  then show ?thesis using None inv h b plen_empty String_empty_ok(2)
    by (simp add: get_recv_buffer_def conn_inv_def len_inv_def buffer_ok_def rb_buf_def)
next
  case (Some b)
  then show ?thesis using inv by (simp add: get_recv_buffer_def conn_inv_def rb_buf_def)
qed

lemma callback_length_ok:
  assumes rec: "receiver p plsize hdr malloc onp" and inv: "conn_inv plen hdr (package_max_length p) k rb" and rx: "sk_rx k \<noteq> []"
    and sz: "get_size \<noteq> Some 0" "plsize = (case get_size of None \<Rightarrow> package_length_size p | Some n \<Rightarrow> n)"
  shows "\<exists>closed k' rb' u'. readable_callback_length p plen get_size malloc onp k rb u = Inr (closed, k', rb', u')
    \<and> future plen (package_max_length p) onp k' (rb_buf rb') u' = future plen (package_max_length p) onp k (rb_buf rb) u
    \<and> rx_weight (sk_rx k') < rx_weight (sk_rx k)
    \<and> (if closed then bad_length plen (package_max_length p) (contents (rb_buf rb')) else conn_inv plen hdr (package_max_length p) k' rb')"
proof -
  let ?mx = "package_max_length p"
  from get_recv_buffer_inv [OF rec inv] obtain b where b: "get_recv_buffer malloc rb = Inr b" "len_inv plen hdr ?mx k b" "contents b = contents (rb_buf rb)"
    by blast
  have nskip: "\<not> sk_skip_recv k" using b(2) by (simp add: len_inv_def buffer_ok_def)
  have "len_post plen hdr ?mx onp (rx_weight (sk_rx k) - 1) (future plen ?mx onp k b u) (recv_length p plen plsize malloc onp DO_RECV 0 k b u)"
    using recv_length_ok [OF rec, of DO_RECV 0 k b u] b(2) by simp
  then obtain rc k1 b1 u1 where r: "recv_length p plen plsize malloc onp DO_RECV 0 k b u = Inr (rc, k1, b1, u1)"
    "future plen ?mx onp k1 b1 u1 = future plen ?mx onp k b u" "rx_weight (sk_rx k1) \<le> rx_weight (sk_rx k) - 1" "buffer_ok hdr k1 b1"
    "rc = SW_OK \<and> len_inv plen hdr ?mx k1 b1 \<or> rc = SW_ERR \<and> bad_length plen ?mx (contents b1)"
    unfolding len_post_def by blast
  define rb1 where "rb1 = (if s_length b1 = 0 \<and> s_size b1 > SW_BUFFER_SIZE_BIG * 2 then None else Some b1)"
  have cb: "readable_callback_length p plen get_size malloc onp k rb u = Inr (rc < 0, k1, rb1, u1)"
    using b(1) r(1) nskip sz by (simp add: readable_callback_length_def recv_with_length_protocol_def rb1_def)
  have cs: "contents (rb_buf rb1) = contents b1" using String_empty_ok(2) by (simp add: rb1_def rb_buf_def contents_def)
  have "0 < rx_weight (sk_rx k)" using rx by (cases "sk_rx k" rule: rx_weight.cases) auto
  then have w: "rx_weight (sk_rx k1) < rx_weight (sk_rx k)" using r(3) by linarith
  have fut: "future plen ?mx onp k1 (rb_buf rb1) u1 = future plen ?mx onp k (rb_buf rb) u"
    using r(2) future_cong [of "rb_buf rb1" k1 b1 k1] future_cong [of "rb_buf rb" k b k] cs b(3) by metis
  have ci: "conn_inv plen hdr ?mx k1 rb1" if "len_inv plen hdr ?mx k1 b1"
  proof (cases "rb1 = None")
    case True
    then have "contents b1 = []" by (auto simp: rb1_def contents_def split: if_splits)
    then show ?thesis using that True plen_empty by (auto simp: conn_inv_def len_inv_def buffer_ok_def split: if_splits)
  next
    case False
    then show ?thesis using that by (auto simp: rb1_def conn_inv_def split: if_splits)
  qed
  show ?thesis using cb fut w ci r(5) cs by (auto simp: SW_OK_def SW_ERR_def)
qed

lemma bad_length_append: "bad_length plen mx c \<Longrightarrow> bad_length plen mx (c @ d) \<and> cut plen mx (c @ d) = ([], c @ d)"
  using plen_stable [of c d] by (auto simp: bad_length_def intro!: cut_stop)

lemma serve_length_ok:
  assumes rec: "receiver p plsize hdr malloc onp"
    and sz: "get_size \<noteq> Some 0" "plsize = (case get_size of None \<Rightarrow> package_length_size p | Some n \<Rightarrow> n)"
    and c: "cut plen (package_max_length p) (contents (rb_buf rb) @ rx_bytes (sk_rx k)) = (ps, r)"
    and inv: "conn_inv plen hdr (package_max_length p) k rb" and n: "rx_weight (sk_rx k) \<le> n"
  shows "\<exists>closed k' rb'. serve (readable_callback_length p plen get_size malloc onp) n k rb u = Inr (closed, k', rb', handle_all onp u ps)
    \<and> closed = bad_length plen (package_max_length p) r \<and> (\<not> closed \<longrightarrow> sk_rx k' = [] \<and> contents (rb_buf rb') = r)"
proof -
  let ?mx = "package_max_length p" and ?cb = "readable_callback_length p plen get_size malloc onp"
  have "\<exists>closed k' rb' u'. serve ?cb n k rb u = Inr (closed, k', rb', u')
      \<and> future plen ?mx onp k' (rb_buf rb') u' = future plen ?mx onp k (rb_buf rb) u
      \<and> (if closed then bad_length plen ?mx (contents (rb_buf rb')) else conn_inv plen hdr ?mx k' rb' \<and> sk_rx k' = [])"
    using inv n
  proof (induction n arbitrary: k rb u)
    case 0
    then have "sk_rx k = []" by (cases "sk_rx k" rule: rx_weight.cases) auto
    then show ?case using 0 by (auto intro!: exI [of _ False])
  next
    case (Suc n)
    show ?case
    proof (cases "sk_rx k = []")
      case False
      from callback_length_ok [OF rec Suc(2) False sz, of u] obtain closed k1 rb1 u1 where 1: "?cb k rb u = Inr (closed, k1, rb1, u1)"
        "future plen ?mx onp k1 (rb_buf rb1) u1 = future plen ?mx onp k (rb_buf rb) u" "rx_weight (sk_rx k1) < rx_weight (sk_rx k)"
        "if closed then bad_length plen ?mx (contents (rb_buf rb1)) else conn_inv plen hdr ?mx k1 rb1" by blast
      show ?thesis
      proof (cases closed)
        case True
        then show ?thesis using 1 False by (auto intro!: exI [of _ True])
      next
        case f: False
        then have "conn_inv plen hdr ?mx k1 rb1" "rx_weight (sk_rx k1) \<le> n" using 1 Suc(3) by auto
        from Suc(1) [OF this, of u1] show ?thesis using 1 False f by simp
      qed
    qed (use Suc in \<open>auto intro!: exI [of _ False]\<close>)
  qed
  then obtain closed k' rb' u' where s: "serve ?cb n k rb u = Inr (closed, k', rb', u')"
    "future plen ?mx onp k' (rb_buf rb') u' = (handle_all onp u ps, r)"
    "if closed then bad_length plen ?mx (contents (rb_buf rb')) else conn_inv plen hdr ?mx k' rb' \<and> sk_rx k' = []"
    using c by (auto simp: future_def)
  show ?thesis
  proof (cases closed)
    case True
    then show ?thesis using s bad_length_append [of ?mx "contents (rb_buf rb')" "rx_bytes (sk_rx k')"] by (auto simp: future_def handle_all_def)
  next
    case False
    let ?c = "contents (rb_buf rb')"
    have l: "plen ?c = 0 \<or> int (length ?c) < plen ?c \<and> plen ?c \<le> int ?mx"
      using s(3) False plen_empty String_empty_ok(2) by (cases rb') (auto simp: conn_inv_def len_inv_def buffer_ok_def rb_buf_def split: if_splits)
    then have "cut plen ?mx ?c = ([], ?c)" "\<not> bad_length plen ?mx ?c" by (auto simp: bad_length_def intro!: cut_stop)
    then show ?thesis using s False by (auto simp: future_def rx_bytes_def handle_all_def)
  qed
qed

end

section \<open>The length field at a fixed place\<close>

definition default_plen :: "Protocol \<Rightarrow> bytes \<Rightarrow> int" where
  "default_plen p b = fst (default_length_func p None b (length b) 0)"

text \<open>
  What \<open>ListenPort::set_length_protocol\<close> sets up; the body offset is not 0, so that a packet of no body has
  a length.
\<close>

definition length_config :: "Protocol \<Rightarrow> bool" where
  "length_config p \<longleftrightarrow> package_length_size p = swoole_type_size (package_length_type p) \<and> package_length_size p \<noteq> 0
     \<and> 0 < package_body_offset p \<and> package_body_offset p < 2 ^ 16"

lemma to_signed_less: "v < 2 ^ w \<Longrightarrow> 0 < w \<Longrightarrow> to_signed w v < 2 ^ (w - 1)"
  using to_signed_neg [of w v] by (cases "v < 2 ^ (w - 1)") (auto intro: less_le_trans)

lemma unpack_less: "swoole_unpack type d < 2 ^ 63"
proof -
  have l: "load 1 d < 256" "load 2 d < 65536" "load 4 d < 4294967296" "load 8 d < 2 ^ 64"
    using load_less [of 1 d] load_less [of 2 d] load_less [of 4 d] load_less [of 8 d] by simp_all
  have s: "swap_bytes 2 v < 65536" "swap_bytes 4 v < 4294967296" for v
    using le_value_less [of "rev (le_bytes 2 v)"] le_value_less [of "rev (le_bytes 4 v)"] by (simp_all add: swap_bytes_def)
  have "to_signed 64 (unat w) < 2 ^ 63" for w :: u64 using to_signed_less [of "unat w" 64] unsigned_less [of w] by simp
  then show ?thesis
    using l s [of "load 2 d"] s [of "load 4 d"] to_signed_less [of "load 1 d" 8] to_signed_less [of "load 2 d" 16]
      to_signed_less [of "load 4 d" 32] to_signed_less [of "load 8 d" 64]
    by (simp add: swoole_unpack_def)
qed

lemma default_plen_eq:
  assumes "length_config p"
  shows "default_plen p b = (if length b < package_length_offset p + package_length_size p then 0
    else if swoole_unpack (package_length_type p) (drop (package_length_offset p) b) < 0 then SW_ERR
    else to_int64 (int (package_body_offset p) + swoole_unpack (package_length_type p) (drop (package_length_offset p) b)))"
  using assms by (simp add: default_plen_def default_length_func_def length_config_def Let_def)

lemma to_int64_nonzero:
  assumes "0 < x" "x < 2 ^ 64"
  shows "to_int64 x \<noteq> 0"
proof (cases "x < 2 ^ 63")
  case False
  have "(x + 2 ^ 63) mod 2 ^ 64 = (x + 2 ^ 63 - 2 ^ 64) mod 2 ^ 64" by (rule minus_mod_self2 [symmetric])
  also have "\<dots> = x + 2 ^ 63 - 2 ^ 64" using assms False by (intro mod_pos_pos_trivial) auto
  finally show ?thesis using assms(2) by (simp add: to_int64_def)
qed (use assms in simp)

lemma default_packet_length:
  assumes "length_config p"
  shows "packet_length (default_plen p) (package_length_offset p + package_length_size p)"
proof -
  have c: "swoole_type_size (package_length_type p) = package_length_size p" "package_length_size p \<noteq> 0" "0 < package_body_offset p" "package_body_offset p < 2 ^ 16"
    using assms by (auto simp: length_config_def)
  have nz: "to_int64 (int (package_body_offset p) + v) \<noteq> 0" if "0 \<le> v" "v < 2 ^ 63" for v
    using to_int64_nonzero [of "int (package_body_offset p) + v"] that c(3,4) by simp
  show ?thesis
  proof
    show "default_plen p [] = 0" using c by (simp add: default_plen_eq [OF assms])
    show "length b < package_length_offset p + package_length_size p" if "default_plen p b = 0" for b
      using that nz unpack_less [of "package_length_type p" "drop (package_length_offset p) b"]
      by (auto simp: default_plen_eq [OF assms] SW_ERR_def split: if_splits)
    show "default_plen p (b @ d) = default_plen p b" if "default_plen p b \<noteq> 0" for b d
    proof -
      have "\<not> length b < package_length_offset p + package_length_size p"
        using that by (auto simp: default_plen_eq [OF assms])
      moreover from this have "swoole_unpack (package_length_type p) (drop (package_length_offset p) b @ d) = swoole_unpack (package_length_type p) (drop (package_length_offset p) b)"
        using c by (intro unpack_local) auto
      ultimately show ?thesis by (simp add: default_plen_eq [OF assms])
    qed
  qed
qed

text \<open>The protocol of a new \<open>ListenPort\<close>.\<close>

definition ListenPort_protocol :: Protocol where
  "ListenPort_protocol = \<lparr>split_by_eof = False, package_eof = [13, 10, 13, 10], package_length_type = CHR ''N'', package_length_size = 4,
     package_length_offset = 0, package_body_offset = 4, package_max_length = 2 * 1024 * 1024\<rparr>"

definition set_length_protocol :: "Protocol \<Rightarrow> nat \<Rightarrow> char \<Rightarrow> nat \<Rightarrow> Protocol" where
  "set_length_protocol p length_offset length_type body_offset =
     p\<lparr>package_length_type := length_type, package_length_size := swoole_type_size length_type,
       package_length_offset := length_offset mod 2 ^ 16, package_body_offset := body_offset mod 2 ^ 16\<rparr>"

lemma ListenPort_config: "length_config ListenPort_protocol"
  by (simp add: length_config_def ListenPort_protocol_def swoole_type_size_def)

interpretation port: packet_length "default_plen ListenPort_protocol" 4
  using default_packet_length [OF ListenPort_config] by (simp add: ListenPort_protocol_def)

lemma port_plen: "default_plen ListenPort_protocol b = (if length b < 4 then 0 else int (be_value (take 4 b)) + 4)"
proof (cases "length b < 4")
  case True
  then show ?thesis unfolding default_plen_eq [OF ListenPort_config] by (simp add: ListenPort_protocol_def)
next
  case False
  then have "swoole_unpack (CHR ''N'') b = int (be_value (take 4 b))" "be_value (take 4 b) < 4294967296"
    using be_value_less [of "take 4 b"] by (simp_all add: swoole_unpack_def load_def bytes_at_def)
  then show ?thesis using False unfolding default_plen_eq [OF ListenPort_config] by (simp add: ListenPort_protocol_def)
qed

text \<open>C1: take a port with a length field of a known type whose size is set, with a positive \<open>package_body_offset\<close> below 2^16
  (\<open>length_config\<close>; with a body offset of 0 a length field of 0 is mistaken for an incomplete header and the statement
  fails), a header (length offset plus size of the field) of at most half of the 65536 bytes of the receive buffer, a
  \<open>package_max_length\<close> below 2^32, memory that can be had and an \<open>onPackage\<close> that accepts every packet and keeps the
  connection (\<open>receiver\<close>). Then, however the network cuts a stream of data into pieces, exactly the packets of the stream are handed
  to \<open>onPackage\<close>, in order: the calls of \<open>readable_callback_length\<close> consume all the data, keep the
  incomplete packet at the end in the receive buffer, and close the connection if and only if the
  stream goes on with a length that is negative or exceeds \<open>package_max_length\<close>.
\<close>

theorem length_protocol_stream:
  assumes "length_config p" "receiver p (package_length_size p) (package_length_offset p + package_length_size p) malloc onp"
    and "all_data (sk_rx k)" "\<not> sk_removed k" "\<not> sk_skip_recv k" "\<not> sk_recv_wait k" "rx_weight (sk_rx k) \<le> n"
    and "cut (default_plen p) (package_max_length p) (rx_bytes (sk_rx k)) = (ps, r)"
  shows "\<exists>closed k' rb'. serve (readable_callback_length p (default_plen p) None malloc onp) n k None u = Inr (closed, k', rb', handle_all onp u ps)
    \<and> closed = bad_length (default_plen p) (package_max_length p) r \<and> (\<not> closed \<longrightarrow> sk_rx k' = [] \<and> contents (rb_buf rb') = r)"
proof -
  have "conn_inv (default_plen p) (package_length_offset p + package_length_size p) (package_max_length p) k None"
    using assms(3-6) by (simp add: conn_inv_def)
  then show ?thesis
    using packet_length.serve_length_ok [OF default_packet_length [OF assms(1)] assms(2), of None None k ps r n u] assms(7,8) String_empty_ok(2)
    by (simp add: rb_buf_def)
qed

definition collect :: "bytes list \<Rightarrow> bytes \<Rightarrow> bytes list \<times> bool \<times> bool" where
  "collect ps d = (ps @ [d], True, False)"

definition idle_socket :: "bytes list \<Rightarrow> Socket" where
  "idle_socket ds = \<lparr>sk_rx = map RxData ds, sk_removed = False, sk_recv_wait = False, sk_skip_recv = False, sk_ssl = False\<rparr>"

theorem length_protocol_stream_witness:
  "\<exists>k' rb'. serve (readable_callback_length ListenPort_protocol (default_plen ListenPort_protocol) None zero_malloc collect) 99
       (idle_socket [[0, 0], [0, 2, 7], [8, 0, 0, 0], [1, 9, 0]]) None []
     = Inr (False, k', rb', [[0, 0, 0, 2, 7, 8], [0, 0, 0, 1, 9]]) \<and> contents (rb_buf rb') = [0]"
proof -
  let ?p = ListenPort_protocol and ?k = "idle_socket [[0, 0], [0, 2, 7], [8, 0, 0, 0], [1, 9, 0]]"
  have b: "rx_bytes (sk_rx ?k) = [0, 0, 0, 2, 7, 8, 0, 0, 0, 1, 9, 0]" by (simp add: idle_socket_def rx_bytes_def)
  have mx: "package_max_length ?p = 2097152" by (simp add: ListenPort_protocol_def)
  have c: "cut (default_plen ?p) (package_max_length ?p) (rx_bytes (sk_rx ?k)) = ([[0, 0, 0, 2, 7, 8], [0, 0, 0, 1, 9]], [0])"
    unfolding b by (simp add: cut.simps [of "default_plen ?p"] port_plen be_value_Cons mx)
  have "receiver ?p (package_length_size ?p) (package_length_offset ?p + package_length_size ?p) zero_malloc collect"
    using zero_malloc_ok by (simp add: receiver_def accepts_def collect_def ListenPort_protocol_def SW_BUFFER_SIZE_BIG_def)
  moreover have "all_data (sk_rx ?k)" "\<not> sk_removed ?k" "\<not> sk_skip_recv ?k" "\<not> sk_recv_wait ?k" "rx_weight (sk_rx ?k) \<le> 99"
    by (simp_all add: idle_socket_def all_data_def)
  ultimately have s: "\<exists>closed k' rb'. serve (readable_callback_length ?p (default_plen ?p) None zero_malloc collect) 99 ?k None []
      = Inr (closed, k', rb', handle_all collect [] [[0, 0, 0, 2, 7, 8], [0, 0, 0, 1, 9]])
    \<and> closed = bad_length (default_plen ?p) (package_max_length ?p) [0] \<and> (\<not> closed \<longrightarrow> sk_rx k' = [] \<and> contents (rb_buf rb') = [0])"
    by (rule length_protocol_stream [OF ListenPort_config _ _ _ _ _ _ c])
  have "handle_all collect [] [[0, 0, 0, 2, 7, 8], [0, 0, 0, 1, 9]] = [[0, 0, 0, 2, 7, 8], [0, 0, 0, 1, 9]]"
    by (simp add: handle_all_def collect_def)
  moreover have "\<not> bad_length (default_plen ?p) (package_max_length ?p) [0]" by (simp add: bad_length_def port_plen)
  ultimately show ?thesis using s by auto
qed

section \<open>A length field of zero\<close>

text \<open>With a body offset of 0 the field is the length of the whole packet, and 0 says so of no packet.\<close>

definition bare_length_protocol :: Protocol where
  "bare_length_protocol = set_length_protocol ListenPort_protocol 0 (CHR ''N'') 0"

lemma bare_plen_zero: "default_plen bare_length_protocol (replicate n 0) = 0"
proof (cases "n < 4")
  case True
  then show ?thesis
    by (simp add: default_plen_def default_length_func_def bare_length_protocol_def set_length_protocol_def ListenPort_protocol_def swoole_type_size_def)
next
  case False
  have "replicate 4 (0 :: byte) = [0, 0, 0, 0]" by (simp add: eval_nat_numeral)
  then have "replicate n (0 :: byte) = [0, 0, 0, 0] @ replicate (n - 4) 0" using False replicate_add [of 4 "n - 4" "0 :: byte"] by simp
  moreover have "swoole_unpack (CHR ''N'') ([0, 0, 0, 0] @ e) = 0" for e
  proof -
    have "swap_bytes 4 0 = 0" by code_simp
    then show ?thesis by (simp add: swoole_unpack_def load_def bytes_at_def)
  qed
  ultimately show ?thesis
    by (simp add: default_plen_def default_length_func_def bare_length_protocol_def set_length_protocol_def ListenPort_protocol_def swoole_type_size_def)
qed

lemma recv_into_zeros:
  assumes "contents b = replicate (s_length b) 0" "s_length b \<le> length (s_str b)" "s_length b + n < 2 ^ 32"
  defines "b1 \<equiv> recv_into b (replicate n 0)"
  shows "contents b1 = replicate (s_length b1) 0" "s_length b1 = s_length b + n" "s_length b1 \<le> length (s_str b1)"
    "s_size b1 = s_size b" "s_offset b1 = s_offset b"
proof -
  have w: "wrap64 (s_length b + n) = s_length b + n" using assms(3) by simp
  show l: "s_length b1 = s_length b + n" using w by (simp add: b1_def recv_into_def)
  show "s_length b1 \<le> length (s_str b1)" "s_size b1 = s_size b" "s_offset b1 = s_offset b"
    using assms(2) w by (simp_all add: b1_def recv_into_def memcpy_at_def)
  show "contents b1 = replicate (s_length b1) 0"
    using assms(1,2) w by (simp add: b1_def recv_into_def memcpy_at_def contents_def replicate_add)
qed

text \<open>One piece of zeros that does not make the data exactly as long as the length field: it is kept.\<close>

lemma zeros_callback:
  assumes "contents b = replicate (s_length b) 0" "s_length b \<le> length (s_str b)" "s_length b + n < 2 ^ 32" "s_offset b = 0" "s_size b \<le> SW_BUFFER_SIZE_BIG"
    and "sk_rx k = RxData (replicate n 0) # r" "\<not> sk_removed k" "\<not> sk_recv_wait k" "\<not> sk_skip_recv k" "0 < n" "n \<le> 4" "s_length b + n \<noteq> 4"
  shows "readable_callback_length bare_length_protocol (default_plen bare_length_protocol) None malloc onp k (Some b) u
    = Inr (False, k\<lparr>sk_rx := r\<rparr>, Some (recv_into b (replicate n 0)), u)"
proof -
  let ?p = bare_length_protocol and ?b = "recv_into b (replicate n 0)" and ?k = "k\<lparr>sk_rx := r\<rparr>"
  have p: "package_length_size ?p = 4" "package_length_offset ?p = 0"
    by (simp_all add: bare_length_protocol_def set_length_protocol_def ListenPort_protocol_def swoole_type_size_def)
  note z = recv_into_zeros [OF assms(1-3)]
  have "bytes_at (s_str ?b) 0 (wrap32 (s_length ?b)) = replicate (s_length ?b) 0"
    using z(1,2) assms(3) by (simp add: bytes_at_def contents_def)
  then have g: "recv_length ?p (default_plen ?p) 4 malloc onp DO_GET_LENGTH 4 ?k ?b u = Inr (SW_OK, ?k, ?b, u)"
    using z(2) assms(12) by (subst recv_length.simps) (simp add: bare_plen_zero)
  have "sock_recv k 4 = (RECV (replicate n 0), ?k)" using assms(6,10,11) by (simp add: sock_recv_def min_def)
  then have "recv_length ?p (default_plen ?p) 4 malloc onp DO_RECV 0 k b u = Inr (SW_OK, ?k, ?b, u)"
    using g assms(4,7,8,10) p by (subst recv_length.simps) simp
  then show ?thesis using assms(5,9) p z(4)
    by (simp add: readable_callback_length_def get_recv_buffer_def recv_with_length_protocol_def SW_OK_def)
qed

lemma zeros_serve:
  assumes "contents b = replicate (s_length b) 0" "s_length b \<le> length (s_str b)" "s_length b + 4 * m < 2 ^ 32" "s_offset b = 0" "s_size b \<le> SW_BUFFER_SIZE_BIG"
    and "sk_rx k = replicate m (RxData (replicate 4 0))" "\<not> sk_removed k" "\<not> sk_recv_wait k" "\<not> sk_skip_recv k" "0 < s_length b"
  shows "\<exists>k' b'. serve (readable_callback_length bare_length_protocol (default_plen bare_length_protocol) None malloc onp) m k (Some b) u
      = Inr (False, k', Some b', u) \<and> s_length b' = s_length b + 4 * m \<and> s_size b' = s_size b"
  using assms
proof (induction m arbitrary: k b)
  case (Suc m)
  let ?b = "recv_into b (replicate 4 0)" and ?k = "k\<lparr>sk_rx := replicate m (RxData (replicate 4 0))\<rparr>"
  have l: "s_length b + 4 < 2 ^ 32" using Suc.prems(3) by simp
  note z = recv_into_zeros [OF Suc.prems(1,2) l]
  have "readable_callback_length bare_length_protocol (default_plen bare_length_protocol) None malloc onp k (Some b) u = Inr (False, ?k, Some ?b, u)"
    by (rule zeros_callback) (use Suc.prems l in auto)
  moreover have "\<exists>k' b'. serve (readable_callback_length bare_length_protocol (default_plen bare_length_protocol) None malloc onp) m ?k (Some ?b) u
      = Inr (False, k', Some b', u) \<and> s_length b' = s_length ?b + 4 * m \<and> s_size b' = s_size ?b"
    by (rule Suc.IH) (use z Suc.prems in auto)
  ultimately show ?case using Suc.prems(6) z by (simp add: add.assoc)
qed simp

text \<open>C35: the receive loop writes past the end of its buffer when the length field may say 0 (a length type
  \<open>N\<close> at offset 0 with \<open>package_body_offset\<close> 0): after 3 bytes of zero, every further 4 bytes of zero are appended,
  since the data is then never exactly as long as the length field, and nothing compares it with the
  size of the buffer; 65539 bytes are in the 65536 bytes of the buffer after 16385 calls, with the
  connection still open and no packet delivered.
\<close>

theorem zero_length_overrun:
  "\<exists>k' b'. serve (readable_callback_length bare_length_protocol (default_plen bare_length_protocol) None zero_malloc collect) (Suc 16384)
      (idle_socket ([0, 0, 0] # replicate 16384 [0, 0, 0, 0])) None []
    = Inr (False, k', Some b', []) \<and> s_size b' = 65536 \<and> s_length b' = 65539"
proof -
  let ?cb = "readable_callback_length bare_length_protocol (default_plen bare_length_protocol) None zero_malloc collect"
  let ?k = "idle_socket ([0, 0, 0] # replicate 16384 [0, 0, 0, 0])"
  have r: "[0, 0, 0] = replicate 3 (0 :: byte)" "[0, 0, 0, 0] = replicate 4 (0 :: byte)" by (simp_all add: eval_nat_numeral)
  have "SW_BUFFER_SIZE_BIG < 2 ^ 60" by (simp add: SW_BUFFER_SIZE_BIG_def)
  obtain b where b: "String_alloc zero_malloc SW_BUFFER_SIZE_BIG = Inr b" "s_length b = 0" "s_offset b = 0" "s_size b = 65536"
    by (auto simp: String_alloc_def zero_malloc_def SW_BUFFER_SIZE_BIG_def aligned8)
  let ?b = "recv_into b (replicate 3 0)" and ?k1 = "?k\<lparr>sk_rx := replicate 16384 (RxData (replicate 4 0))\<rparr>"
  have "?cb ?k None [] = ?cb ?k (Some b) []" by (simp add: readable_callback_length_def get_recv_buffer_def b(1))
  also have "\<dots> = Inr (False, ?k1, Some ?b, [])"
    by (rule zeros_callback) (use b r in \<open>auto simp: contents_def SW_BUFFER_SIZE_BIG_def idle_socket_def\<close>)
  finally have 1: "?cb ?k None [] = Inr (False, ?k1, Some ?b, [])" .
  have z: "contents ?b = replicate (s_length ?b) 0" "s_length ?b = 3" "s_length ?b \<le> length (s_str ?b)" "s_size ?b = 65536" "s_offset ?b = 0"
    using recv_into_zeros [of b 3] b by (simp_all add: contents_def)
  have "\<exists>k' b'. serve ?cb 16384 ?k1 (Some ?b) [] = Inr (False, k', Some b', []) \<and> s_length b' = s_length ?b + 4 * 16384 \<and> s_size b' = s_size ?b"
    by (rule zeros_serve) (use z in \<open>auto simp: SW_BUFFER_SIZE_BIG_def idle_socket_def\<close>)
  moreover have "sk_rx ?k \<noteq> []" by (simp add: idle_socket_def)
  ultimately show ?thesis using 1 z by (simp only: serve.simps) auto
qed

end
