(* ===== verification/Sw_Eof.thy ===== *)
theory Sw_Eof
  imports Sw_Split Sw_Protocol
begin

text \<open>
  Packets that end in a marker: \<open>recv_with_eof_protocol\<close> and \<open>recv_split_by_eof\<close> of \<open>src/protocol/base.cc\<close>, under the callback
  \<open>ListenPort::readable_callback_eof\<close>, and that the packets they deliver are those of the stream.
\<close>

section \<open>The receive loop\<close>

definition SW_BUFFER_SIZE_STD :: nat where
  "SW_BUFFER_SIZE_STD = 8192"

text \<open>The function that \<open>recv_split_by_eof\<close> gives to \<open>String::split\<close>; \<open>SW_SUCCESS\<close> stands for \<open>SW_OK\<close>.\<close>

definition split_handler :: "('u \<Rightarrow> bytes \<Rightarrow> 'u \<times> bool \<times> bool) \<Rightarrow> 'u \<times> bool \<Rightarrow> bytes \<Rightarrow> ('u \<times> bool) \<times> bool" where
  "split_handler onp st d =
     (let r = onp (fst st) d; removed = (snd st \<or> snd (snd r)) in ((fst r, removed), fst (snd r) \<and> \<not> removed))"

definition recv_split_by_eof :: "Protocol \<Rightarrow> ('u \<Rightarrow> bytes \<Rightarrow> 'u \<times> bool \<times> bool) \<Rightarrow> Socket \<Rightarrow> String \<Rightarrow> 'u
    \<Rightarrow> string_error + (ReturnCode \<times> Socket \<times> String \<times> 'u)" where
  "recv_split_by_eof p onp k b u =
     (if s_length b < length (package_eof p) then Inr (SW_CONTINUE, k, b, u)
      else
        case String_split (split_handler onp) (package_eof p) b (u, sk_removed k) of
          Inl e \<Rightarrow> Inl e
        | Inr (n, b1, u1, removed) \<Rightarrow>
            let k1 = k\<lparr>sk_removed := removed\<rparr>; rc = (if sk_ssl k1 then SW_CONTINUE else SW_SUCCESS) in
            if sk_removed k1 \<or> n < 0 then Inr (SW_CLOSE, k1, b1, u1)
            else if n = 0 then Inr (SW_CONTINUE, k1, b1, u1)
            else if n < int (s_length b1) then
              (case String_reduce b1 n of
                 Inl e \<Rightarrow> Inl e
               | Inr b2 \<Rightarrow>
                   let off = int (s_length b2) - int (length (package_eof p)) in
                   Inr (rc, k1, b2\<lparr>s_offset := (if off > 0 then off else 0)\<rparr>, u1))
            else Inr (rc, k1, String_clear b1, u1))"

text \<open>
  The end of a turn of the loop: a packet that is too large (\<open>None\<close>), or whether to receive again, into a buffer
  that is extended when it is full.
\<close>

definition eof_room :: "Protocol \<Rightarrow> nat \<Rightarrow> (nat \<Rightarrow> bytes option) \<Rightarrow> bool \<Rightarrow> String \<Rightarrow> string_error + (bool \<times> String) option" where
  "eof_room p pagesize malloc recv_again b =
     (if s_length b = package_max_length p then Inr None
      else if s_length b = s_size b then
        if s_size b < package_max_length p then
          let extend_size = wrap32 (swoole_size_align (wrap64 (s_size b * 2)) pagesize) in
          case String_extend malloc b (if extend_size > package_max_length p then package_max_length p else extend_size) of
            Inl e \<Rightarrow> Inl e
          | Inr b1 \<Rightarrow> Inr (Some (True, b1))
        else Inr (Some (True, b))
      else Inr (Some (recv_again, b)))"

lemma recv_split_rx: "recv_split_by_eof p onp k b u = Inr (rc, k1, b1, u1) \<Longrightarrow> sk_rx k1 = sk_rx k"
  by (auto simp: recv_split_by_eof_def Let_def split: if_splits sum.splits)

function recv_eof :: "Protocol \<Rightarrow> nat \<Rightarrow> (nat \<Rightarrow> bytes option) \<Rightarrow> (Socket \<Rightarrow> bool) \<Rightarrow> ('u \<Rightarrow> bytes \<Rightarrow> 'u \<times> bool \<times> bool)
    \<Rightarrow> bool \<Rightarrow> Socket \<Rightarrow> String \<Rightarrow> 'u \<Rightarrow> string_error + (int \<times> Socket \<times> String \<times> 'u)" where
  "recv_eof p pagesize malloc ssl_pending onp recv_again k b u =
     (let buf_size0 = sub64 (s_size b) (s_length b);
          buf_size = (if buf_size0 > SW_BUFFER_SIZE_STD then SW_BUFFER_SIZE_STD else buf_size0) in
      case sock_recv k buf_size of
        (RECV_ERR e, k1) \<Rightarrow> Inr (if e = SW_CLOSE then SW_ERR else SW_OK, k1, b, u)
      | (RECV d, k1) \<Rightarrow>
          if d = [] then Inr (SW_ERR, k1, b, u)
          else
            let b1 = recv_into b d; eof_len = length (package_eof p) in
            if s_length b1 < eof_len then Inr (SW_OK, k1, b1, u)
            else if split_by_eof p then
              (case recv_split_by_eof p onp k1 b1 u of
                 Inl e \<Rightarrow> Inl e
               | Inr (retval, k2, b2, u2) \<Rightarrow>
                   if retval = SW_CONTINUE then
                     (case eof_room p pagesize malloc True b2 of
                        Inl e \<Rightarrow> Inl e
                      | Inr None \<Rightarrow> Inr (SW_ERR, k2, b2, u2)
                      | Inr (Some (again, b3)) \<Rightarrow>
                          if again
                          then recv_eof p pagesize malloc ssl_pending onp again k2 b3 u2 else Inr (SW_OK, k2, b3, u2))
                   else Inr (if retval = SW_CLOSE then SW_ERR else SW_OK, k2, b2, u2))
            else if bytes_at (s_str b1) (s_length b1 - eof_len) eof_len = package_eof p then
              (let b2 = b1\<lparr>s_offset := int (s_length b1)\<rparr>; r = onp u (bytes_at (s_str b2) 0 (wrap32 (s_length b2))) in
               if \<not> fst (snd r) then Inr (SW_ERR, k1, b2, fst r)
               else
                 let k2 = k1\<lparr>sk_removed := snd (snd r)\<rparr> in
                 if sk_removed k2 then Inr (SW_OK, k2, b2, fst r)
                 else if sk_ssl k2 \<and> ssl_pending k2 then recv_eof p pagesize malloc ssl_pending onp recv_again k2 (String_clear b2) (fst r)
                 else Inr (SW_OK, k2, String_clear b2, fst r))
            else
              (case eof_room p pagesize malloc recv_again b1 of
                 Inl e \<Rightarrow> Inl e
               | Inr None \<Rightarrow> Inr (SW_ERR, k1, b1, u)
               | Inr (Some (again, b2)) \<Rightarrow>
                   if again then recv_eof p pagesize malloc ssl_pending onp again k1 b2 u else Inr (SW_OK, k1, b2, u)))"
  by pat_completeness auto
termination
  by (relation "measure (\<lambda>(p, pagesize, malloc, ssl_pending, onp, again, k, b, u). rx_weight (sk_rx k))") (auto dest!: recv_split_rx sock_recv_weight)

declare recv_eof.simps [simp del]

definition recv_with_eof_protocol :: "Protocol \<Rightarrow> nat \<Rightarrow> (nat \<Rightarrow> bytes option) \<Rightarrow> (Socket \<Rightarrow> bool) \<Rightarrow> ('u \<Rightarrow> bytes \<Rightarrow> 'u \<times> bool \<times> bool)
    \<Rightarrow> Socket \<Rightarrow> String \<Rightarrow> 'u \<Rightarrow> string_error + (int \<times> Socket \<times> String \<times> 'u)" where
  "recv_with_eof_protocol p pagesize malloc ssl_pending onp k b u = recv_eof p pagesize malloc ssl_pending onp False k b u"

definition readable_callback_eof :: "Protocol \<Rightarrow> nat \<Rightarrow> (nat \<Rightarrow> bytes option) \<Rightarrow> (Socket \<Rightarrow> bool) \<Rightarrow> ('u \<Rightarrow> bytes \<Rightarrow> 'u \<times> bool \<times> bool)
    \<Rightarrow> Socket \<Rightarrow> String option \<Rightarrow> 'u \<Rightarrow> string_error + (bool \<times> Socket \<times> String option \<times> 'u)" where
  "readable_callback_eof p pagesize malloc ssl_pending onp k rb u =
     (case get_recv_buffer malloc rb of
        Inl e \<Rightarrow> Inl e
      | Inr b \<Rightarrow>
          case recv_with_eof_protocol p pagesize malloc ssl_pending onp k b u of
            Inl e \<Rightarrow> Inl e
          | Inr (rc, k1, b1, u1) \<Rightarrow>
              Inr (rc < 0, k1, if s_length b1 = 0 \<and> s_size b1 > SW_BUFFER_SIZE_BIG * 2 then None else Some b1, u1))"

definition set_eof_protocol :: "Protocol \<Rightarrow> bytes \<Rightarrow> bool \<Rightarrow> Protocol" where
  "set_eof_protocol p eof find_from_right = p\<lparr>split_by_eof := \<not> find_from_right, package_eof := take (min (length eof) 8) eof\<rparr>"

section \<open>Splitting\<close>

text \<open>Where the scan for the marker goes on: nothing before it can become the start of a marker.\<close>

definition scan_pos :: "bytes \<Rightarrow> String \<Rightarrow> bool" where
  "scan_pos d b \<longleftrightarrow> first_at d (contents b) = None \<and> (s_offset b = 0 \<or> 0 < s_offset b \<and> s_offset b + int (length d) \<le> int (s_length b))"

lemma scan_pos_more:
  assumes "string_ok b" "scan_pos d b" "contents b1 = contents b @ e" "s_offset b1 = s_offset b" "s_length b1 = s_length b + length e"
  shows "scanned d b1"
proof -
  have o: "s_offset b = 0 \<or> 0 < s_offset b \<and> s_offset b + int (length d) \<le> int (s_length b)" and n: "\<And>i. \<not> occurs_at d (contents b) i"
    using assms(2) by (auto simp: scan_pos_def first_at_None)
  have "\<not> occurs_at d (contents b @ e) i" if "i < nat (s_offset b)" for i
  proof -
    have "i + length d \<le> length (contents b)" using o that assms(1) by simp linarith
    then show ?thesis using n occurs_at_append [of i d "contents b" e] by blast
  qed
  then show ?thesis using o assms(3-5) by (auto simp: scanned_def)
qed

lemma feed_all:
  assumes "accepts onp"
  shows "feed (split_handler onp) (u, False) ps = ((handle_all onp u ps, False), True)"
  using assms by (induction ps arbitrary: u) (auto simp: split_handler_def handle_all_def accepts_def Let_def)

lemma recv_split_ok:
  assumes acc: "accepts onp" and ok: "string_ok b" "s_length b < 2 ^ 32" "scanned (package_eof p) b" "\<not> sk_removed k"
    and d: "0 < length (package_eof p)" "length (package_eof p) \<le> s_length b"
    and ps: "packets (package_eof p) (contents b) = (ps, r)"
  shows "\<exists>rc b1. recv_split_by_eof p onp k b u = Inr (rc, k, b1, handle_all onp u ps) \<and> contents b1 = r \<and> string_ok b1 \<and> s_size b1 = s_size b
    \<and> scan_pos (package_eof p) b1 \<and> (rc = SW_CONTINUE \<or> rc = SW_SUCCESS \<and> s_length b1 < s_length b)"
proof -
  let ?d = "package_eof p"
  define n where "n = length (concat ps)"
  have ld: "length ?d < 2 ^ 32" using ok(2) d(2) by linarith
  have k: "k\<lparr>sk_removed := False\<rparr> = k" using ok(4) by (cases k) simp
  from split_correct [OF ok(1,2) d(1) ld ok(3) ps feed_all [OF acc], of u] obtain t where
    t: "String_split (split_handler onp) ?d b (u, False) = Inr (int n, t, handle_all onp u ps, False)"
      "b\<lparr>s_offset := s_offset t\<rparr> = t" "s_offset t = (if ps = [] then int (s_length b) - int (length ?d) else int n)" unfolding n_def by auto
  have tf: "s_length t = s_length b" "contents t = contents b" "string_ok t" "s_size t = s_size b"
    using ok(1) by (subst t(2) [symmetric], simp add: contents_def string_ok_def)+
  have ne: "?d \<noteq> []" using d(1) by auto
  have r: "s_length b = n + length r" "drop n (contents b) = r" "first_at ?d r = None"
    using packets_length [OF ne ps] packets_concat [OF ne, of "contents b"] length_contents [OF ok(1)] unfolding ps n_def fst_conv snd_conv
    by (simp_all only:)
  note step = recv_split_by_eof_def [of p onp k b u]
  show ?thesis
  proof (cases "ps = []")
    case True
    have "recv_split_by_eof p onp k b u = Inr (SW_CONTINUE, k, t, handle_all onp u ps)"
      unfolding step using True t(1) d(2) ok(4) k by (simp add: Let_def n_def)
    moreover have cs: "contents t = r" using True tf(2) r(2) by (simp add: n_def)
    moreover have "scan_pos ?d t" unfolding scan_pos_def cs using True t(3) d(2) tf(1) r(3) by auto
    ultimately show ?thesis using tf(3,4) by blast
  next
    case False
    then have n0: "0 < n" unfolding n_def using packets_end [OF ne, of "hd ps" "contents b"] ps ne by (cases ps) (auto simp: suffix_def)
    define rc where "rc = (if sk_ssl k then SW_CONTINUE else SW_SUCCESS)"
    show ?thesis
    proof (cases "n < s_length b")
      case True
      from reduce_ok [OF tf(3), of n] obtain b2 where b2: "String_reduce t (int n) = Inr b2" "string_ok b2" "contents b2 = r" "s_length b2 = s_length b - n" "s_size b2 = s_size b"
        using True tf r by auto
      let ?o = "int (s_length b2) - int (length ?d)"
      let ?b = "b2\<lparr>s_offset := (if ?o > 0 then ?o else 0)\<rparr>"
      have "recv_split_by_eof p onp k b u = Inr (rc, k, ?b, handle_all onp u ps)"
        unfolding step using t(1) d(2) ok(4) k n0 True tf b2(1) by (simp add: Let_def rc_def)
      moreover have "contents ?b = r" "string_ok ?b" "s_size ?b = s_size b" "s_length ?b < s_length b"
        using b2 n0 True by (simp_all add: contents_def string_ok_def)
      moreover have "scan_pos ?d ?b" using calculation(2) r(3) b2(4) by (auto simp: scan_pos_def)
      ultimately show ?thesis by (auto simp: rc_def)
    next
      case f: False
      then have e: "r = []" "n = s_length b" using r(1) by auto
      have "recv_split_by_eof p onp k b u = Inr (rc, k, String_clear t, handle_all onp u ps)"
        unfolding step using t(1) d(2) ok(4) k n0 e tf by (simp add: Let_def rc_def)
      moreover have "contents (String_clear t) = r" "string_ok (String_clear t)" "s_size (String_clear t) = s_size b" "s_length (String_clear t) < s_length b"
        "s_offset (String_clear t) = 0"
        using tf e n0 by (auto simp: String_clear_def contents_def string_ok_def)
      moreover have "scan_pos ?d (String_clear t)" using calculation(2,6) r(3) by (simp add: scan_pos_def)
      ultimately show ?thesis by (auto simp: rc_def)
    qed
  qed
qed

section \<open>The loop\<close>

definition eof_setup :: "Protocol \<Rightarrow> nat \<Rightarrow> (nat \<Rightarrow> bytes option) \<Rightarrow> ('u \<Rightarrow> bytes \<Rightarrow> 'u \<times> bool \<times> bool) \<Rightarrow> bool" where
  "eof_setup p pagesize malloc onp \<longleftrightarrow>
     malloc_sized malloc \<and> malloc_total malloc \<and> accepts onp \<and> split_by_eof p \<and> 0 < length (package_eof p) \<and> length (package_eof p) \<le> 8
     \<and> package_max_length p < 2 ^ 30 \<and> 0 < pagesize \<and> pagesize \<le> 2 ^ 20"

definition eof_buf :: "Protocol \<Rightarrow> String \<Rightarrow> bool" where
  "eof_buf p b \<longleftrightarrow> string_ok b \<and> 8 < s_size b \<and> s_size b < 2 ^ 31 \<and> scan_pos (package_eof p) b"

definition eof_inv :: "Protocol \<Rightarrow> Socket \<Rightarrow> String \<Rightarrow> bool" where
  "eof_inv p k b \<longleftrightarrow> eof_buf p b \<and> (s_length b < s_size b \<or> package_max_length p \<le> s_length b) \<and> \<not> sk_removed k \<and> all_data (sk_rx k)"

lemma packets_cons:
  assumes "d \<noteq> []" "suffix d p" "\<And>i. occurs_at d p i \<Longrightarrow> i + length d = length p"
  shows "packets d (p @ z) = (p # fst (packets d z), snd (packets d z))"
proof -
  have l: "length d \<le> length p" "occurs_at d p (length p - length d)"
    using assms(2) by (auto simp: suffix_iff_drop occurs_at_def bytes_at_def)
  have "first_at d p = Some (length p - length d)"
    unfolding first_at_Some using l assms(3) by (metis add_diff_cancel_right' nat_neq_iff)
  from packets_Some [OF first_at_append [OF this] assms(1), of z] show ?thesis using l(1) by simp
qed

lemma packets_prefix:
  assumes "d \<noteq> []" "set ps \<subseteq> set (fst (packets d xs))"
  shows "packets d (concat ps @ z) = (ps @ fst (packets d z), snd (packets d z))"
  using assms(2)
proof (induction ps)
  case (Cons p ps)
  then have "suffix d p" "\<And>i. occurs_at d p i \<Longrightarrow> i + length d = length p" using packets_end [OF assms(1), of p xs] by auto
  from packets_cons [OF assms(1) this, of "concat ps @ z"] show ?case using Cons by simp
qed simp

text \<open>
  What a part of a run has done: packets went to \<open>onPackage\<close>, they and the data that is left make up the data
  before, and they are the first packets of it.
\<close>

definition eof_step :: "bytes \<Rightarrow> ('u \<Rightarrow> bytes \<Rightarrow> 'u \<times> bool \<times> bool) \<Rightarrow> Socket \<Rightarrow> String \<Rightarrow> 'u \<Rightarrow> Socket \<Rightarrow> String \<Rightarrow> 'u \<Rightarrow> bool" where
  "eof_step d onp k b u k' b' u' \<longleftrightarrow>
     (\<exists>ps. u' = handle_all onp u ps \<and> contents b @ rx_bytes (sk_rx k) = concat ps @ contents b' @ rx_bytes (sk_rx k')
        \<and> packets d (contents b @ rx_bytes (sk_rx k)) =
            (ps @ fst (packets d (contents b' @ rx_bytes (sk_rx k'))), snd (packets d (contents b' @ rx_bytes (sk_rx k')))))"

lemma eof_step_same: "contents b @ rx_bytes (sk_rx k) = contents b' @ rx_bytes (sk_rx k') \<Longrightarrow> eof_step d onp k b u k' b' u"
  unfolding eof_step_def by (rule exI [of _ "[]"]) (simp add: handle_all_def)

lemma eof_step_trans: "eof_step d onp k b u k1 b1 u1 \<Longrightarrow> eof_step d onp k1 b1 u1 k2 b2 u2 \<Longrightarrow> eof_step d onp k b u k2 b2 u2"
proof -
  assume a: "eof_step d onp k b u k1 b1 u1" "eof_step d onp k1 b1 u1 k2 b2 u2"
  obtain ps where 1: "u1 = handle_all onp u ps" "contents b @ rx_bytes (sk_rx k) = concat ps @ contents b1 @ rx_bytes (sk_rx k1)"
    "packets d (contents b @ rx_bytes (sk_rx k)) =
       (ps @ fst (packets d (contents b1 @ rx_bytes (sk_rx k1))), snd (packets d (contents b1 @ rx_bytes (sk_rx k1))))"
    using a(1) unfolding eof_step_def by blast
  obtain qs where 2: "u2 = handle_all onp u1 qs" "contents b1 @ rx_bytes (sk_rx k1) = concat qs @ contents b2 @ rx_bytes (sk_rx k2)"
    "packets d (contents b1 @ rx_bytes (sk_rx k1)) =
       (qs @ fst (packets d (contents b2 @ rx_bytes (sk_rx k2))), snd (packets d (contents b2 @ rx_bytes (sk_rx k2))))"
    using a(2) unfolding eof_step_def by blast
  show ?thesis unfolding eof_step_def by (rule exI [of _ "ps @ qs"]) (use 1 2 in \<open>simp add: handle_all_def\<close>)
qed

lemma eof_step_split:
  assumes "d \<noteq> []" "packets d (contents b) = (ps, r)" "contents b1 = r"
  shows "eof_step d onp k b u k b1 (handle_all onp u ps)"
proof -
  have "contents b = concat ps @ r" using packets_concat [OF assms(1), of "contents b"] assms(2) by simp
  then show ?thesis
    unfolding eof_step_def using assms packets_append [OF assms(1), of "contents b" "rx_bytes (sk_rx k)"]
    by (intro exI [of _ ps]) simp
qed

definition eof_post :: "Protocol \<Rightarrow> ('u \<Rightarrow> bytes \<Rightarrow> 'u \<times> bool \<times> bool) \<Rightarrow> nat \<Rightarrow> Socket \<Rightarrow> String \<Rightarrow> 'u
    \<Rightarrow> string_error + (int \<times> Socket \<times> String \<times> 'u) \<Rightarrow> bool" where
  "eof_post p onp n k0 b0 u0 res \<longleftrightarrow>
     (\<exists>rc k b u. res = Inr (rc, k, b, u) \<and> eof_step (package_eof p) onp k0 b0 u0 k b u \<and> eof_buf p b
        \<and> (rc = SW_OK \<and> eof_inv p k b \<and> rx_weight (sk_rx k) \<le> n \<or> rc = SW_ERR \<and> package_max_length p \<le> s_length b))"

lemma eof_postI:
  assumes "eof_step (package_eof p) onp k0 b0 u0 k b u" "eof_buf p b"
    and "rc = SW_OK \<and> eof_inv p k b \<and> rx_weight (sk_rx k) \<le> n \<or> rc = SW_ERR \<and> package_max_length p \<le> s_length b"
  shows "eof_post p onp n k0 b0 u0 (Inr (rc, k, b, u))"
  using assms unfolding eof_post_def by blast

lemma eof_post_trans:
  assumes "eof_post p onp m k1 b1 u1 res" "eof_step (package_eof p) onp k b u k1 b1 u1" "m \<le> n"
  shows "eof_post p onp n k b u res"
  using assms(1) unfolding eof_post_def
proof (elim exE conjE)
  fix rc k2 b2 u2
  assume r: "res = Inr (rc, k2, b2, u2)" "eof_step (package_eof p) onp k1 b1 u1 k2 b2 u2" "eof_buf p b2"
    "rc = SW_OK \<and> eof_inv p k2 b2 \<and> rx_weight (sk_rx k2) \<le> m \<or> rc = SW_ERR \<and> package_max_length p \<le> s_length b2"
  show "\<exists>rc k' b' u'. res = Inr (rc, k', b', u') \<and> eof_step (package_eof p) onp k b u k' b' u' \<and> eof_buf p b'
      \<and> (rc = SW_OK \<and> eof_inv p k' b' \<and> rx_weight (sk_rx k') \<le> n \<or> rc = SW_ERR \<and> package_max_length p \<le> s_length b')"
    using r eof_step_trans [OF assms(2) r(2)] assms(3) by (intro exI [of _ rc] exI [of _ k2] exI [of _ b2] exI [of _ u2]) auto
qed

lemma eof_extend_size:
  assumes "0 < s" "s < m" "m < 2 ^ 30" "0 < pg" "pg \<le> 2 ^ 20"
  shows "wrap32 (swoole_size_align (wrap64 (s * 2)) pg) = s * 2 + (pg - s * 2 mod pg)"
proof -
  have w: "wrap64 (s * 2) = s * 2" using assms by simp
  have b: "s * 2 + (pg - s * 2 mod pg) < 2 ^ 32" using assms by simp
  then have "swoole_size_align (s * 2) pg = s * 2 + (pg - s * 2 mod pg)" by (simp add: swoole_size_align_def)
  then show ?thesis using w b by simp
qed

lemma eof_room_ok:
  assumes set: "eof_setup p pagesize malloc onp" and b: "eof_buf p b"
  shows "eof_room p pagesize malloc True b = Inr None \<and> s_length b = package_max_length p \<or>
    (\<exists>b1. eof_room p pagesize malloc True b = Inr (Some (True, b1)) \<and> contents b1 = contents b \<and> eof_buf p b1
      \<and> (s_length b1 < s_size b1 \<or> package_max_length p \<le> s_length b1))"
proof -
  have m: "malloc_sized malloc" "malloc_total malloc" "package_max_length p < 2 ^ 30" "0 < pagesize" "pagesize \<le> 2 ^ 20"
    using set by (auto simp: eof_setup_def)
  have ok: "string_ok b" "8 < s_size b" "s_size b < 2 ^ 31" "scan_pos (package_eof p) b" using b by (auto simp: eof_buf_def)
  consider "s_length b = package_max_length p" | "s_length b \<noteq> package_max_length p" "s_length b = s_size b" "s_size b < package_max_length p"
    | "s_length b \<noteq> package_max_length p" "s_length b \<noteq> s_size b \<or> package_max_length p \<le> s_size b" by linarith
  then show ?thesis
  proof cases
    case 1
    then show ?thesis by (simp add: eof_room_def)
  next
    case 2
    define e where "e = s_size b * 2 + (pagesize - s_size b * 2 mod pagesize)"
    define n where "n = (if e > package_max_length p then package_max_length p else e)"
    have e: "wrap32 (swoole_size_align (wrap64 (s_size b * 2)) pagesize) = e"
      unfolding e_def by (rule eof_extend_size) (use 2(3) m ok in auto)
    have n: "s_size b < n" "n \<le> package_max_length p" using 2(3) ok(2) by (auto simp: n_def e_def)
    obtain b1 where r: "String_reserve malloc b n = Inr b1" using total_results(1) [OF m(2), of b n] by blast
    have sz: "s_size b1 < 2 ^ 31"
    proof -
      have "s_size b1 = SW_MEM_ALIGNED_SIZE n" using r ok(2) by (auto simp: String_reserve_def Let_def split: option.splits)
      then show ?thesis using aligned8_bounds [of n] n m(3) by simp
    qed
    have "s_length b \<le> n" "n < 2 ^ 60" using n m(3) 2(2) by auto
    from reserve_ok [OF r m(1) ok(1) this] have t: "string_ok b1" "contents b1 = contents b" "n \<le> s_size b1" "s_length b1 = s_length b" "s_offset b1 = s_offset b"
      using ok(2) by auto
    have "eof_room p pagesize malloc True b = Inr (Some (True, b1))"
      using 2 r n(1) by (simp add: eof_room_def Let_def e n_def [symmetric] String_extend_def)
    moreover have "eof_buf p b1" using t sz ok n(1) by (simp add: eof_buf_def scan_pos_def)
    ultimately show ?thesis using t 2(2) n(1) by auto
  next
    case 3
    then have "eof_room p pagesize malloc True b = Inr (Some (True, b))" by (auto simp: eof_room_def)
    then show ?thesis using b 3 ok(1) by (auto simp: string_ok_def)
  qed
qed

text \<open>A turn of the loop after the receive, when it goes on splitting.\<close>

lemma eof_turn:
  assumes set: "eof_setup p pagesize malloc onp" and k1: "\<not> sk_removed k1" "all_data (sk_rx k1)" "rx_weight (sk_rx k1) \<le> m"
    and b1: "string_ok b1" "8 < s_size b1" "s_size b1 < 2 ^ 31" "scanned (package_eof p) b1" "length (package_eof p) \<le> s_length b1"
    and IH: "\<And>b' u'. eof_inv p k1 b' \<Longrightarrow> eof_post p onp m k1 b' u' (R k1 b' u')"
  shows "eof_post p onp m k1 b1 u
    (case recv_split_by_eof p onp k1 b1 u of
       Inl e \<Rightarrow> Inl e
     | Inr (retval, k2, b2, u2) \<Rightarrow>
         if retval = SW_CONTINUE then
           (case eof_room p pagesize malloc True b2 of
              Inl e \<Rightarrow> Inl e
            | Inr None \<Rightarrow> Inr (SW_ERR, k2, b2, u2)
            | Inr (Some (again, b3)) \<Rightarrow> if again then R k2 b3 u2 else Inr (SW_OK, k2, b3, u2))
         else Inr (if retval = SW_CLOSE then SW_ERR else SW_OK, k2, b2, u2))"
    (is "eof_post p onp m k1 b1 u ?res")
proof -
  let ?d = "package_eof p"
  have st: "accepts onp" "0 < length ?d" using set by (auto simp: eof_setup_def)
  obtain ps r where ps: "packets ?d (contents b1) = (ps, r)" by fastforce
  let ?u = "handle_all onp u ps"
  have sl: "s_length b1 < 2 ^ 32" "s_length b1 \<le> s_size b1" using b1(1,3) by (auto simp: string_ok_def)
  from recv_split_ok [OF st(1) b1(1) sl(1) b1(4) k1(1) st(2) b1(5) ps, of u] obtain rc b2 where s:
    "recv_split_by_eof p onp k1 b1 u = Inr (rc, k1, b2, ?u)" "contents b2 = r" "string_ok b2" "s_size b2 = s_size b1"
    "scan_pos ?d b2" "rc = SW_CONTINUE \<or> rc = SW_SUCCESS \<and> s_length b2 < s_length b1" by blast
  have fut: "eof_step ?d onp k1 b1 u k1 b2 ?u" using eof_step_split [OF _ ps s(2), of onp k1 u] st(2) by auto
  have b2: "eof_buf p b2" using s b1 by (simp add: eof_buf_def)
  show ?thesis
  proof (cases "rc = SW_CONTINUE")
    case True
    consider (none) "eof_room p pagesize malloc True b2 = Inr None" "s_length b2 = package_max_length p"
      | (some) b3 where "eof_room p pagesize malloc True b2 = Inr (Some (True, b3))" "contents b3 = contents b2" "eof_buf p b3"
        "s_length b3 < s_size b3 \<or> package_max_length p \<le> s_length b3"
      using eof_room_ok [OF set b2] by blast
    then show ?thesis
    proof cases
      case none
      then show ?thesis using s(1) True fut b2 by (auto intro!: eof_postI)
    next
      case some
      then have "eof_post p onp m k1 b3 ?u (R k1 b3 ?u)" using k1 by (intro IH) (simp add: eof_inv_def)
      moreover have "eof_step ?d onp k1 b1 u k1 b3 ?u" by (rule eof_step_trans [OF fut eof_step_same]) (simp add: some(2))
      ultimately have "eof_post p onp m k1 b1 u (R k1 b3 ?u)" by (rule eof_post_trans) simp
      then show ?thesis using s(1) True some(1) by simp
    qed
  next
    case False
    then have "?res = Inr (SW_OK, k1, b2, ?u)" "s_length b2 < s_length b1" using s(1,6) by auto
    moreover have "eof_inv p k1 b2" using b2 calculation(2) sl(2) s(4) k1 by (simp add: eof_inv_def)
    ultimately show ?thesis using fut b2 k1(3) by (auto intro!: eof_postI)
  qed
qed

lemma recv_eof_ok:
  assumes set: "eof_setup p pagesize malloc onp" and inv: "eof_inv p k b"
  shows "eof_post p onp (rx_weight (sk_rx k) - 1) k b u (recv_eof p pagesize malloc ssl_pending onp again k b u)"
  using inv
proof (induction "rx_weight (sk_rx k)" arbitrary: again k b u rule: less_induct)
  case less
  let ?d = "package_eof p"
  have ok: "eof_buf p b" "string_ok b" "8 < s_size b" "s_size b < 2 ^ 31" "scan_pos ?d b" "\<not> sk_removed k" "all_data (sk_rx k)"
    "s_length b < s_size b \<or> package_max_length p \<le> s_length b"
    using less(2) by (auto simp: eof_inv_def eof_buf_def)
  have st: "accepts onp" "split_by_eof p" "0 < length ?d" "length ?d \<le> 8" using set by (auto simp: eof_setup_def)
  define n where "n = (if s_size b - s_length b > SW_BUFFER_SIZE_STD then SW_BUFFER_SIZE_STD else s_size b - s_length b)"
  have le: "s_length b \<le> s_size b" using ok(2) by (simp add: string_ok_def)
  then have sub: "sub64 (s_size b) (s_length b) = s_size b - s_length b" using ok(4) by simp
  consider "sk_rx k = []" | "sk_rx k \<noteq> []" "n = 0" | "sk_rx k \<noteq> []" "0 < n" by auto
  then show ?case
  proof cases
    case 1
    then have "recv_eof p pagesize malloc ssl_pending onp again k b u = Inr (SW_OK, k, b, u)"
      by (subst recv_eof.simps) (simp add: Let_def sock_recv_def)
    then show ?thesis using less(2) ok(1) 1 by (auto intro!: eof_postI eof_step_same)
  next
    case 2
    then have "s_length b = s_size b" using le by (auto simp: n_def SW_BUFFER_SIZE_STD_def split: if_splits)
    moreover have "sock_recv k n = (RECV [], k)" using 2 ok(7) by (cases "sk_rx k") (auto simp: sock_recv_def all_data_def split: rx.splits)
    then have "recv_eof p pagesize malloc ssl_pending onp again k b u = Inr (SW_ERR, k, b, u)"
      by (subst recv_eof.simps) (simp add: Let_def sub n_def [symmetric])
    ultimately show ?thesis using ok(1,8) by (auto intro!: eof_postI eof_step_same)
  next
    case 3
    from sock_recv_data [OF ok(7) 3] obtain d k1 where d: "sock_recv k n = (RECV d, k1)" "d \<noteq> []" "length d \<le> n"
      "rx_bytes (sk_rx k) = d @ rx_bytes (sk_rx k1)" "all_data (sk_rx k1)" "k\<lparr>sk_rx := sk_rx k1\<rparr> = k1"
      "rx_weight (sk_rx k1) < rx_weight (sk_rx k)" by blast
    have k1: "\<not> sk_removed k1" using ok(6) by (subst d(6) [symmetric], simp)
    define b1 where "b1 = recv_into b d"
    have "s_length b + length d \<le> s_size b" using d(3) le by (auto simp: n_def split: if_splits)
    note ri = recv_into_ok [OF ok(2) this, folded b1_def]
    have fut: "eof_step ?d onp k b u k1 b1 u" by (rule eof_step_same) (simp add: ri d(4))
    have sc: "scanned ?d b1" by (rule scan_pos_more [OF ok(2,5) ri(2,5,3)])
    have w: "rx_weight (sk_rx k1) \<le> rx_weight (sk_rx k) - 1" using d(7) by linarith
    show ?thesis
    proof (cases "s_length b1 < length ?d")
      case True
      then have go: "recv_eof p pagesize malloc ssl_pending onp again k b u = Inr (SW_OK, k1, b1, u)"
        using d(1,2) by (subst recv_eof.simps) (simp add: Let_def sub n_def [symmetric] b1_def [symmetric])
      have "scan_pos ?d b1" using True ok(5) ri length_contents [OF ri(1)] by (auto simp: scan_pos_def first_at_None occurs_at_def)
      then have "eof_buf p b1" using ri ok by (simp add: eof_buf_def)
      moreover from this have "eof_inv p k1 b1" using True st(4) ri(4) ok(3) k1 d(5) by (simp add: eof_inv_def)
      ultimately show ?thesis unfolding go using fut w by (auto intro!: eof_postI)
    next
      case False
      have b1: "8 < s_size b1" "s_size b1 < 2 ^ 31" "length ?d \<le> s_length b1" using ri(4) ok(3,4) False by auto
      have IH: "eof_post p onp (rx_weight (sk_rx k) - 1) k1 b' u' (recv_eof p pagesize malloc ssl_pending onp True k1 b' u')"
        if "eof_inv p k1 b'" for b' u'
        by (rule eof_post_trans [OF less(1) [OF d(7) that] eof_step_same [OF refl]]) (use w in linarith)
      note turn = eof_turn [OF set k1 d(5) w ri(1) b1(1,2) sc b1(3), where R = "recv_eof p pagesize malloc ssl_pending onp True", OF IH, of u]
      have go: "recv_eof p pagesize malloc ssl_pending onp again k b u =
         (case recv_split_by_eof p onp k1 b1 u of
            Inl e \<Rightarrow> Inl e
          | Inr (retval, k2, b2, u2) \<Rightarrow>
              if retval = SW_CONTINUE then
                (case eof_room p pagesize malloc True b2 of
                   Inl e \<Rightarrow> Inl e
                 | Inr None \<Rightarrow> Inr (SW_ERR, k2, b2, u2)
                 | Inr (Some (again, b3)) \<Rightarrow>
                     if again then recv_eof p pagesize malloc ssl_pending onp again k2 b3 u2 else Inr (SW_OK, k2, b3, u2))
              else Inr (if retval = SW_CLOSE then SW_ERR else SW_OK, k2, b2, u2))"
        using d(1,2) False st(2) by (subst recv_eof.simps) (simp add: Let_def sub n_def [symmetric] b1_def [symmetric])
      show ?thesis unfolding go by (rule eof_post_trans [OF _ fut order.refl]) (use turn in \<open>simp cong: sum.case_cong option.case_cong prod.case_cong if_cong\<close>)
    qed
  qed
qed

section \<open>The callback\<close>

definition eof_conn :: "Protocol \<Rightarrow> Socket \<Rightarrow> String option \<Rightarrow> bool" where
  "eof_conn p k rb \<longleftrightarrow> (case rb of None \<Rightarrow> \<not> sk_removed k \<and> all_data (sk_rx k) | Some b \<Rightarrow> eof_inv p k b)"

lemma eof_conn_buffer:
  assumes set: "eof_setup p pagesize malloc onp" and inv: "eof_conn p k rb"
  shows "\<exists>b. get_recv_buffer malloc rb = Inr b \<and> eof_inv p k b \<and> contents b = contents (rb_buf rb)"
proof (cases rb)
  case None
  have m: "malloc_sized malloc" "malloc_total malloc" and d: "0 < length (package_eof p)" using set by (auto simp: eof_setup_def)
  obtain b where b: "String_alloc malloc SW_BUFFER_SIZE_BIG = Inr b"
    using total_results(1) [OF m(2), of String_empty SW_BUFFER_SIZE_BIG] by (auto simp: String_reserve_def String_empty_def)
  have "s_size b = SW_MEM_ALIGNED_SIZE SW_BUFFER_SIZE_BIG" using b by (auto simp: String_alloc_def Let_def split: option.splits)
  then have sz: "s_size b = 65536" by (simp add: SW_BUFFER_SIZE_BIG_def aligned8)
  have "SW_BUFFER_SIZE_BIG < 2 ^ 60" by (simp add: SW_BUFFER_SIZE_BIG_def)
  from alloc_ok [OF b m(1) this] have a: "string_ok b" "contents b = []" "s_offset b = 0" "s_length b = 0" by auto
  have "first_at (package_eof p) [] = None" using d by (auto simp: first_at_None occurs_at_def)
  then have "eof_inv p k b" using None inv a sz by (simp add: eof_conn_def eof_inv_def eof_buf_def scan_pos_def)
  then show ?thesis using None a b String_empty_ok(2) by (simp add: get_recv_buffer_def rb_buf_def)
next
  case (Some b)
  then show ?thesis using inv by (simp add: get_recv_buffer_def eof_conn_def rb_buf_def)
qed

lemma callback_eof_ok:
  assumes set: "eof_setup p pagesize malloc onp" and inv: "eof_conn p k rb" and rx: "sk_rx k \<noteq> []"
  shows "\<exists>closed k' rb' u'. readable_callback_eof p pagesize malloc ssl_pending onp k rb u = Inr (closed, k', rb', u')
    \<and> eof_step (package_eof p) onp k (rb_buf rb) u k' (rb_buf rb') u'
    \<and> first_at (package_eof p) (contents (rb_buf rb')) = None
    \<and> (if closed then package_max_length p \<le> length (contents (rb_buf rb')) else eof_conn p k' rb' \<and> rx_weight (sk_rx k') < rx_weight (sk_rx k))"
proof -
  let ?d = "package_eof p"
  from eof_conn_buffer [OF set inv] obtain b where b: "get_recv_buffer malloc rb = Inr b" "eof_inv p k b" "contents b = contents (rb_buf rb)" by blast
  from recv_eof_ok [OF set b(2), of u ssl_pending False] obtain rc k1 b1 u1 where
    r: "recv_eof p pagesize malloc ssl_pending onp False k b u = Inr (rc, k1, b1, u1)" "eof_step ?d onp k b u k1 b1 u1" "eof_buf p b1"
    "rc = SW_OK \<and> eof_inv p k1 b1 \<and> rx_weight (sk_rx k1) \<le> rx_weight (sk_rx k) - 1 \<or> rc = SW_ERR \<and> package_max_length p \<le> s_length b1"
    unfolding eof_post_def by blast
  define rb1 where "rb1 = (if s_length b1 = 0 \<and> s_size b1 > SW_BUFFER_SIZE_BIG * 2 then None else Some b1)"
  have cb: "readable_callback_eof p pagesize malloc ssl_pending onp k rb u = Inr (rc < 0, k1, rb1, u1)"
    using b(1) r(1) by (simp add: readable_callback_eof_def recv_with_eof_protocol_def rb1_def)
  have cs: "contents (rb_buf rb1) = contents b1" using String_empty_ok(2) by (simp add: rb1_def rb_buf_def contents_def)
  have "0 < rx_weight (sk_rx k)" using rx by (cases "sk_rx k" rule: rx_weight.cases) auto
  moreover have "eof_step ?d onp k (rb_buf rb) u k1 (rb_buf rb1) u1" using r(2) cs b(3) by (simp add: eof_step_def)
  moreover have "first_at ?d (contents (rb_buf rb1)) = None" "length (contents (rb_buf rb1)) = s_length b1"
    using cs r(3) by (auto simp: eof_buf_def scan_pos_def)
  moreover have "eof_conn p k1 rb1" if "eof_inv p k1 b1" using that by (simp add: eof_conn_def rb1_def eof_inv_def)
  ultimately show ?thesis using cb r(4) by (auto simp: SW_OK_def SW_ERR_def)
qed

lemma serve_eof_ok:
  assumes "eof_setup p pagesize malloc onp" "eof_conn p k rb" "first_at (package_eof p) (contents (rb_buf rb)) = None" "rx_weight (sk_rx k) \<le> n"
  shows "\<exists>closed k' rb' u'. serve (readable_callback_eof p pagesize malloc ssl_pending onp) n k rb u = Inr (closed, k', rb', u')
    \<and> eof_step (package_eof p) onp k (rb_buf rb) u k' (rb_buf rb') u' \<and> first_at (package_eof p) (contents (rb_buf rb')) = None
    \<and> (if closed then package_max_length p \<le> length (contents (rb_buf rb')) else sk_rx k' = [])"
  using assms(2-4)
proof (induction n arbitrary: k rb u)
  case 0
  then have "sk_rx k = []" by (cases "sk_rx k" rule: rx_weight.cases) auto
  then show ?case using 0 eof_step_same [OF refl] by (auto intro!: exI [of _ False])
next
  case (Suc n)
  let ?cb = "readable_callback_eof p pagesize malloc ssl_pending onp" and ?d = "package_eof p"
  show ?case
  proof (cases "sk_rx k = []")
    case False
    from callback_eof_ok [OF assms(1) Suc(2) False, of ssl_pending u] obtain closed k1 rb1 u1 where 1: "?cb k rb u = Inr (closed, k1, rb1, u1)"
      "eof_step ?d onp k (rb_buf rb) u k1 (rb_buf rb1) u1" "first_at ?d (contents (rb_buf rb1)) = None"
      "if closed then package_max_length p \<le> length (contents (rb_buf rb1)) else eof_conn p k1 rb1 \<and> rx_weight (sk_rx k1) < rx_weight (sk_rx k)" by blast
    show ?thesis
    proof (cases closed)
      case True
      then show ?thesis using 1 False by (auto intro!: exI [of _ True])
    next
      case f: False
      then have "eof_conn p k1 rb1" "rx_weight (sk_rx k1) \<le> n" using 1 Suc(4) by auto
      from Suc(1) [OF this(1) 1(3) this(2), of u1] obtain closed2 k2 rb2 u2 where 2: "serve ?cb n k1 rb1 u1 = Inr (closed2, k2, rb2, u2)"
        "eof_step ?d onp k1 (rb_buf rb1) u1 k2 (rb_buf rb2) u2" "first_at ?d (contents (rb_buf rb2)) = None"
        "if closed2 then package_max_length p \<le> length (contents (rb_buf rb2)) else sk_rx k2 = []" by blast
      have "serve ?cb (Suc n) k rb u = Inr (closed2, k2, rb2, u2)" using 1(1) False f 2(1) by simp
      then show ?thesis using eof_step_trans [OF 1(2) 2(2)] 2(3,4) by blast
    qed
  qed (use Suc eof_step_same [OF refl] in \<open>auto intro!: exI [of _ False]\<close>)
qed

text \<open>C34: however the network cuts a stream into pieces, a port with an end-of-packet marker and
  \<open>split_by_eof\<close> hands exactly the packets of the stream to \<open>onPackage\<close>, in order, and keeps the data behind the last
  marker in the buffer: of the whole stream as long as the connection is open, and it is closed only
  when at least \<open>package_max_length\<close> bytes have come without a marker.
\<close>

theorem eof_protocol_stream:
  assumes "eof_setup p pagesize malloc onp" "all_data (sk_rx k)" "\<not> sk_removed k" "rx_weight (sk_rx k) \<le> n"
  shows "\<exists>closed k' rb' ps. serve (readable_callback_eof p pagesize malloc ssl_pending onp) n k None u = Inr (closed, k', rb', handle_all onp u ps)
    \<and> rx_bytes (sk_rx k) = concat ps @ contents (rb_buf rb') @ rx_bytes (sk_rx k')
    \<and> packets (package_eof p) (concat ps @ contents (rb_buf rb')) = (ps, contents (rb_buf rb'))
    \<and> (if closed then package_max_length p \<le> length (contents (rb_buf rb')) else sk_rx k' = [])"
proof -
  let ?cb = "readable_callback_eof p pagesize malloc ssl_pending onp" and ?d = "package_eof p"
  have d: "?d \<noteq> []" using assms(1) by (auto simp: eof_setup_def)
  have "eof_conn p k None" "first_at ?d (contents (rb_buf None)) = None"
    using assms(2,3) d String_empty_ok(2) by (auto simp: eof_conn_def rb_buf_def first_at_None occurs_at_def)
  from serve_eof_ok [OF assms(1) this assms(4), of ssl_pending u] obtain closed k' rb' u' where s: "serve ?cb n k None u = Inr (closed, k', rb', u')"
    "eof_step ?d onp k (rb_buf None) u k' (rb_buf rb') u'" "first_at ?d (contents (rb_buf rb')) = None"
    "if closed then package_max_length p \<le> length (contents (rb_buf rb')) else sk_rx k' = []"
    by blast
  have e: "contents (rb_buf None) = []" using String_empty_ok(2) by (simp add: rb_buf_def)
  obtain ps where ps: "u' = handle_all onp u ps" "rx_bytes (sk_rx k) = concat ps @ contents (rb_buf rb') @ rx_bytes (sk_rx k')"
    "packets ?d (rx_bytes (sk_rx k)) =
      (ps @ fst (packets ?d (contents (rb_buf rb') @ rx_bytes (sk_rx k'))), snd (packets ?d (contents (rb_buf rb') @ rx_bytes (sk_rx k'))))"
    using s(2) unfolding eof_step_def e append_Nil by blast
  have sub: "set ps \<subseteq> set (fst (packets ?d (rx_bytes (sk_rx k))))" unfolding ps(3) by simp
  have "packets ?d (concat ps @ contents (rb_buf rb')) = (ps, contents (rb_buf rb'))"
    using packets_prefix [OF d sub] packets_None [OF s(3)] by simp
  then show ?thesis using s(1,4) ps(1,2) by blast
qed

theorem eof_protocol_stream_witness:
  "\<exists>k' rb'. serve (readable_callback_eof (set_eof_protocol ListenPort_protocol [13, 10] False) 4096 zero_malloc (\<lambda>k. False) collect) 99
       (idle_socket [[1, 13], [10, 2, 3], [13, 10, 13, 10, 4]]) None []
     = Inr (False, k', rb', [[1, 13, 10], [2, 3, 13, 10], [13, 10]]) \<and> contents (rb_buf rb') = [4]"
proof -
  let ?p = "set_eof_protocol ListenPort_protocol [13, 10] False" and ?k = "idle_socket [[1, 13], [10, 2, 3], [13, 10, 13, 10, 4]]"
  have p: "package_eof ?p = [13, 10]" "package_max_length ?p = 2097152" "split_by_eof ?p"
    by (simp_all add: set_eof_protocol_def ListenPort_protocol_def)
  have b: "rx_bytes (sk_rx ?k) = [1, 13, 10, 2, 3, 13, 10, 13, 10, 4]" by (simp add: idle_socket_def rx_bytes_def)
  have c: "packets [13, 10] [1, 13, 10, 2, 3, 13, 10, 13, 10, 4] = ([[1, 13, 10], [2, 3, 13, 10], [13, 10]], [4])" by code_simp
  have s: "eof_setup ?p 4096 zero_malloc collect" using zero_malloc_ok p by (simp add: eof_setup_def accepts_def collect_def)
  have k: "all_data (sk_rx ?k)" "\<not> sk_removed ?k" "rx_weight (sk_rx ?k) \<le> 99" by (simp_all add: idle_socket_def all_data_def)
  from eof_protocol_stream [OF s k, of "\<lambda>k. False" "[]"] obtain closed k' rb' ps where
    r: "serve (readable_callback_eof ?p 4096 zero_malloc (\<lambda>k. False) collect) 99 ?k None [] = Inr (closed, k', rb', handle_all collect [] ps)"
    "[1, 13, 10, 2, 3, 13, 10, 13, 10, 4] = concat ps @ contents (rb_buf rb') @ rx_bytes (sk_rx k')"
    "packets [13, 10] (concat ps @ contents (rb_buf rb')) = (ps, contents (rb_buf rb'))"
    "if closed then 2097152 \<le> length (contents (rb_buf rb')) else sk_rx k' = []" unfolding b p by blast
  have "length (contents (rb_buf rb')) \<le> 10" using arg_cong [OF r(2), of length] by simp
  then have nc: "\<not> closed" "rx_bytes (sk_rx k') = []" using r(4) by (auto simp: rx_bytes_def split: if_splits)
  then have ps: "ps = [[1, 13, 10], [2, 3, 13, 10], [13, 10]]" "contents (rb_buf rb') = [4]" using r(2,3) c by auto
  show ?thesis using r(1) nc(1) ps(2) unfolding ps(1) by (simp add: handle_all_def collect_def)
qed

end
