(* ===== verification/Sw_Framing.thy ===== *)
theory Sw_Framing
  imports Sw_WebSocket Sw_Protocol
begin

text \<open>
  WebSocket frames through the receive loop of the length protocol: \<open>websocket::get_package_length\<close> keeps
  the contract of a length function, and the frames that a peer encodes reach \<open>onPackage\<close> one by one.
\<close>

section \<open>Packets that tell their own length\<close>

lemma cut_concat:
  assumes "\<And>f z. f \<in> set fs \<Longrightarrow> plen (f @ z) = int (length f) \<and> f \<noteq> [] \<and> length f \<le> mx"
  shows "cut plen mx (concat fs @ z) = (fs @ fst (cut plen mx z), snd (cut plen mx z))"
  using assms
proof (induction fs)
  case (Cons f fs)
  from Cons(2) [of f "concat fs @ z"] have f: "plen (f @ concat fs @ z) = int (length f)" "0 < length f" "length f \<le> mx" by auto
  from cut_step [of plen "f @ concat fs @ z" mx] f show ?case using Cons by simp
qed simp

section \<open>WebSocket\<close>

definition SW_WEBSOCKET_FRAME_HEADER_SIZE :: nat where
  "SW_WEBSOCKET_FRAME_HEADER_SIZE = SW_WEBSOCKET_HEADER_LEN + SW_WEBSOCKET_MASK_LEN + 8"

definition ws_plen :: "bytes \<Rightarrow> int" where
  "ws_plen b = fst (get_package_length_impl b (length b) 0)"

text \<open>The length field of a frame: its width and its value.\<close>

definition ws_ext :: "bytes \<Rightarrow> nat" where
  "ws_ext b = (let l = unat (b ! 1 AND 0x7f) in if l = 126 then 2 else if l = 127 then 8 else 0)"

definition ws_need :: "bytes \<Rightarrow> nat" where
  "ws_need b = 2 + ws_ext b + (if drop_bit 7 (b ! 1) AND 1 \<noteq> 0 then 4 else 0)"

definition ws_paylen :: "bytes \<Rightarrow> nat" where
  "ws_paylen b = (let l = unat (b ! 1 AND 0x7f) in
     if l = 126 then swap_bytes 2 (load 2 (drop 2 b)) else if l = 127 then unat (swoole_ntoh64 (of_nat (load 8 (drop 2 b)))) else l)"

lemma ws_plen_eq:
  "ws_plen b = (if length b < 2 \<or> length b < ws_need b then 0
     else if to_signed 64 (ws_paylen b) < 0 then -1 else to_int64 (int (ws_need b) + to_signed 64 (ws_paylen b)))"
  by (auto simp: ws_plen_def get_package_length_impl_def ws_need_def ws_ext_def ws_paylen_def Let_def
      SW_WEBSOCKET_HEADER_LEN_def SW_WEBSOCKET_MASK_LEN_def SW_WEBSOCKET_EXT16_LENGTH_def SW_WEBSOCKET_EXT64_LENGTH_def)

lemma ws_fields_append:
  assumes "2 \<le> length b" "ws_need b \<le> length b"
  shows "ws_need (b @ c) = ws_need b" "ws_paylen (b @ c) = ws_paylen b"
proof -
  have i: "(b @ c) ! 1 = b ! 1" using assms(1) by (simp add: nth_append)
  show "ws_need (b @ c) = ws_need b" by (simp only: ws_need_def ws_ext_def i)
  have "2 + ws_ext b \<le> length b" using assms(2) by (simp add: ws_need_def split: if_splits)
  then show "ws_paylen (b @ c) = ws_paylen b" using assms(1) unfolding ws_paylen_def i by (auto simp: ws_ext_def Let_def)
qed

lemma ws_packet_length: "packet_length ws_plen SW_WEBSOCKET_FRAME_HEADER_SIZE"
proof
  show "ws_plen [] = 0" by (simp add: ws_plen_eq)
  show "length b < SW_WEBSOCKET_FRAME_HEADER_SIZE" if "ws_plen b = 0" for b
  proof (rule ccontr)
    assume a: "\<not> length b < SW_WEBSOCKET_FRAME_HEADER_SIZE"
    have n: "2 \<le> ws_need b" "ws_need b \<le> 14" by (auto simp: ws_need_def ws_ext_def Let_def)
    have "14 \<le> length b" using a by (simp add: SW_WEBSOCKET_FRAME_HEADER_SIZE_def SW_WEBSOCKET_HEADER_LEN_def SW_WEBSOCKET_MASK_LEN_def)
    then have z: "0 \<le> to_signed 64 (ws_paylen b)" "to_int64 (int (ws_need b) + to_signed 64 (ws_paylen b)) = 0"
      using that n by (auto simp: ws_plen_eq split: if_splits)
    have "ws_paylen b < 2 ^ 64"
    proof -
      have "swap_bytes 2 v < 2 ^ 64" for v
        using le_value_less [of "rev (le_bytes 2 v)"] by (simp add: swap_bytes_def)
      moreover have "unat (w :: u64) < 2 ^ 64" for w using unsigned_less [of w] by simp
      ultimately show ?thesis using unat_byte_less [of "b ! 1 AND 0x7f"]
        by (auto simp: ws_paylen_def Let_def)
    qed
    then have "to_signed 64 (ws_paylen b) < 2 ^ 63" using to_signed_less [of "ws_paylen b" 64] by simp
    then show False using to_int64_nonzero [of "int (ws_need b) + to_signed 64 (ws_paylen b)"] z n by simp
  qed
  show "ws_plen (b @ c) = ws_plen b" if "ws_plen b \<noteq> 0" for b c
  proof -
    have "2 \<le> length b" "ws_need b \<le> length b" using that by (auto simp: ws_plen_eq split: if_splits)
    then show ?thesis using ws_fields_append [of b c] by (simp add: ws_plen_eq)
  qed
qed

interpretation ws: packet_length ws_plen SW_WEBSOCKET_FRAME_HEADER_SIZE
  by (rule ws_packet_length)

text \<open>The protocol of a WebSocket port, as \<open>ListenPort::init_protocol\<close> sets it.\<close>

definition websocket_protocol :: "Protocol \<Rightarrow> Protocol" where
  "websocket_protocol p = p\<lparr>package_length_size := SW_WEBSOCKET_FRAME_HEADER_SIZE, package_length_offset := 0, package_body_offset := 0\<rparr>"

lemma ws_frame_length:
  assumes "ws_valid op fl (length p)"
  shows "ws_plen (ws_frame op fl p @ z) = int (length (ws_frame op fl p))" "ws_frame op fl p \<noteq> []"
proof -
  have f: "ws_frame op fl p = ws_head op fl (length p) @ ws_body fl p" by (simp add: ws_frame_def encode_form [OF assms])
  have l: "length p < 2 ^ 32 - 14" using assms by (simp add: ws_valid_def)
  show "ws_plen (ws_frame op fl p @ z) = int (length (ws_frame op fl p))"
    using package_length_head [OF l, of op fl _ "ws_body fl p @ z" 0] by (simp add: ws_plen_def f)
  show "ws_frame op fl p \<noteq> []" by (simp add: f ws_head_def)
qed

text \<open>C8: frames that a peer has encoded with \<open>websocket::encode\<close>, of any opcodes, flags and payloads that fit
  \<open>package_max_length\<close>, sent back to back and cut into pieces in any way, are handed to \<open>onPackage\<close> one by one, each
  complete and in order; nothing is left in the receive buffer and the connection stays open.
\<close>

theorem websocket_stream:
  assumes "receiver (websocket_protocol p) SW_WEBSOCKET_FRAME_HEADER_SIZE SW_WEBSOCKET_FRAME_HEADER_SIZE malloc onp"
    and "\<forall>(op, fl, d)\<in>set fs. ws_valid op fl (length d) \<and> length (ws_frame op fl d) \<le> package_max_length p"
    and "rx_bytes (sk_rx k) = concat (map (\<lambda>(op, fl, d). ws_frame op fl d) fs)" "all_data (sk_rx k)"
    and "\<not> sk_removed k" "\<not> sk_skip_recv k" "\<not> sk_recv_wait k" "rx_weight (sk_rx k) \<le> n"
  shows "\<exists>k' rb'. serve (readable_callback_length (websocket_protocol p) ws_plen None malloc onp) n k None u
      = Inr (False, k', rb', handle_all onp u (map (\<lambda>(op, fl, d). ws_frame op fl d) fs))
    \<and> sk_rx k' = [] \<and> contents (rb_buf rb') = []"
proof -
  let ?fs = "map (\<lambda>(op, fl, d). ws_frame op fl d) fs" and ?p = "websocket_protocol p"
  have mx: "package_max_length ?p = package_max_length p" "package_length_size ?p = SW_WEBSOCKET_FRAME_HEADER_SIZE"
    by (simp_all add: websocket_protocol_def)
  have "cut ws_plen (package_max_length ?p) (concat ?fs @ []) = (?fs @ fst (cut ws_plen (package_max_length ?p) []), snd (cut ws_plen (package_max_length ?p) []))"
    by (rule cut_concat) (use assms(2) ws_frame_length mx in fastforce)
  moreover have "cut ws_plen m [] = ([], [])" for m by (rule cut_stop) (simp add: ws.plen_empty)
  ultimately have c: "cut ws_plen (package_max_length ?p) (contents (rb_buf None) @ rx_bytes (sk_rx k)) = (?fs, [])"
    using assms(3) String_empty_ok(2) by (simp add: rb_buf_def)
  have i: "conn_inv ws_plen SW_WEBSOCKET_FRAME_HEADER_SIZE (package_max_length ?p) k None" using assms(4-7) by (simp add: conn_inv_def)
  from ws.serve_length_ok [OF assms(1) _ _ c i assms(8), of None u] show ?thesis
    using ws.plen_empty mx by (auto simp: bad_length_def)
qed

theorem websocket_stream_witness:
  "\<exists>k' rb'. serve (readable_callback_length (websocket_protocol ListenPort_protocol) ws_plen None zero_malloc collect) 99
      (idle_socket [[129], [2, 72, 105, 138], [0]]) None []
    = Inr (False, k', rb', [ws_frame 1 1 [72, 105], ws_frame 10 1 []]) \<and> contents (rb_buf rb') = []"
proof -
  let ?k = "idle_socket [[129], [2, 72, 105, 138], [0]]" and ?fs = "[(1, 1, [72, 105]), (10, 1, [])] :: (nat \<times> byte \<times> bytes) list"
  have f: "ws_frame 1 1 [72, 105] = [129, 2, 72, 105]" "ws_frame 10 1 [] = [138, 0]" by code_simp+
  have v: "ws_valid 1 1 (length ([72, 105] :: bytes))" "ws_valid 10 1 (length ([] :: bytes))"
    by (simp_all add: ws_valid_def has_flag_def is_control_frame_def opcode_defs FLAG_ENCODE_HEADER_ONLY_def FLAG_FIN_def FLAG_RSV1_def)
  have "receiver (websocket_protocol ListenPort_protocol) SW_WEBSOCKET_FRAME_HEADER_SIZE SW_WEBSOCKET_FRAME_HEADER_SIZE zero_malloc collect"
    using zero_malloc_ok by (simp add: receiver_def accepts_def collect_def websocket_protocol_def ListenPort_protocol_def SW_BUFFER_SIZE_BIG_def
        SW_WEBSOCKET_FRAME_HEADER_SIZE_def SW_WEBSOCKET_HEADER_LEN_def SW_WEBSOCKET_MASK_LEN_def)
  moreover have "\<forall>(op, fl, d)\<in>set ?fs. ws_valid op fl (length d) \<and> length (ws_frame op fl d) \<le> package_max_length ListenPort_protocol"
    using v f by (simp add: ListenPort_protocol_def)
  moreover have "rx_bytes (sk_rx ?k) = concat (map (\<lambda>(op, fl, d). ws_frame op fl d) ?fs)" "all_data (sk_rx ?k)"
    "\<not> sk_removed ?k" "\<not> sk_skip_recv ?k" "\<not> sk_recv_wait ?k" "rx_weight (sk_rx ?k) \<le> 99"
    using f by (simp_all add: idle_socket_def rx_bytes_def all_data_def)
  ultimately have "\<exists>k' rb'. serve (readable_callback_length (websocket_protocol ListenPort_protocol) ws_plen None zero_malloc collect) 99 ?k None []
      = Inr (False, k', rb', handle_all collect [] (map (\<lambda>(op, fl, d). ws_frame op fl d) ?fs)) \<and> sk_rx k' = [] \<and> contents (rb_buf rb') = []"
    by (rule websocket_stream)
  then show ?thesis by (auto simp: handle_all_def collect_def)
qed

end
