(* ===== verification/Sw_MessageBus.thy ===== *)
theory Sw_MessageBus
  imports Sw_Protocol
begin

text \<open>
  \<open>MessageBus\<close> of \<open>src/protocol/message_bus.cc\<close>: packets between the processes of the server, cut into chunks when
  they do not fit into a datagram, and put together again by message id. A pipe is the list of the
  datagrams in it; the results of the sends, the allocator and the message ids are parameters.
\<close>

unbundle bit_operations_syntax

section \<open>Data\<close>

text \<open>\<open>DataHead\<close>; \<open>dh_time\<close> is a time stamp that is only copied.\<close>

record DataHead =
  dh_fd :: int
  dh_msg_id :: nat
  dh_len :: nat
  dh_reactor_id :: int
  dh_type :: nat
  dh_flags :: byte
  dh_server_fd :: nat
  dh_ext_flags :: nat
  dh_time :: int

definition sizeof_DataHead :: nat where "sizeof_DataHead = 40"

definition SW_EVENT_DATA_PTR :: byte where "SW_EVENT_DATA_PTR = 2"
definition SW_EVENT_DATA_CHUNK :: byte where "SW_EVENT_DATA_CHUNK = 4"
definition SW_EVENT_DATA_BEGIN :: byte where "SW_EVENT_DATA_BEGIN = 8"
definition SW_EVENT_DATA_END :: byte where "SW_EVENT_DATA_END = 16"
definition SW_EVENT_DATA_OBJ_PTR :: byte where "SW_EVENT_DATA_OBJ_PTR = 32"

lemmas event_flags = SW_EVENT_DATA_PTR_def SW_EVENT_DATA_CHUNK_def SW_EVENT_DATA_BEGIN_def SW_EVENT_DATA_END_def SW_EVENT_DATA_OBJ_PTR_def

definition SW_WORKER_MAX_RECV_CHUNK_COUNT :: nat where "SW_WORKER_MAX_RECV_CHUNK_COUNT = 32"
definition SW_IPC_MSG_MIN :: nat where "SW_IPC_MSG_MIN = 2048 - sizeof_DataHead"

definition is_begin :: "DataHead \<Rightarrow> bool" where "is_begin h \<longleftrightarrow> dh_flags h AND SW_EVENT_DATA_BEGIN \<noteq> 0"
definition is_chunked :: "DataHead \<Rightarrow> bool" where "is_chunked h \<longleftrightarrow> dh_flags h AND SW_EVENT_DATA_CHUNK \<noteq> 0"
definition is_end :: "DataHead \<Rightarrow> bool" where "is_end h \<longleftrightarrow> dh_flags h AND SW_EVENT_DATA_END \<noteq> 0"

text \<open>What the data area of the buffer holds: bytes, a \<open>PacketPtr\<close>, or the pointer to a string of the pool, named by its message id.\<close>

datatype pipe_data = PIPE_BYTES bytes | PIPE_PTR bytes | PIPE_OBJ nat

record MessageBus =
  mb_pool :: "nat \<rightharpoonup> String"
  mb_buffer_size :: nat
  mb_chunked_transfer :: bool
  mb_info :: DataHead
  mb_data :: pipe_data

definition set_buffer_size :: "MessageBus \<Rightarrow> nat \<Rightarrow> MessageBus" where
  "set_buffer_size mb n = mb\<lparr>mb_buffer_size := n\<rparr>"

definition set_always_chunked_transfer :: "MessageBus \<Rightarrow> MessageBus" where
  "set_always_chunked_transfer mb = mb\<lparr>mb_chunked_transfer := True\<rparr>"

definition mb_empty :: "MessageBus \<Rightarrow> bool" where
  "mb_empty mb \<longleftrightarrow> mb_pool mb = Map.empty"

definition mb_clear :: "MessageBus \<Rightarrow> MessageBus" where
  "mb_clear mb = mb\<lparr>mb_pool := Map.empty\<rparr>"

section \<open>Receiving\<close>

text \<open>\<open>get_packet\<close>; \<open>None\<close> where the data area does not hold what the flags say.\<close>

definition get_packet :: "MessageBus \<Rightarrow> bytes option" where
  "get_packet mb =
     (if dh_flags (mb_info mb) AND SW_EVENT_DATA_PTR \<noteq> 0 then
        (case mb_data mb of PIPE_PTR d \<Rightarrow> Some d | _ \<Rightarrow> None)
      else if dh_flags (mb_info mb) AND SW_EVENT_DATA_OBJ_PTR \<noteq> 0 then
        (case mb_data mb of PIPE_OBJ i \<Rightarrow> map_option contents (mb_pool mb i) | _ \<Rightarrow> None)
      else (case mb_data mb of PIPE_BYTES d \<Rightarrow> Some (take (dh_len (mb_info mb)) d) | _ \<Rightarrow> None))"

text \<open>\<open>pass\<close>: a task of this process, without a copy.\<close>

definition mb_pass :: "MessageBus \<Rightarrow> DataHead \<Rightarrow> bytes \<Rightarrow> MessageBus" where
  "mb_pass mb h d =
     (if dh_len h > 0
      then mb\<lparr>mb_info := h\<lparr>dh_flags := SW_EVENT_DATA_PTR, dh_len := 16\<rparr>, mb_data := PIPE_PTR (take (dh_len h) d)\<rparr>
      else mb\<lparr>mb_info := h\<rparr>)"

text \<open>\<open>move_packet\<close>: the memory of the packet passes to the caller; the string keeps its length.\<close>

definition move_packet :: "MessageBus \<Rightarrow> bytes option \<times> MessageBus" where
  "move_packet mb =
     (case mb_pool mb (dh_msg_id (mb_info mb)) of
        None \<Rightarrow> (None, mb)
      | Some s \<Rightarrow> (Some (s_str s), mb\<lparr>mb_pool := (mb_pool mb)(dh_msg_id (mb_info mb) \<mapsto> s\<lparr>s_str := []\<rparr>)\<rparr>))"

definition mb_pop :: "MessageBus \<Rightarrow> MessageBus" where
  "mb_pop mb = (if is_end (mb_info mb) then mb\<lparr>mb_pool := (mb_pool mb)(dh_msg_id (mb_info mb) := None)\<rparr> else mb)"

definition get_packet_buffer :: "(nat \<Rightarrow> bytes option) \<Rightarrow> MessageBus \<Rightarrow> string_error + (String \<times> MessageBus) option" where
  "get_packet_buffer malloc mb =
     (case mb_pool mb (dh_msg_id (mb_info mb)) of
        Some s \<Rightarrow> Inr (Some (s, mb))
      | None \<Rightarrow>
          if \<not> is_begin (mb_info mb) then Inr None
          else case String_alloc malloc (dh_len (mb_info mb)) of
                 Inl e \<Rightarrow> Inl e
               | Inr s \<Rightarrow> Inr (Some (s, mb\<lparr>mb_pool := (mb_pool mb)(dh_msg_id (mb_info mb) \<mapsto> s)\<rparr>)))"

definition prepare_packet :: "MessageBus \<Rightarrow> nat \<Rightarrow> ReturnCode \<times> nat \<times> MessageBus" where
  "prepare_packet mb recv_chunk_count0 =
     (let recv_chunk_count = (recv_chunk_count0 + 1) mod 2 ^ 16 in
      if \<not> is_end (mb_info mb) then
        (if recv_chunk_count \<ge> SW_WORKER_MAX_RECV_CHUNK_COUNT then SW_WAIT else SW_CONTINUE, recv_chunk_count, mb)
      else
        (SW_READY, recv_chunk_count,
         mb\<lparr>mb_info := (mb_info mb)\<lparr>dh_flags := dh_flags (mb_info mb) OR SW_EVENT_DATA_OBJ_PTR\<rparr>, mb_data := PIPE_OBJ (dh_msg_id (mb_info mb))\<rparr>))"

datatype pipe_event = DGRAM DataHead bytes | PIPE_EOF | PIPE_ERR ReturnCode

text \<open>\<open>read\<close>: peek at the head, then the datagram; the rest of a datagram that is not asked for is lost.\<close>

fun mb_read :: "(nat \<Rightarrow> bytes option) \<Rightarrow> MessageBus \<Rightarrow> pipe_event list \<Rightarrow> nat \<Rightarrow> string_error + (int \<times> MessageBus \<times> pipe_event list)" where
  "mb_read malloc mb [] cnt = Inr (SW_OK, mb, [])"
| "mb_read malloc mb (PIPE_ERR e # r) cnt = Inr (if e = SW_WAIT then SW_OK else SW_ERR, mb, r)"
| "mb_read malloc mb (PIPE_EOF # r) cnt = Inr (SW_ERR, mb, r)"
| "mb_read malloc mb (DGRAM h d # r) cnt =
     (let mb1 = mb\<lparr>mb_info := h\<rparr> in
      if \<not> is_chunked h then
        Inr (int (sizeof_DataHead + length (take (dh_len h) d)), mb1\<lparr>mb_data := PIPE_BYTES (take (dh_len h) d)\<rparr>, r)
      else
        case get_packet_buffer malloc mb1 of
          Inl e \<Rightarrow> Inl e
        | Inr None \<Rightarrow> Inr (SW_OK, mb1, r)
        | Inr (Some (s, mb2)) \<Rightarrow>
            let remain_len = sub64 (dh_len h) (s_length s);
                c = take (min (sub64 (mb_buffer_size mb2) sizeof_DataHead) remain_len) d;
                mb3 = mb2\<lparr>mb_pool := (mb_pool mb2)(dh_msg_id h \<mapsto> recv_into s c)\<rparr>
            in
            case prepare_packet mb3 cnt of
              (SW_READY, cnt1, mb4) \<Rightarrow> Inr (int (sizeof_DataHead + length c), mb4, r)
            | (SW_CONTINUE, cnt1, mb4) \<Rightarrow> mb_read malloc mb4 r cnt1
            | (SW_WAIT, cnt1, mb4) \<Rightarrow> Inr (SW_OK, mb4, r)
            | (_, cnt1, mb4) \<Rightarrow> Inl ASSERTION_FAILED)"

text \<open>\<open>read_with_buffer\<close>: the datagram is read into the buffer and appended from there.\<close>

fun mb_read_with_buffer :: "(nat \<Rightarrow> bytes option) \<Rightarrow> MessageBus \<Rightarrow> pipe_event list \<Rightarrow> nat \<Rightarrow> string_error + (int \<times> MessageBus \<times> pipe_event list)" where
  "mb_read_with_buffer malloc mb [] cnt = Inr (SW_OK, mb, [])"
| "mb_read_with_buffer malloc mb (PIPE_ERR e # r) cnt = Inr (if e = SW_WAIT then SW_OK else SW_ERR, mb, r)"
| "mb_read_with_buffer malloc mb (PIPE_EOF # r) cnt = Inr (SW_ERR, mb, r)"
| "mb_read_with_buffer malloc mb (DGRAM h d # r) cnt0 =
     (let c = take (sub64 (mb_buffer_size mb) sizeof_DataHead) d;
          mb1 = mb\<lparr>mb_info := h, mb_data := PIPE_BYTES c\<rparr>;
          recv_n = int (sizeof_DataHead + length c);
          cnt = (cnt0 + 1) mod 2 ^ 16
      in
      if \<not> is_chunked h then Inr (recv_n, mb1, r)
      else
        case get_packet_buffer malloc mb1 of
          Inl e \<Rightarrow> Inl e
        | Inr None \<Rightarrow> Inr (SW_ERR, mb1, r)
        | Inr (Some (s, mb2)) \<Rightarrow>
            case String_append malloc s c of
              Inl e \<Rightarrow> Inl e
            | Inr s1 \<Rightarrow>
                case prepare_packet (mb2\<lparr>mb_pool := (mb_pool mb2)(dh_msg_id h \<mapsto> s1)\<rparr>) cnt of
                  (SW_READY, cnt1, mb4) \<Rightarrow> Inr (recv_n, mb4, r)
                | (SW_CONTINUE, cnt1, mb4) \<Rightarrow> mb_read_with_buffer malloc mb4 r cnt1
                | (SW_WAIT, cnt1, mb4) \<Rightarrow> Inr (SW_OK, mb4, r)
                | (_, cnt1, mb4) \<Rightarrow> Inl ASSERTION_FAILED)"

section \<open>Sending\<close>

datatype send_result = SEND_OK | SEND_ERR ReturnCode

definition next_send :: "send_result list \<Rightarrow> send_result \<times> send_result list" where
  "next_send rs = (case rs of [] \<Rightarrow> (SEND_OK, []) | r # rs \<Rightarrow> (r, rs))"

text \<open>The loop of \<open>write\<close>: whether all was sent, and the datagrams sent. It does not end when no datagram can hold any data.\<close>

partial_function (option) mb_write_loop :: "send_result list \<Rightarrow> nat \<Rightarrow> nat \<Rightarrow> nat \<Rightarrow> DataHead \<Rightarrow> bytes
    \<Rightarrow> (DataHead \<times> bytes) list \<Rightarrow> (bool \<times> (DataHead \<times> bytes) list) option" where
  "mb_write_loop rs max_length l_payload off info payload out =
     (if l_payload > 0 then
        let copy_n = (if l_payload > max_length then max_length else l_payload);
            info1 = (if l_payload > max_length then info else info\<lparr>dh_flags := dh_flags info OR SW_EVENT_DATA_END\<rparr>) in
        case next_send rs of
          (SEND_ERR e, rs1) \<Rightarrow>
            if e = SW_REDUCE_SIZE \<and> max_length > SW_IPC_MSG_MIN
            then mb_write_loop rs1 SW_IPC_MSG_MIN l_payload off (info1\<lparr>dh_flags := dh_flags info1 AND NOT SW_EVENT_DATA_END\<rparr>) payload out
            else Some (False, out)
        | (SEND_OK, rs1) \<Rightarrow>
            mb_write_loop rs1 max_length (l_payload - copy_n) (off + copy_n) (info1\<lparr>dh_flags := dh_flags info1 AND NOT SW_EVENT_DATA_BEGIN\<rparr>)
              payload (out @ [(info1, bytes_at payload off copy_n)])
      else Some (True, out))"

declare mb_write_loop.simps [code]

definition mb_write_chunks :: "send_result list \<Rightarrow> nat \<Rightarrow> DataHead \<Rightarrow> bytes \<Rightarrow> (bool \<times> (DataHead \<times> bytes) list) option" where
  "mb_write_chunks rs max_length info payload =
     mb_write_loop rs max_length (dh_len info) 0 (info\<lparr>dh_flags := SW_EVENT_DATA_CHUNK OR SW_EVENT_DATA_BEGIN\<rparr>) payload []"

text \<open>\<open>write\<close>, with the id from \<open>id_generator_\<close>; \<open>None\<close> for a payload is the null pointer.\<close>

definition mb_write :: "MessageBus \<Rightarrow> send_result list \<Rightarrow> nat \<Rightarrow> DataHead \<Rightarrow> bytes option \<Rightarrow> (bool \<times> (DataHead \<times> bytes) list) option" where
  "mb_write mb rs msg_id info0 data =
     (let info = info0\<lparr>dh_msg_id := msg_id\<rparr>;
          max_length = wrap32 (sub64 (mb_buffer_size mb) sizeof_DataHead)
      in
      case data of
        None \<Rightarrow> (case next_send rs of (SEND_OK, _) \<Rightarrow> Some (True, [(info\<lparr>dh_flags := 0, dh_len := 0\<rparr>, [])]) | _ \<Rightarrow> Some (False, []))
      | Some payload \<Rightarrow>
          if dh_len info = 0 then
            (case next_send rs of (SEND_OK, _) \<Rightarrow> Some (True, [(info\<lparr>dh_flags := 0, dh_len := 0\<rparr>, [])]) | _ \<Rightarrow> Some (False, []))
          else if \<not> mb_chunked_transfer mb \<and> dh_len info \<le> max_length then
            (case next_send rs of
               (SEND_OK, _) \<Rightarrow> Some (True, [(info\<lparr>dh_flags := 0\<rparr>, bytes_at payload 0 (dh_len info))])
             | (SEND_ERR e, rs1) \<Rightarrow>
                 if e = SW_REDUCE_SIZE \<and> max_length > SW_IPC_MSG_MIN then mb_write_chunks rs1 SW_IPC_MSG_MIN info payload
                 else Some (False, []))
          else mb_write_chunks rs max_length info payload)"

section \<open>Messages on the wire\<close>

fun wire_chunks :: "DataHead \<Rightarrow> bool \<Rightarrow> bytes list \<Rightarrow> (DataHead \<times> bytes) list" where
  "wire_chunks h first [] = []"
| "wire_chunks h first (c # cs) = (h\<lparr>dh_flags := (if first then 12 else 4) OR (if cs = [] then 16 else 0)\<rparr>, c) # wire_chunks h False cs"

text \<open>The datagrams of one message: a single one, or chunks of at most \<open>cap\<close> bytes that carry the length of the whole.\<close>

definition message_wire :: "nat \<Rightarrow> DataHead \<Rightarrow> bytes \<Rightarrow> (DataHead \<times> bytes) list \<Rightarrow> bool" where
  "message_wire cap h d D \<longleftrightarrow>
     D = [(h\<lparr>dh_flags := 0, dh_len := length d\<rparr>, d)] \<and> length d \<le> cap
     \<or> (\<exists>cs. cs \<noteq> [] \<and> concat cs = d \<and> (\<forall>c\<in>set cs. 0 < length c \<and> length c \<le> cap) \<and> D = wire_chunks (h\<lparr>dh_len := length d\<rparr>) True cs)"

lemma event_flag_steps:
  "SW_EVENT_DATA_CHUNK OR SW_EVENT_DATA_BEGIN = 12" "(12 :: byte) AND NOT SW_EVENT_DATA_END = 12" "(4 :: byte) AND NOT SW_EVENT_DATA_END = 4"
  "(28 :: byte) AND NOT SW_EVENT_DATA_END = 12" "(20 :: byte) AND NOT SW_EVENT_DATA_END = 4"
  "(12 :: byte) AND NOT SW_EVENT_DATA_BEGIN = 4" "(4 :: byte) AND NOT SW_EVENT_DATA_BEGIN = 4"
  "(12 OR SW_EVENT_DATA_END :: byte) = 28" "(4 OR SW_EVENT_DATA_END :: byte) = 20"
  by (simp_all add: event_flags)

lemma wire_chunks_flags: "wire_chunks (h\<lparr>dh_flags := f\<rparr>) first cs = wire_chunks h first cs"
  by (induction cs arbitrary: first) auto

text \<open>What the loop has sent: when it succeeds, the chunks of the rest of the payload.\<close>

definition sent_ok :: "nat \<Rightarrow> bytes \<Rightarrow> DataHead \<Rightarrow> bool \<Rightarrow> (DataHead \<times> bytes) list \<Rightarrow> (bool \<times> (DataHead \<times> bytes) list) option \<Rightarrow> bool" where
  "sent_ok cap rest info first out res \<longleftrightarrow>
     (\<exists>out'. res = Some (False, out')) \<or>
     (\<exists>cs. res = Some (True, out @ wire_chunks info first cs) \<and> concat cs = rest \<and> (\<forall>c\<in>set cs. 0 < length c \<and> length c \<le> cap))"

lemma sent_okI:
  "concat cs = rest \<Longrightarrow> (\<And>c. c \<in> set cs \<Longrightarrow> 0 < length c \<and> length c \<le> cap) \<Longrightarrow> sent_ok cap rest info first out (Some (True, out @ wire_chunks info first cs))"
  unfolding sent_ok_def by blast

lemma sent_ok_fail [simp]: "sent_ok cap rest info first out (Some (False, out'))"
  by (simp add: sent_ok_def)

lemma sent_ok_cons:
  assumes "sent_ok cap rest (info\<lparr>dh_flags := f\<rparr>) False (out @ [(info\<lparr>dh_flags := (if first then 12 else 4)\<rparr>, c)]) res"
    and "rest \<noteq> []" "0 < length c" "length c \<le> cap"
  shows "sent_ok cap (c @ rest) info first out res"
proof -
  consider out' where "res = Some (False, out')"
    | cs where "res = Some (True, (out @ [(info\<lparr>dh_flags := (if first then 12 else 4)\<rparr>, c)]) @ wire_chunks info False cs)" "concat cs = rest"
      "\<forall>c\<in>set cs. 0 < length c \<and> length c \<le> cap"
    using assms(1) unfolding sent_ok_def wire_chunks_flags by blast
  then show ?thesis
  proof cases
    case 2
    then have "cs \<noteq> []" using assms(2) by auto
    then have res: "res = Some (True, out @ wire_chunks info first (c # cs))" using 2(1) by simp
    show ?thesis unfolding res by (rule sent_okI) (use 2(2,3) assms(3,4) in auto)
  qed simp
qed

lemma write_loop_ok:
  assumes "0 < mx" "mx \<le> cap" "off + l = length payload" "dh_flags info = (if first then 12 else 4)"
  shows "sent_ok cap (drop off payload) info first out (mb_write_loop rs mx l off info payload out)"
  using assms
proof (induction "of_bool (mx > SW_IPC_MSG_MIN) + l" arbitrary: rs mx l off info first out rule: less_induct)
  case less
  show ?case
  proof (cases "l = 0")
    case True
    then have "mb_write_loop rs mx l off info payload out = Some (True, out)" by (subst mb_write_loop.simps) simp
    then show ?thesis using sent_okI [of "[]" "drop off payload" cap info first out] True less(4) by simp
  next
    case False
    define n where "n = (if l > mx then mx else l)"
    define info1 where "info1 = (if l > mx then info else info\<lparr>dh_flags := dh_flags info OR SW_EVENT_DATA_END\<rparr>)"
    obtain r rs1 where r: "next_send rs = (r, rs1)" by fastforce
    have n: "0 < n" "n \<le> l" "n \<le> cap" using False less(2,3) by (auto simp: n_def)
    show ?thesis
    proof (cases r)
      case (SEND_ERR e)
      then have go: "mb_write_loop rs mx l off info payload out =
        (if e = SW_REDUCE_SIZE \<and> mx > SW_IPC_MSG_MIN
         then mb_write_loop rs1 SW_IPC_MSG_MIN l off (info1\<lparr>dh_flags := dh_flags info1 AND NOT SW_EVENT_DATA_END\<rparr>) payload out
         else Some (False, out))"
        using False r by (subst mb_write_loop.simps) (simp add: Let_def n_def [symmetric] info1_def [symmetric])
      have i: "info1\<lparr>dh_flags := dh_flags info1 AND NOT SW_EVENT_DATA_END\<rparr> = info"
        using less(5) by (cases info) (auto simp: info1_def event_flag_steps)
      have "sent_ok cap (drop off payload) info first out (mb_write_loop rs1 SW_IPC_MSG_MIN l off info payload out)" if "mx > SW_IPC_MSG_MIN"
        by (rule less(1)) (use that less(3-5) in \<open>auto simp: SW_IPC_MSG_MIN_def sizeof_DataHead_def\<close>)
      then show ?thesis unfolding go i by simp
    next
      case SEND_OK
      let ?info = "info1\<lparr>dh_flags := dh_flags info1 AND NOT SW_EVENT_DATA_BEGIN\<rparr>" and ?c = "bytes_at payload off n"
      have go: "mb_write_loop rs mx l off info payload out = mb_write_loop rs1 mx (l - n) (off + n) ?info payload (out @ [(info1, ?c)])"
        using False r SEND_OK by (subst mb_write_loop.simps) (simp add: Let_def n_def [symmetric] info1_def [symmetric])
      have piece: "drop off payload = ?c @ drop (off + n) payload" "length ?c = n"
        using n less(4) by (auto simp: bytes_at_def add.commute simp flip: drop_drop)
      show ?thesis
      proof (cases "l > mx")
        case True
        have i: "info1 = info\<lparr>dh_flags := (if first then 12 else 4)\<rparr>" "?info = info\<lparr>dh_flags := 4\<rparr>"
          using True less(5) by (cases info; auto simp: info1_def event_flag_steps)+
        have "sent_ok cap (drop (off + n) payload) ?info False (out @ [(info1, ?c)]) (mb_write_loop rs1 mx (l - n) (off + n) ?info payload (out @ [(info1, ?c)]))"
          by (rule less(1)) (use n less(2-4) i True in auto)
        then have "sent_ok cap (?c @ drop (off + n) payload) info first out (mb_write_loop rs1 mx (l - n) (off + n) ?info payload (out @ [(info1, ?c)]))"
          unfolding i(2) unfolding i(1) by (rule sent_ok_cons) (use True less(4) n piece(2) in \<open>auto simp: n_def\<close>)
        then show ?thesis unfolding go piece(1) .
      next
        case l: False
        then have nl: "n = l" by (simp add: n_def)
        have "mb_write_loop rs1 mx (l - n) (off + n) ?info payload (out @ [(info1, ?c)]) = Some (True, out @ [(info1, ?c)])"
          using nl by (subst mb_write_loop.simps) simp
        moreover have "info1 = info\<lparr>dh_flags := (if first then 12 else 4) OR 16\<rparr>" using l less(5) by (auto simp: info1_def event_flags)
        ultimately have res: "mb_write_loop rs mx l off info payload out = Some (True, out @ wire_chunks info first [?c])" unfolding go by simp
        show ?thesis unfolding res by (rule sent_okI) (use piece nl n less(4) in auto)
      qed
    qed
  qed
qed

text \<open>\<open>write\<close> returns, and when it reports success the datagrams sent are those of the message.\<close>

definition written :: "nat \<Rightarrow> DataHead \<Rightarrow> bytes \<Rightarrow> (bool \<times> (DataHead \<times> bytes) list) option \<Rightarrow> bool" where
  "written cap h d res \<longleftrightarrow> (case res of None \<Rightarrow> False | Some (ok, out) \<Rightarrow> ok \<longrightarrow> message_wire cap h d out)"

lemma written_chunks:
  assumes "0 < mx" "mx \<le> cap" "payload \<noteq> []" "dh_len info = length payload"
  shows "written cap info payload (mb_write_chunks rs mx info payload)"
proof -
  have "sent_ok cap (drop 0 payload) (info\<lparr>dh_flags := 12\<rparr>) True [] (mb_write_chunks rs mx info payload)"
    unfolding mb_write_chunks_def event_flag_steps(1) by (rule write_loop_ok) (use assms in auto)
  then show ?thesis unfolding sent_ok_def
  proof (elim disjE exE conjE)
    fix cs assume cs: "mb_write_chunks rs mx info payload = Some (True, [] @ wire_chunks (info\<lparr>dh_flags := 12\<rparr>) True cs)" "concat cs = drop 0 payload"
      "\<forall>c\<in>set cs. 0 < length c \<and> length c \<le> cap"
    have "info\<lparr>dh_len := length payload\<rparr> = info" using assms(4) by (cases info) simp
    moreover have "cs \<noteq> []" using cs(2) assms(3) by auto
    ultimately have "message_wire cap info payload (wire_chunks info True cs)" using cs(2,3) unfolding message_wire_def by auto
    then show ?thesis using cs(1) by (simp add: wire_chunks_flags written_def)
  qed (simp add: written_def)
qed

lemma mb_write_ok:
  assumes "sizeof_DataHead < mb_buffer_size mb" "mb_buffer_size mb < 2 ^ 32" "dh_len info = length payload"
  shows "written (mb_buffer_size mb - sizeof_DataHead) (info\<lparr>dh_msg_id := i\<rparr>) payload (mb_write mb rs i info (Some payload))"
proof -
  define cap where "cap = mb_buffer_size mb - sizeof_DataHead"
  let ?info = "info\<lparr>dh_msg_id := i\<rparr>"
  have c: "wrap32 (sub64 (mb_buffer_size mb) sizeof_DataHead) = cap" "0 < cap" using assms(1,2) by (simp_all add: cap_def)
  have len: "dh_len ?info = length payload" using assms(3) by simp
  obtain r rs1 where r: "next_send rs = (r, rs1)" by fastforce
  note w = mb_write_def [of mb rs i info "Some payload", unfolded c(1) Let_def r option.case prod.case]
  have e: "?info\<lparr>dh_flags := 0\<rparr> = ?info\<lparr>dh_flags := 0, dh_len := length payload\<rparr>" using assms(3) by (cases info) simp
  have single: "message_wire cap ?info payload [(?info\<lparr>dh_flags := 0, dh_len := length payload\<rparr>, payload)]" if "length payload \<le> cap"
    using that by (simp add: message_wire_def)
  have m: "0 < SW_IPC_MSG_MIN" by (simp add: SW_IPC_MSG_MIN_def sizeof_DataHead_def)
  consider "payload = []" | "payload \<noteq> []" "\<not> mb_chunked_transfer mb" "length payload \<le> cap" | "payload \<noteq> []" "mb_chunked_transfer mb \<or> \<not> length payload \<le> cap" by blast
  then have "written cap ?info payload (mb_write mb rs i info (Some payload))"
  proof cases
    case 1
    then show ?thesis unfolding w using assms(3) single by (cases r) (simp_all add: written_def)
  next
    case 2
    show ?thesis
    proof (cases r)
      case SEND_OK
      then show ?thesis unfolding w using 2 assms(3) single e by (simp add: written_def)
    next
      case (SEND_ERR er)
      then show ?thesis unfolding w using 2 assms(3) written_chunks [OF m _ 2(1) len, of cap rs1] by (auto simp: written_def)
    qed
  next
    case 3
    then show ?thesis unfolding w using assms(3) written_chunks [OF c(2) order.refl 3(1) len, of rs] by auto
  qed
  then show ?thesis by (simp add: cap_def)
qed

section \<open>Chunks of several messages\<close>

definition of_msg :: "nat \<Rightarrow> (DataHead \<times> bytes) list \<Rightarrow> (DataHead \<times> bytes) list" where
  "of_msg m D = filter (\<lambda>x. dh_msg_id (fst x) = m) D"

definition final :: "DataHead \<times> bytes \<Rightarrow> bool" where
  "final x \<longleftrightarrow> \<not> is_chunked (fst x) \<or> is_end (fst x)"

text \<open>Complete messages of different ids, their datagrams in any interleaving.\<close>

definition interleaved :: "nat \<Rightarrow> (DataHead \<times> bytes) list \<Rightarrow> bool" where
  "interleaved cap D \<longleftrightarrow> (\<forall>m. of_msg m D = [] \<or> (\<exists>h d. dh_msg_id h = m \<and> length d < 2 ^ 32 \<and> message_wire cap h d (of_msg m D)))"

definition payload_of :: "nat \<Rightarrow> (DataHead \<times> bytes) list \<Rightarrow> bytes" where
  "payload_of m D = concat (map snd (of_msg m D))"

lemma wire_chunks_snd [simp]: "map snd (wire_chunks h first cs) = cs" "wire_chunks h first cs = [] \<longleftrightarrow> cs = []"
  by (induction cs arbitrary: first) auto

lemma wire_chunks_head:
  "wire_chunks h first cs = A @ (h', c) # B \<Longrightarrow> h' = h\<lparr>dh_flags := (if first \<and> A = [] then 12 else 4) OR (if B = [] then 16 else 0)\<rparr>"
proof (induction cs arbitrary: first A)
  case (Cons c0 cs)
  show ?case
  proof (cases A)
    case Nil
    then show ?thesis using Cons(2) by auto
  next
    case (Cons a A')
    then show ?thesis using Cons.IH [of False A'] Cons.prems by auto
  qed
qed simp

lemma wire_chunks_before:
  "wire_chunks h first cs = A @ x # B \<Longrightarrow> y \<in> set A \<Longrightarrow> dh_flags (fst y) = 12 \<or> dh_flags (fst y) = 4"
proof (induction cs arbitrary: first A)
  case (Cons c0 cs)
  then obtain A' where A: "A = (h\<lparr>dh_flags := (if first then 12 else 4) OR (if cs = [] then 16 else 0)\<rparr>, c0) # A'" "wire_chunks h False cs = A' @ x # B"
    by (cases A) auto
  then have "cs \<noteq> []" by auto
  then show ?case using A Cons.IH [OF A(2)] Cons.prems(2) by (auto split: if_splits)
qed simp

text \<open>A datagram of a message, with those before it and those after it.\<close>

lemma message_wire_nth:
  assumes "message_wire cap h d (A @ (h', c) # B)"
  shows "A = [] \<and> B = [] \<and> \<not> is_chunked h' \<and> \<not> is_end h' \<and> dh_flags h' = 0 \<and> dh_len h' = length c
    \<or> is_chunked h' \<and> (A = [] \<longrightarrow> is_begin h') \<and> (is_end h' \<longleftrightarrow> B = []) \<and> dh_len h' = length d
      \<and> length c \<le> cap \<and> (\<forall>y\<in>set A. \<not> final y) \<and> d = concat (map snd A) @ c @ concat (map snd B) \<and> dh_flags h' AND SW_EVENT_DATA_PTR = 0"
  using assms unfolding message_wire_def
proof (elim disjE exE conjE)
  assume "A @ (h', c) # B = [(h\<lparr>dh_flags := 0, dh_len := length d\<rparr>, d)]"
  then show ?thesis by (cases A) (auto simp: is_chunked_def is_end_def)
next
  fix cs assume cs: "concat cs = d" "\<forall>c\<in>set cs. 0 < length c \<and> length c \<le> cap" "A @ (h', c) # B = wire_chunks (h\<lparr>dh_len := length d\<rparr>) True cs"
  have "map snd (A @ (h', c) # B) = cs" unfolding cs(3) by simp
  then have c: "cs = map snd A @ c # map snd B" by simp
  have h: "h' = h\<lparr>dh_len := length d, dh_flags := (if A = [] then 12 else 4) OR (if B = [] then 16 else 0)\<rparr>"
    using wire_chunks_head [OF cs(3) [symmetric]] by simp
  have "\<not> final y" if "y \<in> set A" for y
    using wire_chunks_before [OF cs(3) [symmetric] that] by (auto simp: final_def is_chunked_def is_end_def event_flags)
  moreover have "is_chunked h'" "A = [] \<longrightarrow> is_begin h'" "is_end h' \<longleftrightarrow> B = []" "dh_len h' = length d" "dh_flags h' AND SW_EVENT_DATA_PTR = 0"
    unfolding h by (auto simp: is_chunked_def is_begin_def is_end_def event_flags)
  ultimately show ?thesis using cs(1,2) c by auto
qed

section \<open>Reassembly\<close>

text \<open>The pool after the datagrams \<open>P\<close> of \<open>D\<close>: the open messages, with what has come of them.\<close>

definition bus_inv :: "nat \<Rightarrow> (DataHead \<times> bytes) list \<Rightarrow> (DataHead \<times> bytes) list \<Rightarrow> MessageBus \<Rightarrow> bool" where
  "bus_inv cap D P mb \<longleftrightarrow> mb_buffer_size mb = cap + sizeof_DataHead \<and>
     (\<forall>m. if of_msg m P \<noteq> [] \<and> \<not> final (last (of_msg m P))
          then \<exists>s. mb_pool mb m = Some s \<and> string_ok s \<and> contents s = payload_of m P \<and> length (payload_of m D) \<le> s_size s
          else mb_pool mb m = None)"

lemma of_msg_simps [simp]:
  "of_msg m [] = []" "of_msg m (P @ Q) = of_msg m P @ of_msg m Q" "of_msg m (x # P) = (if dh_msg_id (fst x) = m then x # of_msg m P else of_msg m P)"
  by (simp_all add: of_msg_def)

text \<open>One more datagram of message \<open>dh_msg_id h\<close>; only its entry of the pool changes.\<close>

lemma bus_inv_step:
  assumes "bus_inv cap D P mb" "mb_buffer_size mb' = mb_buffer_size mb" "\<And>m. m \<noteq> dh_msg_id h \<Longrightarrow> mb_pool mb' m = mb_pool mb m"
    and "if final (h, c) then mb_pool mb' (dh_msg_id h) = None
      else \<exists>s. mb_pool mb' (dh_msg_id h) = Some s \<and> string_ok s \<and> contents s = payload_of (dh_msg_id h) P @ c \<and> length (payload_of (dh_msg_id h) D) \<le> s_size s"
  shows "bus_inv cap D (P @ [(h, c)]) mb'"
  unfolding bus_inv_def
proof (intro conjI allI)
  show "mb_buffer_size mb' = cap + sizeof_DataHead" using assms(1,2) by (simp add: bus_inv_def)
  fix m show "if of_msg m (P @ [(h, c)]) \<noteq> [] \<and> \<not> final (last (of_msg m (P @ [(h, c)])))
    then \<exists>s. mb_pool mb' m = Some s \<and> string_ok s \<and> contents s = payload_of m (P @ [(h, c)]) \<and> length (payload_of m D) \<le> s_size s
    else mb_pool mb' m = None"
  proof (cases "m = dh_msg_id h")
    case True
    then show ?thesis using assms(4) by (auto simp: payload_of_def)
  next
    case False
    then show ?thesis using assms(1) assms(3) [OF False] by (auto simp: bus_inv_def payload_of_def dest!: spec [of _ m])
  qed
qed

text \<open>The string of the current message: a new one for its first chunk, the one of the pool for the others.\<close>

lemma packet_buffer_ok:
  assumes m: "malloc_sized malloc" "malloc_total malloc" and inv: "bus_inv cap D P mb"
    and A: "\<forall>y\<in>set (of_msg (dh_msg_id h) P). \<not> final y" "of_msg (dh_msg_id h) P = [] \<longrightarrow> is_begin h"
    and len: "dh_len h = length (payload_of (dh_msg_id h) D)" "dh_len h < 2 ^ 32"
  shows "\<exists>s. get_packet_buffer malloc (mb\<lparr>mb_info := h\<rparr>) = Inr (Some (s, mb\<lparr>mb_info := h, mb_pool := (mb_pool mb)(dh_msg_id h \<mapsto> s)\<rparr>))
    \<and> string_ok s \<and> contents s = payload_of (dh_msg_id h) P \<and> dh_len h \<le> s_size s"
proof (cases "of_msg (dh_msg_id h) P = []")
  case True
  obtain s where s: "String_alloc malloc (dh_len h) = Inr s"
    using total_results(1) [OF m(2), of String_empty "dh_len h"] by (auto simp: String_reserve_def String_empty_def)
  have "dh_len h < 2 ^ 60" using len(2) by simp
  from alloc_ok [OF s m(1) this] have "string_ok s" "contents s = []" "dh_len h \<le> s_size s" by auto
  moreover have "mb_pool mb (dh_msg_id h) = None" using inv True by (auto simp: bus_inv_def dest!: spec [of _ "dh_msg_id h"])
  ultimately show ?thesis using True A(2) s by (simp add: get_packet_buffer_def payload_of_def)
next
  case False
  then have "\<not> final (last (of_msg (dh_msg_id h) P))" using A(1) by simp
  then obtain s where s: "mb_pool mb (dh_msg_id h) = Some s" "string_ok s" "contents s = payload_of (dh_msg_id h) P" "length (payload_of (dh_msg_id h) D) \<le> s_size s"
    using inv False by (auto simp: bus_inv_def dest!: spec [of _ "dh_msg_id h"])
  have "mb\<lparr>mb_info := h\<rparr> = mb\<lparr>mb_info := h, mb_pool := (mb_pool mb)(dh_msg_id h \<mapsto> s)\<rparr>" using s(1) by (simp add: map_upd_triv)
  then show ?thesis using s len(1) by (simp add: get_packet_buffer_def)
qed

text \<open>One datagram in \<open>read\<close>: a whole message, a chunk in the middle, or the last chunk.\<close>

lemma read_dgram:
  assumes m: "malloc_sized malloc" "malloc_total malloc" and il: "interleaved cap D" "D = P @ (h, c) # R"
    and inv: "bus_inv cap D P mb" and cap: "cap < 2 ^ 32"
  shows "(if final (h, c) then
      \<exists>rc mb'. mb_read malloc mb (DGRAM h c # r) cnt = Inr (rc, mb', r) \<and> 0 < rc \<and> bus_inv cap D (P @ [(h, c)]) (mb_pop mb')
        \<and> dh_msg_id (mb_info mb') = dh_msg_id h \<and> get_packet mb' = Some (payload_of (dh_msg_id h) D)
     else \<exists>mb' cnt'. mb_read malloc mb (DGRAM h c # r) cnt = (if cnt' \<ge> SW_WORKER_MAX_RECV_CHUNK_COUNT then Inr (SW_OK, mb', r) else mb_read malloc mb' r cnt')
        \<and> bus_inv cap D (P @ [(h, c)]) mb')"
proof -
  define i where "i = dh_msg_id h"
  let ?A = "of_msg i P" and ?B = "of_msg i R"
  have F: "of_msg i D = ?A @ (h, c) # ?B" using il(2) by (simp add: i_def)
  then obtain h0 d where w: "length d < 2 ^ 32" "message_wire cap h0 d (?A @ (h, c) # ?B)"
    using il(1) by (auto simp: interleaved_def dest!: spec [of _ i])
  from message_wire_nth [OF w(2)] show ?thesis
  proof (elim disjE conjE)
    assume a: "?A = []" "?B = []" "\<not> is_chunked h" "\<not> is_end h" "dh_flags h = 0" "dh_len h = length c"
    let ?mb = "mb\<lparr>mb_info := h, mb_data := PIPE_BYTES c\<rparr>"
    have go: "mb_read malloc mb (DGRAM h c # r) cnt = Inr (int (sizeof_DataHead + length c), ?mb, r)" using a by simp
    have "mb_pool mb i = None" using inv a(1) by (auto simp: bus_inv_def dest!: spec [of _ i])
    then have "bus_inv cap D (P @ [(h, c)]) (mb_pop ?mb)"
      using a by (intro bus_inv_step [OF inv]) (auto simp: mb_pop_def final_def i_def)
    moreover have "get_packet ?mb = Some (payload_of i D)" using a F by (simp add: get_packet_def payload_of_def)
    ultimately show ?thesis unfolding go using a(3) by (simp add: final_def i_def sizeof_DataHead_def)
  next
    assume a: "is_chunked h" "?A = [] \<longrightarrow> is_begin h" "is_end h \<longleftrightarrow> ?B = []" "dh_len h = length d" "length c \<le> cap" "\<forall>y\<in>set ?A. \<not> final y"
      "d = concat (map snd ?A) @ c @ concat (map snd ?B)" "dh_flags h AND SW_EVENT_DATA_PTR = 0"
    have d: "payload_of i D = d" "payload_of i P = concat (map snd ?A)" using F a(7) by (simp_all add: payload_of_def)
    from packet_buffer_ok [OF m inv, of h] obtain s where s: "get_packet_buffer malloc (mb\<lparr>mb_info := h\<rparr>) = Inr (Some (s, mb\<lparr>mb_info := h, mb_pool := (mb_pool mb)(i \<mapsto> s)\<rparr>))"
      "string_ok s" "contents s = payload_of i P" "dh_len h \<le> s_size s" using a d w(1) by (auto simp: i_def)
    have len: "s_length s + length c \<le> length d" using length_contents [OF s(2)] s(3) d(2) a(7) by simp
    note ri = recv_into_ok [OF s(2), of c]
    have t: "string_ok (recv_into s c)" "contents (recv_into s c) = payload_of i P @ c" "s_size (recv_into s c) = s_size s"
      using ri len s(3,4) a(4) by auto
    have bs: "mb_buffer_size mb = cap + sizeof_DataHead" using inv by (simp add: bus_inv_def)
    have n: "take (min (sub64 (cap + sizeof_DataHead) sizeof_DataHead) (sub64 (dh_len h) (s_length s))) c = c"
      using len a(4,5) w(1) cap by (simp add: sizeof_DataHead_def)
    define mb3 where "mb3 = mb\<lparr>mb_info := h, mb_pool := (mb_pool mb)(i \<mapsto> recv_into s c)\<rparr>"
    have go: "mb_read malloc mb (DGRAM h c # r) cnt = (case prepare_packet mb3 cnt of
        (SW_READY, cnt1, mb4) \<Rightarrow> Inr (int (sizeof_DataHead + length c), mb4, r)
      | (SW_CONTINUE, cnt1, mb4) \<Rightarrow> mb_read malloc mb4 r cnt1
      | (SW_WAIT, cnt1, mb4) \<Rightarrow> Inr (SW_OK, mb4, r)
      | (_, cnt1, mb4) \<Rightarrow> Inl ASSERTION_FAILED)"
      using a(1) s(1) bs n by (simp add: Let_def i_def mb3_def cong: prod.case_cong ReturnCode.case_cong)
    have inv3: "bus_inv cap D (P @ [(h, c)]) mb3" if "\<not> is_end h"
      using that a(1,4) t s(4) d by (intro bus_inv_step [OF inv]) (auto simp: mb3_def final_def i_def)
    show ?thesis
    proof (cases "is_end h")
      case True
      let ?mb = "mb3\<lparr>mb_info := h\<lparr>dh_flags := dh_flags h OR SW_EVENT_DATA_OBJ_PTR\<rparr>, mb_data := PIPE_OBJ i\<rparr>"
      have p: "prepare_packet mb3 cnt = (SW_READY, (cnt + 1) mod 2 ^ 16, ?mb)" using True by (simp add: prepare_packet_def Let_def mb3_def i_def)
      have e: "is_end (mb_info ?mb)" using True by (simp add: is_end_def event_flags bit.conj_disj_distrib2)
      have "bus_inv cap D (P @ [(h, c)]) (mb_pop ?mb)"
        using True e by (intro bus_inv_step [OF inv]) (auto simp: mb_pop_def mb3_def final_def i_def)
      moreover have "get_packet ?mb = Some (payload_of i D)"
        using a(3,7,8) True t d by (simp add: get_packet_def mb3_def event_flags bit.conj_disj_distrib2)
      ultimately show ?thesis unfolding go p using True by (simp add: final_def i_def sizeof_DataHead_def mb3_def)
    next
      case False
      then show ?thesis unfolding go using inv3 a(1) by (auto simp: prepare_packet_def Let_def final_def mb3_def)
    qed
  qed
qed

definition dgrams :: "(DataHead \<times> bytes) list \<Rightarrow> pipe_event list" where
  "dgrams D = map (\<lambda>(h, c). DGRAM h c) D"

lemma dgrams_simps [simp]: "dgrams [] = []" "dgrams ((h, c) # D) = DGRAM h c # dgrams D" "dgrams D = [] \<longleftrightarrow> D = []"
  by (simp_all add: dgrams_def)

text \<open>A call of \<open>read\<close> takes datagrams up to the end of a message, or so many that the event loop gets its turn.\<close>

inductive read_post :: "nat \<Rightarrow> (DataHead \<times> bytes) list \<Rightarrow> (DataHead \<times> bytes) list \<Rightarrow> (DataHead \<times> bytes) list
    \<Rightarrow> string_error + (int \<times> MessageBus \<times> pipe_event list) \<Rightarrow> bool" for cap D P R where
  turn: "R = R1 @ R2 \<Longrightarrow> (R \<noteq> [] \<Longrightarrow> R1 \<noteq> []) \<Longrightarrow> filter final R1 = [] \<Longrightarrow> bus_inv cap D (P @ R1) mb \<Longrightarrow>
    read_post cap D P R (Inr (0, mb, dgrams R2))"
| packet: "R = R1 @ x # R2 \<Longrightarrow> filter final R1 = [] \<Longrightarrow> final x \<Longrightarrow> bus_inv cap D (P @ R1 @ [x]) (mb_pop mb) \<Longrightarrow> 0 < rc \<Longrightarrow>
    dh_msg_id (mb_info mb) = dh_msg_id (fst x) \<Longrightarrow> get_packet mb = Some (payload_of (dh_msg_id (fst x)) D) \<Longrightarrow>
    read_post cap D P R (Inr (rc, mb, dgrams R2))"

lemma read_post_cons:
  assumes "read_post cap D (P @ [x]) R res" "\<not> final x"
  shows "read_post cap D P (x # R) res"
  using assms(1)
proof cases
  case (turn R1 R2 mb)
  have "read_post cap D P (x # R) (Inr (0, mb, dgrams R2))"
    by (rule read_post.turn [where ?R1.0 = "x # R1"]) (use turn assms(2) in simp_all)
  then show ?thesis using turn by simp
next
  case (packet R1 y R2 mb rc)
  have "read_post cap D P (x # R) (Inr (rc, mb, dgrams R2))"
    by (rule read_post.packet [where ?R1.0 = "x # R1" and x = y]) (use packet assms(2) in simp_all)
  then show ?thesis using packet by simp
qed

lemma mb_read_ok:
  assumes m: "malloc_sized malloc" "malloc_total malloc" and cap: "cap < 2 ^ 32" and il: "interleaved cap D"
    and D: "D = P @ R" and inv: "bus_inv cap D P mb"
  shows "read_post cap D P R (mb_read malloc mb (dgrams R) cnt)"
  using D inv
proof (induction R arbitrary: P mb cnt)
  case Nil
  have "read_post cap D P [] (Inr (0, mb, dgrams []))" by (rule read_post.turn [where ?R1.0 = "[]"]) (use Nil in simp_all)
  then show ?case by (simp add: SW_OK_def)
next
  case (Cons x R)
  obtain h c where x: "x = (h, c)" by fastforce
  note step = read_dgram [OF m il Cons(2) [unfolded x] Cons(3) cap, of "dgrams R" cnt]
  show ?case
  proof (cases "final (h, c)")
    case True
    with step obtain rc mb' where s: "mb_read malloc mb (DGRAM h c # dgrams R) cnt = Inr (rc, mb', dgrams R)" "0 < rc" "bus_inv cap D (P @ [(h, c)]) (mb_pop mb')"
      "dh_msg_id (mb_info mb') = dh_msg_id h" "get_packet mb' = Some (payload_of (dh_msg_id h) D)" by auto
    have "read_post cap D P (x # R) (Inr (rc, mb', dgrams R))"
      by (rule read_post.packet [where ?R1.0 = "[]" and x = x]) (use s True x in simp_all)
    then show ?thesis using s(1) x by simp
  next
    case False
    with step obtain mb' cnt' where s: "mb_read malloc mb (DGRAM h c # dgrams R) cnt =
        (if cnt' \<ge> SW_WORKER_MAX_RECV_CHUNK_COUNT then Inr (SW_OK, mb', dgrams R) else mb_read malloc mb' (dgrams R) cnt')"
      "bus_inv cap D (P @ [(h, c)]) mb'" by auto
    have "read_post cap D P (x # R) (Inr (0, mb', dgrams R))"
      by (rule read_post.turn [where ?R1.0 = "[x]"]) (use s(2) False x in simp_all)
    moreover have "read_post cap D P (x # R) (mb_read malloc mb' (dgrams R) cnt')"
      by (rule read_post_cons [OF Cons.IH]) (use Cons(2) s(2) False x in simp_all)
    ultimately show ?thesis using s(1) x by (simp add: SW_OK_def)
  qed
qed

section \<open>The event loop\<close>

text \<open>The worker reads the pipe as long as there is something in it; a packet is taken with \<open>get_packet\<close> and dropped with \<open>pop\<close>.\<close>

fun mb_serve :: "(nat \<Rightarrow> bytes option) \<Rightarrow> nat \<Rightarrow> MessageBus \<Rightarrow> pipe_event list \<Rightarrow> string_error + ((nat \<times> bytes option) list \<times> MessageBus \<times> pipe_event list)" where
  "mb_serve malloc 0 mb pipe = Inr ([], mb, pipe)"
| "mb_serve malloc (Suc n) mb pipe =
     (if pipe = [] then Inr ([], mb, pipe)
      else
        case mb_read malloc mb pipe 0 of
          Inl e \<Rightarrow> Inl e
        | Inr (rc, mb1, pipe1) \<Rightarrow>
            if rc > 0 then
              (case mb_serve malloc n (mb_pop mb1) pipe1 of
                 Inl e \<Rightarrow> Inl e
               | Inr (ps, mb2, pipe2) \<Rightarrow> Inr ((dh_msg_id (mb_info mb1), get_packet mb1) # ps, mb2, pipe2))
            else mb_serve malloc n mb1 pipe1)"

lemma mb_serve_ok:
  assumes m: "malloc_sized malloc" "malloc_total malloc" and cap: "cap < 2 ^ 32" and il: "interleaved cap D"
    and D: "D = P @ R" and inv: "bus_inv cap D P mb" and n: "length R \<le> n"
  shows "\<exists>mb'. mb_serve malloc n mb (dgrams R)
      = Inr (map (\<lambda>x. (dh_msg_id (fst x), Some (payload_of (dh_msg_id (fst x)) D))) (filter final R), mb', []) \<and> bus_inv cap D D mb'"
  using D inv n
proof (induction n arbitrary: P R mb)
  case (Suc n)
  show ?case
  proof (cases "R = []")
    case False
    from mb_read_ok [OF m cap il Suc(2,3), of 0] show ?thesis
    proof cases
      case (turn R1 R2 mb1)
      have "D = (P @ R1) @ R2" "length R2 \<le> n" using Suc(2,4) turn(2,3) False by (cases R1; simp)+
      from Suc.IH [OF this(1) turn(5) this(2)] show ?thesis using turn False by auto
    next
      case (packet R1 x R2 mb1 rc)
      have "D = (P @ R1 @ [x]) @ R2" "length R2 \<le> n" using Suc(2,4) packet(2) by simp_all
      from Suc.IH [OF this(1) packet(5) this(2)] show ?thesis using packet False by auto
    qed
  qed (use Suc in simp)
qed simp

text \<open>Every message has one final datagram, its last.\<close>

lemma final_once:
  assumes "message_wire cap h d D"
  shows "filter final D = [last D]"
proof -
  have "[] \<noteq> wire_chunks h' first cs" if "cs \<noteq> []" for h' first cs using that by (cases cs) auto
  then have "D \<noteq> []" using assms by (auto simp: message_wire_def)
  then obtain A x where D: "D = A @ [x]" by (metis append_butlast_last_id)
  obtain h' c where x: "x = (h', c)" by fastforce
  have "message_wire cap h d (A @ (h', c) # [])" using assms D x by simp
  from message_wire_nth [OF this] have "final x" "\<forall>y\<in>set A. \<not> final y" using x by (auto simp: final_def)
  then show ?thesis using D by (simp add: filter_False)
qed

lemma filter_of_msg: "filter final (of_msg m D) = of_msg m (filter final D)"
  by (simp add: of_msg_def conj_commute)

lemma distinct_final:
  assumes "interleaved cap D"
  shows "distinct (map (\<lambda>x. dh_msg_id (fst x)) (filter final D))" "(\<lambda>x. dh_msg_id (fst x)) ` set (filter final D) = {m. of_msg m D \<noteq> []}"
proof -
  have one: "of_msg m (filter final D) = (if of_msg m D = [] then [] else [last (of_msg m D)])" for m
  proof (cases "of_msg m D = []")
    case False
    then obtain h d where "message_wire cap h d (of_msg m D)" using assms unfolding interleaved_def by blast
    then show ?thesis using False final_once [of cap h d "of_msg m D"] filter_of_msg [of m D] by simp
  qed (use filter_of_msg [of m D] in simp)
  have le: "count_list (map (\<lambda>x. dh_msg_id (fst x)) xs) m = length (of_msg m xs)" for m and xs :: "(DataHead \<times> bytes) list"
    by (induction xs) simp_all
  show "distinct (map (\<lambda>x. dh_msg_id (fst x)) (filter final D))"
  proof -
    have "distinct xs" if "\<And>m. count_list xs m \<le> 1" for xs :: "nat list"
      using that
    proof (induction xs)
      case (Cons a xs)
      have "count_list xs a = 0" using Cons(2) [of a] by simp
      then have "a \<notin> set xs" by (simp add: count_list_0_iff)
      moreover have "count_list xs m \<le> 1" for m using Cons(2) [of m] by (simp split: if_splits)
      ultimately show ?case using Cons.IH by simp
    qed simp
    then show ?thesis using one le by simp
  qed
  show "(\<lambda>x. dh_msg_id (fst x)) ` set (filter final D) = {m. of_msg m D \<noteq> []}"
  proof -
    have "m \<in> (\<lambda>x. dh_msg_id (fst x)) ` set (filter final D) \<longleftrightarrow> of_msg m (filter final D) \<noteq> []" for m
      by (auto simp: of_msg_def filter_empty_conv)
    moreover have "of_msg m (filter final D) \<noteq> [] \<longleftrightarrow> of_msg m D \<noteq> []" for m using one [of m] by simp
    ultimately show ?thesis by blast
  qed
qed

text \<open>C4: packets between processes arrive whole, however their chunks are interleaved: when messages of
  different ids have been written to a pipe (as one datagram or in chunks, also when the kernel made
  \<open>write\<close> reduce its datagrams in the middle of a message), and their datagrams lie in the pipe in any
  interleaving, the reader takes each message out exactly once, with exactly the payload that was
  written, at the place of its last datagram, and the pool of open messages is empty at the end.
\<close>

theorem message_bus_roundtrip:
  assumes "malloc_sized malloc" "malloc_total malloc" "mb_pool mb = Map.empty" "mb_buffer_size mb = mb_buffer_size sender"
    and "sizeof_DataHead < mb_buffer_size sender" "mb_buffer_size sender < 2 ^ 32" "length D \<le> n"
    and "\<forall>m. of_msg m D = [] \<or> (\<exists>rs info. dh_len info = length (msg m) \<and> length (msg m) < 2 ^ 32
          \<and> mb_write sender rs m info (Some (msg m)) = Some (True, of_msg m D))"
  shows "\<exists>out mb'. mb_serve malloc n mb (dgrams D) = Inr (out, mb', []) \<and> mb_pool mb' = Map.empty
    \<and> out = map (\<lambda>x. (dh_msg_id (fst x), Some (msg (dh_msg_id (fst x))))) (filter final D)
    \<and> distinct (map fst out) \<and> fst ` set out = {m. of_msg m D \<noteq> []}"
proof -
  define cap where "cap = mb_buffer_size sender - sizeof_DataHead"
  have wire: "of_msg m D = [] \<or> (\<exists>h. dh_msg_id h = m \<and> length (msg m) < 2 ^ 32 \<and> message_wire cap h (msg m) (of_msg m D))" for m
  proof -
    have "message_wire cap (info\<lparr>dh_msg_id := m\<rparr>) (msg m) (of_msg m D)"
      if "dh_len info = length (msg m)" "mb_write sender rs m info (Some (msg m)) = Some (True, of_msg m D)" for rs info
      using mb_write_ok [OF assms(5,6) that(1), of m rs] that(2) by (simp add: written_def cap_def)
    moreover have "dh_msg_id (info\<lparr>dh_msg_id := m\<rparr>) = m" for info :: DataHead by simp
    ultimately show ?thesis using assms(8) [rule_format, of m] by blast
  qed
  then have il: "interleaved cap D" unfolding interleaved_def by blast
  have pay: "payload_of m D = msg m" if ne: "of_msg m D \<noteq> []" for m
  proof -
    obtain h where "message_wire cap h (msg m) (of_msg m D)" using wire [of m] ne by blast
    then show ?thesis by (auto simp: message_wire_def payload_of_def)
  qed
  have "bus_inv cap D [] mb" using assms(3-5) by (simp add: bus_inv_def cap_def)
  moreover have "cap < 2 ^ 32" using assms(6) by (simp add: cap_def)
  ultimately obtain mb' where s: "mb_serve malloc n mb (dgrams D)
      = Inr (map (\<lambda>x. (dh_msg_id (fst x), Some (payload_of (dh_msg_id (fst x)) D))) (filter final D), mb', [])" "bus_inv cap D D mb'"
    using mb_serve_ok [OF assms(1,2) _ il, of "[]" D mb n] assms(7) by auto
  have "of_msg (dh_msg_id (fst x)) D \<noteq> []" if "x \<in> set (filter final D)" for x using that by (auto simp: of_msg_def filter_empty_conv)
  then have out: "map (\<lambda>x. (dh_msg_id (fst x), Some (payload_of (dh_msg_id (fst x)) D))) (filter final D)
      = map (\<lambda>x. (dh_msg_id (fst x), Some (msg (dh_msg_id (fst x))))) (filter final D)" using pay by simp
  have fin: "final (last (of_msg m D))" if ne: "of_msg m D \<noteq> []" for m
  proof -
    obtain h where "message_wire cap h (msg m) (of_msg m D)" using wire [of m] ne by blast
    from final_once [OF this] have "last (of_msg m D) \<in> set (filter final (of_msg m D))" by simp
    then show ?thesis by simp
  qed
  have "mb_pool mb' m = None" for m using s(2) fin [of m] by (auto simp: bus_inv_def dest!: spec [of _ m] split: if_splits)
  then have "mb_pool mb' = Map.empty" by auto
  then show ?thesis using s(1) out distinct_final [OF il] by (simp add: comp_def image_image)
qed

definition demo_head :: "nat \<Rightarrow> nat \<Rightarrow> byte \<Rightarrow> DataHead" where
  "demo_head i len fl = \<lparr>dh_fd = 1, dh_msg_id = i, dh_len = len, dh_reactor_id = 0, dh_type = 0, dh_flags = fl, dh_server_fd = 0, dh_ext_flags = 0, dh_time = 0\<rparr>"

definition demo_bus :: MessageBus where
  "demo_bus = \<lparr>mb_pool = Map.empty, mb_buffer_size = 43, mb_chunked_transfer = False, mb_info = demo_head 0 0 0, mb_data = PIPE_BYTES []\<rparr>"

text \<open>Two messages, the second between the chunks of the first, in datagrams of three bytes.\<close>

definition demo_wire :: "(DataHead \<times> bytes) list" where
  "demo_wire = [(demo_head 1 5 12, [1, 2, 3]), (demo_head 2 1 0, [9]), (demo_head 1 5 20, [4, 5])]"

theorem message_bus_roundtrip_witness:
  "\<exists>mb'. mb_serve zero_malloc 3 demo_bus (dgrams demo_wire) = Inr ([(2, Some [9]), (1, Some [1, 2, 3, 4, 5])], mb', []) \<and> mb_pool mb' = Map.empty"
proof -
  let ?msg = "\<lambda>m. if m = 1 then [1, 2, 3, 4, 5] else [9 :: byte]"
  have w: "mb_write demo_bus [] 1 (demo_head 0 5 0) (Some [1, 2, 3, 4, 5]) = Some (True, of_msg 1 demo_wire)"
    "mb_write demo_bus [] 2 (demo_head 0 1 0) (Some [9]) = Some (True, of_msg 2 demo_wire)" by code_simp+
  have o: "of_msg m demo_wire = [] \<or> (\<exists>rs info. dh_len info = length (?msg m) \<and> length (?msg m) < 2 ^ 32
        \<and> mb_write demo_bus rs m info (Some (?msg m)) = Some (True, of_msg m demo_wire))" for m
  proof -
    consider "m = 1" | "m = 2" | "m \<noteq> 1" "m \<noteq> 2" by blast
    then show ?thesis
    proof cases
      case 1
      then show ?thesis using w(1) by (intro disjI2 exI [of _ "[]"] exI [of _ "demo_head 0 5 0"]) (simp add: demo_head_def)
    next
      case 2
      then show ?thesis using w(2) by (intro disjI2 exI [of _ "[]"] exI [of _ "demo_head 0 1 0"]) (simp add: demo_head_def)
    next
      case 3
      then show ?thesis by (simp add: demo_wire_def demo_head_def)
    qed
  qed
  have b: "mb_pool demo_bus = Map.empty" "sizeof_DataHead < mb_buffer_size demo_bus" "mb_buffer_size demo_bus < 2 ^ 32" "length demo_wire \<le> 3"
    by (simp_all add: demo_bus_def sizeof_DataHead_def demo_wire_def)
  have f: "filter final demo_wire = [(demo_head 2 1 0, [9]), (demo_head 1 5 20, [4, 5])]" by code_simp
  from message_bus_roundtrip [OF zero_malloc_ok b(1) refl b(2-4), of ?msg] o
  show ?thesis by (auto simp: f demo_head_def)
qed

end
