(* ===== verification/Sw_LRU.thy ===== *)
theory Sw_LRU
  imports Sw_Prelude
begin

text \<open>
  The LRU cache of \<open>include/swoole_lru_cache.h\<close>. The \<open>std::list\<close> is a list of nodes that carry the identity an
  iterator refers to; the \<open>unordered_map\<close> maps a key to the iterator of its node. Reading through an iterator
  that refers to no node is an error of the program: the operations give \<open>None\<close> for it. The clock is an
  argument of the operations that read it. The type invariant \<open>lru_wf\<close> says that map and list agree; under
  it no operation fails, and the two-part structure refines one list of entries kept in order of use.
\<close>

type_synonym 'v lru_node = "nat \<times> string \<times> int \<times> 'v"

record 'v LRUCache =
  cache_map :: "string \<rightharpoonup> nat"
  cache_list :: "'v lru_node list"
  cache_capacity :: nat
  cache_next :: nat

definition lru_new :: "nat \<Rightarrow> 'v LRUCache" where
  "lru_new capacity = \<lparr>cache_map = (\<lambda>_. None), cache_list = [], cache_capacity = capacity, cache_next = 0\<rparr>"

text \<open>The list operations on an iterator: dereference, splice to the front, erase.\<close>

definition lru_deref :: "nat \<Rightarrow> 'v lru_node list \<Rightarrow> 'v lru_node option" where
  "lru_deref it xs = find (\<lambda>n. fst n = it) xs"

definition lru_erase :: "nat \<Rightarrow> 'v lru_node list \<Rightarrow> 'v lru_node list" where
  "lru_erase it xs = filter (\<lambda>n. fst n \<noteq> it) xs"

definition lru_get :: "int \<Rightarrow> string \<Rightarrow> 'v LRUCache \<Rightarrow> ('v LRUCache \<times> 'v option) option" where
  "lru_get now key c =
    (case cache_map c key of
       None \<Rightarrow> Some (c, None)
     | Some it \<Rightarrow>
         (case lru_deref it (cache_list c) of
            None \<Rightarrow> None
          | Some (i, k, expire, v) \<Rightarrow>
              if expire < now \<and> expire > 0 then Some (c, None)
              else Some (c\<lparr>cache_list := (i, k, expire, v) # lru_erase it (cache_list c)\<rparr>, Some v)))"

definition lru_expire_time :: "int \<Rightarrow> int \<Rightarrow> int" where
  "lru_expire_time now expire = (if expire \<le> 0 then 0 else now + expire)"

definition lru_evict :: "'v LRUCache \<Rightarrow> 'v LRUCache" where
  "lru_evict c =
    (let size = length (cache_list c) in
     if size = cache_capacity c \<and> size > 0 then
       c\<lparr>cache_map := (cache_map c)(fst (snd (last (cache_list c))) := None), cache_list := butlast (cache_list c)\<rparr>
     else c)"

definition lru_set :: "int \<Rightarrow> string \<Rightarrow> 'v \<Rightarrow> int \<Rightarrow> 'v LRUCache \<Rightarrow> 'v LRUCache option" where
  "lru_set now key val expire c =
    (let expire_time = lru_expire_time now expire in
     case cache_map c key of
       Some it \<Rightarrow>
         (case lru_deref it (cache_list c) of
            None \<Rightarrow> None
          | Some (i, k, _, _) \<Rightarrow>
              Some (c\<lparr>cache_list := (i, k, expire_time, val) # lru_erase it (cache_list c)\<rparr>))
     | None \<Rightarrow>
         (let c1 = lru_evict c in
          Some (c1\<lparr>cache_list := (cache_next c1, key, expire_time, val) # cache_list c1,
                  cache_map := (cache_map c1)(key \<mapsto> cache_next c1),
                  cache_next := cache_next c1 + 1\<rparr>)))"

definition lru_del :: "string \<Rightarrow> 'v LRUCache \<Rightarrow> 'v LRUCache option" where
  "lru_del key c =
    (case cache_map c key of
       None \<Rightarrow> Some c
     | Some it \<Rightarrow>
         (case lru_deref it (cache_list c) of
            None \<Rightarrow> None
          | Some _ \<Rightarrow> Some (c\<lparr>cache_list := lru_erase it (cache_list c), cache_map := (cache_map c)(key := None)\<rparr>)))"

definition lru_clear :: "'v LRUCache \<Rightarrow> 'v LRUCache" where
  "lru_clear c = c\<lparr>cache_list := [], cache_map := (\<lambda>_. None)\<rparr>"

text \<open>A client's calls, each with the clock it reads.\<close>

datatype 'v lru_op = LGet int string | LSet int string 'v int | LDel string | LClear

fun lru_exec :: "'v lru_op \<Rightarrow> 'v LRUCache \<Rightarrow> 'v LRUCache option" where
  "lru_exec (LGet now k) c = map_option fst (lru_get now k c)"
| "lru_exec (LSet now k v e) c = lru_set now k v e c"
| "lru_exec (LDel k) c = lru_del k c"
| "lru_exec LClear c = Some (lru_clear c)"

fun lru_run :: "'v lru_op list \<Rightarrow> 'v LRUCache \<Rightarrow> 'v LRUCache option" where
  "lru_run [] c = Some c"
| "lru_run (op # ops) c = Option.bind (lru_exec op c) (lru_run ops)"

text \<open>
  The type invariant: iterators and keys of the list are distinct, a key is mapped to an iterator exactly when
  the list has a node with both, new iterators are fresh, and a capacity other than 0 is never exceeded.
\<close>

definition lru_wf :: "'v LRUCache \<Rightarrow> bool" where
  "lru_wf c \<longleftrightarrow>
     distinct (map fst (cache_list c)) \<and> distinct (map (\<lambda>n. fst (snd n)) (cache_list c)) \<and>
     (\<forall>k it. cache_map c k = Some it \<longleftrightarrow> (\<exists>t v. (it, k, t, v) \<in> set (cache_list c))) \<and>
     (\<forall>n\<in>set (cache_list c). fst n < cache_next c) \<and>
     (cache_capacity c > 0 \<longrightarrow> length (cache_list c) \<le> cache_capacity c)"

text \<open>The abstract cache: entries in order of use, the most recent first.\<close>

type_synonym 'v lru_entries = "(string \<times> int \<times> 'v) list"

definition lru_abs :: "'v LRUCache \<Rightarrow> 'v lru_entries" where
  "lru_abs c = map snd (cache_list c)"

definition without :: "string \<Rightarrow> 'v lru_entries \<Rightarrow> 'v lru_entries" where
  "without k es = filter (\<lambda>e. fst e \<noteq> k) es"

fun abs_exec :: "nat \<Rightarrow> 'v lru_op \<Rightarrow> 'v lru_entries \<Rightarrow> 'v lru_entries" where
  "abs_exec cap (LGet now k) es =
     (case map_of es k of
        None \<Rightarrow> es
      | Some (t, v) \<Rightarrow> if 0 < t \<and> t < now then es else (k, t, v) # without k es)"
| "abs_exec cap (LSet now k v e) es =
     (let es1 = (k, lru_expire_time now e, v) # without k es in if cap > 0 then take cap es1 else es1)"
| "abs_exec cap (LDel k) es = without k es"
| "abs_exec cap LClear es = []"

subsection \<open>Lookups through the map\<close>

lemma lru_deref_None: "lru_deref it xs = None \<longleftrightarrow> it \<notin> set (map fst xs)"
  by (force simp: lru_deref_def find_None_iff)

lemma lru_deref_Some: "lru_deref it xs = Some n \<Longrightarrow> n \<in> set xs \<and> fst n = it"
  by (auto simp: lru_deref_def find_Some_iff)

lemma lru_wf_key:
  assumes "lru_wf c" "(it, k, t, v) \<in> set (cache_list c)" "n \<in> set (cache_list c)"
  shows "fst n = it \<longleftrightarrow> n = (it, k, t, v)" "fst (snd n) = k \<longleftrightarrow> n = (it, k, t, v)"
proof -
  have "inj_on fst (set (cache_list c))" "inj_on (\<lambda>n. fst (snd n)) (set (cache_list c))"
    using assms(1) by (simp_all add: lru_wf_def distinct_map)
  from inj_onD [OF this(1), of n "(it, k, t, v)"] inj_onD [OF this(2), of n "(it, k, t, v)"] assms(2,3)
  show "fst n = it \<longleftrightarrow> n = (it, k, t, v)" "fst (snd n) = k \<longleftrightarrow> n = (it, k, t, v)" by auto
qed

lemma lru_wf_lookup: "lru_wf c \<Longrightarrow> cache_map c k = Some it \<longleftrightarrow> (\<exists>t v. (it, k, t, v) \<in> set (cache_list c))"
  by (simp add: lru_wf_def)

lemma lru_wf_unmapped:
  assumes "lru_wf c" shows "cache_map c k = None \<longleftrightarrow> k \<notin> set (map fst (lru_abs c))"
proof -
  have "k \<in> set (map fst (lru_abs c)) \<longleftrightarrow> (\<exists>it t v. (it, k, t, v) \<in> set (cache_list c))"
    by (force simp: lru_abs_def)
  also have "\<dots> \<longleftrightarrow> cache_map c k \<noteq> None" using lru_wf_lookup [OF assms, of k] by auto
  finally show ?thesis by auto
qed

lemma lru_wf_mapped:
  assumes wf: "lru_wf c" and "cache_map c k = Some it"
  obtains t v where "lru_deref it (cache_list c) = Some (it, k, t, v)" "(it, k, t, v) \<in> set (cache_list c)"
proof -
  obtain t v where m: "(it, k, t, v) \<in> set (cache_list c)" using lru_wf_lookup [OF wf] assms(2) by blast
  then have "lru_deref it (cache_list c) \<noteq> None" unfolding lru_deref_None by force
  then obtain n where d: "lru_deref it (cache_list c) = Some n" by auto
  then have "n = (it, k, t, v)" using lru_deref_Some [OF d] lru_wf_key(1) [OF wf m] by blast
  then show ?thesis using that d m by simp
qed

lemma lru_erase_without:
  assumes wf: "lru_wf c" and m: "(it, k, t, v) \<in> set (cache_list c)"
  shows "map snd (lru_erase it (cache_list c)) = without k (lru_abs c)"
proof -
  have "filter (\<lambda>n. fst n \<noteq> it) (cache_list c) = filter (\<lambda>n. fst (snd n) \<noteq> k) (cache_list c)"
    using lru_wf_key [OF wf m] by (intro filter_cong) auto
  then show ?thesis by (simp add: lru_erase_def without_def lru_abs_def filter_map o_def)
qed

lemma lru_abs_map_of:
  assumes "lru_wf c" "(it, k, t, v) \<in> set (cache_list c)"
  shows "map_of (lru_abs c) k = Some (t, v)"
proof (rule map_of_is_SomeI)
  show "distinct (map fst (lru_abs c))" using assms by (simp add: lru_wf_def lru_abs_def o_def)
  show "(k, t, v) \<in> set (lru_abs c)" using assms(2) by (force simp: lru_abs_def)
qed

subsection \<open>Every operation keeps the invariant\<close>

lemma lru_erase_set: "set (lru_erase it xs) = {n \<in> set xs. fst n \<noteq> it}"
  by (simp add: lru_erase_def)

lemma lru_erase_length: "n \<in> set xs \<Longrightarrow> fst n = it \<Longrightarrow> length (lru_erase it xs) < length xs"
  unfolding lru_erase_def by (intro length_filter_less) auto

lemma lru_erase_distinct:
  "distinct (map fst xs) \<Longrightarrow> distinct (map fst (lru_erase it xs))"
  "distinct (map (\<lambda>n. fst (snd n)) xs) \<Longrightarrow> distinct (map (\<lambda>n. fst (snd n)) (lru_erase it xs))"
  by (simp_all add: lru_erase_def distinct_map_filter)

lemma lru_wf_erase:
  assumes wf: "lru_wf c" and m: "(it, k, t, v) \<in> set (cache_list c)"
  shows "lru_wf (c\<lparr>cache_list := lru_erase it (cache_list c), cache_map := (cache_map c)(k := None)\<rparr>)"
proof -
  have m: "((cache_map c)(k := None)) k' = Some i \<longleftrightarrow> (\<exists>t v. (i, k', t, v) \<in> set (lru_erase it (cache_list c)))" for k' i
    using lru_wf_lookup [OF wf, of k' i] lru_wf_key [OF wf m] m unfolding lru_erase_set by (cases "k' = k") fastforce+
  note w = wf [unfolded lru_wf_def]
  have len: "cache_capacity c > 0 \<longrightarrow> length (lru_erase it (cache_list c)) \<le> cache_capacity c"
    using w unfolding lru_erase_def by (meson le_trans length_filter_le)
  have "\<forall>n\<in>set (lru_erase it (cache_list c)). fst n < cache_next c" using w by (simp add: lru_erase_set)
  then show ?thesis using w m len unfolding lru_wf_def by (simp add: lru_erase_distinct del: fun_upd_apply)
qed

text \<open>Inserting a node at the front, when neither its key nor its iterator is in use.\<close>

lemma lru_wf_insert:
  assumes wf: "lru_wf c" and new: "cache_map c k = None" "it < nxt" "cache_next c \<le> nxt"
    and fresh: "it \<notin> fst ` set (cache_list c)"
    and room: "cache_capacity c > 0 \<Longrightarrow> length (cache_list c) < cache_capacity c"
  shows "lru_wf (c\<lparr>cache_list := (it, k, t, v) # cache_list c, cache_map := (cache_map c)(k \<mapsto> it), cache_next := nxt\<rparr>)"
proof -
  have k: "(i, k, t', v') \<notin> set (cache_list c)" for i t' v'
    using new(1) lru_wf_lookup [OF wf, of k i] by auto
  have m: "((cache_map c)(k \<mapsto> it)) k' = Some i \<longleftrightarrow> (\<exists>t' v'. (i, k', t', v') = (it, k, t, v) \<or> (i, k', t', v') \<in> set (cache_list c))" for k' i
    using lru_wf_lookup [OF wf, of k' i] k by (cases "k' = k") auto
  have d: "k \<notin> (\<lambda>n. fst (snd n)) ` set (cache_list c)" using k by (force simp: image_iff)
  note w = wf [unfolded lru_wf_def]
  have "\<forall>n\<in>set (cache_list c). fst n < nxt" using w new(3) by (meson less_le_trans)
  then show ?thesis unfolding lru_wf_def using w d m new(2) fresh room by (simp del: fun_upd_apply add: Suc_le_eq)
qed

lemma lru_wf_touch:
  assumes wf: "lru_wf c" and m: "(it, k, t, v) \<in> set (cache_list c)"
  shows "lru_wf (c\<lparr>cache_list := (it, k, t', v') # lru_erase it (cache_list c)\<rparr>)"
proof -
  have "cache_map c k = Some it" "it < cache_next c" using wf m by (auto simp: lru_wf_def)
  moreover have "cache_capacity c > 0 \<Longrightarrow> length (lru_erase it (cache_list c)) < cache_capacity c"
    using lru_erase_length [OF m] wf by (simp add: lru_wf_def)
  ultimately have "lru_wf (c\<lparr>cache_list := (it, k, t', v') # lru_erase it (cache_list c),
      cache_map := ((cache_map c)(k := None))(k \<mapsto> it), cache_next := cache_next c\<rparr>)"
    using lru_wf_insert [OF lru_wf_erase [OF wf m], of k it "cache_next c" t' v'] by (auto simp: lru_erase_set)
  moreover have "((cache_map c)(k := None))(k \<mapsto> it) = cache_map c" using \<open>cache_map c k = Some it\<close> by auto
  ultimately show ?thesis by simp
qed

lemma lru_evict_erase:
  assumes wf: "lru_wf c" and "length (cache_list c) = cache_capacity c" "cache_list c = xs @ [(it, k, t, v)]"
  shows "lru_evict c = c\<lparr>cache_list := lru_erase it (cache_list c), cache_map := (cache_map c)(k := None)\<rparr>"
proof -
  have "\<forall>n\<in>set xs. fst n \<noteq> it" using wf assms(3) by (auto simp: lru_wf_def)
  then have "lru_erase it (cache_list c) = xs" using assms(3) by (simp add: lru_erase_def)
  then show ?thesis using assms by (simp add: lru_evict_def Let_def)
qed

lemma lru_wf_evict:
  assumes wf: "lru_wf c"
  shows "lru_wf (lru_evict c) \<and> (cache_capacity c > 0 \<longrightarrow> length (cache_list (lru_evict c)) < cache_capacity c)"
proof (cases "length (cache_list c) = cache_capacity c \<and> cache_list c \<noteq> []")
  case True
  then obtain xs it k t v where xs: "cache_list c = xs @ [(it, k, t, v)]" by (metis append_butlast_last_id surj_pair)
  then show ?thesis
    using True lru_evict_erase [OF wf _ xs] lru_wf_erase [OF wf, of it k t v] lru_erase_length [of "(it, k, t, v)" "cache_list c" it] by simp
next
  case False
  then have "lru_evict c = c" by (auto simp: lru_evict_def)
  then show ?thesis using wf False by (auto simp: lru_wf_def)
qed

lemma lru_evict_abs:
  "lru_abs (lru_evict c) =
     (if length (lru_abs c) = cache_capacity c \<and> lru_abs c \<noteq> [] then butlast (lru_abs c) else lru_abs c)"
  by (simp add: lru_evict_def Let_def lru_abs_def map_butlast)

lemma lru_evict_simps [simp]:
  "cache_next (lru_evict c) = cache_next c" "cache_capacity (lru_evict c) = cache_capacity c"
  by (simp_all add: lru_evict_def Let_def)

lemma lru_evict_unmapped: "cache_map c k = None \<Longrightarrow> cache_map (lru_evict c) k = None"
  by (simp add: lru_evict_def Let_def)

lemma lru_set_new:
  assumes wf: "lru_wf c" and new: "cache_map c k = None"
  obtains c' where "lru_set now k v e c = Some c'" "lru_wf c'"
    "lru_abs c' = (k, lru_expire_time now e, v) # lru_abs (lru_evict c)" "cache_capacity c' = cache_capacity c"
proof -
  have "cache_next c \<notin> fst ` set (cache_list (lru_evict c))"
    using lru_wf_evict [OF wf] by (auto simp: lru_wf_def)
  then show ?thesis
    using that lru_wf_insert [of "lru_evict c" k "cache_next c" "cache_next c + 1" "lru_expire_time now e" v]
      lru_wf_evict [OF wf] lru_evict_unmapped [OF new] new
    by (simp add: lru_set_def Let_def lru_abs_def)
qed

subsection \<open>Refinement\<close>

lemma without_id: "k \<notin> set (map fst es) \<Longrightarrow> without k es = es"
  by (induction es) (auto simp: without_def)

lemma without_length: "k \<in> set (map fst es) \<Longrightarrow> length (without k es) < length es"
  unfolding without_def by (auto intro: length_filter_less)

lemma lru_abs_bound: "lru_wf c \<Longrightarrow> cache_capacity c > 0 \<Longrightarrow> length (lru_abs c) \<le> cache_capacity c"
  by (simp add: lru_wf_def lru_abs_def)

lemma lru_set_step:
  assumes wf: "lru_wf c"
  shows "\<exists>c'. lru_set now k v e c = Some c' \<and> lru_wf c' \<and> cache_capacity c' = cache_capacity c \<and>
           lru_abs c' = abs_exec (cache_capacity c) (LSet now k v e) (lru_abs c)"
proof (cases "cache_map c k")
  case None
  then have "k \<notin> set (map fst (lru_abs c))" using lru_wf_unmapped [OF wf] by blast
  then have w: "without k (lru_abs c) = lru_abs c" by (rule without_id)
  have "take (cache_capacity c) (x # lru_abs c) = x # lru_abs (lru_evict c)" if "cache_capacity c > 0" for x
    using lru_abs_bound [OF wf that] that unfolding lru_evict_abs
    by (cases "cache_capacity c") (auto simp: butlast_conv_take)
  moreover have "lru_abs (lru_evict c) = lru_abs c" if "cache_capacity c = 0"
    using that unfolding lru_evict_abs by auto
  ultimately have "abs_exec (cache_capacity c) (LSet now k v e) (lru_abs c) = (k, lru_expire_time now e, v) # lru_abs (lru_evict c)"
    using w by (auto simp: Let_def)
  then show ?thesis using lru_set_new [OF wf None, of now v e] by metis
next
  case (Some it)
  obtain t u where d: "lru_deref it (cache_list c) = Some (it, k, t, u)" and m: "(it, k, t, u) \<in> set (cache_list c)"
    using lru_wf_mapped [OF wf Some] .
  have "k \<in> set (map fst (lru_abs c))" using m by (force simp: lru_abs_def)
  then have "length (without k (lru_abs c)) < cache_capacity c" if "cache_capacity c > 0"
    using without_length [of k "lru_abs c"] lru_abs_bound [OF wf that] by simp
  then have "abs_exec (cache_capacity c) (LSet now k v e) (lru_abs c) = (k, lru_expire_time now e, v) # without k (lru_abs c)"
    by (simp add: Let_def Suc_le_eq)
  then show ?thesis
    using lru_wf_touch [OF wf m, of "lru_expire_time now e" v] lru_erase_without [OF wf m] Some d
    by (simp add: lru_set_def lru_abs_def del: abs_exec.simps)
qed

lemma lru_get_step:
  assumes wf: "lru_wf c"
  shows "\<exists>c'. lru_get now k c = Some (c', (case map_of (lru_abs c) k of None \<Rightarrow> None
             | Some (t, v) \<Rightarrow> if 0 < t \<and> t < now then None else Some v)) \<and>
           lru_wf c' \<and> cache_capacity c' = cache_capacity c \<and>
           lru_abs c' = abs_exec (cache_capacity c) (LGet now k) (lru_abs c)"
proof (cases "cache_map c k")
  case None
  then have "map_of (lru_abs c) k = None" using lru_wf_unmapped [OF wf, of k] by (simp add: map_of_eq_None_iff)
  then show ?thesis using None wf by (simp add: lru_get_def)
next
  case (Some it)
  obtain t u where d: "lru_deref it (cache_list c) = Some (it, k, t, u)" and m: "(it, k, t, u) \<in> set (cache_list c)"
    using lru_wf_mapped [OF wf Some] .
  show ?thesis
    using lru_wf_touch [OF wf m, of t u] lru_erase_without [OF wf m] lru_abs_map_of [OF wf m] Some d wf
    by (auto simp: lru_get_def lru_abs_def)
qed

lemma lru_del_step:
  assumes wf: "lru_wf c"
  shows "\<exists>c'. lru_del k c = Some c' \<and> lru_wf c' \<and> cache_capacity c' = cache_capacity c \<and> lru_abs c' = without k (lru_abs c)"
proof (cases "cache_map c k")
  case None
  then have "k \<notin> set (map fst (lru_abs c))" using lru_wf_unmapped [OF wf] by blast
  then show ?thesis using without_id [of k "lru_abs c"] None wf by (simp add: lru_del_def)
next
  case (Some it)
  obtain t u where d: "lru_deref it (cache_list c) = Some (it, k, t, u)" and m: "(it, k, t, u) \<in> set (cache_list c)"
    using lru_wf_mapped [OF wf Some] .
  show ?thesis
    using lru_wf_erase [OF wf m] lru_erase_without [OF wf m] Some d by (simp add: lru_del_def lru_abs_def)
qed

lemma lru_exec_step:
  assumes wf: "lru_wf c"
  shows "\<exists>c'. lru_exec op c = Some c' \<and> lru_wf c' \<and> cache_capacity c' = cache_capacity c \<and>
           lru_abs c' = abs_exec (cache_capacity c) op (lru_abs c)"
proof (cases op)
  case (LGet now k)
  then show ?thesis using lru_get_step [OF wf, of now k] by auto
next
  case (LSet now k v e)
  then show ?thesis using lru_set_step [OF wf, of now k v e] by simp
next
  case (LDel k)
  then show ?thesis using lru_del_step [OF wf, of k] by simp
next
  case LClear
  then show ?thesis by (simp add: lru_clear_def lru_wf_def lru_abs_def)
qed

lemma lru_run_steps:
  "lru_wf c \<Longrightarrow> \<exists>c'. lru_run ops c = Some c' \<and> lru_wf c' \<and> cache_capacity c' = cache_capacity c \<and>
     lru_abs c' = fold (abs_exec (cache_capacity c)) ops (lru_abs c)"
proof (induction ops arbitrary: c)
  case (Cons op ops)
  obtain c1 where c1: "lru_exec op c = Some c1" "lru_wf c1" "cache_capacity c1 = cache_capacity c"
    "lru_abs c1 = abs_exec (cache_capacity c) op (lru_abs c)"
    using lru_exec_step [OF Cons.prems] by metis
  with Cons.IH [OF c1(2)] show ?case by simp
qed simp

lemma lru_new_wf: "lru_wf (lru_new cap)" "lru_abs (lru_new cap) = []" "cache_capacity (lru_new cap) = cap"
  by (simp_all add: lru_new_def lru_wf_def lru_abs_def)

text \<open>C36: The type invariant of the LRU cache: in every state reached from a new cache by any calls, at any times,
  no call dereferences an iterator of a node that is gone, map and list agree, and the capacity is kept.
\<close>

theorem lru_cache_invariant:
  "\<exists>c. lru_run ops (lru_new cap) = Some c \<and> lru_wf c \<and> cache_capacity c = cap"
  using lru_run_steps [OF lru_new_wf(1), of ops cap] lru_new_wf(3) [of cap] by metis

subsection \<open>What is evicted\<close>

text \<open>The entries that a sequence of stores leaves, the newest first, each key once.\<close>

type_synonym 'v lru_store = "int \<times> string \<times> 'v \<times> int"

fun lru_entry :: "'v lru_store \<Rightarrow> string \<times> int \<times> 'v" where
  "lru_entry (now, k, v, e) = (k, lru_expire_time now e, v)"

fun newest :: "'v lru_entries \<Rightarrow> 'v lru_entries" where
  "newest [] = []"
| "newest (e # es) = e # without (fst e) (newest es)"

definition LSet_of :: "'v lru_store \<Rightarrow> 'v lru_op" where
  "LSet_of s = (case s of (now, k, v, e) \<Rightarrow> LSet now k v e)"

lemma newest_distinct: "distinct (map fst (newest es))"
  by (induction es) (auto simp: without_def distinct_map_filter)

lemma take_without: "distinct (map fst es) \<Longrightarrow> take m (without k (take (Suc m) es)) = take m (without k es)"
proof (induction es arbitrary: m)
  case (Cons y es)
  show ?case
  proof (cases "fst y = k")
    case True
    then have "k \<notin> set (map fst es)" using Cons.prems by auto
    moreover have "k \<notin> set (map fst (take m es))" using calculation by (auto dest: in_set_takeD)
    ultimately show ?thesis using True without_id [of k es] without_id [of k "take m es"] by (simp add: without_def)
  next
    case False
    then show ?thesis using Cons by (cases m) (auto simp: without_def)
  qed
qed (simp add: without_def)

lemma lru_stores:
  "fold (abs_exec cap) (map LSet_of ss) [] =
     (if cap > 0 then take cap (newest (map lru_entry (rev ss))) else newest (map lru_entry (rev ss)))"
proof (induction ss rule: rev_induct)
  case (snoc s ss)
  define es where "es = newest (map lru_entry (rev ss))"
  obtain now k v e where s: "s = (now, k, v, e)" by (metis surj_pair)
  have "take cap (x # without k (take cap es)) = take cap (x # without k es)" for x
    using take_without [of es "cap - 1" k] newest_distinct by (cases cap) (auto simp: es_def)
  then show ?case using snoc s by (simp add: LSet_of_def es_def Let_def)
qed simp

text \<open>C7: After any stores, at any times, a cache of capacity \<open>cap\<close> holds exactly the \<open>cap\<close> most recently stored
  keys (every key when the capacity is 0), each with its newest value and expiry time, the newest first; and a
  lookup finds the value stored last under a key that is still held and not expired.
\<close>

theorem lru_cache_keeps_newest:
  "\<exists>c. lru_run (map LSet_of ss) (lru_new cap) = Some c \<and>
     lru_abs c = (if cap > 0 then take cap (newest (map lru_entry (rev ss))) else newest (map lru_entry (rev ss))) \<and>
     (\<forall>now k. map_option snd (lru_get now k c) =
        Some (case map_of (lru_abs c) k of None \<Rightarrow> None | Some (t, v) \<Rightarrow> if 0 < t \<and> t < now then None else Some v))"
proof -
  obtain c where c: "lru_run (map LSet_of ss) (lru_new cap) = Some c" "lru_wf c"
    "lru_abs c = fold (abs_exec cap) (map LSet_of ss) []"
    using lru_run_steps [OF lru_new_wf(1), of "map LSet_of ss" cap] by (auto simp: lru_new_wf)
  have "map_option snd (lru_get now k c) =
      Some (case map_of (lru_abs c) k of None \<Rightarrow> None | Some (t, v) \<Rightarrow> if 0 < t \<and> t < now then None else Some v)" for now k
    using lru_get_step [OF c(2), of now k] by (elim exE conjE) simp
  then show ?thesis by (intro exI [of _ c] conjI c(1) allI) (simp_all only: c(3) lru_stores)
qed

end
