(* ===== verification/Sw_CoChannel.thy ===== *)
theory Sw_CoChannel
  imports Sw_Fifo "HOL-Library.Word" "HOL-Library.Multiset"
begin

text \<open>
  The coroutine channel of \<open>include/swoole_coroutine_channel.h\<close> and \<open>src/coroutine/channel.cc\<close>: the ring buffer
  \<open>ChannelImpl\<close>, the two queues of waiting coroutines of \<open>ChannelBase\<close>, and the operations \<open>push\<close>, \<open>pop\<close>,
  \<open>close\<close> as the coroutines run them. \<open>Coroutine::resume\<close> (\<open>src/coroutine/base.cc\<close>) switches to the resumed
  coroutine at once and comes back when that coroutine yields or ends: the running coroutines form a stack.
  A coroutine is the list of the operations it still has to execute and the point of the code it has reached;
  \<open>co_step\<close> executes the coroutine on top of the stack up to the next switch or return. The event loop starts
  coroutines and fires timers when no coroutine runs. The allocation of the ring and the destructor's log
  message are not modelled, nor are \<open>on_yield\<close>/\<open>on_resume\<close> callbacks.
\<close>

unbundle bit_operations_syntax

section \<open>The ring buffer\<close>

datatype ChannelError = ERROR_OK | ERROR_TIMEOUT | ERROR_CLOSED | ERROR_CANCELED

record 'a CoChannel =
  ch_capacity :: nat
  ch_closed :: bool
  ch_error :: ChannelError
  producer_queue :: "nat list"
  consumer_queue :: "nat list"
  data_queue :: "'a list"
  ch_head :: nat
  ch_tail :: nat
  ch_count :: nat
  ch_mask :: nat

text \<open>The constructors; \<open>d\<close> is the value of the fresh array's elements.\<close>

definition CoChannel_new :: "'a \<Rightarrow> nat \<Rightarrow> 'a CoChannel" where
  "CoChannel_new d capacity0 =
    (let capacity = (if capacity0 = 0 then 1 else capacity0) in
     \<lparr>ch_capacity = capacity, ch_closed = False, ch_error = ERROR_OK, producer_queue = [], consumer_queue = [],
      data_queue = replicate capacity d, ch_head = 0, ch_tail = 0, ch_count = 0,
      ch_mask = (if capacity AND (capacity - 1) = 0 then capacity - 1 else 0)\<rparr>)"

definition ch_next :: "'a CoChannel \<Rightarrow> nat \<Rightarrow> nat" where
  "ch_next c offset =
    (if ch_mask c \<noteq> 0 then (offset + 1) AND ch_mask c else if offset + 1 = ch_capacity c then 0 else offset + 1)"

definition ch_is_empty :: "'a CoChannel \<Rightarrow> bool" where
  "ch_is_empty c \<longleftrightarrow> ch_count c = 0"

definition ch_is_full :: "'a CoChannel \<Rightarrow> bool" where
  "ch_is_full c \<longleftrightarrow> ch_count c = ch_capacity c"

text \<open>The store of \<open>push_data\<close>, up to the notification, and \<open>pop_data\<close>.\<close>

definition ch_store :: "'a CoChannel \<Rightarrow> 'a \<Rightarrow> 'a CoChannel \<times> bool" where
  "ch_store c x =
    (if ch_is_full c then (c\<lparr>ch_error := ERROR_TIMEOUT\<rparr>, False)
     else (c\<lparr>data_queue := (data_queue c)[ch_tail c := x], ch_tail := ch_next c (ch_tail c), ch_count := ch_count c + 1\<rparr>, True))"

definition ch_pop_data :: "'a CoChannel \<Rightarrow> 'a CoChannel \<times> 'a option" where
  "ch_pop_data c =
    (if ch_count c = 0 then (c, None)
     else (c\<lparr>ch_head := ch_next c (ch_head c), ch_count := ch_count c - 1\<rparr>, Some (data_queue c ! ch_head c)))"

definition ring_wf :: "'a CoChannel \<Rightarrow> bool" where
  "ring_wf c \<longleftrightarrow>
     ch_capacity c > 0 \<and> length (data_queue c) = ch_capacity c \<and> ch_head c < ch_capacity c \<and>
     ch_count c \<le> ch_capacity c \<and> ch_tail c = (ch_head c + ch_count c) mod ch_capacity c \<and>
     ch_mask c = (if ch_capacity c AND (ch_capacity c - 1) = 0 then ch_capacity c - 1 else 0)"

definition ch_items :: "'a CoChannel \<Rightarrow> 'a list" where
  "ch_items c = map (\<lambda>i. data_queue c ! ((ch_head c + i) mod ch_capacity c)) [0..<ch_count c]"

lemma and_pred_power: "n > 0 \<Longrightarrow> n AND (n - 1) = 0 \<Longrightarrow> \<exists>k. n = 2 ^ k" for n :: nat
proof (induction n rule: less_induct)
  case (less n)
  show ?case
  proof (cases "even n")
    case True
    then obtain m where m: "n = 2 * m" by blast
    have "(n - 1) div 2 = m - 1" using m less.prems(1) by auto
    moreover have "(n div 2) AND ((n - 1) div 2) = 0" using less.prems(2) and_rec [of n "n - 1"] by linarith
    ultimately have "m AND (m - 1) = 0" using less.prems(2) m by simp
    then obtain k where "m = 2 ^ k" using less.IH [of m] m less.prems(1) by auto
    then show ?thesis using m by (intro exI [of _ "Suc k"]) simp
  next
    case False
    then obtain m where m: "n = Suc (2 * m)" using oddE by (metis Suc_eq_plus1)
    have "(n div 2) AND ((n - 1) div 2) = 0" using less.prems(2) and_rec [of n "n - 1"] by linarith
    then have "m = 0" using m by simp
    then show ?thesis using m by (intro exI [of _ 0]) simp
  qed
qed

lemma ch_next_mod:
  assumes "ring_wf c" "off < ch_capacity c" shows "ch_next c off = (off + 1) mod ch_capacity c"
proof (cases "ch_mask c = 0")
  case True
  then show ?thesis using assms by (simp add: ch_next_def mod_if)
next
  case False
  then have m: "ch_capacity c AND (ch_capacity c - 1) = 0" "ch_mask c = ch_capacity c - 1"
    using assms by (auto simp: ring_wf_def split: if_splits)
  then obtain k where k: "ch_capacity c = 2 ^ k" using and_pred_power assms(1) by (metis ring_wf_def)
  have "(off + 1) AND (2 ^ k - 1) = (off + 1) mod 2 ^ k" by (metis mask_eq_exp_minus_1 take_bit_eq_mask take_bit_eq_mod)
  then show ?thesis using False m k by (simp add: ch_next_def)
qed

lemma ch_items_length [simp]: "length (ch_items c) = ch_count c"
  by (simp add: ch_items_def)

lemma ch_items_empty: "ch_items c = [] \<longleftrightarrow> ch_count c = 0"
  by (simp add: ch_items_def)

lemma CoChannel_new_ring: "ring_wf (CoChannel_new d n)" "ch_items (CoChannel_new d n) = []"
  by (simp_all add: CoChannel_new_def ring_wf_def ch_items_def Let_def)

lemma add_mod_wrap: "h < n \<Longrightarrow> i \<le> n \<Longrightarrow> (h + i) mod n = (if h + i < n then h + i else h + i - n)" for h i n :: nat
  by (simp add: le_mod_geq)

lemma add_mod_neq:
  fixes h i k n :: nat assumes "h < n" "i < k" "k < n" shows "(h + i) mod n \<noteq> (h + k) mod n"
proof -
  have a: "(h + i) mod n = (if h + i < n then h + i else h + i - n)" using assms by (intro add_mod_wrap) auto
  have b: "(h + k) mod n = (if h + k < n then h + k else h + k - n)" using assms by (intro add_mod_wrap) auto
  show ?thesis unfolding a b using assms by auto
qed

lemma ch_store_rep:
  assumes wf: "ring_wf c" and ok: "snd (ch_store c x)"
  shows "ring_wf (fst (ch_store c x)) \<and> ch_items (fst (ch_store c x)) = ch_items c @ [x]"
proof -
  define n h k where "n = ch_capacity c" and "h = ch_head c" and "k = ch_count c"
  have b: "h < n" "k < n" "ch_tail c = (h + k) mod n" "length (data_queue c) = n"
    using wf ok by (auto simp: ring_wf_def ch_store_def ch_is_full_def n_def h_def k_def split: if_splits)
  have t: "ch_next c (ch_tail c) = (h + (k + 1)) mod n"
    using ch_next_mod [OF wf, folded n_def, of "ch_tail c"] b by (simp add: mod_Suc_eq)
  have "(h + k) mod n \<noteq> (h + i) mod n" if "i < k" for i
    using add_mod_neq [of h n i k] b that by metis
  then have "map (\<lambda>i. (data_queue c)[(h + k) mod n := x] ! ((h + i) mod n)) [0..<k] = map (\<lambda>i. data_queue c ! ((h + i) mod n)) [0..<k]"
    by (intro map_cong refl nth_list_update_neq) simp
  moreover have "(data_queue c)[(h + k) mod n := x] ! ((h + k) mod n) = x" using b by simp
  ultimately have "ch_items (fst (ch_store c x)) = ch_items c @ [x]"
    using ok b by (simp add: ch_store_def ch_items_def ch_is_full_def n_def h_def k_def split: if_splits)
  moreover have "ring_wf (fst (ch_store c x))"
    using wf ok b t unfolding ring_wf_def ch_store_def n_def h_def k_def by (simp split: if_splits)
  ultimately show ?thesis by simp
qed

lemma ch_pop_rep:
  assumes wf: "ring_wf c" and q: "ch_items c = x # q"
  shows "snd (ch_pop_data c) = Some x \<and> ring_wf (fst (ch_pop_data c)) \<and> ch_items (fst (ch_pop_data c)) = q"
proof -
  define n h k where "n = ch_capacity c" and "h = ch_head c" and "k = ch_count c"
  obtain j where j: "k = Suc j" using q by (metis ch_items_length k_def length_Cons)
  have b: "h < n" "ch_next c h = (h + 1) mod n"
    using wf ch_next_mod [OF wf, of h] by (auto simp: ring_wf_def n_def h_def)
  have "ch_items c = data_queue c ! (h mod n) # map (\<lambda>i. data_queue c ! ((h + Suc i) mod n)) [0..<j]"
    using j by (simp add: ch_items_def n_def h_def k_def map_upt_Suc del: upt_Suc)
  then have x: "x = data_queue c ! h" and r: "q = map (\<lambda>i. data_queue c ! ((h + Suc i) mod n)) [0..<j]" using q b by auto
  have "((h + 1) mod n + i) mod n = (h + Suc i) mod n" for i by (simp add: mod_add_left_eq)
  then have "ch_items (fst (ch_pop_data c)) = q"
    using r j b by (simp add: ch_pop_data_def ch_items_def n_def h_def k_def)
  moreover have "ring_wf (fst (ch_pop_data c))"
    using wf j b by (auto simp: ring_wf_def ch_pop_data_def n_def h_def k_def mod_add_left_eq)
  ultimately show ?thesis using x j by (simp add: ch_pop_data_def h_def k_def)
qed

lemma ch_store_refused: "\<not> snd (ch_store c x) \<Longrightarrow> fst (ch_store c x) = c\<lparr>ch_error := ERROR_TIMEOUT\<rparr>"
  by (simp add: ch_store_def split: if_splits)

lemma ring_frame [simp]:
  "ring_wf (c\<lparr>ch_error := e\<rparr>) = ring_wf c" "ch_items (c\<lparr>ch_error := e\<rparr>) = ch_items c"
  "ring_wf (c\<lparr>ch_closed := b\<rparr>) = ring_wf c" "ch_items (c\<lparr>ch_closed := b\<rparr>) = ch_items c"
  "ring_wf (c\<lparr>producer_queue := ps\<rparr>) = ring_wf c" "ch_items (c\<lparr>producer_queue := ps\<rparr>) = ch_items c"
  "ring_wf (c\<lparr>consumer_queue := cs\<rparr>) = ring_wf c" "ch_items (c\<lparr>consumer_queue := cs\<rparr>) = ch_items c"
  by (simp_all add: ring_wf_def ch_items_def)

interpretation co_ring: bounded_fifo "\<lambda>c q. ring_wf c \<and> ch_items c = q" ch_store "\<lambda>c (_ :: unit). ch_pop_data c" "\<lambda>_ _. True"
proof unfold_locales
  show "snd (ch_pop_data s) = None \<and> ring_wf (fst (ch_pop_data s)) \<and> ch_items (fst (ch_pop_data s)) = q"
    if "ring_wf s \<and> ch_items s = q" "q = [] \<or> \<not> True" for s :: "'a CoChannel" and q
    using that by (auto simp: ch_pop_data_def ch_items_empty)
qed (auto simp: ch_store_rep ch_pop_rep ch_store_refused)

section \<open>Coroutines on a channel\<close>

text \<open>
  What a coroutine does: the channel operations and \<open>Coroutine::cancel\<close>. The flag of \<open>Push\<close> and \<open>Pop\<close> says that
  the call has a positive timeout, which adds a timer while the coroutine waits.
\<close>

datatype 'a co_op = Push 'a bool | Pop bool | Close | Cancel nat

text \<open>What a call returns to the coroutine, and why a waiting coroutine was resumed.\<close>

datatype 'a co_result = Pushed bool | Popped "'a option" | Closed bool | Canceled bool

datatype co_cause = NOTIFIED | TIMED_OUT | CANCELED

text \<open>The point a coroutine has reached. \<open>Fresh\<close>: not created; \<open>Returns r\<close>: inside the notification before \<open>return\<close>.\<close>

datatype 'a co_point =
    Fresh | Ready | Ended
  | WaitsPush 'a bool | WaitsPop bool
  | ResumedPush 'a co_cause | ResumedPop co_cause
  | PushData 'a | PopData
  | ClosingProducers | ClosingConsumers
  | Returns "'a co_result"

record 'a co_sys =
  sys_chan :: "'a CoChannel"
  sys_cos :: nat
  sys_prog :: "nat \<Rightarrow> 'a co_op list"
  sys_at :: "nat \<Rightarrow> 'a co_point"
  sys_stack :: "nat list"
  sys_log :: "(nat \<times> 'a co_result) list"
  sys_in :: "'a list"
  sys_out :: "'a list"

text \<open>
  The coroutines \<open>0 ..< n\<close> with their programs; \<open>sys_in\<close> and \<open>sys_out\<close> record the values stored in the ring and
  taken from it, in order.
\<close>

definition co_init :: "'a CoChannel \<Rightarrow> 'a co_op list list \<Rightarrow> 'a co_sys" where
  "co_init c progs =
    \<lparr>sys_chan = c, sys_cos = length progs, sys_prog = (\<lambda>i. if i < length progs then progs ! i else []),
     sys_at = (\<lambda>_. Fresh), sys_stack = [], sys_log = [], sys_in = [], sys_out = []\<rparr>"

fun resumed :: "co_cause \<Rightarrow> 'a co_point \<Rightarrow> 'a co_point" where
  "resumed k (WaitsPush v t) = ResumedPush v k"
| "resumed k (WaitsPop t) = ResumedPop k"
| "resumed k p = p"

definition co_goto :: "nat \<Rightarrow> 'a co_point \<Rightarrow> 'a co_sys \<Rightarrow> 'a co_sys" where
  "co_goto i p s = s\<lparr>sys_at := (sys_at s)(i := p)\<rparr>"

text \<open>\<open>Coroutine::resume\<close>: the coroutine becomes the running one; \<open>Coroutine::yield\<close>: its origin runs again.\<close>

definition co_resume :: "co_cause \<Rightarrow> nat \<Rightarrow> 'a co_sys \<Rightarrow> 'a co_sys" where
  "co_resume k j s = s\<lparr>sys_at := (sys_at s)(j := resumed k (sys_at s j)), sys_stack := j # sys_stack s\<rparr>"

definition co_yield :: "nat \<Rightarrow> 'a co_point \<Rightarrow> 'a co_sys \<Rightarrow> 'a co_sys" where
  "co_yield i p s = s\<lparr>sys_at := (sys_at s)(i := p), sys_stack := tl (sys_stack s)\<rparr>"

definition co_return :: "nat \<Rightarrow> 'a co_result \<Rightarrow> 'a co_sys \<Rightarrow> 'a co_sys" where
  "co_return i r s = s\<lparr>sys_at := (sys_at s)(i := Ready), sys_log := sys_log s @ [(i, r)]\<rparr>"

definition co_fail :: "nat \<Rightarrow> 'a co_result \<Rightarrow> ChannelError \<Rightarrow> 'a co_sys \<Rightarrow> 'a co_sys" where
  "co_fail i r e s = co_return i r (s\<lparr>sys_chan := (sys_chan s)\<lparr>ch_error := e\<rparr>\<rparr>)"

definition producer_remove :: "nat \<Rightarrow> 'a CoChannel \<Rightarrow> 'a CoChannel" where
  "producer_remove co c = c\<lparr>producer_queue := filter (\<lambda>x. x \<noteq> co) (producer_queue c)\<rparr>"

definition consumer_remove :: "nat \<Rightarrow> 'a CoChannel \<Rightarrow> 'a CoChannel" where
  "consumer_remove co c = c\<lparr>consumer_queue := filter (\<lambda>x. x \<noteq> co) (consumer_queue c)\<rparr>"

definition notify_consumer :: "'a co_sys \<Rightarrow> 'a co_sys" where
  "notify_consumer s =
    (case consumer_queue (sys_chan s) of
       [] \<Rightarrow> s
     | co # cs \<Rightarrow> co_resume NOTIFIED co (s\<lparr>sys_chan := (sys_chan s)\<lparr>consumer_queue := cs\<rparr>\<rparr>))"

definition notify_producer :: "'a co_sys \<Rightarrow> 'a co_sys" where
  "notify_producer s =
    (case producer_queue (sys_chan s) of
       [] \<Rightarrow> s
     | co # ps \<Rightarrow> co_resume NOTIFIED co (s\<lparr>sys_chan := (sys_chan s)\<lparr>producer_queue := ps\<rparr>\<rparr>))"

text \<open>\<open>wait_push\<close> and \<open>wait_pop\<close>, up to \<open>yield\<close> and after it.\<close>

definition wait_push :: "nat \<Rightarrow> 'a \<Rightarrow> bool \<Rightarrow> 'a co_sys \<Rightarrow> 'a co_sys" where
  "wait_push i v timeout s =
    (let c = sys_chan s in
     if ch_closed c then co_fail i (Pushed False) ERROR_CLOSED s
     else if ch_is_full c \<or> producer_queue c \<noteq> [] then
       co_yield i (WaitsPush v timeout) (s\<lparr>sys_chan := c\<lparr>producer_queue := producer_queue c @ [i]\<rparr>\<rparr>)
     else co_goto i (PushData v) s)"

definition wait_push_resumed :: "nat \<Rightarrow> 'a \<Rightarrow> co_cause \<Rightarrow> 'a co_sys \<Rightarrow> 'a co_sys" where
  "wait_push_resumed i v k s =
    (if k = CANCELED then co_fail i (Pushed False) ERROR_CANCELED s
     else if k = TIMED_OUT then co_fail i (Pushed False) ERROR_TIMEOUT s
     else if ch_closed (sys_chan s) then co_fail i (Pushed False) ERROR_CLOSED s
     else co_goto i (PushData v) s)"

definition wait_pop :: "nat \<Rightarrow> bool \<Rightarrow> 'a co_sys \<Rightarrow> 'a co_sys" where
  "wait_pop i timeout s =
    (let c = sys_chan s in
     if ch_closed c \<and> ch_is_empty c then co_fail i (Popped None) ERROR_CLOSED s
     else if ch_is_empty c \<or> consumer_queue c \<noteq> [] then
       co_yield i (WaitsPop timeout) (s\<lparr>sys_chan := c\<lparr>consumer_queue := consumer_queue c @ [i]\<rparr>\<rparr>)
     else co_goto i PopData s)"

definition wait_pop_resumed :: "nat \<Rightarrow> co_cause \<Rightarrow> 'a co_sys \<Rightarrow> 'a co_sys" where
  "wait_pop_resumed i k s =
    (if k = CANCELED then co_fail i (Popped None) ERROR_CANCELED s
     else if k = TIMED_OUT then co_fail i (Popped None) ERROR_TIMEOUT s
     else co_goto i PopData s)"

definition push_data :: "nat \<Rightarrow> 'a \<Rightarrow> 'a co_sys \<Rightarrow> 'a co_sys" where
  "push_data i v s =
    (let (c, ok) = ch_store (sys_chan s) v in
     if \<not> ok then co_return i (Pushed False) (s\<lparr>sys_chan := c\<rparr>)
     else notify_consumer (co_goto i (Returns (Pushed True)) (s\<lparr>sys_chan := c, sys_in := sys_in s @ [v]\<rparr>)))"

definition pop_tail :: "nat \<Rightarrow> 'a co_sys \<Rightarrow> 'a co_sys" where
  "pop_tail i s =
    (if ch_closed (sys_chan s) \<and> ch_is_empty (sys_chan s) then co_fail i (Popped None) ERROR_CLOSED s
     else
       (let (c, r) = ch_pop_data (sys_chan s) in
        case r of
          None \<Rightarrow> co_return i (Popped None) s
        | Some x \<Rightarrow> notify_producer (co_goto i (Returns (Popped (Some x))) (s\<lparr>sys_chan := c, sys_out := sys_out s @ [x]\<rparr>))))"

text \<open>The two loops of \<open>close\<close>, one resumption per step.\<close>

definition close_begin :: "nat \<Rightarrow> 'a co_sys \<Rightarrow> 'a co_sys" where
  "close_begin i s =
    (if ch_closed (sys_chan s) then co_return i (Closed False) s
     else co_goto i ClosingProducers (s\<lparr>sys_chan := (sys_chan s)\<lparr>ch_closed := True\<rparr>\<rparr>))"

definition close_producers :: "nat \<Rightarrow> 'a co_sys \<Rightarrow> 'a co_sys" where
  "close_producers i s =
    (if producer_queue (sys_chan s) \<noteq> [] then notify_producer s else co_goto i ClosingConsumers s)"

definition close_consumers :: "nat \<Rightarrow> 'a co_sys \<Rightarrow> 'a co_sys" where
  "close_consumers i s =
    (if consumer_queue (sys_chan s) \<noteq> [] then notify_consumer s else co_return i (Closed True) s)"

text \<open>
  \<open>Coroutine::cancel\<close> on coroutine \<open>j\<close>: only a coroutine that waits in this channel has the cancel function
  that \<open>ChannelBase::yield\<close> sets.
\<close>

definition co_cancel :: "nat \<Rightarrow> nat \<Rightarrow> 'a co_sys \<Rightarrow> 'a co_sys" where
  "co_cancel i j s =
    (case sys_at s j of
       WaitsPush _ _ \<Rightarrow> co_resume CANCELED j (co_goto i (Returns (Canceled True)) (s\<lparr>sys_chan := producer_remove j (sys_chan s)\<rparr>))
     | WaitsPop _ \<Rightarrow> co_resume CANCELED j (co_goto i (Returns (Canceled True)) (s\<lparr>sys_chan := consumer_remove j (sys_chan s)\<rparr>))
     | _ \<Rightarrow> co_return i (Canceled False) s)"

fun co_call :: "nat \<Rightarrow> 'a co_op \<Rightarrow> 'a co_sys \<Rightarrow> 'a co_sys" where
  "co_call i (Push v t) s = wait_push i v t s"
| "co_call i (Pop t) s = wait_pop i t s"
| "co_call i Close s = close_begin i s"
| "co_call i (Cancel j) s = co_cancel i j s"

fun co_continue :: "nat \<Rightarrow> 'a co_point \<Rightarrow> 'a co_sys \<Rightarrow> 'a co_sys option" where
  "co_continue i Ready s =
     Some (case sys_prog s i of
             [] \<Rightarrow> co_yield i Ended s
           | op # ops \<Rightarrow> co_call i op (s\<lparr>sys_prog := (sys_prog s)(i := ops)\<rparr>))"
| "co_continue i (ResumedPush v k) s = Some (wait_push_resumed i v k s)"
| "co_continue i (ResumedPop k) s = Some (wait_pop_resumed i k s)"
| "co_continue i (PushData v) s = Some (push_data i v s)"
| "co_continue i PopData s = Some (pop_tail i s)"
| "co_continue i ClosingProducers s = Some (close_producers i s)"
| "co_continue i ClosingConsumers s = Some (close_consumers i s)"
| "co_continue i (Returns r) s = Some (co_return i r s)"
| "co_continue i _ s = None"

definition co_step :: "'a co_sys \<Rightarrow> 'a co_sys option" where
  "co_step s = (case sys_stack s of [] \<Rightarrow> None | i # _ \<Rightarrow> co_continue i (sys_at s i) s)"

text \<open>The event loop, when no coroutine runs: \<open>timer_callback\<close> for a coroutine that waits with a timer.\<close>

definition timer_callback :: "nat \<Rightarrow> 'a co_sys \<Rightarrow> 'a co_sys option" where
  "timer_callback j s =
    (case sys_at s j of
       WaitsPush _ True \<Rightarrow> Some (co_resume TIMED_OUT j (s\<lparr>sys_chan := producer_remove j (sys_chan s)\<rparr>))
     | WaitsPop True \<Rightarrow> Some (co_resume TIMED_OUT j (s\<lparr>sys_chan := consumer_remove j (sys_chan s)\<rparr>))
     | _ \<Rightarrow> None)"

definition co_create :: "nat \<Rightarrow> 'a co_sys \<Rightarrow> 'a co_sys option" where
  "co_create i s =
    (if i < sys_cos s \<and> sys_at s i = Fresh then Some (s\<lparr>sys_at := (sys_at s)(i := Ready), sys_stack := i # sys_stack s\<rparr>) else None)"

inductive co_reach :: "'a co_sys \<Rightarrow> 'a co_sys \<Rightarrow> bool" for s0 where
  start: "co_reach s0 s0"
| run: "co_reach s0 s \<Longrightarrow> co_step s = Some t \<Longrightarrow> co_reach s0 t"
| create: "co_reach s0 s \<Longrightarrow> sys_stack s = [] \<Longrightarrow> co_create i s = Some t \<Longrightarrow> co_reach s0 t"
| timer: "co_reach s0 s \<Longrightarrow> sys_stack s = [] \<Longrightarrow> timer_callback j s = Some t \<Longrightarrow> co_reach s0 t"

section \<open>The scheduler\<close>

fun waits_push :: "'a co_point \<Rightarrow> bool" where
  "waits_push (WaitsPush _ _) = True" | "waits_push _ = False"

fun waits_pop :: "'a co_point \<Rightarrow> bool" where
  "waits_pop (WaitsPop _) = True" | "waits_pop _ = False"

definition outside :: "'a co_point \<Rightarrow> bool" where
  "outside p \<longleftrightarrow> p = Fresh \<or> p = Ended \<or> waits_push p \<or> waits_pop p"

fun suspended :: "'a co_point \<Rightarrow> bool" where
  "suspended (Returns _) = True" | "suspended ClosingProducers = True" | "suspended ClosingConsumers = True"
| "suspended _ = False"

text \<open>
  The queues hold exactly the waiting coroutines, the stack exactly the coroutines that run or have resumed
  another one, and all but the top of the stack are inside a notification.
\<close>

definition sched_inv :: "'a co_sys \<Rightarrow> bool" where
  "sched_inv s \<longleftrightarrow>
     distinct (sys_stack s) \<and> distinct (producer_queue (sys_chan s)) \<and> distinct (consumer_queue (sys_chan s)) \<and>
     (\<forall>i. i \<in> set (producer_queue (sys_chan s)) \<longleftrightarrow> waits_push (sys_at s i)) \<and>
     (\<forall>i. i \<in> set (consumer_queue (sys_chan s)) \<longleftrightarrow> waits_pop (sys_at s i)) \<and>
     (\<forall>i. i \<in> set (sys_stack s) \<longleftrightarrow> \<not> outside (sys_at s i)) \<and>
     (\<forall>i\<in>set (tl (sys_stack s)). suspended (sys_at s i)) \<and>
     (\<forall>i. sys_at s i \<noteq> Fresh \<longrightarrow> i < sys_cos s)"

lemma waits_cases: "waits_push p \<Longrightarrow> \<exists>v t. p = WaitsPush v t" "waits_pop p \<Longrightarrow> \<exists>t. p = WaitsPop t"
  by (cases p; simp)+

lemma outside_simps [simp]:
  "outside Fresh" "outside Ended" "outside (WaitsPush v t)" "outside (WaitsPop t)"
  "\<not> outside Ready" "\<not> outside (ResumedPush v k)" "\<not> outside (ResumedPop k)" "\<not> outside (PushData v)"
  "\<not> outside PopData" "\<not> outside ClosingProducers" "\<not> outside ClosingConsumers" "\<not> outside (Returns r)"
  by (simp_all add: outside_def)

lemma outside_waits: "waits_push p \<Longrightarrow> outside p" "waits_pop p \<Longrightarrow> outside p"
  by (simp_all add: outside_def)

lemma sched_waiting:
  assumes "sched_inv s"
  shows "j \<in> set (producer_queue (sys_chan s)) \<Longrightarrow> waits_push (sys_at s j) \<and> j \<notin> set (sys_stack s)"
    "j \<in> set (consumer_queue (sys_chan s)) \<Longrightarrow> waits_pop (sys_at s j) \<and> j \<notin> set (sys_stack s)"
  using assms by (simp_all add: sched_inv_def outside_waits)

lemma sched_goto: "sched_inv s \<Longrightarrow> sys_stack s = i # st \<Longrightarrow> \<not> outside p \<Longrightarrow> sched_inv (co_goto i p s)"
  unfolding sched_inv_def co_goto_def by (auto simp: outside_def)

lemma sched_frame:
  "sched_inv s \<Longrightarrow> producer_queue c = producer_queue (sys_chan s) \<Longrightarrow> consumer_queue c = consumer_queue (sys_chan s) \<Longrightarrow>
    sched_inv (s\<lparr>sys_chan := c\<rparr>)"
  "sched_inv (s\<lparr>sys_log := l\<rparr>) = sched_inv s" "sched_inv (s\<lparr>sys_in := a\<rparr>) = sched_inv s"
  "sched_inv (s\<lparr>sys_out := b\<rparr>) = sched_inv s" "sched_inv (s\<lparr>sys_prog := pr\<rparr>) = sched_inv s"
  by (simp_all add: sched_inv_def)

lemma sched_return: "sched_inv s \<Longrightarrow> sys_stack s = i # st \<Longrightarrow> sched_inv (co_return i r s)"
  unfolding sched_inv_def co_return_def by (auto simp: outside_def)

lemma in_tlD: "x \<in> set (tl xs) \<Longrightarrow> x \<in> set xs"
  by (cases xs) auto

lemma sched_end: "sched_inv s \<Longrightarrow> sys_stack s = i # st \<Longrightarrow> sched_inv (co_yield i Ended s)"
  unfolding sched_inv_def co_yield_def by (auto simp: outside_def dest: in_tlD)

lemma sched_wait_push:
  "sched_inv s \<Longrightarrow> sys_stack s = i # st \<Longrightarrow>
    sched_inv (co_yield i (WaitsPush v t) (s\<lparr>sys_chan := (sys_chan s)\<lparr>producer_queue := producer_queue (sys_chan s) @ [i]\<rparr>\<rparr>))"
  unfolding sched_inv_def co_yield_def by (auto simp: outside_def dest: in_tlD)

lemma sched_wait_pop:
  "sched_inv s \<Longrightarrow> sys_stack s = i # st \<Longrightarrow>
    sched_inv (co_yield i (WaitsPop t) (s\<lparr>sys_chan := (sys_chan s)\<lparr>consumer_queue := consumer_queue (sys_chan s) @ [i]\<rparr>\<rparr>))"
  unfolding sched_inv_def co_yield_def by (auto simp: outside_def dest: in_tlD)

lemma sched_resume_push:
  assumes "sched_inv s" "waits_push (sys_at s j)" "\<forall>i\<in>set (sys_stack s). suspended (sys_at s i)"
  shows "sched_inv (co_resume k j (s\<lparr>sys_chan := producer_remove j (sys_chan s)\<rparr>))"
proof -
  obtain v t where "sys_at s j = WaitsPush v t" using waits_cases(1) [OF assms(2)] by blast
  then show ?thesis using assms unfolding sched_inv_def co_resume_def producer_remove_def by (auto simp: outside_def)
qed

lemma sched_resume_pop:
  assumes "sched_inv s" "waits_pop (sys_at s j)" "\<forall>i\<in>set (sys_stack s). suspended (sys_at s i)"
  shows "sched_inv (co_resume k j (s\<lparr>sys_chan := consumer_remove j (sys_chan s)\<rparr>))"
proof -
  obtain t where "sys_at s j = WaitsPop t" using waits_cases(2) [OF assms(2)] by blast
  then show ?thesis using assms unfolding sched_inv_def co_resume_def consumer_remove_def by (auto simp: outside_def)
qed

lemma remove_head: "distinct (j # xs) \<Longrightarrow> filter (\<lambda>x. x \<noteq> j) (j # xs) = xs"
  by (simp add: filter_id_conv) metis

lemma notify_producer_resume:
  assumes "sched_inv s" "producer_queue (sys_chan s) = j # ps"
  shows "notify_producer s = co_resume NOTIFIED j (s\<lparr>sys_chan := producer_remove j (sys_chan s)\<rparr>)" "waits_push (sys_at s j)"
  using assms remove_head [of j ps] by (auto simp: notify_producer_def producer_remove_def sched_inv_def)

lemma notify_consumer_resume:
  assumes "sched_inv s" "consumer_queue (sys_chan s) = j # cs"
  shows "notify_consumer s = co_resume NOTIFIED j (s\<lparr>sys_chan := consumer_remove j (sys_chan s)\<rparr>)" "waits_pop (sys_at s j)"
  using assms remove_head [of j cs] by (auto simp: notify_consumer_def consumer_remove_def sched_inv_def)

lemma sched_notify_producer:
  assumes "sched_inv s" "\<forall>i\<in>set (sys_stack s). suspended (sys_at s i)" shows "sched_inv (notify_producer s)"
proof (cases "producer_queue (sys_chan s)")
  case (Cons j ps)
  then show ?thesis using notify_producer_resume [OF assms(1) Cons] sched_resume_push [OF assms(1) _ assms(2)] by simp
qed (use assms in \<open>simp add: notify_producer_def\<close>)

lemma sched_notify_consumer:
  assumes "sched_inv s" "\<forall>i\<in>set (sys_stack s). suspended (sys_at s i)" shows "sched_inv (notify_consumer s)"
proof (cases "consumer_queue (sys_chan s)")
  case (Cons j ps)
  then show ?thesis using notify_consumer_resume [OF assms(1) Cons] sched_resume_pop [OF assms(1) _ assms(2)] by simp
qed (use assms in \<open>simp add: notify_consumer_def\<close>)

lemma sched_suspend:
  assumes "sched_inv s" "sys_stack s = i # st" "suspended p"
  shows "sched_inv (co_goto i p s)" "\<forall>j\<in>set (sys_stack (co_goto i p s)). suspended (sys_at (co_goto i p s) j)"
proof -
  have "\<not> outside p" using assms(3) by (cases p) simp_all
  then show "sched_inv (co_goto i p s)" using sched_goto assms by blast
  show "\<forall>j\<in>set (sys_stack (co_goto i p s)). suspended (sys_at (co_goto i p s) j)"
    using assms by (auto simp: sched_inv_def co_goto_def)
qed

lemma ch_store_fields [simp]:
  "producer_queue (fst (ch_store c x)) = producer_queue c" "consumer_queue (fst (ch_store c x)) = consumer_queue c"
  "ch_closed (fst (ch_store c x)) = ch_closed c" "ch_capacity (fst (ch_store c x)) = ch_capacity c"
  by (simp_all add: ch_store_def)

lemma ch_pop_fields [simp]:
  "producer_queue (fst (ch_pop_data c)) = producer_queue c" "consumer_queue (fst (ch_pop_data c)) = consumer_queue c"
  "ch_closed (fst (ch_pop_data c)) = ch_closed c" "ch_capacity (fst (ch_pop_data c)) = ch_capacity c"
  by (simp_all add: ch_pop_data_def)

lemma co_fields [simp]:
  "sys_stack (co_goto i p s) = sys_stack s" "sys_chan (co_goto i p s) = sys_chan s" "sys_cos (co_goto i p s) = sys_cos s"
  "sys_stack (co_return i r s) = sys_stack s" "sys_chan (co_return i r s) = sys_chan s" "sys_cos (co_return i r s) = sys_cos s"
  "sys_chan (co_resume k j s) = sys_chan s" "sys_stack (co_resume k j s) = j # sys_stack s" "sys_cos (co_resume k j s) = sys_cos s"
  "sys_chan (co_yield i p s) = sys_chan s" "sys_stack (co_yield i p s) = tl (sys_stack s)" "sys_cos (co_yield i p s) = sys_cos s"
  by (simp_all add: co_goto_def co_return_def co_resume_def co_yield_def)

lemma sched_push_data: "sched_inv s \<Longrightarrow> sys_stack s = i # st \<Longrightarrow> sched_inv (push_data i v s)"
proof -
  assume a: "sched_inv s" "sys_stack s = i # st"
  obtain c ok where c: "ch_store (sys_chan s) v = (c, ok)" by fastforce
  have q: "producer_queue c = producer_queue (sys_chan s)" "consumer_queue c = consumer_queue (sys_chan s)"
    using ch_store_fields [of "sys_chan s" v] c by simp_all
  define s1 where "s1 = s\<lparr>sys_chan := c, sys_in := sys_in s @ [v]\<rparr>"
  have s1: "sched_inv s1" "sys_stack s1 = i # st" using a q by (simp_all add: s1_def sched_frame)
  then have "sched_inv (notify_consumer (co_goto i (Returns (Pushed True)) s1))"
    by (intro sched_notify_consumer sched_suspend) simp_all
  then show ?thesis using a q c by (auto simp: push_data_def s1_def sched_return sched_frame)
qed

lemma sched_pop_tail: "sched_inv s \<Longrightarrow> sys_stack s = i # st \<Longrightarrow> sched_inv (pop_tail i s)"
proof -
  assume a: "sched_inv s" "sys_stack s = i # st"
  obtain c r where c: "ch_pop_data (sys_chan s) = (c, r)" by fastforce
  have q: "producer_queue c = producer_queue (sys_chan s)" "consumer_queue c = consumer_queue (sys_chan s)"
    using ch_pop_fields [of "sys_chan s"] c by simp_all
  have "sched_inv (notify_producer (co_goto i (Returns (Popped (Some x))) (s\<lparr>sys_chan := c, sys_out := sys_out s @ [x]\<rparr>)))" for x
  proof -
    define s1 where "s1 = s\<lparr>sys_chan := c, sys_out := sys_out s @ [x]\<rparr>"
    have "sched_inv s1" "sys_stack s1 = i # st" using a q by (simp_all add: s1_def sched_frame)
    then show ?thesis unfolding s1_def [symmetric] by (intro sched_notify_producer sched_suspend) simp_all
  qed
  then show ?thesis using a c by (auto simp: pop_tail_def co_fail_def sched_return sched_frame split: option.splits)
qed

lemma sched_cancel: "sched_inv s \<Longrightarrow> sys_stack s = i # st \<Longrightarrow> sched_inv (co_cancel i j s)"
proof -
  assume a: "sched_inv s" "sys_stack s = i # st"
  define s1 where "s1 = co_goto i (Returns (Canceled True)) s"
  have "suspended (Returns (Canceled True))" by simp
  note s1 = sched_suspend [OF a this, folded s1_def]
  have "outside (sys_at s j) \<Longrightarrow> j \<noteq> i" using a by (auto simp: sched_inv_def)
  then have at: "outside (sys_at s j) \<Longrightarrow> sys_at s1 j = sys_at s j" by (simp add: s1_def co_goto_def)
  have eq: "co_goto i (Returns (Canceled True)) (s\<lparr>sys_chan := c\<rparr>) = s1\<lparr>sys_chan := c\<rparr>" for c by (simp add: s1_def co_goto_def)
  have ch: "sys_chan s1 = sys_chan s" by (simp add: s1_def)
  show ?thesis
    unfolding co_cancel_def eq
    using a s1 at sched_resume_push [OF s1(1) _ s1(2), of j CANCELED] sched_resume_pop [OF s1(1) _ s1(2), of j CANCELED]
    by (auto simp: sched_return ch split: co_point.splits)
qed

lemma sched_close:
  assumes "sched_inv s" "sys_stack s = i # st" "suspended (sys_at s i)"
  shows "sched_inv (close_producers i s)" "sched_inv (close_consumers i s)"
proof -
  have "\<forall>j\<in>set (sys_stack s). suspended (sys_at s j)" using assms by (auto simp: sched_inv_def)
  note n = sched_notify_producer [OF assms(1) this] sched_notify_consumer [OF assms(1) this]
  show "sched_inv (close_producers i s)" "sched_inv (close_consumers i s)"
    using assms n
    by (auto simp: close_producers_def close_consumers_def sched_goto sched_return)
qed

lemma sched_call: "sched_inv s \<Longrightarrow> sys_stack s = i # st \<Longrightarrow> sched_inv (co_call i op s)"
  by (cases op)
     (auto simp: wait_push_def wait_pop_def close_begin_def co_fail_def Let_def
        sched_return sched_frame sched_goto sched_wait_push sched_wait_pop sched_cancel)

lemma sched_step:
  assumes "sched_inv s" "co_step s = Some t" shows "sched_inv t"
proof -
  obtain i st where st: "sys_stack s = i # st" using assms(2) by (auto simp: co_step_def split: list.splits)
  have t: "co_continue i (sys_at s i) s = Some t" using assms(2) st by (simp add: co_step_def)
  show ?thesis
  proof (cases "sys_at s i")
    case Ready
    then show ?thesis
      using assms(1) st t sched_end sched_call [of "s\<lparr>sys_prog := (sys_prog s)(i := ops)\<rparr>" for ops]
      by (auto simp: sched_frame split: list.splits)
  qed (use assms(1) st t sched_close [of s i st] in
    \<open>auto simp: wait_push_resumed_def wait_pop_resumed_def co_fail_def sched_return sched_frame sched_goto sched_push_data sched_pop_tail\<close>)
qed

lemma sched_timer:
  assumes "sched_inv s" "sys_stack s = []" "timer_callback j s = Some t" shows "sched_inv t"
  using assms sched_resume_push [OF assms(1), of j TIMED_OUT] sched_resume_pop [OF assms(1), of j TIMED_OUT]
  by (auto simp: timer_callback_def split: co_point.splits bool.splits)

lemma sched_create: "sched_inv s \<Longrightarrow> sys_stack s = [] \<Longrightarrow> co_create i s = Some t \<Longrightarrow> sched_inv t"
  by (auto simp: co_create_def sched_inv_def outside_def split: if_splits)

section \<open>First in, first out\<close>

definition fifo_inv :: "'a co_sys \<Rightarrow> bool" where
  "fifo_inv s \<longleftrightarrow> ring_wf (sys_chan s) \<and> sys_in s = sys_out s @ ch_items (sys_chan s)"

lemma fifo_frame [simp]:
  "fifo_inv (co_goto i p s) = fifo_inv s" "fifo_inv (co_return i r s) = fifo_inv s" "fifo_inv (co_yield i p s) = fifo_inv s"
  "fifo_inv (co_resume k j s) = fifo_inv s" "fifo_inv (s\<lparr>sys_prog := pr\<rparr>) = fifo_inv s"
  "fifo_inv (s\<lparr>sys_chan := producer_remove j (sys_chan s)\<rparr>) = fifo_inv s"
  "fifo_inv (s\<lparr>sys_chan := consumer_remove j (sys_chan s)\<rparr>) = fifo_inv s"
  "fifo_inv (s\<lparr>sys_chan := (sys_chan s)\<lparr>ch_error := e\<rparr>\<rparr>) = fifo_inv s"
  "fifo_inv (s\<lparr>sys_chan := (sys_chan s)\<lparr>ch_closed := b\<rparr>\<rparr>) = fifo_inv s"
  "fifo_inv (s\<lparr>sys_chan := (sys_chan s)\<lparr>producer_queue := ps\<rparr>\<rparr>) = fifo_inv s"
  "fifo_inv (s\<lparr>sys_chan := (sys_chan s)\<lparr>consumer_queue := ps\<rparr>\<rparr>) = fifo_inv s"
  by (simp_all add: fifo_inv_def co_goto_def co_return_def co_yield_def co_resume_def producer_remove_def consumer_remove_def)

lemma fifo_notify [simp]: "fifo_inv (notify_producer s) = fifo_inv s" "fifo_inv (notify_consumer s) = fifo_inv s"
  by (simp_all add: notify_producer_def notify_consumer_def split: list.splits)

lemma fifo_push_data: "fifo_inv s \<Longrightarrow> fifo_inv (push_data i v s)"
proof -
  assume a: "fifo_inv s"
  show ?thesis
  proof (cases "snd (ch_store (sys_chan s) v)")
    case True
    then have "fifo_inv (s\<lparr>sys_chan := fst (ch_store (sys_chan s) v), sys_in := sys_in s @ [v]\<rparr>)"
      using a ch_store_rep [of "sys_chan s" v] by (simp add: fifo_inv_def)
    then show ?thesis using True by (auto simp: push_data_def split: prod.splits)
  next
    case False
    then show ?thesis using a ch_store_refused [of "sys_chan s" v] by (auto simp: push_data_def split: prod.splits)
  qed
qed

lemma fifo_pop_tail: "fifo_inv s \<Longrightarrow> fifo_inv (pop_tail i s)"
proof (cases "ch_items (sys_chan s)")
  case Nil
  assume "fifo_inv s"
  then show ?thesis using Nil by (simp add: pop_tail_def co_fail_def ch_pop_data_def ch_items_empty)
next
  case (Cons x q)
  assume a: "fifo_inv s"
  then have "snd (ch_pop_data (sys_chan s)) = Some x \<and> ring_wf (fst (ch_pop_data (sys_chan s))) \<and> ch_items (fst (ch_pop_data (sys_chan s))) = q"
    using ch_pop_rep [OF _ Cons] by (simp add: fifo_inv_def)
  then have "snd (ch_pop_data (sys_chan s)) = Some x" "fifo_inv (s\<lparr>sys_chan := fst (ch_pop_data (sys_chan s)), sys_out := sys_out s @ [x]\<rparr>)"
    using a Cons by (simp_all add: fifo_inv_def)
  then show ?thesis using a by (auto simp: pop_tail_def co_fail_def split: prod.splits)
qed

lemma fifo_call: "fifo_inv s \<Longrightarrow> fifo_inv (co_call i op s)"
  by (cases op) (auto simp: wait_push_def wait_pop_def close_begin_def co_cancel_def co_fail_def Let_def split: co_point.splits)

lemma fifo_step:
  assumes "fifo_inv s" "co_step s = Some t" shows "fifo_inv t"
proof -
  obtain i st where st: "sys_stack s = i # st" using assms(2) by (auto simp: co_step_def split: list.splits)
  have "co_continue i (sys_at s i) s = Some t" using assms(2) st by (simp add: co_step_def)
  then show ?thesis using assms(1)
    by (cases "sys_at s i")
       (auto simp: wait_push_resumed_def wait_pop_resumed_def co_fail_def close_producers_def close_consumers_def
          fifo_push_data fifo_pop_tail fifo_call split: list.splits)
qed

lemma fifo_timer: "fifo_inv s \<Longrightarrow> timer_callback j s = Some t \<Longrightarrow> fifo_inv t"
  by (auto simp: timer_callback_def split: co_point.splits bool.splits)

lemma fifo_create: "fifo_inv s \<Longrightarrow> co_create i s = Some t \<Longrightarrow> fifo_inv t"
  by (auto simp: co_create_def fifo_inv_def split: if_splits)

end
