(* ===== verification/Sw_CoWake.thy ===== *)
theory Sw_CoWake
  imports Sw_CoChannel
begin

text \<open>
  The coroutine channel: no coroutine waits in vain, a closed channel has no waiting coroutines, and every turn
  of the event loop ends.
\<close>

section \<open>No lost wake-up\<close>

fun taking :: "'a co_point \<Rightarrow> bool" where
  "taking (ResumedPop k) = (k = NOTIFIED)" | "taking PopData = True" | "taking _ = False"

fun adding :: "'a co_point \<Rightarrow> bool" where
  "adding (ResumedPush v k) = (k = NOTIFIED)" | "adding (PushData v) = True" | "adding _ = False"

definition top_at :: "'a co_sys \<Rightarrow> 'a co_point" where
  "top_at s = (case sys_stack s of [] \<Rightarrow> Ended | i # _ \<Rightarrow> sys_at s i)"

text \<open>
  Nobody waits in vain: a consumer waits only when the ring is empty and, on an open channel, a producer only
  when it is full. While a notified coroutine is about to act, one value or one free place is reserved for it.
\<close>

definition served :: "'a CoChannel \<Rightarrow> bool" where
  "served c \<longleftrightarrow> (consumer_queue c \<noteq> [] \<longrightarrow> ch_count c = 0) \<and>
     (\<not> ch_closed c \<and> producer_queue c \<noteq> [] \<longrightarrow> ch_count c = ch_capacity c)"

definition wake_inv :: "'a co_sys \<Rightarrow> bool" where
  "wake_inv s \<longleftrightarrow> (let c = sys_chan s in
     (consumer_queue c \<noteq> [] \<longrightarrow> ch_count c = 0 \<or> taking (top_at s) \<and> ch_count c = 1) \<and>
     (\<not> ch_closed c \<and> producer_queue c \<noteq> [] \<longrightarrow> ch_count c = ch_capacity c \<or> adding (top_at s) \<and> ch_count c + 1 = ch_capacity c))"

lemma served_wake: "served (sys_chan s) \<Longrightarrow> wake_inv s"
  by (simp add: served_def wake_inv_def Let_def)

lemma wake_served: "wake_inv s \<Longrightarrow> \<not> taking (top_at s) \<Longrightarrow> \<not> adding (top_at s) \<Longrightarrow> served (sys_chan s)"
  by (simp add: served_def wake_inv_def Let_def)

lemma top_at_Cons: "sys_stack s = i # st \<Longrightarrow> top_at s = sys_at s i"
  by (simp add: top_at_def)

lemma served_fields [simp]:
  "served (c\<lparr>ch_error := e\<rparr>) = served c"
  "served c \<Longrightarrow> served (c\<lparr>ch_closed := True\<rparr>)"
  by (simp_all add: served_def)

lemma served_remove: "served c \<Longrightarrow> served (producer_remove j c)" "served c \<Longrightarrow> served (consumer_remove j c)"
  by (auto simp: served_def producer_remove_def consumer_remove_def)

lemma notify_chan:
  "served (sys_chan s) \<Longrightarrow> served (sys_chan (notify_producer s))" "served (sys_chan s) \<Longrightarrow> served (sys_chan (notify_consumer s))"
  by (auto simp: served_def notify_producer_def notify_consumer_def split: list.splits)

lemma served_call: "served (sys_chan s) \<Longrightarrow> served (sys_chan (co_call i op s))"
  by (cases op)
     (auto simp: wait_push_def wait_pop_def close_begin_def co_cancel_def co_fail_def Let_def served_remove
        served_def ch_is_full_def ch_is_empty_def producer_remove_def consumer_remove_def split: co_point.splits)

lemma ch_store_count: "ch_store c x = (c', True) \<Longrightarrow> ch_count c' = ch_count c + 1 \<and> ch_count c \<noteq> ch_capacity c"
  by (auto simp: ch_store_def ch_is_full_def split: if_splits)

lemma ch_store_full: "ch_store c x = (c', False) \<Longrightarrow> ch_count c = ch_capacity c \<and> c' = c\<lparr>ch_error := ERROR_TIMEOUT\<rparr>"
  by (auto simp: ch_store_def ch_is_full_def split: if_splits)

lemma ch_pop_count: "ch_pop_data c = (c', Some x) \<Longrightarrow> ch_count c = ch_count c' + 1"
  by (auto simp: ch_pop_data_def split: if_splits)

lemma ch_pop_None: "ch_pop_data c = (c', None) \<Longrightarrow> ch_count c = 0"
  by (auto simp: ch_pop_data_def split: if_splits)

lemma wake_push_data:
  assumes "sched_inv s" "wake_inv s" "sys_stack s = i # st" "sys_at s i = PushData v"
  shows "wake_inv (push_data i v s)"
proof -
  have w: "consumer_queue (sys_chan s) \<noteq> [] \<Longrightarrow> ch_count (sys_chan s) = 0"
    "\<not> ch_closed (sys_chan s) \<Longrightarrow> producer_queue (sys_chan s) \<noteq> [] \<Longrightarrow>
       ch_count (sys_chan s) = ch_capacity (sys_chan s) \<or> ch_count (sys_chan s) + 1 = ch_capacity (sys_chan s)"
    using assms(2-4) by (auto simp: wake_inv_def Let_def top_at_def)
  obtain c ok where c: "ch_store (sys_chan s) v = (c, ok)" by fastforce
  have f: "producer_queue c = producer_queue (sys_chan s)" "consumer_queue c = consumer_queue (sys_chan s)"
    "ch_closed c = ch_closed (sys_chan s)" "ch_capacity c = ch_capacity (sys_chan s)"
    using ch_store_fields [of "sys_chan s" v] c by simp_all
  show ?thesis
  proof (cases ok)
    case False
    then have "served (sys_chan (push_data i v s))" using c w ch_store_full [of "sys_chan s" v c] by (simp add: push_data_def served_def)
    then show ?thesis by (rule served_wake)
  next
    case True
    have n: "ch_count c = ch_count (sys_chan s) + 1" "ch_count (sys_chan s) \<noteq> ch_capacity (sys_chan s)"
      using ch_store_count [of "sys_chan s" v c] c True by auto
    show ?thesis
    proof (cases "consumer_queue (sys_chan s)")
      case Nil
      then show ?thesis using c True n f w by (auto simp: push_data_def notify_consumer_def wake_inv_def)
    next
      case (Cons j cs)
      then have "waits_pop (sys_at s j)" "j \<noteq> i" using sched_waiting(2) [OF assms(1), of j] assms(3) by auto
      then obtain t where "sys_at s j = WaitsPop t" using waits_cases(2) by blast
      then show ?thesis using c True n f w Cons \<open>j \<noteq> i\<close>
        by (auto simp: push_data_def notify_consumer_def wake_inv_def co_resume_def co_goto_def top_at_def Let_def)
    qed
  qed
qed

lemma wake_pop_tail:
  assumes "sched_inv s" "wake_inv s" "sys_stack s = i # st" "sys_at s i = PopData"
  shows "wake_inv (pop_tail i s)"
proof -
  have w: "consumer_queue (sys_chan s) \<noteq> [] \<Longrightarrow> ch_count (sys_chan s) = 0 \<or> ch_count (sys_chan s) = 1"
    "\<not> ch_closed (sys_chan s) \<Longrightarrow> producer_queue (sys_chan s) \<noteq> [] \<Longrightarrow> ch_count (sys_chan s) = ch_capacity (sys_chan s)"
    using assms(2-4) by (auto simp: wake_inv_def Let_def top_at_def)
  obtain c r where c: "ch_pop_data (sys_chan s) = (c, r)" by fastforce
  have f: "producer_queue c = producer_queue (sys_chan s)" "consumer_queue c = consumer_queue (sys_chan s)"
    "ch_closed c = ch_closed (sys_chan s)" "ch_capacity c = ch_capacity (sys_chan s)"
    using ch_pop_fields [of "sys_chan s"] c by simp_all
  show ?thesis
  proof (cases r)
    case None
    then have "served (sys_chan (pop_tail i s))"
      using c w ch_pop_None [of "sys_chan s" c] by (auto simp: pop_tail_def served_def co_fail_def)
    then show ?thesis by (rule served_wake)
  next
    case (Some x)
    have n: "ch_count (sys_chan s) = ch_count c + 1" using ch_pop_count [of "sys_chan s" c x] c Some by simp
    have p: "pop_tail i s = notify_producer (co_goto i (Returns (Popped (Some x))) (s\<lparr>sys_chan := c, sys_out := sys_out s @ [x]\<rparr>))"
      using c Some n by (simp add: pop_tail_def ch_is_empty_def)
    show ?thesis
    proof (cases "producer_queue (sys_chan s)")
      case Nil
      then show ?thesis unfolding p using n f w by (auto simp: notify_producer_def wake_inv_def)
    next
      case (Cons j ps)
      then have "waits_push (sys_at s j)" "j \<noteq> i" using sched_waiting(1) [OF assms(1), of j] assms(3) by auto
      then obtain v t where "sys_at s j = WaitsPush v t" using waits_cases(1) by blast
      then show ?thesis unfolding p using n f w Cons \<open>j \<noteq> i\<close>
        by (auto simp: notify_producer_def wake_inv_def co_resume_def co_goto_def top_at_def Let_def)
    qed
  qed
qed

lemma wake_resumed_push:
  assumes w: "wake_inv s" and st: "sys_stack s = i # st" "sys_at s i = ResumedPush v k"
  shows "wake_inv (wait_push_resumed i v k s)"
proof (cases "k = NOTIFIED \<and> \<not> ch_closed (sys_chan s)")
  case True
  then have "wait_push_resumed i v k s = co_goto i (PushData v) s" by (simp add: wait_push_resumed_def)
  then show ?thesis using w True st by (simp add: wake_inv_def Let_def top_at_def co_goto_def)
next
  case False
  then have "served (sys_chan s)" using w st by (auto simp: served_def wake_inv_def Let_def top_at_def)
  moreover have "\<exists>e. sys_chan (wait_push_resumed i v k s) = (sys_chan s)\<lparr>ch_error := e\<rparr>"
    using False by (cases k) (auto simp: wait_push_resumed_def co_fail_def)
  ultimately show ?thesis by (intro served_wake) auto
qed

lemma wake_resumed_pop:
  assumes w: "wake_inv s" and st: "sys_stack s = i # st" "sys_at s i = ResumedPop k"
  shows "wake_inv (wait_pop_resumed i k s)"
proof (cases "k = NOTIFIED")
  case True
  then have "wait_pop_resumed i k s = co_goto i PopData s" by (simp add: wait_pop_resumed_def)
  then show ?thesis using w True st by (simp add: wake_inv_def Let_def top_at_def co_goto_def)
next
  case False
  then have "served (sys_chan s)" using w st by (auto simp: served_def wake_inv_def Let_def top_at_def)
  moreover have "\<exists>e. sys_chan (wait_pop_resumed i k s) = (sys_chan s)\<lparr>ch_error := e\<rparr>"
    using False by (cases k) (auto simp: wait_pop_resumed_def co_fail_def)
  ultimately show ?thesis by (intro served_wake) auto
qed

lemma wake_step:
  assumes "sched_inv s" "wake_inv s" "co_step s = Some t" shows "wake_inv t"
proof -
  obtain i st where st: "sys_stack s = i # st" using assms(3) by (auto simp: co_step_def split: list.splits)
  have t: "co_continue i (sys_at s i) s = Some t" using assms(3) st by (simp add: co_step_def)
  have top: "top_at s = sys_at s i" using st by (rule top_at_Cons)
  note sv = wake_served [OF assms(2), unfolded top]
  show ?thesis
  proof (cases "sys_at s i")
    case Ready
    then have s: "served (sys_chan s)" using sv by simp
    have "served (sys_chan t)"
    proof (cases "sys_prog s i")
      case (Cons op ops)
      then have "t = co_call i op (s\<lparr>sys_prog := (sys_prog s)(i := ops)\<rparr>)" using t Ready by simp
      then show ?thesis using s by (simp add: served_call)
    qed (use t Ready s in auto)
    then show ?thesis by (rule served_wake)
  next
    case (ResumedPush v k)
    then show ?thesis using wake_resumed_push [OF assms(2) st] t by simp
  next
    case (ResumedPop k)
    then show ?thesis using wake_resumed_pop [OF assms(2) st] t by simp
  next
    case (PushData v)
    then show ?thesis using wake_push_data [OF assms(1,2) st] t by simp
  next
    case PopData
    then show ?thesis using wake_pop_tail [OF assms(1,2) st] t by simp
  next
    case ClosingProducers
    then show ?thesis using sv t by (auto simp: close_producers_def notify_chan intro!: served_wake split: if_splits)
  next
    case ClosingConsumers
    then show ?thesis using sv t by (auto simp: close_consumers_def notify_chan intro!: served_wake split: if_splits)
  next
    case (Returns r)
    then show ?thesis using sv t served_wake [of t] by auto
  qed (use t in simp_all)
qed

lemma wake_timer: "wake_inv s \<Longrightarrow> sys_stack s = [] \<Longrightarrow> timer_callback j s = Some t \<Longrightarrow> wake_inv t"
proof (rule served_wake)
  assume "wake_inv s" "sys_stack s = []" and t: "timer_callback j s = Some t"
  then have "served (sys_chan s)" by (intro wake_served) (simp_all add: top_at_def)
  then show "served (sys_chan t)" using t by (auto simp: timer_callback_def served_remove split: co_point.splits bool.splits)
qed

lemma wake_create: "wake_inv s \<Longrightarrow> sys_stack s = [] \<Longrightarrow> co_create i s = Some t \<Longrightarrow> wake_inv t"
  by (auto simp: co_create_def wake_inv_def Let_def top_at_def split: if_splits)

section \<open>Closing\<close>

text \<open>On a closed channel a coroutine still waits only while \<open>close\<close> is inside the loop that resumes it.\<close>

definition close_inv :: "'a co_sys \<Rightarrow> bool" where
  "close_inv s \<longleftrightarrow> (ch_closed (sys_chan s) \<longrightarrow>
     (producer_queue (sys_chan s) \<noteq> [] \<longrightarrow> (\<exists>j\<in>set (sys_stack s). sys_at s j = ClosingProducers)) \<and>
     (consumer_queue (sys_chan s) \<noteq> [] \<longrightarrow> (\<exists>j\<in>set (sys_stack s). sys_at s j = ClosingProducers \<or> sys_at s j = ClosingConsumers)))"

text \<open>A step leaves alone what is below the top of the stack.\<close>

definition below :: "nat list \<Rightarrow> 'a co_sys \<Rightarrow> 'a co_sys \<Rightarrow> bool" where
  "below st s t \<longleftrightarrow> set st \<subseteq> set (sys_stack t) \<and> (\<forall>j\<in>set st. sys_at t j = sys_at s j)"

lemma below_simps [simp]:
  "below st s (u\<lparr>sys_chan := c\<rparr>) = below st s u" "below st s (u\<lparr>sys_prog := pr\<rparr>) = below st s u"
  "below st s (u\<lparr>sys_in := a\<rparr>) = below st s u" "below st s (u\<lparr>sys_out := b\<rparr>) = below st s u"
  "i \<notin> set st \<Longrightarrow> below st s (co_goto i p u) = below st s u"
  "i \<notin> set st \<Longrightarrow> below st s (co_return i r u) = below st s u"
  by (auto simp: below_def co_goto_def co_return_def)

lemma below_resume: "j \<notin> set st \<Longrightarrow> below st s u \<Longrightarrow> below st s (co_resume k j u)"
  by (auto simp: below_def co_resume_def)

lemma below_yield: "i \<notin> set st \<Longrightarrow> sys_stack u = i # st \<Longrightarrow> below st s u \<Longrightarrow> below st s (co_yield i p u)"
  by (auto simp: below_def co_yield_def)

lemma below_notify:
  "below st s u \<Longrightarrow> set (producer_queue (sys_chan u)) \<inter> set st = {} \<Longrightarrow> below st s (notify_producer u)"
  "below st s u \<Longrightarrow> set (consumer_queue (sys_chan u)) \<inter> set st = {} \<Longrightarrow> below st s (notify_consumer u)"
  by (auto simp: notify_producer_def notify_consumer_def below_resume split: list.split)

lemma below_refl: "sys_stack s = i # st \<Longrightarrow> below st s s"
  by (auto simp: below_def)

lemma below_push_data:
  assumes "below st s u" "i \<notin> set st" "set (consumer_queue (sys_chan u)) \<inter> set st = {}" shows "below st s (push_data i v u)"
  using assms below_notify(2) [of st s "co_goto i (Returns (Pushed True)) (u\<lparr>sys_chan := fst (ch_store (sys_chan u) v), sys_in := sys_in u @ [v]\<rparr>)"]
  by (auto simp: push_data_def split: prod.split)

lemma below_pop_tail:
  assumes "below st s u" "i \<notin> set st" "set (producer_queue (sys_chan u)) \<inter> set st = {}" shows "below st s (pop_tail i u)"
  using assms below_notify(1) [of st s "co_goto i (Returns (Popped (Some x))) (u\<lparr>sys_chan := fst (ch_pop_data (sys_chan u)), sys_out := sys_out u @ [x]\<rparr>)" for x]
  by (auto simp: pop_tail_def co_fail_def split: prod.split option.split)

lemma below_call:
  assumes "below st s u" "sys_stack u = i # st" "i \<notin> set st" "\<forall>j\<in>set st. \<not> outside (sys_at u j)"
  shows "below st s (co_call i op u)"
proof (cases op)
  case (Cancel j)
  have "outside (sys_at u j) \<Longrightarrow> j \<notin> set st" using assms(4) by blast
  then show ?thesis using assms Cancel by (auto simp: co_cancel_def below_resume split: co_point.split)
qed (use assms in \<open>auto simp: wait_push_def wait_pop_def close_begin_def co_fail_def Let_def below_yield\<close>)

lemma below_step:
  assumes "sched_inv s" "sys_stack s = i # st" "co_step s = Some t" shows "below st s t"
proof -
  have t: "co_continue i (sys_at s i) s = Some t" using assms by (simp add: co_step_def)
  note b = below_refl [OF assms(2)]
  have i: "i \<notin> set st" "\<forall>j\<in>set st. \<not> outside (sys_at s j)" using assms(1,2) by (auto simp: sched_inv_def)
  have q: "set (producer_queue (sys_chan s)) \<inter> set st = {}" "set (consumer_queue (sys_chan s)) \<inter> set st = {}"
    using sched_waiting [OF assms(1)] assms(2) by (metis disjoint_iff list.set_intros(2))+
  show ?thesis
  proof (cases "sys_at s i")
    case Ready
    then show ?thesis
    proof (cases "sys_prog s i")
      case (Cons op ops)
      then have "t = co_call i op (s\<lparr>sys_prog := (sys_prog s)(i := ops)\<rparr>)" using t Ready by simp
      then show ?thesis using b i assms(2) by (simp add: below_call)
    qed (use t Ready b i assms(2) in \<open>auto simp: below_yield\<close>)
  qed (use t b i q in \<open>auto simp: wait_push_resumed_def wait_pop_resumed_def co_fail_def close_producers_def close_consumers_def
        below_push_data below_pop_tail below_notify\<close>)
qed

lemma notify_queues [simp]:
  "producer_queue (sys_chan (notify_producer u)) = tl (producer_queue (sys_chan u))"
  "consumer_queue (sys_chan (notify_producer u)) = consumer_queue (sys_chan u)"
  "producer_queue (sys_chan (notify_consumer u)) = producer_queue (sys_chan u)"
  "consumer_queue (sys_chan (notify_consumer u)) = tl (consumer_queue (sys_chan u))"
  "ch_closed (sys_chan (notify_producer u)) = ch_closed (sys_chan u)" "ch_closed (sys_chan (notify_consumer u)) = ch_closed (sys_chan u)"
  "ch_capacity (sys_chan (notify_producer u)) = ch_capacity (sys_chan u)" "ch_capacity (sys_chan (notify_consumer u)) = ch_capacity (sys_chan u)"
  by (simp_all add: notify_producer_def notify_consumer_def split: list.split)

lemma tl_nonempty: "tl xs \<noteq> [] \<Longrightarrow> xs \<noteq> []"
  by auto

text \<open>A closed channel stays closed and its queues do not start to fill.\<close>

definition shuts :: "'a CoChannel \<Rightarrow> 'a CoChannel \<Rightarrow> bool" where
  "shuts c d \<longleftrightarrow> ch_closed d \<and> (producer_queue d \<noteq> [] \<longrightarrow> producer_queue c \<noteq> []) \<and> (consumer_queue d \<noteq> [] \<longrightarrow> consumer_queue c \<noteq> [])"

lemma push_data_chan [simp]:
  "producer_queue (sys_chan (push_data i v s)) = producer_queue (sys_chan s)"
  "ch_closed (sys_chan (push_data i v s)) = ch_closed (sys_chan s)" "ch_capacity (sys_chan (push_data i v s)) = ch_capacity (sys_chan s)"
  by (simp_all add: push_data_def ch_store_def)

lemma pop_tail_chan [simp]:
  "consumer_queue (sys_chan (pop_tail i s)) = consumer_queue (sys_chan s)"
  "ch_closed (sys_chan (pop_tail i s)) = ch_closed (sys_chan s)" "ch_capacity (sys_chan (pop_tail i s)) = ch_capacity (sys_chan s)"
  by (simp_all add: pop_tail_def co_fail_def ch_pop_data_def)

lemma notified_queue:
  "consumer_queue (sys_chan s) = [] \<Longrightarrow> consumer_queue (sys_chan (push_data i v s)) = []"
  "producer_queue (sys_chan s) = [] \<Longrightarrow> producer_queue (sys_chan (pop_tail i s)) = []"
  by (simp_all add: push_data_def ch_store_def pop_tail_def co_fail_def ch_pop_data_def)

lemma shuts_call: "ch_closed (sys_chan s) \<Longrightarrow> shuts (sys_chan s) (sys_chan (co_call i op s))"
  by (cases op) (auto simp: wait_push_def wait_pop_def close_begin_def co_cancel_def co_fail_def Let_def shuts_def
       producer_remove_def consumer_remove_def split: co_point.split)

lemma shuts_step:
  assumes "ch_closed (sys_chan s)" "co_step s = Some t" shows "shuts (sys_chan s) (sys_chan t)"
proof -
  obtain i st where st: "sys_stack s = i # st" using assms(2) by (auto simp: co_step_def split: list.splits)
  have t: "co_continue i (sys_at s i) s = Some t" using assms(2) st by (simp add: co_step_def)
  show ?thesis
  proof (cases "sys_at s i")
    case Ready
    then show ?thesis
    proof (cases "sys_prog s i")
      case (Cons op ops)
      then show ?thesis using t Ready assms(1) shuts_call [of "s\<lparr>sys_prog := (sys_prog s)(i := ops)\<rparr>" i op] by auto
    qed (use t Ready assms(1) in \<open>auto simp: shuts_def\<close>)
  qed (use t assms(1) in
      \<open>auto simp: notified_queue wait_push_resumed_def wait_pop_resumed_def co_fail_def close_producers_def close_consumers_def shuts_def split: if_splits\<close>)
qed

text \<open>Only \<open>close\<close> closes a channel.\<close>

lemma opens_step:
  assumes "\<not> ch_closed (sys_chan s)" "co_step s = Some t" "ch_closed (sys_chan t)"
  shows "\<exists>i st. sys_stack t = i # st \<and> sys_at t i = ClosingProducers"
proof -
  obtain i st where st: "sys_stack s = i # st" using assms(2) by (auto simp: co_step_def split: list.splits)
  have t: "co_continue i (sys_at s i) s = Some t" using assms(2) st by (simp add: co_step_def)
  show ?thesis
  proof (cases "sys_at s i")
    case Ready
    then show ?thesis
    proof (cases "sys_prog s i")
      case (Cons op ops)
      then have t: "t = co_call i op (s\<lparr>sys_prog := (sys_prog s)(i := ops)\<rparr>)" using t Ready by simp
      show ?thesis
      proof (cases op)
        case Close
        then show ?thesis using t assms(1) st by (simp add: close_begin_def co_goto_def)
      qed (use t assms(1,3) in \<open>auto simp: wait_push_def wait_pop_def co_cancel_def co_fail_def Let_def
             producer_remove_def consumer_remove_def split: co_point.splits if_splits\<close>)
    qed (use t Ready assms(1,3) in auto)
  qed (use t assms(1,3) in
      \<open>auto simp: wait_push_resumed_def wait_pop_resumed_def co_fail_def close_producers_def close_consumers_def split: if_splits\<close>)
qed

lemma close_step:
  assumes "sched_inv s" "close_inv s" "co_step s = Some t" shows "close_inv t"
proof (cases "ch_closed (sys_chan s)")
  case False
  then show ?thesis using opens_step [OF False assms(3)] by (force simp: close_inv_def)
next
  case True
  obtain i st where st: "sys_stack s = i # st" using assms(3) by (auto simp: co_step_def split: list.splits)
  have t: "co_continue i (sys_at s i) s = Some t" using assms(3) st by (simp add: co_step_def)
  have q: "shuts (sys_chan s) (sys_chan t)" using shuts_step [OF True assms(3)] .
  have b: "set st \<subseteq> set (sys_stack t)" "\<forall>j\<in>set st. sys_at t j = sys_at s j"
    using below_step [OF assms(1) st assms(3)] by (auto simp: below_def)
  have old: "producer_queue (sys_chan t) \<noteq> [] \<Longrightarrow> \<exists>j\<in>set (i # st). sys_at s j = ClosingProducers"
    "consumer_queue (sys_chan t) \<noteq> [] \<Longrightarrow> \<exists>j\<in>set (i # st). sys_at s j = ClosingProducers \<or> sys_at s j = ClosingConsumers"
    using q assms(2) st True by (auto simp: close_inv_def shuts_def)
  have "sys_at s i = ClosingProducers \<or> sys_at s i = ClosingConsumers \<or>
      sys_at s i \<noteq> ClosingProducers \<and> sys_at s i \<noteq> ClosingConsumers" by blast
  then show ?thesis
  proof (elim disjE)
    assume p: "sys_at s i = ClosingProducers"
    show ?thesis
    proof (cases "producer_queue (sys_chan s)")
      case Nil
      then have "t = co_goto i ClosingConsumers s" using p t by (simp add: close_producers_def)
      then show ?thesis using Nil st by (auto simp: close_inv_def co_goto_def)
    next
      case (Cons j ps)
      then have "i \<noteq> j" using sched_waiting(1) [OF assms(1), of j] st by auto
      then show ?thesis using p t Cons st by (auto simp: close_producers_def notify_producer_def close_inv_def co_resume_def)
    qed
  next
    assume p: "sys_at s i = ClosingConsumers"
    show ?thesis
    proof (cases "consumer_queue (sys_chan s)")
      case Nil
      then have "consumer_queue (sys_chan t) = []" using q by (auto simp: shuts_def)
      then show ?thesis using old b p unfolding close_inv_def by fastforce
    next
      case (Cons j cs)
      then have "i \<noteq> j" using sched_waiting(2) [OF assms(1), of j] st by auto
      then have "i \<in> set (sys_stack t)" "sys_at t i = ClosingConsumers"
        using p t Cons st by (auto simp: close_consumers_def notify_consumer_def co_resume_def)
      then show ?thesis using old b p unfolding close_inv_def by fastforce
    qed
  next
    assume "sys_at s i \<noteq> ClosingProducers \<and> sys_at s i \<noteq> ClosingConsumers"
    then show ?thesis using old b unfolding close_inv_def by fastforce
  qed
qed

lemma close_timer: "close_inv s \<Longrightarrow> sys_stack s = [] \<Longrightarrow> timer_callback j s = Some t \<Longrightarrow> close_inv t"
  by (auto simp: timer_callback_def close_inv_def producer_remove_def consumer_remove_def split: co_point.splits bool.splits)

lemma close_create: "close_inv s \<Longrightarrow> sys_stack s = [] \<Longrightarrow> co_create i s = Some t \<Longrightarrow> close_inv t"
  by (auto simp: co_create_def close_inv_def split: if_splits)

section \<open>Every turn ends\<close>

text \<open>
  Each step of a coroutine uses up an operation of a program or brings a coroutine closer to the end of its
  call; resuming a waiting coroutine pays for the place it takes on the stack.
\<close>

fun rank :: "'a co_point \<Rightarrow> nat" where
  "rank (WaitsPush _ _) = 6" | "rank (WaitsPop _) = 6"
| "rank (ResumedPush _ _) = 4" | "rank (ResumedPop _) = 4"
| "rank (PushData _) = 3" | "rank PopData = 3"
| "rank ClosingProducers = 3" | "rank ClosingConsumers = 2"
| "rank (Returns _) = 1" | "rank _ = 0"

definition co_cost :: "'a co_sys \<Rightarrow> nat \<Rightarrow> nat" where
  "co_cost s k = 10 * length (sys_prog s k) + rank (sys_at s k)"

definition co_weight :: "'a co_sys \<Rightarrow> nat" where
  "co_weight s = sum (co_cost s) {..<sys_cos s} + length (sys_stack s)"

text \<open>\<open>pays d a s t\<close>: the cost of coroutine \<open>a\<close> falls by \<open>d\<close> or more, and no cost grows.\<close>

definition pays :: "nat \<Rightarrow> nat \<Rightarrow> 'a co_sys \<Rightarrow> 'a co_sys \<Rightarrow> bool" where
  "pays d a s t \<longleftrightarrow> sys_cos t = sys_cos s \<and> co_cost t a + d \<le> co_cost s a \<and> (\<forall>k. k \<noteq> a \<longrightarrow> co_cost t k \<le> co_cost s k) \<and>
     length (sys_stack t) < length (sys_stack s) + d"

lemma sum_pays:
  fixes f g :: "nat \<Rightarrow> nat"
  assumes "a < n" "g a + d \<le> f a" "\<forall>k. k \<noteq> a \<longrightarrow> g k \<le> f k" shows "sum g {..<n} + d \<le> sum f {..<n}"
proof -
  have "sum g {..<n} = g a + sum g ({..<n} - {a})" "sum f {..<n} = f a + sum f ({..<n} - {a})"
    using assms(1) by (simp_all add: sum.remove)
  moreover have "sum g ({..<n} - {a}) \<le> sum f ({..<n} - {a})" using assms(3) by (intro sum_mono) auto
  ultimately show ?thesis using assms(2) by linarith
qed

lemma pays_weight: "pays d a s t \<Longrightarrow> a < sys_cos s \<Longrightarrow> co_weight t < co_weight s"
  using sum_pays [of a "sys_cos s" "co_cost t" d "co_cost s"] by (auto simp: pays_def co_weight_def)

lemma rank_resumed: "rank (resumed k p) \<le> rank p"
  by (cases p) simp_all

text \<open>A notification adds at most one place to the stack and raises no cost.\<close>

definition lifts :: "'a co_sys \<Rightarrow> 'a co_sys \<Rightarrow> bool" where
  "lifts s t \<longleftrightarrow> sys_cos t = sys_cos s \<and> (\<forall>k. co_cost t k \<le> co_cost s k) \<and> length (sys_stack t) \<le> length (sys_stack s) + 1"

lemma lifts_resume: "lifts s (co_resume k j s)"
  by (simp add: lifts_def co_resume_def co_cost_def rank_resumed)

lemma lifts_notify: "lifts s (notify_producer s)" "lifts s (notify_consumer s)"
proof -
  have "lifts s (s\<lparr>sys_chan := c\<rparr>)" for c by (simp add: lifts_def co_cost_def)
  have "lifts s (co_resume k j (s\<lparr>sys_chan := c\<rparr>))" for k j c
    by (simp add: lifts_def co_resume_def co_cost_def rank_resumed)
  then show "lifts s (notify_producer s)" "lifts s (notify_consumer s)"
    by (simp_all add: notify_producer_def notify_consumer_def lifts_def split: list.split)
qed

lemma pays_lifts:
  assumes "sys_cos t = sys_cos s" "sys_stack t = sys_stack s" "co_cost t a + 2 \<le> co_cost s a"
    "\<And>k. k \<noteq> a \<Longrightarrow> co_cost t k \<le> co_cost s k" and l: "lifts t u"
  shows "pays 2 a s u"
proof -
  have u: "sys_cos u = sys_cos t" "co_cost u k \<le> co_cost t k" "length (sys_stack u) \<le> length (sys_stack t) + 1" for k
    using l by (simp_all add: lifts_def)
  have "co_cost u a + 2 \<le> co_cost s a" using u(2) [of a] assms(3) by linarith
  moreover have "co_cost u k \<le> co_cost s k" if "k \<noteq> a" for k using u(2) [of k] assms(4) [OF that] by linarith
  ultimately show ?thesis using u assms(1,2) by (simp add: pays_def)
qed

lemma pays_push_data:
  assumes "sys_at s i = PushData v" shows "pays 2 i s (push_data i v s)"
proof (cases "snd (ch_store (sys_chan s) v)")
  case True
  define t where "t = co_goto i (Returns (Pushed True)) (s\<lparr>sys_chan := fst (ch_store (sys_chan s) v), sys_in := sys_in s @ [v]\<rparr>)"
  have "pays 2 i s (notify_consumer t)"
    by (rule pays_lifts [OF _ _ _ _ lifts_notify(2)]) (use assms in \<open>auto simp: t_def co_cost_def co_goto_def\<close>)
  then show ?thesis using True by (auto simp: push_data_def t_def split: prod.split)
next
  case False
  then show ?thesis using assms by (auto simp: push_data_def pays_def co_cost_def co_return_def split: prod.split)
qed

lemma pays_pop_tail:
  assumes "sys_at s i = PopData" shows "pays 2 i s (pop_tail i s)"
proof (cases "\<exists>x. ch_pop_data (sys_chan s) = (fst (ch_pop_data (sys_chan s)), Some x)")
  case True
  then obtain x where x: "ch_pop_data (sys_chan s) = (fst (ch_pop_data (sys_chan s)), Some x)" by blast
  then have n: "\<not> ch_is_empty (sys_chan s)" by (auto simp: ch_pop_data_def ch_is_empty_def split: if_splits)
  define t where "t = co_goto i (Returns (Popped (Some x))) (s\<lparr>sys_chan := fst (ch_pop_data (sys_chan s)), sys_out := sys_out s @ [x]\<rparr>)"
  have "pays 2 i s (notify_producer t)"
    by (rule pays_lifts [OF _ _ _ _ lifts_notify(1)]) (use assms in \<open>auto simp: t_def co_cost_def co_goto_def\<close>)
  moreover have "pop_tail i s = notify_producer t" using n by (subst pop_tail_def, subst x) (simp add: t_def)
  ultimately show ?thesis by simp
next
  case False
  then have "snd (ch_pop_data (sys_chan s)) = None" by (metis option.exhaust prod.collapse)
  then show ?thesis using assms by (auto simp: pop_tail_def co_fail_def pays_def co_cost_def co_return_def split: prod.split)
qed

lemma pays_call:
  assumes "sys_stack s = i # st" "sys_at s i = Ready" "sys_prog s i = op # ops"
  shows "pays 2 i s (co_call i op (s\<lparr>sys_prog := (sys_prog s)(i := ops)\<rparr>))"
proof (cases op)
  case (Cancel j)
  then show ?thesis using assms
    by (auto simp: co_cancel_def pays_def co_cost_def co_goto_def co_resume_def co_return_def split: co_point.split)
qed (use assms in \<open>auto simp: wait_push_def wait_pop_def close_begin_def co_fail_def Let_def pays_def co_cost_def
       co_goto_def co_return_def co_yield_def\<close>)

lemma pays_resume_waiting:
  assumes "sched_inv s" "suspended (sys_at s i)"
  shows "producer_queue (sys_chan s) = j # ps \<Longrightarrow> pays 2 j s (notify_producer s)"
    "consumer_queue (sys_chan s) = j # cs \<Longrightarrow> pays 2 j s (notify_consumer s)"
  using sched_waiting [OF assms(1), of j] waits_cases [of "sys_at s j"]
  by (auto simp: notify_producer_def notify_consumer_def pays_def co_cost_def co_resume_def)

lemma sched_ids:
  assumes "sched_inv s" shows "sys_at s k \<noteq> Fresh \<Longrightarrow> k < sys_cos s"
    "k \<in> set (producer_queue (sys_chan s)) \<Longrightarrow> k < sys_cos s" "k \<in> set (consumer_queue (sys_chan s)) \<Longrightarrow> k < sys_cos s"
proof -
  show c: "sys_at s k \<noteq> Fresh \<Longrightarrow> k < sys_cos s" using assms by (simp add: sched_inv_def)
  show "k \<in> set (producer_queue (sys_chan s)) \<Longrightarrow> k < sys_cos s" "k \<in> set (consumer_queue (sys_chan s)) \<Longrightarrow> k < sys_cos s"
    using c sched_waiting [OF assms, of k] by (cases "sys_at s k"; simp)+
qed

lemma pays_closing:
  assumes "sched_inv s" "sys_stack s = i # st"
  shows "sys_at s i = ClosingProducers \<Longrightarrow> \<exists>d a. pays d a s (close_producers i s) \<and> a < sys_cos s"
    "sys_at s i = ClosingConsumers \<Longrightarrow> \<exists>d a. pays d a s (close_consumers i s) \<and> a < sys_cos s"
proof -
  assume p: "sys_at s i = ClosingProducers"
  show "\<exists>d a. pays d a s (close_producers i s) \<and> a < sys_cos s"
  proof (cases "producer_queue (sys_chan s)")
    case Nil
    then have "pays 1 i s (close_producers i s)" using p by (auto simp: close_producers_def pays_def co_cost_def co_goto_def)
    then show ?thesis using sched_ids(1) [OF assms(1), of i] p by auto
  next
    case (Cons j ps)
    then show ?thesis using pays_resume_waiting(1) [OF assms(1) _ Cons, of i] sched_ids(2) [OF assms(1), of j] p by (auto simp: close_producers_def)
  qed
next
  assume p: "sys_at s i = ClosingConsumers"
  show "\<exists>d a. pays d a s (close_consumers i s) \<and> a < sys_cos s"
  proof (cases "consumer_queue (sys_chan s)")
    case Nil
    then have "pays 1 i s (close_consumers i s)" using p by (auto simp: close_consumers_def pays_def co_cost_def co_return_def)
    then show ?thesis using sched_ids(1) [OF assms(1), of i] p by auto
  next
    case (Cons j cs)
    then show ?thesis using pays_resume_waiting(2) [OF assms(1) _ Cons, of i] sched_ids(3) [OF assms(1), of j] p by (auto simp: close_consumers_def)
  qed
qed

lemma pays_resumed:
  "sys_at s i = ResumedPush v k \<Longrightarrow> pays 1 i s (wait_push_resumed i v k s)"
  "sys_at s i = ResumedPop k \<Longrightarrow> pays 1 i s (wait_pop_resumed i k s)"
  "sys_at s i = Returns r \<Longrightarrow> pays 1 i s (co_return i r s)"
  by (simp_all add: wait_push_resumed_def wait_pop_resumed_def co_fail_def pays_def co_cost_def co_goto_def co_return_def)

lemma weight_step:
  assumes "sched_inv s" "co_step s = Some t" shows "co_weight t < co_weight s"
proof -
  obtain i st where st: "sys_stack s = i # st" using assms(2) by (auto simp: co_step_def split: list.splits)
  have t: "co_continue i (sys_at s i) s = Some t" using assms(2) st by (simp add: co_step_def)
  note cos = sched_ids(1) [OF assms(1), of i]
  have "\<exists>d a. pays d a s t \<and> a < sys_cos s"
  proof (cases "sys_at s i")
    case Ready
    show ?thesis
    proof (cases "sys_prog s i")
      case Nil
      then have "t = co_yield i Ended s" using t Ready by simp
      then have "pays 0 i s t" using Ready st by (simp add: pays_def co_cost_def co_yield_def)
      then show ?thesis using cos Ready by auto
    next
      case (Cons op ops)
      then show ?thesis using pays_call [OF st Ready Cons] t Ready cos by auto
    qed
  qed (use t cos pays_push_data [of s i] pays_pop_tail [of s i] pays_closing [OF assms(1) st] pays_resumed [of s i] in auto)
  then show ?thesis using pays_weight by blast
qed

lemma step_or_idle: "sched_inv s \<Longrightarrow> co_step s = None \<longleftrightarrow> sys_stack s = []"
proof -
  assume a: "sched_inv s"
  have "\<exists>t. co_continue i (sys_at s i) s = Some t" if "\<not> outside (sys_at s i)" for i
    using that by (cases "sys_at s i") simp_all
  moreover have "\<not> outside (sys_at s i)" if "sys_stack s = i # st" for i st using a that by (auto simp: sched_inv_def)
  ultimately show ?thesis by (cases "sys_stack s") (fastforce simp: co_step_def)+
qed

text \<open>A turn of the event loop: the running coroutines continue until none is left.\<close>

fun co_turn :: "nat \<Rightarrow> 'a co_sys \<Rightarrow> 'a co_sys" where
  "co_turn 0 s = s"
| "co_turn (Suc n) s = (case co_step s of None \<Rightarrow> s | Some t \<Rightarrow> co_turn n t)"

lemma co_turn_reach: "co_reach s0 s \<Longrightarrow> co_reach s0 (co_turn n s)"
  by (induction n arbitrary: s) (auto split: option.split intro: co_reach.run)

lemma co_turn_idle: "sched_inv s \<Longrightarrow> co_weight s \<le> n \<Longrightarrow> sys_stack (co_turn n s) = []"
proof (induction n arbitrary: s)
  case 0
  then show ?case by (simp add: co_weight_def)
next
  case (Suc n)
  show ?case
  proof (cases "co_step s")
    case None
    then show ?thesis using step_or_idle [OF Suc.prems(1)] by simp
  next
    case (Some t)
    then show ?thesis using Suc.IH [OF sched_step [OF Suc.prems(1) Some]] weight_step [OF Suc.prems(1) Some] Suc.prems(2) by simp
  qed
qed

section \<open>Delivered once\<close>

text \<open>The values that calls of \<open>pop\<close> have returned, or are about to return after a notification.\<close>

fun popped :: "'a co_result \<Rightarrow> 'a list" where
  "popped (Popped (Some x)) = [x]" | "popped _ = []"

fun held :: "'a co_point \<Rightarrow> 'a list" where
  "held (Returns r) = popped r" | "held _ = []"

definition returned :: "'a co_sys \<Rightarrow> 'a multiset" where
  "returned s = mset (concat (map (\<lambda>(i, r). popped r) (sys_log s)))"

definition pending :: "'a co_sys \<Rightarrow> 'a multiset" where
  "pending s = mset (concat (map (\<lambda>k. held (sys_at s k)) (sys_stack s)))"

definition once_inv :: "'a co_sys \<Rightarrow> bool" where
  "once_inv s \<longleftrightarrow> returned s + pending s = mset (sys_out s)"

lemma held_upd: "i \<notin> set st \<Longrightarrow> map (\<lambda>k. held (if k = i then p else f k)) st = map (\<lambda>k. held (f k)) st"
  by (induction st) auto

lemma once_frame [simp]:
  "once_inv (s\<lparr>sys_chan := c\<rparr>) = once_inv s" "once_inv (s\<lparr>sys_prog := pr\<rparr>) = once_inv s" "once_inv (s\<lparr>sys_in := a\<rparr>) = once_inv s"
  by (simp_all add: once_inv_def returned_def pending_def)

lemma once_moves:
  assumes "once_inv s" "sys_stack s = i # st" "i \<notin> set st" "held (sys_at s i) = []"
  shows "held p = [] \<Longrightarrow> once_inv (co_goto i p s)" "popped r = [] \<Longrightarrow> once_inv (co_return i r s)" "once_inv (co_yield i p s)"
    "once_inv (co_goto i (Returns (Popped (Some x))) (s\<lparr>sys_chan := c, sys_out := sys_out s @ [x]\<rparr>))"
  using assms by (auto simp: once_inv_def returned_def pending_def co_goto_def co_return_def co_yield_def held_upd)

lemma once_return:
  assumes "once_inv s" "sys_stack s = i # st" "i \<notin> set st" "sys_at s i = Returns r" shows "once_inv (co_return i r s)"
  using assms by (auto simp: once_inv_def returned_def pending_def co_return_def held_upd add.assoc)

lemma once_resume: "once_inv s \<Longrightarrow> j \<notin> set (sys_stack s) \<Longrightarrow> outside (sys_at s j) \<Longrightarrow> once_inv (co_resume k j s)"
  by (cases "sys_at s j") (auto simp: once_inv_def returned_def pending_def co_resume_def held_upd)

text \<open>Waiting coroutines are not on the stack, also after the running one has moved on.\<close>

definition queues_outside :: "'a co_sys \<Rightarrow> bool" where
  "queues_outside s \<longleftrightarrow> (\<forall>j\<in>set (producer_queue (sys_chan s)) \<union> set (consumer_queue (sys_chan s)). j \<notin> set (sys_stack s) \<and> outside (sys_at s j))"

lemma queues_outside_sched: "sched_inv s \<Longrightarrow> queues_outside s"
  unfolding queues_outside_def using sched_waiting [of s] outside_waits by blast

lemma queues_outside_goto: "queues_outside s \<Longrightarrow> sys_stack s = i # st \<Longrightarrow> queues_outside (co_goto i p s)"
  by (auto simp: queues_outside_def co_goto_def)

lemma queues_outside_frame:
  "queues_outside s \<Longrightarrow> producer_queue c = producer_queue (sys_chan s) \<Longrightarrow> consumer_queue c = consumer_queue (sys_chan s) \<Longrightarrow> queues_outside (s\<lparr>sys_chan := c\<rparr>)"
  "queues_outside (s\<lparr>sys_in := a\<rparr>) = queues_outside s" "queues_outside (s\<lparr>sys_out := b\<rparr>) = queues_outside s"
  by (simp_all add: queues_outside_def)

lemma once_notify:
  assumes "once_inv s" "queues_outside s" shows "once_inv (notify_producer s)" "once_inv (notify_consumer s)"
  using assms by (auto simp: notify_producer_def notify_consumer_def queues_outside_def intro!: once_resume split: list.split)

lemma once_push_data:
  assumes "once_inv s" "sched_inv s" "sys_stack s = i # st" "i \<notin> set st" "sys_at s i = PushData v" shows "once_inv (push_data i v s)"
proof -
  define t where "t = co_goto i (Returns (Pushed True)) (s\<lparr>sys_chan := fst (ch_store (sys_chan s) v), sys_in := sys_in s @ [v]\<rparr>)"
  have "queues_outside t" using queues_outside_sched [OF assms(2)] assms(3)
    by (simp add: t_def queues_outside_goto queues_outside_frame)
  moreover have "once_inv t" using assms unfolding t_def by (intro once_moves(1)) simp_all
  ultimately have "once_inv (notify_consumer t)" using once_notify(2) by blast
  moreover have "once_inv (co_return i (Pushed False) (s\<lparr>sys_chan := c\<rparr>))" for c using assms by (intro once_moves(2)) simp_all
  ultimately show ?thesis by (auto simp: push_data_def t_def split: prod.split)
qed

lemma once_pop_tail:
  assumes "once_inv s" "sched_inv s" "sys_stack s = i # st" "i \<notin> set st" "sys_at s i = PopData" shows "once_inv (pop_tail i s)"
proof -
  have ok: "once_inv (notify_producer (co_goto i (Returns (Popped (Some x))) (s\<lparr>sys_chan := fst (ch_pop_data (sys_chan s)), sys_out := sys_out s @ [x]\<rparr>)))" for x
  proof (rule once_notify(1))
    show "queues_outside (co_goto i (Returns (Popped (Some x))) (s\<lparr>sys_chan := fst (ch_pop_data (sys_chan s)), sys_out := sys_out s @ [x]\<rparr>))"
      using queues_outside_sched [OF assms(2)] assms(3) by (simp add: queues_outside_goto queues_outside_frame)
  qed (use once_moves(4) assms in fastforce)
  have "once_inv (co_return i (Popped None) (s\<lparr>sys_chan := c\<rparr>))" "once_inv (co_return i (Popped None) s)" for c
    using assms by (auto intro!: once_moves(2))
  then show ?thesis using ok by (auto simp: pop_tail_def co_fail_def split: prod.split option.split)
qed

lemma once_call:
  assumes "once_inv s" "sched_inv s" "sys_stack s = i # st" "i \<notin> set st" "held (sys_at s i) = []" shows "once_inv (co_call i op s)"
proof -
  have m: "held p = [] \<Longrightarrow> once_inv (co_goto i p (s\<lparr>sys_chan := c\<rparr>))" "popped r = [] \<Longrightarrow> once_inv (co_return i r (s\<lparr>sys_chan := c\<rparr>))"
    "once_inv (co_yield i p (s\<lparr>sys_chan := c\<rparr>))" for p r c
    using assms by (auto intro!: once_moves)
  note m' = m(1) [where c = "sys_chan s", simplified] m(2) [where c = "sys_chan s", simplified] m(3) [where c = "sys_chan s", simplified]
  have "outside (sys_at s j) \<Longrightarrow> j \<noteq> i \<and> j \<notin> set st" for j using assms(2,3) by (auto simp: sched_inv_def)
  then have "once_inv (co_resume k j (co_goto i (Returns (Canceled b)) (s\<lparr>sys_chan := c\<rparr>)))" if "outside (sys_at s j)" for j k b c
    using that m(1) [of "Returns (Canceled b)" c] assms(3) by (intro once_resume) (auto simp: co_goto_def)
  then show ?thesis using m m'
    by (cases op) (auto simp: wait_push_def wait_pop_def close_begin_def co_cancel_def co_fail_def Let_def split: co_point.split)
qed

lemma once_step:
  assumes "once_inv s" "sched_inv s" "co_step s = Some t" shows "once_inv t"
proof -
  obtain i st where st: "sys_stack s = i # st" using assms(3) by (auto simp: co_step_def split: list.splits)
  have t: "co_continue i (sys_at s i) s = Some t" using assms(3) st by (simp add: co_step_def)
  have i: "i \<notin> set st" using assms(2) st by (simp add: sched_inv_def)
  have m: "held p = [] \<Longrightarrow> once_inv (co_goto i p (s\<lparr>sys_chan := c\<rparr>))" "popped r = [] \<Longrightarrow> once_inv (co_return i r (s\<lparr>sys_chan := c\<rparr>))"
    "once_inv (co_yield i p (s\<lparr>sys_chan := c\<rparr>))" if "held (sys_at s i) = []" for p r c
    using assms st i that by (auto intro!: once_moves)
  note m' = m(1) [where c = "sys_chan s", simplified] m(2) [where c = "sys_chan s", simplified] m(3) [where c = "sys_chan s", simplified]
  show ?thesis
  proof (cases "sys_at s i")
    case Ready
    then show ?thesis
    proof (cases "sys_prog s i")
      case (Cons op ops)
      then have "t = co_call i op (s\<lparr>sys_prog := (sys_prog s)(i := ops)\<rparr>)" using t Ready by simp
      then show ?thesis using Ready assms st i by (simp add: once_call sched_frame)
    qed (use t Ready m' in auto)
  next
    case (Returns r)
    then show ?thesis using once_return [OF assms(1) st i] t by simp
  qed (use t m m' once_push_data [OF assms(1,2) st i] once_pop_tail [OF assms(1,2) st i] once_notify [OF assms(1) queues_outside_sched [OF assms(2)]] in
     \<open>auto simp: wait_push_resumed_def wait_pop_resumed_def co_fail_def close_producers_def close_consumers_def split: if_splits\<close>)
qed

lemma once_timer: "once_inv s \<Longrightarrow> sys_stack s = [] \<Longrightarrow> timer_callback j s = Some t \<Longrightarrow> once_inv t"
  by (auto simp: timer_callback_def intro!: once_resume split: co_point.splits bool.splits)

lemma once_create: "once_inv s \<Longrightarrow> sys_stack s = [] \<Longrightarrow> co_create i s = Some t \<Longrightarrow> once_inv t"
  by (auto simp: co_create_def once_inv_def returned_def pending_def split: if_splits)

section \<open>The reachable states\<close>

definition co_inv :: "'a co_sys \<Rightarrow> bool" where
  "co_inv s \<longleftrightarrow> sched_inv s \<and> fifo_inv s \<and> wake_inv s \<and> close_inv s \<and> once_inv s"

lemma co_inv_init: "co_inv (co_init (CoChannel_new d n) progs)"
  using CoChannel_new_ring [of d n]
  by (simp add: co_inv_def co_init_def sched_inv_def fifo_inv_def wake_inv_def close_inv_def once_inv_def returned_def pending_def CoChannel_new_def Let_def outside_def)

lemma co_inv_reach: "co_reach s0 s \<Longrightarrow> co_inv s0 \<Longrightarrow> co_inv s"
proof (induction rule: co_reach.induct)
  case (run s t)
  then show ?case using sched_step [of s t] fifo_step [of s t] wake_step [of s t] close_step [of s t] once_step [of s t] unfolding co_inv_def by simp
next
  case (create s i t)
  then show ?case using sched_create [of s i t] fifo_create [of s i t] wake_create [of s i t] close_create [of s i t] once_create [of s i t] unfolding co_inv_def by simp
next
  case (timer s j t)
  then show ?case using sched_timer [of s j t] fifo_timer [of s j t] wake_timer [of s j t] close_timer [of s j t] once_timer [of s j t] unfolding co_inv_def by simp
qed

lemma capacity_step: "co_step s = Some t \<Longrightarrow> ch_capacity (sys_chan t) = ch_capacity (sys_chan s)"
proof -
  assume a: "co_step s = Some t"
  obtain i st where st: "sys_stack s = i # st" using a by (auto simp: co_step_def split: list.splits)
  have t: "co_continue i (sys_at s i) s = Some t" using a st by (simp add: co_step_def)
  have c: "ch_capacity (sys_chan (co_call i op u)) = ch_capacity (sys_chan u)" for op u
    by (cases op) (auto simp: wait_push_def wait_pop_def close_begin_def co_cancel_def co_fail_def Let_def
       producer_remove_def consumer_remove_def split: co_point.split)
  show ?thesis using t
    by (cases "sys_at s i") (auto simp: c wait_push_resumed_def wait_pop_resumed_def co_fail_def close_producers_def close_consumers_def
        split: list.splits if_splits)
qed

lemma capacity_reach: "co_reach s0 s \<Longrightarrow> ch_capacity (sys_chan s) = ch_capacity (sys_chan s0)"
proof (induction rule: co_reach.induct)
  case (run s t)
  then show ?case using capacity_step by fastforce
qed (auto simp: co_create_def timer_callback_def producer_remove_def consumer_remove_def split: co_point.splits bool.splits if_splits)

text \<open>C6: In every reachable state of any coroutines that push to, pop from, close and cancel each other on a channel,
  with any timers firing, the values taken are the first of the values stored, in the order they were stored, the
  ring holds the rest, and never more than the capacity (1 when it was created with 0). Each value taken is
  returned by exactly one call of \<open>pop\<close>: once no coroutine runs, the values the calls have returned are the
  values taken.
\<close>

theorem co_channel_fifo:
  assumes "co_reach (co_init (CoChannel_new d n) progs) s"
  shows "sys_in s = sys_out s @ ch_items (sys_chan s) \<and> length (ch_items (sys_chan s)) \<le> (if n = 0 then 1 else n) \<and>
    returned s + pending s = mset (sys_out s) \<and> (sys_stack s = [] \<longrightarrow> returned s = mset (sys_out s))"
proof -
  have inv: "fifo_inv s" "once_inv s" using co_inv_reach [OF assms co_inv_init] by (simp_all add: co_inv_def)
  moreover have "ch_capacity (sys_chan s) = (if n = 0 then 1 else n)"
    using capacity_reach [OF assms] by (simp add: co_init_def CoChannel_new_def)
  ultimately show ?thesis by (auto simp: fifo_inv_def ring_wf_def once_inv_def pending_def)
qed

text \<open>
  Three coroutines on a channel of capacity 1, created one after the other: the first pushes twice and waits, the
  second pops until it waits itself, the third closes the channel.
\<close>

definition co_demo :: "nat co_sys" where
  "co_demo = co_init (CoChannel_new 0 1) [[Push 7 False, Push 8 True], [Pop False, Pop False, Pop True], [Close, Push 9 False]]"

definition co_demo1 :: "nat co_sys" where
  "co_demo1 = the (co_create 1 (co_turn 40 (the (co_create 0 co_demo))))"

definition co_demo2 :: "nat co_sys" where
  "co_demo2 = co_turn 40 (the (co_create 2 (co_turn 40 co_demo1)))"

lemma co_demo_created: "co_reach s0 s \<Longrightarrow> sys_stack s = [] \<Longrightarrow> co_create i s \<noteq> None \<Longrightarrow> co_reach s0 (the (co_create i s))"
  by (auto intro: co_reach.create)

lemma co_demo1_reach: "co_reach co_demo co_demo1"
proof -
  have "co_reach co_demo (the (co_create 0 co_demo))" by (rule co_demo_created [OF co_reach.start]; code_simp)
  from co_turn_reach [OF this, of 40] show ?thesis unfolding co_demo1_def by (rule co_demo_created; code_simp)
qed

lemma co_demo2_reach: "co_reach co_demo co_demo2"
proof -
  have "co_reach co_demo (the (co_create 2 (co_turn 40 co_demo1)))"
    by (rule co_demo_created [OF co_turn_reach [OF co_demo1_reach]]; code_simp)
  from co_turn_reach [OF this, of 40] show ?thesis unfolding co_demo2_def .
qed

theorem co_channel_fifo_witness:
  "sys_in co_demo2 = sys_out co_demo2 @ ch_items (sys_chan co_demo2) \<and> sys_out co_demo2 = [7, 8] \<and>
   returned co_demo2 = mset [7, 8] \<and> length (ch_items (sys_chan co_demo2)) \<le> 1 \<and>
   sys_log co_demo2 = [(0, Pushed True), (0, Pushed True), (1, Popped (Some 7)), (1, Popped (Some 8)),
     (1, Popped None), (2, Closed True), (2, Pushed False)]"
proof -
  have o: "sys_out co_demo2 = [7, 8]" "sys_stack co_demo2 = []" by code_simp+
  have l: "sys_log co_demo2 = [(0, Pushed True), (0, Pushed True), (1, Popped (Some 7)), (1, Popped (Some 8)),
     (1, Popped None), (2, Closed True), (2, Pushed False)]" by code_simp
  show ?thesis using co_channel_fifo [OF co_demo2_reach [unfolded co_demo_def]] o l by simp
qed

text \<open>C3: No wake-up is lost and no turn of the event loop hangs: from every reachable state the running coroutines
  finish their turn, and then a consumer still waits only if the channel is empty, a producer only if it is full,
  and nobody waits on a closed channel.
\<close>

theorem co_channel_no_lost_wakeup:
  assumes "co_reach (co_init (CoChannel_new d n) progs) s"
  shows "\<exists>t. co_turn (co_weight s) s = t \<and> sys_stack t = [] \<and>
    (consumer_queue (sys_chan t) = [] \<or> ch_is_empty (sys_chan t)) \<and>
    (producer_queue (sys_chan t) = [] \<or> ch_is_full (sys_chan t)) \<and>
    (ch_closed (sys_chan t) \<longrightarrow> consumer_queue (sys_chan t) = [] \<and> producer_queue (sys_chan t) = [])"
proof -
  define t where "t = co_turn (co_weight s) s"
  have "sched_inv s" using co_inv_reach [OF assms co_inv_init] by (simp add: co_inv_def)
  then have idle: "sys_stack t = []" unfolding t_def by (rule co_turn_idle) simp
  have "co_inv t" unfolding t_def using co_inv_reach [OF co_turn_reach [OF assms] co_inv_init] .
  then have c: "ch_closed (sys_chan t) \<longrightarrow> consumer_queue (sys_chan t) = [] \<and> producer_queue (sys_chan t) = []"
    and "wake_inv t" using idle by (auto simp: co_inv_def close_inv_def)
  from this(2) have "served (sys_chan t)" using idle by (intro wake_served) (simp_all add: top_at_def)
  then show ?thesis using idle c t_def by (auto simp: served_def ch_is_empty_def ch_is_full_def)
qed

theorem co_channel_no_lost_wakeup_witness:
  "\<exists>t. co_turn (co_weight co_demo1) co_demo1 = t \<and> sys_stack t = [] \<and> consumer_queue (sys_chan t) = [1] \<and> ch_is_empty (sys_chan t)"
proof -
  have q: "consumer_queue (sys_chan (co_turn (co_weight co_demo1) co_demo1)) = [1]" by code_simp
  show ?thesis using co_channel_no_lost_wakeup [OF co_demo1_reach [unfolded co_demo_def]] q by auto
qed

end
