(* ===== verification/Sw_Http2.thy ===== *)
theory Sw_Http2
  imports Sw_Framing
begin

text \<open>
  The HTTP/2 helpers of \<open>src/protocol/http2.cc\<close> and \<open>include/swoole_http2.h\<close>: the default settings, the frame
  header, the SETTINGS frame and its decoding, the frame length for the receive loop, and the two number parsers.
  Reading past the end of a buffer is an error of the program: \<open>None\<close>.
\<close>

section \<open>Settings\<close>

record Settings =
  header_table_size :: nat
  enable_push :: nat
  max_concurrent_streams :: nat
  init_window_size :: nat
  max_frame_size :: nat
  max_header_list_size :: nat

definition default_settings :: Settings where
  "default_settings = \<lparr>header_table_size = 4096, enable_push = 0, max_concurrent_streams = 128,
     init_window_size = 65535, max_frame_size = 16384, max_header_list_size = 4294967295\<rparr>"

definition SW_HTTP2_SETTING_HEADER_TABLE_SIZE :: nat where "SW_HTTP2_SETTING_HEADER_TABLE_SIZE = 1"
definition SW_HTTP2_SETTINGS_ENABLE_PUSH :: nat where "SW_HTTP2_SETTINGS_ENABLE_PUSH = 2"
definition SW_HTTP2_SETTINGS_MAX_CONCURRENT_STREAMS :: nat where "SW_HTTP2_SETTINGS_MAX_CONCURRENT_STREAMS = 3"
definition SW_HTTP2_SETTINGS_INIT_WINDOW_SIZE :: nat where "SW_HTTP2_SETTINGS_INIT_WINDOW_SIZE = 4"
definition SW_HTTP2_SETTINGS_MAX_FRAME_SIZE :: nat where "SW_HTTP2_SETTINGS_MAX_FRAME_SIZE = 5"
definition SW_HTTP2_SETTINGS_MAX_HEADER_LIST_SIZE :: nat where "SW_HTTP2_SETTINGS_MAX_HEADER_LIST_SIZE = 6"

lemmas setting_ids = SW_HTTP2_SETTING_HEADER_TABLE_SIZE_def SW_HTTP2_SETTINGS_ENABLE_PUSH_def
  SW_HTTP2_SETTINGS_MAX_CONCURRENT_STREAMS_def SW_HTTP2_SETTINGS_INIT_WINDOW_SIZE_def
  SW_HTTP2_SETTINGS_MAX_FRAME_SIZE_def SW_HTTP2_SETTINGS_MAX_HEADER_LIST_SIZE_def

definition put_default_setting :: "nat \<Rightarrow> nat \<Rightarrow> Settings \<Rightarrow> Settings" where
  "put_default_setting sid value s =
    (if sid = SW_HTTP2_SETTING_HEADER_TABLE_SIZE then s\<lparr>header_table_size := value\<rparr>
     else if sid = SW_HTTP2_SETTINGS_ENABLE_PUSH then s\<lparr>enable_push := value\<rparr>
     else if sid = SW_HTTP2_SETTINGS_MAX_CONCURRENT_STREAMS then s\<lparr>max_concurrent_streams := value\<rparr>
     else if sid = SW_HTTP2_SETTINGS_INIT_WINDOW_SIZE then s\<lparr>init_window_size := value\<rparr>
     else if sid = SW_HTTP2_SETTINGS_MAX_FRAME_SIZE then s\<lparr>max_frame_size := value\<rparr>
     else if sid = SW_HTTP2_SETTINGS_MAX_HEADER_LIST_SIZE then s\<lparr>max_header_list_size := value\<rparr>
     else s)"

definition get_default_setting :: "nat \<Rightarrow> Settings \<Rightarrow> nat" where
  "get_default_setting sid s =
    (if sid = SW_HTTP2_SETTING_HEADER_TABLE_SIZE then header_table_size s
     else if sid = SW_HTTP2_SETTINGS_ENABLE_PUSH then enable_push s
     else if sid = SW_HTTP2_SETTINGS_MAX_CONCURRENT_STREAMS then max_concurrent_streams s
     else if sid = SW_HTTP2_SETTINGS_INIT_WINDOW_SIZE then init_window_size s
     else if sid = SW_HTTP2_SETTINGS_MAX_FRAME_SIZE then max_frame_size s
     else if sid = SW_HTTP2_SETTINGS_MAX_HEADER_LIST_SIZE then max_header_list_size s
     else 0)"

definition init_settings :: "Settings \<Rightarrow> Settings" where
  "init_settings defaults =
    \<lparr>header_table_size = get_default_setting SW_HTTP2_SETTING_HEADER_TABLE_SIZE defaults,
     enable_push = get_default_setting SW_HTTP2_SETTINGS_ENABLE_PUSH defaults,
     max_concurrent_streams = get_default_setting SW_HTTP2_SETTINGS_MAX_CONCURRENT_STREAMS defaults,
     init_window_size = get_default_setting SW_HTTP2_SETTINGS_INIT_WINDOW_SIZE defaults,
     max_frame_size = get_default_setting SW_HTTP2_SETTINGS_MAX_FRAME_SIZE defaults,
     max_header_list_size = get_default_setting SW_HTTP2_SETTINGS_MAX_HEADER_LIST_SIZE defaults\<rparr>"

text \<open>\<open>set_http2_max_headers\<close> on the limit.\<close>

definition set_http2_max_headers :: "nat \<Rightarrow> nat \<Rightarrow> nat" where
  "set_http2_max_headers value max_headers = (if value > 0 then value else max_headers)"

lemma get_put_setting:
  "1 \<le> sid \<Longrightarrow> sid \<le> 6 \<Longrightarrow> get_default_setting sid (put_default_setting sid v s) = v"
  "i \<noteq> j \<Longrightarrow> get_default_setting i (put_default_setting j v s) = get_default_setting i s"
  by (auto simp: get_default_setting_def put_default_setting_def setting_ids)

lemma init_settings_defaults: "init_settings s = s"
  by (simp add: init_settings_def get_default_setting_def setting_ids)

section \<open>Frames\<close>

definition SW_HTTP2_FRAME_HEADER_SIZE :: nat where "SW_HTTP2_FRAME_HEADER_SIZE = 9"
definition SW_HTTP2_SETTING_OPTION_SIZE :: nat where "SW_HTTP2_SETTING_OPTION_SIZE = 6"
definition SW_HTTP2_SETTING_FRAME_SIZE :: nat where
  "SW_HTTP2_SETTING_FRAME_SIZE = SW_HTTP2_FRAME_HEADER_SIZE + SW_HTTP2_SETTING_OPTION_SIZE * 6"
definition SW_HTTP2_TYPE_SETTINGS :: nat where "SW_HTTP2_TYPE_SETTINGS = 4"

lemmas http2_sizes = SW_HTTP2_FRAME_HEADER_SIZE_def SW_HTTP2_SETTING_OPTION_SIZE_def SW_HTTP2_SETTING_FRAME_SIZE_def SW_HTTP2_TYPE_SETTINGS_def

definition get_length :: "bytes \<Rightarrow> int" where
  "get_length buf = int (unat (buf ! 0) * 2 ^ 16 + unat (buf ! 1) * 2 ^ 8 + unat (buf ! 2))"

definition get_frame_length :: "bytes \<Rightarrow> nat \<Rightarrow> int" where
  "get_frame_length buf buf_size = (if buf_size < SW_HTTP2_FRAME_HEADER_SIZE then 0 else get_length buf + int SW_HTTP2_FRAME_HEADER_SIZE)"

text \<open>The writers take the position in the buffer at which the code's pointer stands.\<close>

definition set_frame_header :: "bytes \<Rightarrow> nat \<Rightarrow> nat \<Rightarrow> nat \<Rightarrow> nat \<Rightarrow> nat \<Rightarrow> bytes" where
  "set_frame_header buffer p type len flags stream_id =
    (let b = buffer[p := of_nat (len div 2 ^ 16), p + 1 := of_nat (len div 2 ^ 8), p + 2 := of_nat len,
       p + 3 := of_nat type, p + 4 := of_nat flags] in
     memcpy_at b (p + 5) (le_bytes 4 (swap_bytes 4 stream_id)))"

definition pack_setting_item :: "bytes \<Rightarrow> nat \<Rightarrow> nat \<Rightarrow> nat \<Rightarrow> bytes" where
  "pack_setting_item buf p sid value =
    memcpy_at (memcpy_at buf p (le_bytes 2 (swap_bytes 2 sid))) (p + 2) (le_bytes 4 (swap_bytes 4 value))"

definition pack_setting_frame :: "bytes \<Rightarrow> Settings \<Rightarrow> bool \<Rightarrow> bytes \<times> nat" where
  "pack_setting_frame buf settings server_side =
    (let size = SW_HTTP2_SETTING_OPTION_SIZE * (if server_side then 5 else 6);
         b = set_frame_header buf 0 SW_HTTP2_TYPE_SETTINGS size 0 0;
         p = SW_HTTP2_FRAME_HEADER_SIZE;
         b = pack_setting_item b p SW_HTTP2_SETTING_HEADER_TABLE_SIZE (header_table_size settings);
         p = p + SW_HTTP2_SETTING_OPTION_SIZE;
         (b, p) = (if \<not> server_side
                   then (pack_setting_item b p SW_HTTP2_SETTINGS_ENABLE_PUSH (enable_push settings), p + SW_HTTP2_SETTING_OPTION_SIZE)
                   else (b, p));
         b = pack_setting_item b p SW_HTTP2_SETTINGS_MAX_CONCURRENT_STREAMS (max_concurrent_streams settings);
         p = p + SW_HTTP2_SETTING_OPTION_SIZE;
         b = pack_setting_item b p SW_HTTP2_SETTINGS_INIT_WINDOW_SIZE (init_window_size settings);
         p = p + SW_HTTP2_SETTING_OPTION_SIZE;
         b = pack_setting_item b p SW_HTTP2_SETTINGS_MAX_FRAME_SIZE (max_frame_size settings);
         p = p + SW_HTTP2_SETTING_OPTION_SIZE;
         b = pack_setting_item b p SW_HTTP2_SETTINGS_MAX_HEADER_LIST_SIZE (max_header_list_size settings);
         p = p + SW_HTTP2_SETTING_OPTION_SIZE
     in (b, p))"

function unpack_setting_data :: "(nat \<Rightarrow> nat \<Rightarrow> 'u \<Rightarrow> 'u \<times> ReturnCode) \<Rightarrow> bytes \<Rightarrow> int \<Rightarrow> 'u \<Rightarrow> ('u \<times> ReturnCode) option" where
  "unpack_setting_data cb buf len u =
    (if len > 0 then
       (if length buf < 6 then None
        else
          (let sid = swap_bytes 2 (load 2 buf);
               value = swap_bytes 4 (load 4 (drop 2 buf));
               (u1, rc) = cb sid value u
           in if rc \<noteq> SW_SUCCESS then Some (u1, rc)
              else unpack_setting_data cb (drop 6 buf) (len - 6) u1))
     else Some (u, SW_SUCCESS))"
  by pat_completeness auto
termination by (relation "measure (\<lambda>(cb, buf, len, u). nat len)") auto

declare unpack_setting_data.simps [simp del]

text \<open>The names and colours of the trace log.\<close>

definition get_type :: "nat \<Rightarrow> string" where
  "get_type type =
    (if type = 0 then ''DATA'' else if type = 1 then ''HEADERS'' else if type = 2 then ''PRIORITY''
     else if type = 3 then ''RST_STREAM'' else if type = 4 then ''SETTINGS'' else if type = 5 then ''PUSH_PROMISE''
     else if type = 6 then ''PING'' else if type = 7 then ''GOAWAY'' else if type = 8 then ''WINDOW_UPDATE''
     else if type = 9 then ''CONTINUATION'' else ''UNKNOWN'')"

definition get_flag_string :: "nat \<Rightarrow> string" where
  "get_flag_string flags =
    (let str = (if odd flags then ''ACK|'' else []);
         str = str @ (if odd flags then ''END_STREAM|'' else []);
         str = str @ (if odd (flags div 4) then ''END_HEADERS|'' else []);
         str = str @ (if odd (flags div 8) then ''PADDED|'' else []);
         str = str @ (if odd (flags div 32) then ''PRIORITY|'' else [])
     in if str = [] then ''none'' else if last str = CHR ''|'' then butlast str else ''none'')"

section \<open>Numbers\<close>

fun content_length_loop :: "nat \<Rightarrow> bytes \<Rightarrow> nat \<Rightarrow> nat option" where
  "content_length_loop max_body_size [] content_length = Some content_length"
| "content_length_loop max_body_size (c # cs) content_length =
    (let ch = unat c in
     if ch < 48 \<or> ch > 57 then None
     else let digit = ch - 48 in
       if content_length > (2 ^ 64 - 1 - digit) div 10 then None
       else let n = wrap64 (content_length * 10 + digit) in
         if n > max_body_size then None else content_length_loop max_body_size cs n)"

definition parse_content_length :: "bytes \<Rightarrow> nat \<Rightarrow> nat option" where
  "parse_content_length value max_body_size = (if length value = 0 then None else content_length_loop max_body_size value 0)"

fun status_code_loop :: "bytes \<Rightarrow> nat \<Rightarrow> nat option" where
  "status_code_loop [] status_code = Some status_code"
| "status_code_loop (c # cs) status_code =
    (let ch = unat c in
     if ch < 48 \<or> ch > 57 then None else status_code_loop cs ((status_code * 10 + (ch - 48)) mod 2 ^ 16))"

definition parse_status_code :: "bytes \<Rightarrow> nat option" where
  "parse_status_code value =
    (if length value \<noteq> 3 then None
     else case status_code_loop value 0 of
            None \<Rightarrow> None
          | Some status_code \<Rightarrow> if status_code < 100 \<or> status_code > 599 then None else Some status_code)"

definition is_digit :: "byte \<Rightarrow> bool" where
  "is_digit c \<longleftrightarrow> 48 \<le> unat c \<and> unat c \<le> 57"

text \<open>The number that decimal digits denote.\<close>

definition decimal :: "bytes \<Rightarrow> nat" where
  "decimal cs = foldl (\<lambda>n c. n * 10 + (unat c - 48)) 0 cs"

lemma decimal_mono: "n \<le> foldl (\<lambda>n c. n * 10 + (unat c - 48)) n (cs :: bytes)"
proof (induction cs arbitrary: n)
  case (Cons c cs)
  have "n \<le> n * 10 + (unat c - 48)" by simp
  also have "\<dots> \<le> foldl (\<lambda>n c. n * 10 + (unat c - 48)) (n * 10 + (unat c - 48)) cs" by (rule Cons)
  finally show ?case by simp
qed simp

lemma content_length_loop_value:
  "mx < 2 ^ 64 \<Longrightarrow> n \<le> mx \<Longrightarrow>
   content_length_loop mx cs n =
     (if (\<forall>c\<in>set cs. is_digit c) \<and> foldl (\<lambda>n c. n * 10 + (unat c - 48)) n cs \<le> mx
      then Some (foldl (\<lambda>n c. n * 10 + (unat c - 48)) n cs) else None)"
proof (induction cs arbitrary: n)
  case (Cons c cs)
  define d where "d = unat c - 48"
  define f where "f = foldl (\<lambda>n (c::byte). n * 10 + (unat c - 48)) (n * 10 + d) cs"
  have mono: "n * 10 + d \<le> f" unfolding f_def by (rule decimal_mono)
  show ?case
  proof (cases "is_digit c")
    case False
    then show ?thesis by (auto simp: is_digit_def Let_def)
  next
    case True
    then have d: "d \<le> 9" "\<not> unat c < 48" "\<not> unat c > 57" by (auto simp: is_digit_def d_def)
    have ov: "n > (2 ^ 64 - 1 - d) div 10 \<longleftrightarrow> 2 ^ 64 \<le> n * 10 + d" using d(1) by (simp add: div_less_iff_less_mult) linarith
    show ?thesis
    proof (cases "n * 10 + d \<le> mx")
      case True
      then have w: "n * 10 + d < 2 ^ 64" using Cons.prems(1) by linarith
      have "content_length_loop mx (c # cs) n = content_length_loop mx cs (n * 10 + d)"
        using d ov w True by (simp add: Let_def wrap64_def flip: d_def)
      also have "\<dots> = (if (\<forall>c\<in>set cs. is_digit c) \<and> f \<le> mx then Some f else None)"
        unfolding f_def by (rule Cons.IH [OF Cons.prems(1) True])
      finally show ?thesis using \<open>is_digit c\<close> by (simp add: f_def d_def)
    next
      case False
      then have "content_length_loop mx (c # cs) n = None"
        using d ov Cons.prems(1) by (simp add: Let_def wrap64_def flip: d_def)
      then show ?thesis using False mono by (simp add: f_def d_def)
    qed
  qed
qed simp

lemma status_code_loop_value:
  "foldl (\<lambda>n c. n * 10 + (unat c - 48)) n cs < 2 ^ 16 \<Longrightarrow>
   status_code_loop cs n = (if \<forall>c\<in>set cs. is_digit c then Some (foldl (\<lambda>n c. n * 10 + (unat c - 48)) n cs) else None)"
proof (induction cs arbitrary: n)
  case (Cons c cs)
  have "n * 10 + (unat c - 48) \<le> foldl (\<lambda>n c. n * 10 + (unat c - 48)) (n * 10 + (unat c - 48)) cs" by (rule decimal_mono)
  then have "n * 10 + (unat c - 48) < 2 ^ 16" using Cons.prems by simp
  then show ?case using Cons by (auto simp: is_digit_def Let_def)
qed simp

text \<open>C38: \<open>parse_content_length\<close> accepts exactly the non-empty strings of decimal digits whose value does not exceed
  the limit, however many digits they have, and returns that value; no overflow of the 64-bit counter goes
  undetected. \<open>parse_status_code\<close> accepts exactly the three digits of a number from 100 to 599.
\<close>

theorem http2_numbers:
  assumes "max_body_size < 2 ^ 64"
  shows "parse_content_length v max_body_size =
      (if v \<noteq> [] \<and> list_all is_digit v \<and> decimal v \<le> max_body_size then Some (decimal v) else None) \<and>
    parse_status_code v =
      (if length v = 3 \<and> list_all is_digit v \<and> 100 \<le> decimal v \<and> decimal v \<le> 599 then Some (decimal v) else None)"
proof (rule conjI)
  show "parse_content_length v max_body_size =
      (if v \<noteq> [] \<and> list_all is_digit v \<and> decimal v \<le> max_body_size then Some (decimal v) else None)"
    using content_length_loop_value [OF assms, of 0 v] by (auto simp: parse_content_length_def decimal_def list_all_iff)
  have "decimal v < 2 ^ 16" if "length v = 3"
  proof -
    obtain a b c where v: "v = [a, b, c]" using \<open>length v = 3\<close> by (auto simp: numeral_eq_Suc length_Suc_conv)
    have "unat a < 256" "unat b < 256" "unat c < 256" by (rule unat_byte_less)+
    then show ?thesis by (simp add: v decimal_def)
  qed
  then show "parse_status_code v =
      (if length v = 3 \<and> list_all is_digit v \<and> 100 \<le> decimal v \<and> decimal v \<le> 599 then Some (decimal v) else None)"
    using status_code_loop_value [of 0 v] by (auto simp: parse_status_code_def decimal_def list_all_iff)
qed

theorem http2_numbers_witness:
  "parse_content_length [49, 50, 48] 4096 = Some 120 \<and> parse_content_length [49, 48, 57, 54, 57] 4096 = None \<and>
   parse_status_code [50, 48, 52] = Some 204"
proof -
  have e: "decimal [49, 50, 48] = 120" "decimal [49, 48, 57, 54, 57] = 10969" "decimal [50, 48, 52] = 204"
    "list_all is_digit [49, 50, 48]" "list_all is_digit [50, 48, 52]" by (simp_all add: decimal_def is_digit_def)
  show ?thesis using http2_numbers [of 4096 "[49, 50, 48]"] http2_numbers [of 4096 "[49, 48, 57, 54, 57]"]
      http2_numbers [of 4096 "[50, 48, 52]"] e by simp
qed

section \<open>The SETTINGS frame\<close>

definition setting_item :: "nat \<times> nat \<Rightarrow> bytes" where
  "setting_item x = be_bytes 2 (fst x) @ be_bytes 4 (snd x)"

definition setting_items :: "Settings \<Rightarrow> bool \<Rightarrow> (nat \<times> nat) list" where
  "setting_items st server_side = [(1, header_table_size st)] @ (if server_side then [] else [(2, enable_push st)]) @
     [(3, max_concurrent_streams st), (4, init_window_size st), (5, max_frame_size st), (6, max_header_list_size st)]"

definition settings_u32 :: "Settings \<Rightarrow> bool" where
  "settings_u32 st \<longleftrightarrow> header_table_size st < 2 ^ 32 \<and> enable_push st < 2 ^ 32 \<and> max_concurrent_streams st < 2 ^ 32 \<and>
     init_window_size st < 2 ^ 32 \<and> max_frame_size st < 2 ^ 32 \<and> max_header_list_size st < 2 ^ 32"

lemma length_setting_item [simp]: "length (setting_item x) = 6"
  by (simp add: setting_item_def)

lemma pack_item_form:
  "length rest \<ge> 6 \<Longrightarrow> p = length pre \<Longrightarrow> pack_setting_item (pre @ rest) p i v = (pre @ setting_item (i, v)) @ drop 6 rest"
  by (simp add: pack_setting_item_def memcpy_at_def setting_item_def add.commute)

lemma five_updates: "5 \<le> length xs \<Longrightarrow> xs[0 := a, Suc 0 := b, Suc (Suc 0) := c, 3 := d, 4 := e] = [a, b, c, d, e] @ drop 5 xs"
  by (auto simp: Suc_le_length_iff numeral_eq_Suc)

definition frame_header :: "nat \<Rightarrow> nat \<Rightarrow> nat \<Rightarrow> nat \<Rightarrow> bytes" where
  "frame_header type len flags sid = [of_nat (len div 2 ^ 16), of_nat (len div 2 ^ 8), of_nat len, of_nat type, of_nat flags] @ be_bytes 4 sid"

lemma length_frame_header [simp]: "length (frame_header t l f i) = 9"
  by (simp add: frame_header_def)

lemma set_frame_header_form:
  "9 \<le> length buf \<Longrightarrow> set_frame_header buf 0 type len flags sid = frame_header type len flags sid @ drop 9 buf"
  using five_updates [of buf] by (simp add: set_frame_header_def Let_def memcpy_at_def frame_header_def)

lemma pack_frame_form:
  assumes "SW_HTTP2_SETTING_FRAME_SIZE \<le> length buf"
  shows "pack_setting_frame buf st server_side =
    (frame_header 4 (6 * length (setting_items st server_side)) 0 0 @ concat (map setting_item (setting_items st server_side))
       @ drop (9 + 6 * length (setting_items st server_side)) buf, 9 + 6 * length (setting_items st server_side))"
proof -
  have l: "45 \<le> length buf" using assms by (simp add: http2_sizes)
  then have h: "set_frame_header buf 0 4 k 0 0 = frame_header 4 k 0 0 @ drop 9 buf" for k by (intro set_frame_header_form) simp
  show ?thesis
    using l by (cases server_side)
      (simp_all add: pack_setting_frame_def http2_sizes setting_ids h setting_items_def Let_def pack_item_form
         flip: append_assoc)
qed

lemma unpack_items:
  assumes "\<forall>x\<in>set its. fst x < 2 ^ 16 \<and> snd x < 2 ^ 32"
  shows "unpack_setting_data (\<lambda>i v u. (f i v u, SW_SUCCESS)) (concat (map setting_item its)) (int (6 * length its)) u
     = Some (foldl (\<lambda>u (i, v). f i v u) u its, SW_SUCCESS)"
  using assms
proof (induction its arbitrary: u)
  case Nil
  then show ?case by (subst unpack_setting_data.simps) simp
next
  case (Cons x its)
  obtain i v where x: "x = (i, v)" by fastforce
  define rest where "rest = concat (map setting_item its)"
  have b: "i < 256 ^ 2" "v < 256 ^ 4" using Cons.prems x by simp_all
  have i: "swap_bytes 2 (load 2 (setting_item (i, v))) = i"
    using b by (simp add: setting_item_def load_def bytes_at_def)
  have v: "swap_bytes 4 (load 4 (drop 2 (setting_item (i, v)))) = v"
    using b by (simp add: setting_item_def load_def bytes_at_def)
  have d: "drop 6 (setting_item (i, v) @ rest) = rest" by simp
  have n: "int (6 * length (x # its)) - 6 = int (6 * length its)" by simp
  show ?case unfolding x
    by (subst unpack_setting_data.simps)
       (use Cons.IH [of "f i v u"] Cons.prems n in \<open>simp add: Let_def i v d flip: rest_def\<close>)
qed

lemma get_length_header:
  assumes "len < 2 ^ 24" shows "get_length (frame_header t len f i @ z) = int len"
proof -
  have d: "len div 65536 mod 256 = len div 256 div 256"
    using assms by (simp add: div_less_iff_less_mult flip: div_mult2_eq)
  have sum: "x * 65536 + y * 256 + r = len" if "x * 256 + y = q" "q * 256 + r = len" for x y r q :: nat
    using that by linarith
  have "len div 65536 mod 256 * 65536 + len div 256 mod 256 * 256 + len mod 256 = len"
    unfolding d by (rule sum) (rule div_mult_mod_eq)+
  moreover have "get_length (frame_header t len f i @ z) = int (len div 65536 mod 256 * 65536 + len div 256 mod 256 * 256 + len mod 256)"
    unfolding get_length_def frame_header_def by (rule arg_cong [of _ _ int]) (simp add: unat_of_nat_byte)
  ultimately show ?thesis by (simp only:)
qed

text \<open>C37: A SETTINGS frame survives the wire. Whatever values of 32 bits the settings have, \<open>pack_setting_frame\<close>
  writes into a buffer of \<open>SW_HTTP2_SETTING_FRAME_SIZE\<close> bytes, changes nothing past the size it returns, and
  that is the size the receiver computes from the header; \<open>unpack_setting_data\<close> on the payload restores every
  setting (all but \<open>enable_push\<close> when the server sends it).
\<close>

theorem http2_settings_roundtrip:
  assumes "SW_HTTP2_SETTING_FRAME_SIZE \<le> length buf" "settings_u32 st" "pack_setting_frame buf st server_side = (b, n)"
  shows "n \<le> SW_HTTP2_SETTING_FRAME_SIZE \<and> length b = length buf \<and> drop n b = drop n buf \<and>
    get_frame_length b (length b) = int n \<and> get_type (unat (b ! 3)) = ''SETTINGS'' \<and>
    unpack_setting_data (\<lambda>i v s. (put_default_setting i v s, SW_SUCCESS)) (drop SW_HTTP2_FRAME_HEADER_SIZE (take n b)) (get_length b) s0 =
      Some (if server_side then st\<lparr>enable_push := enable_push s0\<rparr> else st, SW_SUCCESS)"
proof -
  define its where "its = setting_items st server_side"
  define items where "items = concat (map setting_item its)"
  have len: "length its = (if server_side then 5 else 6)" by (simp add: its_def setting_items_def)
  have li: "length items = 6 * length its" unfolding items_def by (induction its) auto
  have f: "b = frame_header 4 (6 * length its) 0 0 @ items @ drop n buf" "n = 9 + 6 * length its"
    using pack_frame_form [OF assms(1), of st server_side] assms(3) by (auto simp: its_def items_def)
  have l: "45 \<le> length buf" using assms(1) by (simp add: http2_sizes)
  have g: "get_length b = int (6 * length its)" unfolding f(1) using len by (intro get_length_header) simp
  have t: "b ! 3 = 4" by (simp add: f(1) frame_header_def)
  have "\<forall>x\<in>set its. fst x < 2 ^ 16 \<and> snd x < 2 ^ 32" using assms(2) by (auto simp: its_def setting_items_def settings_u32_def)
  from unpack_items [OF this, of put_default_setting s0]
  have u: "unpack_setting_data (\<lambda>i v s. (put_default_setting i v s, SW_SUCCESS)) items (get_length b) s0
      = Some (foldl (\<lambda>u (i, v). put_default_setting i v u) s0 its, SW_SUCCESS)" by (simp add: g items_def)
  have r: "foldl (\<lambda>u (i, v). put_default_setting i v u) s0 its = (if server_side then st\<lparr>enable_push := enable_push s0\<rparr> else st)"
    by (simp add: its_def setting_items_def put_default_setting_def setting_ids)
  have p: "drop SW_HTTP2_FRAME_HEADER_SIZE (take n b) = items" using li by (simp add: f http2_sizes)
  show ?thesis using f len li l g t u r p by (simp add: get_frame_length_def get_type_def http2_sizes)
qed

theorem http2_settings_roundtrip_witness:
  "unpack_setting_data (\<lambda>i v s. (put_default_setting i v s, SW_SUCCESS))
     (drop 9 (take 45 (fst (pack_setting_frame (replicate 45 0) (default_settings\<lparr>enable_push := 1\<rparr>) False)))) 36 default_settings
   = Some (default_settings\<lparr>enable_push := 1\<rparr>, SW_SUCCESS)"
proof -
  let ?st = "default_settings\<lparr>enable_push := 1\<rparr>" and ?buf = "replicate 45 0 :: bytes"
  have f: "pack_setting_frame ?buf ?st False = (fst (pack_setting_frame ?buf ?st False), 45)"
    using pack_frame_form [of ?buf ?st False] by (simp add: http2_sizes setting_items_def)
  have "get_length (fst (pack_setting_frame ?buf ?st False)) = 36"
    using pack_frame_form [of ?buf ?st False] get_length_header [of 36] by (simp add: http2_sizes setting_items_def)
  moreover have "settings_u32 ?st" by (simp add: settings_u32_def default_settings_def)
  ultimately show ?thesis
    using http2_settings_roundtrip [of ?buf ?st False "fst (pack_setting_frame ?buf ?st False)" 45 default_settings] f
    by (auto simp: http2_sizes)
qed

text \<open>The complete items of a payload, and whether a callback returns \<open>SW_SUCCESS\<close> for each of them in turn.\<close>

function whole_items :: "bytes \<Rightarrow> (nat \<times> nat) list" where
  "whole_items buf =
     (if length buf < 6 then []
      else (be_value (take 2 buf), be_value (take 4 (drop 2 buf))) # whole_items (drop 6 buf))"
  by pat_completeness auto
termination by (relation "measure length") auto

declare whole_items.simps [simp del]

fun all_accepted :: "(nat \<Rightarrow> nat \<Rightarrow> 'u \<Rightarrow> 'u \<times> ReturnCode) \<Rightarrow> (nat \<times> nat) list \<Rightarrow> 'u \<Rightarrow> bool" where
  "all_accepted cb [] u \<longleftrightarrow> True"
| "all_accepted cb ((i, v) # its) u \<longleftrightarrow> snd (cb i v u) = SW_SUCCESS \<and> all_accepted cb its (fst (cb i v u))"

text \<open>C39: \<open>unpack_setting_data\<close> checks no size: for every payload and every callback, it reads past the end of the
  payload exactly when the length of the payload is not a multiple of 6 and the callback has returned \<open>SW_SUCCESS\<close> for
  all the complete items (a callback that stops earlier ends the loop before).
\<close>

theorem http2_settings_overread:
  "unpack_setting_data cb buf (int (length buf)) u = None \<longleftrightarrow> length buf mod 6 \<noteq> 0 \<and> all_accepted cb (whole_items buf) u"
proof (induction "length buf" arbitrary: buf u rule: less_induct)
  case less
  show ?case
  proof (cases "length buf < 6")
    case True
    then show ?thesis by (subst unpack_setting_data.simps, subst whole_items.simps) simp
  next
    case False
    define i v where "i = be_value (take 2 buf)" and "v = be_value (take 4 (drop 2 buf))"
    have l: "int (length buf) - 6 = int (length (drop 6 buf))" "length (drop 6 buf) mod 6 = length buf mod 6"
      using False by (simp_all add: le_mod_geq)
    have iv: "swap_bytes 2 (load 2 buf) = i" "swap_bytes 4 (load 4 (drop 2 buf)) = v"
      using False by (simp_all add: load_def bytes_at_def i_def v_def)
    obtain u1 rc where c: "cb i v u = (u1, rc)" by fastforce
    have "unpack_setting_data cb buf (int (length buf)) u =
        (if rc \<noteq> SW_SUCCESS then Some (u1, rc) else unpack_setting_data cb (drop 6 buf) (int (length buf) - 6) u1)"
      using False iv c by (subst unpack_setting_data.simps) (auto simp: Let_def)
    moreover have "whole_items buf = (i, v) # whole_items (drop 6 buf)"
      using False by (subst whole_items.simps) (simp add: i_def v_def)
    moreover have "unpack_setting_data cb (drop 6 buf) (int (length buf) - 6) u1 = None \<longleftrightarrow>
        length buf mod 6 \<noteq> 0 \<and> all_accepted cb (whole_items (drop 6 buf)) u1"
      unfolding l(1) using less [of "drop 6 buf" u1] False l(2) by simp
    ultimately show ?thesis using c by simp
  qed
qed

section \<open>Frames through the receive loop\<close>

definition h2_plen :: "bytes \<Rightarrow> int" where
  "h2_plen b = get_frame_length b (length b)"

interpretation h2: packet_length h2_plen SW_HTTP2_FRAME_HEADER_SIZE
proof
  have "get_length (b @ c) = get_length b" if "\<not> length b < 9" for b c
    using that by (auto simp: get_length_def nth_append)
  then show "h2_plen (b @ c) = h2_plen b" if "h2_plen b \<noteq> 0" for b c
    using that by (auto simp: h2_plen_def get_frame_length_def http2_sizes split: if_splits)
  have nn: "0 \<le> get_length b" for b by (simp add: get_length_def)
  show "length b < SW_HTTP2_FRAME_HEADER_SIZE" if "h2_plen b = 0" for b
    using that nn [of b] by (simp add: h2_plen_def get_frame_length_def http2_sizes split: if_splits)
qed (simp add: h2_plen_def get_frame_length_def http2_sizes)

end
