(* ===== verification/Sw_Mqtt.thy ===== *)
theory Sw_Mqtt
  imports Sw_Framing
begin

text \<open>
  The MQTT length function of \<open>src/protocol/mqtt.cc\<close>: the remaining length of a packet is one to four bytes after
  the type byte, seven bits each, the lowest first. The function keeps the contract of a length function, reads
  only bytes it has, and inverts the encoding of the MQTT standard, so a port that speaks MQTT hands on whole
  packets.
\<close>

definition SW_MQTT_MIN_LENGTH_SIZE :: nat where "SW_MQTT_MIN_LENGTH_SIZE = 1"
definition SW_MQTT_MAX_LENGTH_SIZE :: nat where "SW_MQTT_MAX_LENGTH_SIZE = 4"
definition SW_MQTT_MAX_PAYLOAD_SIZE :: nat where "SW_MQTT_MAX_PAYLOAD_SIZE = 268435455"
definition SW_MQTT_RECV_LEN_AGAIN :: int where "SW_MQTT_RECV_LEN_AGAIN = 0"

lemmas mqtt_sizes = SW_MQTT_MIN_LENGTH_SIZE_def SW_MQTT_MAX_LENGTH_SIZE_def SW_MQTT_MAX_PAYLOAD_SIZE_def SW_MQTT_RECV_LEN_AGAIN_def

definition mqtt_set_protocol :: "Protocol \<Rightarrow> Protocol" where
  "mqtt_set_protocol p = p\<lparr>package_length_size := SW_MQTT_MAX_LENGTH_SIZE, package_length_offset := 1, package_body_offset := 0\<rparr>"

text \<open>
  The loop over the bytes of the length. \<open>Inl\<close> is an early return, \<open>Inr\<close> the length and the number of its bytes;
  \<open>None\<close> is a read past the end of \<open>buf\<close>.
\<close>

function mqtt_length_loop :: "bytes \<Rightarrow> nat \<Rightarrow> nat \<Rightarrow> nat \<Rightarrow> nat \<Rightarrow> (int + nat \<times> nat) option" where
  "mqtt_length_loop buf recv_size nbytes0 mul len0 =
    (let nbytes = nbytes0 + 1 in
     if nbytes \<ge> length buf then None
     else
       (let byte = buf ! nbytes; len = len0 + unat (byte AND 127) * mul in
        if byte AND 128 = 0 then Some (Inr (len, nbytes))
        else if nbytes \<ge> SW_MQTT_MAX_LENGTH_SIZE then Some (Inl SW_ERR)
        else if nbytes \<ge> recv_size then Some (Inl SW_MQTT_RECV_LEN_AGAIN)
        else mqtt_length_loop buf recv_size nbytes (mul * 128) len))"
  by pat_completeness auto
termination by (relation "measure (\<lambda>(buf, recv_size, nbytes, mul, len). SW_MQTT_MAX_LENGTH_SIZE - nbytes)") auto

declare mqtt_length_loop.simps [simp del]

definition mqtt_get_package_length :: "bytes \<Rightarrow> nat \<Rightarrow> int option" where
  "mqtt_get_package_length buf buf_size =
    (let recv_variable_header_size = sub32 buf_size 1 in
     if recv_variable_header_size < SW_MQTT_MIN_LENGTH_SIZE then Some SW_MQTT_RECV_LEN_AGAIN
     else case mqtt_length_loop buf recv_variable_header_size 0 1 0 of
       None \<Rightarrow> None
     | Some (Inl rc) \<Rightarrow> Some rc
     | Some (Inr (len, nbytes)) \<Rightarrow>
         if len > SW_MQTT_MAX_PAYLOAD_SIZE then Some SW_ERR else Some (int len + int nbytes + 1))"

text \<open>The receive loop asks only when it has data, and its buffer is shorter than \<open>2 ^ 32\<close> bytes.\<close>

definition mqtt_plen :: "bytes \<Rightarrow> int" where
  "mqtt_plen b = (if b = [] then 0 else the (mqtt_get_package_length b (min (length b) (2 ^ 32 - 1))))"

text \<open>The encoding of the MQTT standard, section 2.2.3.\<close>

fun mqtt_encode :: "nat \<Rightarrow> bytes" where
  "mqtt_encode n = (if n < 128 then [of_nat n] else of_nat (n mod 128 + 128) # mqtt_encode (n div 128))"

declare mqtt_encode.simps [simp del]

definition mqtt_packet :: "byte \<Rightarrow> bytes \<Rightarrow> bytes" where
  "mqtt_packet hd0 p = hd0 # mqtt_encode (length p) @ p"

section \<open>The loop\<close>

lemma byte_high: "(b :: byte) AND 128 = 0 \<longleftrightarrow> unat b < 128"
proof -
  have "b AND 128 = 0 \<longleftrightarrow> \<not> bit b 7" using and_exp_eq_0_iff_not_bit [of b 7] by simp
  also have "\<dots> \<longleftrightarrow> even (unat b div 128)" using bit_unsigned_iff [of b 7, where 'a = nat] by (auto simp: bit_iff_odd [of "unat b"])
  also have "\<dots> \<longleftrightarrow> unat b < 128" using unat_byte_less [of b] by (cases "unat b < 128") (auto simp: le_div_geq)
  finally show ?thesis .
qed

lemma loop_no_overread:
  "nbytes < recv \<Longrightarrow> recv < length buf \<Longrightarrow> mqtt_length_loop buf recv nbytes mul len \<noteq> None"
proof (induction buf recv nbytes mul len rule: mqtt_length_loop.induct)
  case (1 buf recv nbytes mul len)
  then show ?case by (subst mqtt_length_loop.simps) (auto simp: Let_def)
qed

lemma loop_again:
  "mqtt_length_loop buf recv nbytes mul len = Some (Inl rc) \<Longrightarrow> rc = SW_ERR \<or> rc = SW_MQTT_RECV_LEN_AGAIN \<and> recv < 4"
proof (induction buf recv nbytes mul len rule: mqtt_length_loop.induct)
  case (1 buf recv nbytes mul len)
  then show ?case by (subst (asm) (2) mqtt_length_loop.simps) (auto simp: Let_def mqtt_sizes split: if_splits)
qed

lemma loop_stable:
  "mqtt_length_loop buf recv nbytes mul len = Some r \<Longrightarrow> r \<noteq> Inl SW_MQTT_RECV_LEN_AGAIN \<Longrightarrow> recv \<le> recv' \<Longrightarrow>
   mqtt_length_loop (buf @ c) recv' nbytes mul len = Some r"
proof (induction buf recv nbytes mul len rule: mqtt_length_loop.induct)
  case (1 buf recv nbytes mul len)
  show ?case
    using "1.prems" "1.IH" [OF refl _ refl refl]
    apply (subst (asm) mqtt_length_loop.simps)
    apply (subst mqtt_length_loop.simps)
    apply (auto simp: Let_def nth_append split: if_splits)
    done
qed

lemma loop_decodes:
  "n < 128 ^ (4 - nbytes) \<Longrightarrow> nbytes < 4 \<Longrightarrow> Suc nbytes \<le> length buf \<Longrightarrow> drop (Suc nbytes) buf = mqtt_encode n @ z \<Longrightarrow>
   nbytes + length (mqtt_encode n) \<le> recv \<Longrightarrow>
   mqtt_length_loop buf recv nbytes mul len = Some (Inr (len + n * mul, nbytes + length (mqtt_encode n)))"
proof (induction n arbitrary: nbytes mul len rule: mqtt_encode.induct)
  case (1 n)
  show ?case
  proof (cases "n < 128")
    case True
    then have e: "mqtt_encode n = [of_nat n]" by (subst mqtt_encode.simps) simp
    then have b: "nbytes + 1 < length buf" "buf ! (nbytes + 1) = of_nat n"
      using "1.prems"(4) by (auto simp: nth_via_drop not_less dest: arg_cong [of _ _ length])
    then show ?thesis using True e by (subst mqtt_length_loop.simps) (simp add: Let_def byte_high byte_and_7f unat_of_nat_byte)
  next
    case False
    define m where "m = n div 128"
    define w :: byte where "w = of_nat (n mod 128 + 128)"
    have e: "mqtt_encode n = w # mqtt_encode m" using False unfolding m_def w_def by (subst mqtt_encode.simps) simp
    then have b: "nbytes + 1 < length buf" "buf ! (nbytes + 1) = w"
      using "1.prems"(4) by (auto simp: nth_via_drop not_less dest: arg_cong [of _ _ length])
    have d: "drop (Suc (Suc nbytes)) buf = mqtt_encode m @ z" using "1.prems"(4) e by (metis append_Cons drop_Suc list.sel(3) tl_drop)
    have lt: "nbytes + 1 < 4" using False "1.prems"(1,2) by (cases "nbytes = 3") auto
    have mb: "m < 128 ^ (4 - Suc nbytes)"
    proof -
      have "4 - nbytes = Suc (4 - Suc nbytes)" using "1.prems"(2) by simp
      then show ?thesis using "1.prems"(1) by (simp add: m_def div_less_iff_less_mult mult.commute)
    qed
    have ih: "mqtt_length_loop buf recv (Suc nbytes) (mul * 128) l = Some (Inr (l + m * (mul * 128), Suc nbytes + length (mqtt_encode m)))" for l
      unfolding m_def by (rule "1.IH" [OF False]) (use mb lt b d "1.prems"(5) e in \<open>simp_all add: m_def\<close>)
    have v: "unat w = n mod 128 + 128" unfolding w_def by (subst unat_of_nat_byte) simp
    have nz: "Suc nbytes < recv" "\<not> 4 \<le> Suc nbytes" using "1.prems"(5) e lt by (auto simp: mqtt_encode.simps [of m] split: if_splits)
    have "len + (n mod 128) * mul + m * (mul * 128) = len + n * mul"
      using mod_mult_div_eq [of n 128] by (metis (no_types, lifting) add.assoc add_mult_distrib m_def mult.assoc mult.commute)
    then show ?thesis using b v nz ih e
      by (subst mqtt_length_loop.simps) (simp add: Let_def byte_high byte_and_7f mqtt_sizes)
  qed
qed

section \<open>The contract of a length function\<close>

definition mqtt_recv :: "bytes \<Rightarrow> nat" where
  "mqtt_recv b = min (length b) (2 ^ 32 - 1) - 1"

definition mqtt_result :: "int + nat \<times> nat \<Rightarrow> int" where
  "mqtt_result x = (case x of Inl rc \<Rightarrow> rc
     | Inr (len, nbytes) \<Rightarrow> if len > SW_MQTT_MAX_PAYLOAD_SIZE then SW_ERR else int len + int nbytes + 1)"

lemma mqtt_recv_props: "b \<noteq> [] \<Longrightarrow> mqtt_recv b < length b" "mqtt_recv b \<le> mqtt_recv (b @ c)" "mqtt_recv b < 4 \<Longrightarrow> length b < 5"
  by (auto simp: mqtt_recv_def min_def split: if_splits)

text \<open>The function reads only bytes that have been received.\<close>

lemma mqtt_get_package_length_eq:
  assumes "b \<noteq> []"
  shows "mqtt_get_package_length b (min (length b) (2 ^ 32 - 1)) =
    (if mqtt_recv b < 1 then Some 0 else map_option mqtt_result (mqtt_length_loop b (mqtt_recv b) 0 1 0))"
proof -
  have "sub32 (min (length b) (2 ^ 32 - 1)) 1 = mqtt_recv b"
    using assms unfolding mqtt_recv_def by (intro sub32_id) (simp_all add: Suc_le_eq)
  then show ?thesis unfolding mqtt_get_package_length_def Let_def mqtt_result_def
    by (auto simp: mqtt_sizes split: option.split sum.split prod.split)
qed

lemma mqtt_no_overread: "b \<noteq> [] \<Longrightarrow> mqtt_get_package_length b (min (length b) (2 ^ 32 - 1)) \<noteq> None"
  using loop_no_overread [of 0 "mqtt_recv b" b 1 0] mqtt_recv_props(1) [of b] unfolding mqtt_get_package_length_eq by auto

lemma mqtt_plen_loop:
  assumes "mqtt_plen b \<noteq> 0 \<or> \<not> length b < 5"
  obtains x where "b \<noteq> []" "1 \<le> mqtt_recv b" "mqtt_length_loop b (mqtt_recv b) 0 1 0 = Some x" "x \<noteq> Inl SW_MQTT_RECV_LEN_AGAIN"
    "mqtt_plen b = mqtt_result x"
proof -
  have b: "b \<noteq> []" using assms by (auto simp: mqtt_plen_def)
  have e: "mqtt_plen b = (if mqtt_recv b < 1 then 0 else the (map_option mqtt_result (mqtt_length_loop b (mqtt_recv b) 0 1 0)))"
    using b mqtt_get_package_length_eq [OF b] by (simp add: mqtt_plen_def)
  have r: "1 \<le> mqtt_recv b" using assms e mqtt_recv_props(3) [of b] by (cases "mqtt_recv b < 1") auto
  then obtain x where x: "mqtt_length_loop b (mqtt_recv b) 0 1 0 = Some x"
    using loop_no_overread [of 0 "mqtt_recv b" b 1 0] mqtt_recv_props(1) [OF b] by auto
  then have p: "mqtt_plen b = mqtt_result x" using e r by simp
  have "x \<noteq> Inl SW_MQTT_RECV_LEN_AGAIN"
  proof
    assume a: "x = Inl SW_MQTT_RECV_LEN_AGAIN"
    then have "mqtt_recv b < 4" using loop_again [of b "mqtt_recv b" 0 1 0] x by (auto simp: mqtt_sizes SW_ERR_def)
    then show False using assms mqtt_recv_props(3) [of b] p a by (simp add: mqtt_result_def mqtt_sizes)
  qed
  then show ?thesis using that b r x p by blast
qed

lemma mqtt_result_nonzero:
  assumes "mqtt_length_loop b r n m l = Some x" "x \<noteq> Inl SW_MQTT_RECV_LEN_AGAIN" shows "mqtt_result x \<noteq> 0"
proof (cases x)
  case (Inl rc)
  then show ?thesis using loop_again [of b r n m l rc] assms by (auto simp: mqtt_result_def SW_ERR_def mqtt_sizes)
qed (auto simp: mqtt_result_def SW_ERR_def split: prod.split)

lemma mqtt_packet_length: "packet_length mqtt_plen 5"
proof
  show "mqtt_plen [] = 0" by (simp add: mqtt_plen_def)
  show "length b < 5" if "mqtt_plen b = 0" for b
  proof (rule ccontr)
    assume "\<not> length b < 5"
    then obtain x where "mqtt_length_loop b (mqtt_recv b) 0 1 0 = Some x" "x \<noteq> Inl SW_MQTT_RECV_LEN_AGAIN" "mqtt_plen b = mqtt_result x"
      using mqtt_plen_loop [of b] by metis
    then show False using mqtt_result_nonzero that by metis
  qed
  show "mqtt_plen (b @ c) = mqtt_plen b" if p: "mqtt_plen b \<noteq> 0" for b c
  proof -
    obtain x where x: "b \<noteq> []" "1 \<le> mqtt_recv b" "mqtt_length_loop b (mqtt_recv b) 0 1 0 = Some x" "x \<noteq> Inl SW_MQTT_RECV_LEN_AGAIN"
      "mqtt_plen b = mqtt_result x" using mqtt_plen_loop p by metis
    have "mqtt_length_loop (b @ c) (mqtt_recv (b @ c)) 0 1 0 = Some x"
      by (rule loop_stable [OF x(3,4) mqtt_recv_props(2)])
    moreover have "1 \<le> mqtt_recv (b @ c)" using x(2) mqtt_recv_props(2) [of b c] by linarith
    moreover have "mqtt_plen (b @ c) = the (mqtt_get_package_length (b @ c) (min (length (b @ c)) (2 ^ 32 - 1)))" using x(1) by (simp add: mqtt_plen_def)
    ultimately show ?thesis using x(1,5) mqtt_get_package_length_eq [of "b @ c"] by simp
  qed
qed

interpretation mq: packet_length mqtt_plen 5
  by (rule mqtt_packet_length)

section \<open>Packets\<close>

lemma length_mqtt_encode: "n < 128 ^ k \<Longrightarrow> 0 < k \<Longrightarrow> length (mqtt_encode n) \<le> k"
proof (induction k arbitrary: n)
  case (Suc k)
  show ?case
  proof (cases "n < 128")
    case True
    then show ?thesis by (subst mqtt_encode.simps) simp
  next
    case False
    then have "n div 128 < 128 ^ k" "0 < k" using Suc.prems by (auto simp: div_less_iff_less_mult mult.commute intro: Suc_lessI gr0I)
    then show ?thesis using False Suc.IH [of "n div 128"] by (subst mqtt_encode.simps) simp
  qed
qed simp

lemma mqtt_packet_plen:
  assumes "length p \<le> SW_MQTT_MAX_PAYLOAD_SIZE" shows "mqtt_plen (mqtt_packet h p @ z) = int (length (mqtt_packet h p))"
proof -
  let ?n = "length p" and ?b = "mqtt_packet h p @ z"
  have n: "?n < 128 ^ (4 - 0)" using assms by (simp add: mqtt_sizes)
  have l: "length (mqtt_encode ?n) \<le> 4" "0 < length (mqtt_encode ?n)"
    using length_mqtt_encode [of ?n 4] n by (auto simp: mqtt_encode.simps [of ?n])
  have r: "length (mqtt_encode ?n) \<le> mqtt_recv ?b" using l by (simp add: mqtt_recv_def mqtt_packet_def min_def)
  have "mqtt_length_loop ?b (mqtt_recv ?b) 0 1 0 = Some (Inr (0 + ?n * 1, 0 + length (mqtt_encode ?n)))"
    by (rule loop_decodes [OF n, of _ "p @ z"]) (use r in \<open>simp_all add: mqtt_packet_def\<close>)
  moreover have "\<not> mqtt_recv ?b < 1" using r l(2) by linarith
  moreover have "?b \<noteq> []" by (simp add: mqtt_packet_def)
  moreover have "mqtt_plen ?b = the (mqtt_get_package_length ?b (min (length ?b) (2 ^ 32 - 1)))" using \<open>?b \<noteq> []\<close> by (simp only: mqtt_plen_def if_False)
  ultimately show ?thesis using mqtt_get_package_length_eq [of ?b] assms
    by (simp add: mqtt_result_def mqtt_packet_def)
qed

text \<open>C40: MQTT packets with any payloads of up to 268435455 bytes that fit \<open>package_max_length\<close>, sent back to back and cut
  into pieces in any way, are handed to \<open>onPackage\<close> one by one, each complete and in order; nothing is left in the
  receive buffer and the connection stays open.
\<close>

theorem mqtt_stream:
  assumes "receiver (mqtt_set_protocol p) SW_MQTT_MAX_LENGTH_SIZE 5 malloc onp"
    and "\<forall>(h, d)\<in>set ps. length d \<le> SW_MQTT_MAX_PAYLOAD_SIZE \<and> length (mqtt_packet h d) \<le> package_max_length p"
    and "rx_bytes (sk_rx k) = concat (map (\<lambda>(h, d). mqtt_packet h d) ps)" "all_data (sk_rx k)"
    and "\<not> sk_removed k" "\<not> sk_skip_recv k" "\<not> sk_recv_wait k" "rx_weight (sk_rx k) \<le> n"
  shows "\<exists>k' rb'. serve (readable_callback_length (mqtt_set_protocol p) mqtt_plen None malloc onp) n k None u
      = Inr (False, k', rb', handle_all onp u (map (\<lambda>(h, d). mqtt_packet h d) ps))
    \<and> sk_rx k' = [] \<and> contents (rb_buf rb') = []"
proof -
  let ?ps = "map (\<lambda>(h, d). mqtt_packet h d) ps" and ?p = "mqtt_set_protocol p"
  have mx: "package_max_length ?p = package_max_length p" "package_length_size ?p = SW_MQTT_MAX_LENGTH_SIZE"
    by (simp_all add: mqtt_set_protocol_def)
  have "cut mqtt_plen (package_max_length ?p) (concat ?ps @ []) = (?ps @ fst (cut mqtt_plen (package_max_length ?p) []), snd (cut mqtt_plen (package_max_length ?p) []))"
  proof (rule cut_concat)
    fix f z assume "f \<in> set ?ps"
    then obtain h d where f: "(h, d) \<in> set ps" "f = mqtt_packet h d" by auto
    then show "mqtt_plen (f @ z) = int (length f) \<and> f \<noteq> [] \<and> length f \<le> package_max_length ?p"
      using assms(2) mqtt_packet_plen [of d h z] mx by (auto simp: mqtt_packet_def)
  qed
  moreover have "cut mqtt_plen m [] = ([], [])" for m by (rule cut_stop) (simp add: mq.plen_empty)
  ultimately have c: "cut mqtt_plen (package_max_length ?p) (contents (rb_buf None) @ rx_bytes (sk_rx k)) = (?ps, [])"
    using assms(3) String_empty_ok(2) by (simp add: rb_buf_def)
  have i: "conn_inv mqtt_plen 5 (package_max_length ?p) k None" using assms(4-7) by (simp add: conn_inv_def)
  from mq.serve_length_ok [OF assms(1) _ _ c i assms(8), of None u] show ?thesis
    using mq.plen_empty mx by (auto simp: bad_length_def)
qed

theorem mqtt_stream_witness:
  "\<exists>k' rb'. serve (readable_callback_length (mqtt_set_protocol ListenPort_protocol) mqtt_plen None zero_malloc collect) 99
      (idle_socket [[48], [2, 7, 8, 192], [0]]) None []
    = Inr (False, k', rb', [[48, 2, 7, 8], [192, 0]]) \<and> contents (rb_buf rb') = []"
proof -
  let ?k = "idle_socket [[48], [2, 7, 8, 192], [0]]" and ?ps = "[(48, [7, 8]), (192, [])] :: (byte \<times> bytes) list"
  have f: "mqtt_packet 48 [7, 8] = [48, 2, 7, 8]" "mqtt_packet 192 [] = [192, 0]"
    by (simp_all add: mqtt_packet_def mqtt_encode.simps)
  have "receiver (mqtt_set_protocol ListenPort_protocol) SW_MQTT_MAX_LENGTH_SIZE 5 zero_malloc collect"
    using zero_malloc_ok by (simp add: receiver_def accepts_def collect_def mqtt_set_protocol_def ListenPort_protocol_def SW_BUFFER_SIZE_BIG_def mqtt_sizes)
  moreover have "\<forall>(h, d)\<in>set ?ps. length d \<le> SW_MQTT_MAX_PAYLOAD_SIZE \<and> length (mqtt_packet h d) \<le> package_max_length ListenPort_protocol"
    using f by (simp add: ListenPort_protocol_def mqtt_sizes)
  moreover have "rx_bytes (sk_rx ?k) = concat (map (\<lambda>(h, d). mqtt_packet h d) ?ps)" "all_data (sk_rx ?k)"
    "\<not> sk_removed ?k" "\<not> sk_skip_recv ?k" "\<not> sk_recv_wait ?k" "rx_weight (sk_rx ?k) \<le> 99"
    using f by (simp_all add: idle_socket_def rx_bytes_def all_data_def)
  ultimately have "\<exists>k' rb'. serve (readable_callback_length (mqtt_set_protocol ListenPort_protocol) mqtt_plen None zero_malloc collect) 99 ?k None []
      = Inr (False, k', rb', handle_all collect [] (map (\<lambda>(h, d). mqtt_packet h d) ?ps)) \<and> sk_rx k' = [] \<and> contents (rb_buf rb') = []"
    by (rule mqtt_stream)
  then show ?thesis using f by (auto simp: handle_all_def collect_def)
qed

end
