(* ===== verification/Spec2Isabelle.thy ===== *)
theory Spec2Isabelle
  imports Sw_Heap Sw_Timer Sw_FixedPool Sw_GlobalMemory Sw_RingBuffer Sw_Bytes Sw_Table Sw_TableMap Sw_TableIter Sw_Fifo Sw_Channel Sw_Endian Sw_WebSocket Sw_Base64 Sw_String Sw_Split Sw_Protocol Sw_Eof Sw_Framing Sw_MessageBus Sw_LRU Sw_CoChannel Sw_CoWake Sw_Http2 Sw_Mqtt
begin

text \<open>
  Verification of the data structures, the memory pools and the protocol code of Swoole, an asynchronous network
  engine in C++. Paths are relative to the repository.

  \<^bold>\<open>The program.\<close> A Swoole server consists of processes and threads that run event loops. The loops call
  the timer (\<open>src/core/timer.cc\<close> over the heap of \<open>src/core/heap.cc\<close>); data from sockets goes through the protocol
  loops of \<open>src/protocol/base.cc\<close>, which cut a stream into packets with a length function (of the port, of WebSocket, MQTT or
  HTTP/2) or an end marker and collect them in a \<open>String\<close>; packets travel between processes in chunks through the
  \<open>MessageBus\<close>; processes share the \<open>Table\<close> and the \<open>Channel\<close>, which live in memory of the pools; coroutines of a worker
  communicate through the coroutine channel.

  \<^bold>\<open>Conventions.\<close> A class is a record and a method a function from the old to the new record; pointers are
  addresses, with a store of nodes wherever objects are linked, freed or shared; a failed assertion or an access to freed
  memory is None or a value of an error type, so that a theorem about the result excludes it. Sizes that can wrap are kept at
  their width (\<open>wrap32\<close>, \<open>wrap64\<close>, \<open>to_int64\<close>, words). The clock, the allocator (\<open>malloc\<close>), the hash function, the
  random source, the kernel's answers to sends and reads, and user callbacks are arguments. Operations on shared memory are atomic
  under their lock.

  \<^bold>\<open>Theories.\<close>

  \<^item> \<open>Sw_Prelude\<close>, \<open>Sw_Bytes\<close>, \<open>Sw_Endian\<close>: machine types, null pointer, wrap-around, alignment; byte buffers with
    \<open>memcpy\<close>; integers in packets, \<open>swoole_unpack\<close>, signed readings.
  \<^item> \<open>Sw_Heap\<close> (\<open>src/core/heap.cc\<close>): the array heap with its back pointers. Locales \<open>prio_queue\<close> and \<open>stable_prio_queue\<close> state
    what the timer relies on; both are interpreted on the heap. Shown: every run keeps the heap order and implements an
    abstract priority queue; what \<open>pop\<close> returns until the heap is empty is its contents in ascending order.
  \<^item> \<open>Sw_Timer\<close> (\<open>src/core/timer.cc\<close>, \<open>src/os/timer.cc\<close>, \<open>src/wrapper/timer.cc\<close>): \<open>add\<close>, \<open>remove\<close>, \<open>delay\<close>, \<open>select\<close>
    and the wrapper functions. A callback is a list of timer commands that depends on the state; \<open>select_loop\<close> is a partial
    function, and its termination is part of the theorems. \<open>callbacks_ok\<close> describes callbacks that may add, remove and delay timers
    but do not delay the running one. Shown under it: the invariant that ties heap, id map and nodes together is kept, expired timers
    run once and in order, none is left behind. What happens when a one-shot timer delays itself is shown too: another timer is lost.
  \<^item> \<open>Sw_Memory\<close>, \<open>Sw_FixedPool\<close>, \<open>Sw_GlobalMemory\<close>, \<open>Sw_RingBuffer\<close> (\<open>src/memory/\<close>): the locales \<open>block_allocator\<close> and
    \<open>memory_pool\<close> are the interface \<open>MemoryPool\<close>; the fixed pool and the ring buffer are interpretations of the second,
    \<open>GlobalMemory\<close>, which takes nothing back, of the first. Shown: live blocks never overlap,
    the linked lists and counters stay consistent, assertions do not fail, the fixed pool is a stack of idle slices; the
    unchecked sum of \<open>GlobalMemory::alloc\<close> and the loop of \<open>RingBuffer::collect\<close> that reclaims half are shown as they are.
  \<^item> \<open>Sw_Table\<close>, \<open>Sw_TableMap\<close>, \<open>Sw_TableIter\<close> (\<open>src/memory/table.cc\<close>): rows, columns and conflict chains over the
    \<open>FixedPool\<close> model. Shown: the table is a map from keys to rows under any sequence of operations, lack of space is
    reported exactly when there is none, no lock is left behind, an iteration shows every row once, and the wait for a row
    lock ends and takes a held lock only from a dead process or after two seconds.
  \<^item> \<open>Sw_Fifo\<close>, \<open>Sw_Channel\<close> (\<open>src/core/channel.cc\<close>): the locale \<open>bounded_fifo\<close>, interpreted on the shared-memory channel and on
    the ring of the coroutine channel. Shown: first in, first out, exact counters, no access outside the memory.
  \<^item> \<open>Sw_CoChannel\<close>, \<open>Sw_CoWake\<close> (\<open>src/coroutine/channel.cc\<close>): steps of coroutines that resume each other, with time-outs and
    cancellation. Shown: values are returned in order and once, every turn ends, and nobody waits in vain.
  \<^item> \<open>Sw_String\<close>, \<open>Sw_Split\<close> (\<open>src/core/string.cc\<close>, \<open>include/swoole_string.h\<close>): the growable buffer. Shown: operations act as on
    a list of bytes; the doubling loop ends exactly when there is memory; \<open>split\<close> does not depend on how data arrives.
  \<^item> \<open>Sw_Protocol\<close>, \<open>Sw_Eof\<close>, \<open>Sw_Framing\<close> (\<open>src/protocol/base.cc\<close>, callbacks of \<open>src/server/port.cc\<close>): the receive loops with
    their labels. The locale \<open>packet_length\<close> states what a length function promises; it is interpreted on the port's, the
    WebSocket, the HTTP/2 and the MQTT length functions. Shown: packets do not depend on how the stream is cut. With a body
    offset of 0 the law of the locale fails, and the overrun this leads to is shown.
  \<^item> \<open>Sw_WebSocket\<close>, \<open>Sw_Http2\<close>, \<open>Sw_Mqtt\<close>, \<open>Sw_Base64\<close> (\<open>src/protocol/\<close>, \<open>src/core/base64.cc\<close>): encoders, decoders and
    length functions. Shown: round trips, masking, reassembly of fragments, the number parsers, and when the SETTINGS decoder reads
    past the end of its payload.
  \<^item> \<open>Sw_MessageBus\<close> (\<open>src/protocol/message_bus.cc\<close>): a pipe is a list of datagrams. Shown: messages cut into chunks and interleaved are
    read back once each.
  \<^item> \<open>Sw_LRU\<close> (\<open>include/swoole_lru_cache.h\<close>): the cache with the identities of list nodes. Shown: map and list agree, the newest
    keys are kept.

  \<^bold>\<open>Loops and fuel.\<close> Loops with a bound are total functions with a termination measure. Loops that may run for ever
  (\<open>select_loop\<close>, \<open>row_lock_loop\<close>, \<open>align_loop\<close>) are partial functions whose value None is not returning. \<open>serve\<close> calls the read
  callback at most \<open>n\<close> times, where \<open>n\<close> is at least the number of bytes and events of the stream (\<open>rx_weight\<close>), and every call consumes one.
  \<open>heap_drain\<close> is run for as many pops as the heap has entries.

  \<^bold>\<open>Not modelled.\<close> The event loops, processes, threads, signals, files and sockets themselves (system calls), TLS, the HTTP
  parser (a third-party library), Redis, SOCKS5, DNS, the client, CRC32, the output buffer chain, the log, machine contexts of
  coroutines, and the PHP bindings. Debug printers are left out of the components that are modelled. A read of a pipe that
  fails after its datagram was peeked at is left out of the \<open>MessageBus\<close>.
\<close>

end
